(* ===== verification/Rhino_Prelude.thy ===== *)
theory Rhino_Prelude
  imports Main "HOL-Library.Word"
begin

unbundle bit_operations_syntax

text \<open>
  Shared vocabulary of the development: the machine integer types of the STM32L4 build, the
  status codes of \<^verbatim>\<open>k_err.h\<close>, the configuration constants of \<^verbatim>\<open>k_config.h\<close>, and the generic
  lemmas on lists and words that the component theories rely on.  The insertion-before-first-greater
  loop that the kernel writes three times (pend list, tick list, timer list) is described once here,
  by the locale \<open>ordered_insert\<close>.
\<close>

section \<open>Machine types and constants\<close>

type_synonym u8 = "8 word"
type_synonym u32 = "32 word"
type_synonym u64 = "64 word"

text \<open>Addresses of task control blocks and of kernel objects (the leading \<open>blk_obj_t\<close>).\<close>

type_synonym tid = nat
type_synonym oid = nat

text \<open>\<open>kstat_t\<close> of \<^verbatim>\<open>kernel/rhino/core/include/k_err.h\<close>.\<close>

datatype (plugins only: code size) kstat =
    RHINO_SUCCESS | RHINO_SYS_FATAL_ERR | RHINO_SYS_SP_ERR | RHINO_RUNNING | RHINO_STOPPED
  | RHINO_INV_PARAM | RHINO_NULL_PTR | RHINO_INV_ALIGN | RHINO_KOBJ_TYPE_ERR | RHINO_KOBJ_DEL_ERR
  | RHINO_KOBJ_DOCKER_EXIST | RHINO_KOBJ_BLK | RHINO_KOBJ_SET_FULL | RHINO_NOTIFY_FUNC_EXIST
  | RHINO_MM_POOL_SIZE_ERR | RHINO_MM_ALLOC_SIZE_ERR | RHINO_MM_FREE_ADDR_ERR | RHINO_MM_CORRUPT_ERR
  | RHINO_DYN_MEM_PROC_ERR | RHINO_NO_MEM | RHINO_RINGBUF_FULL | RHINO_RINGBUF_EMPTY
  | RHINO_SCHED_DISABLE | RHINO_SCHED_ALREADY_ENABLED | RHINO_SCHED_LOCK_COUNT_OVF | RHINO_INV_SCHED_WAY
  | RHINO_TASK_INV_STACK_SIZE | RHINO_TASK_NOT_SUSPENDED | RHINO_TASK_DEL_NOT_ALLOWED
  | RHINO_TASK_SUSPEND_NOT_ALLOWED | RHINO_SUSPENDED_COUNT_OVF | RHINO_BEYOND_MAX_PRI
  | RHINO_PRI_CHG_NOT_ALLOWED | RHINO_INV_TASK_STATE | RHINO_IDLE_TASK_EXIST
  | RHINO_NO_PEND_WAIT | RHINO_BLK_ABORT | RHINO_BLK_TIMEOUT | RHINO_BLK_DEL | RHINO_BLK_INV_STATE
  | RHINO_BLK_POOL_SIZE_ERR
  | RHINO_TIMER_STATE_INV
  | RHINO_NO_THIS_EVENT_OPT
  | RHINO_BUF_QUEUE_INV_SIZE | RHINO_BUF_QUEUE_SIZE_ZERO | RHINO_BUF_QUEUE_FULL
  | RHINO_BUF_QUEUE_MSG_SIZE_OVERFLOW | RHINO_QUEUE_FULL | RHINO_QUEUE_NOT_FULL
  | RHINO_SEM_OVF | RHINO_SEM_TASK_WAITING
  | RHINO_MUTEX_NOT_RELEASED_BY_OWNER | RHINO_MUTEX_OWNER_NESTED | RHINO_MUTEX_NESTED_OVF
  | RHINO_INTRPT_NESTED_LEVEL_OVERFLOW | RHINO_INV_INTRPT_NESTED_LEVEL | RHINO_NOT_CALLED_BY_INTRPT
  | RHINO_TRY_AGAIN
  | RHINO_WORKQUEUE_EXIST | RHINO_WORKQUEUE_NOT_EXIST | RHINO_WORKQUEUE_WORK_EXIST
  | RHINO_WORKQUEUE_BUSY | RHINO_WORKQUEUE_WORK_RUNNING
  | RHINO_TASK_STACK_OVF | RHINO_INTRPT_STACK_OVF

text \<open>
  Configuration of both boards (\<^verbatim>\<open>k_config.h\<close>): 62 priorities, smaller numbers are more urgent,
  the least urgent one is reserved for the idle task (\<open>RHINO_IDLE_PRI\<close> of \<^verbatim>\<open>k_api.h\<close>).
\<close>

abbreviation (input) RHINO_CONFIG_PRI_MAX :: nat where "RHINO_CONFIG_PRI_MAX \<equiv> 62"
abbreviation (input) RHINO_IDLE_PRI :: nat where "RHINO_IDLE_PRI \<equiv> 61"
abbreviation (input) RHINO_NO_WAIT :: u32 where "RHINO_NO_WAIT \<equiv> 0"
abbreviation (input) RHINO_WAIT_FOREVER :: u32 where "RHINO_WAIT_FOREVER \<equiv> 0xFFFFFFFF"

section \<open>Collections of facts\<close>

named_theorems kernel_defs "definitions of the kernel operations"
named_theorems frame_simps "which parts of the state an operation leaves alone"

section \<open>Lists\<close>

lemma remove1_notin_set [simp]: "distinct xs \<Longrightarrow> x \<notin> set (remove1 x xs)"
  by simp

lemma map_fun_upd_notin [simp]: "x \<notin> set xs \<Longrightarrow> map (\<lambda>y. if y = x then a else f y) xs = map f xs"
  by (induction xs) auto

lemma sorted_map_remove1 [simp]: "sorted (map f xs) \<Longrightarrow> sorted (map f (remove1 x xs))"
  by (induction xs) (auto dest: notin_set_remove1 simp: image_iff)

lemma map_agree: "(\<And>u. u \<noteq> t \<Longrightarrow> f u = g u) \<Longrightarrow> t \<notin> set xs \<Longrightarrow> map f xs = map g xs"
  by (induction xs) auto

lemma hd_remove1_other: "xs \<noteq> [] \<Longrightarrow> hd xs \<noteq> x \<Longrightarrow> hd (remove1 x xs) = hd xs"
  by (cases xs) auto

section \<open>Least of a start value and a set\<close>

definition least_of :: "nat \<Rightarrow> nat set \<Rightarrow> nat \<Rightarrow> bool" where
  "least_of p W q \<longleftrightarrow> q \<le> p \<and> (\<forall>x \<in> W. q \<le> x) \<and> (q = p \<or> q \<in> W)"

lemma least_of_Un: "least_of p A q \<Longrightarrow> least_of q B r \<Longrightarrow> least_of p (A \<union> B) r"
  unfolding least_of_def using order_trans by blast

lemma least_of_unique: "least_of p W q \<Longrightarrow> least_of p W r \<Longrightarrow> q = r"
  unfolding least_of_def by (metis le_antisym)

lemma least_of_cong: "(\<And>x. x \<in> W \<longleftrightarrow> x \<in> V) \<Longrightarrow> least_of p W q = least_of p V q"
  by (metis subsetI subset_antisym)

section \<open>Insertion before the first greater element\<close>

text \<open>
  The loop
  \<^verbatim>\<open>for (q = head->next; q != head; q = q->next) if (key(q) > val) break; klist_insert(q, x);\<close>
  as a function on the list of elements.
\<close>

fun ins_before :: "('a \<Rightarrow> 'k::linorder) \<Rightarrow> 'k \<Rightarrow> 'a \<Rightarrow> 'a list \<Rightarrow> 'a list" where
  "ins_before key v x [] = [x]"
| "ins_before key v x (y # ys) = (if key y > v then x # y # ys else y # ins_before key v x ys)"

lemma set_ins_before [simp]: "set (ins_before key v x ys) = insert x (set ys)"
  by (induction ys) auto

lemma ins_before_split:
  "ins_before key v x ys = takeWhile (\<lambda>y. key y \<le> v) ys @ x # dropWhile (\<lambda>y. key y \<le> v) ys"
  by (induction ys) (auto simp: not_less)

text \<open>
  The contract of such an insertion: a container position \<open>ins x xs\<close> that puts \<open>x\<close> before the
  first element whose key exceeds the key of \<open>x\<close>.  Every consequence the clients need (contents,
  order, first-come-first-served among equal keys) is proved once here.
\<close>

locale ordered_insert =
  fixes key :: "'a \<Rightarrow> 'k::linorder"
    and ins :: "'a \<Rightarrow> 'a list \<Rightarrow> 'a list"
  assumes ins_eq: "ins x xs = ins_before key (key x) x xs"
begin

lemma ins_set: "set (ins x xs) = insert x (set xs)"
  unfolding ins_eq by (induction xs) auto

lemma ins_distinct: "x \<notin> set xs \<Longrightarrow> distinct (ins x xs) = distinct xs"
proof (induction xs)
  case (Cons y ys)
  then show ?case
    using ins_set [of x ys] by (auto simp: ins_eq)
qed (simp add: ins_eq)

lemma ins_length: "length (ins x xs) = Suc (length xs)"
  unfolding ins_eq by (induction xs) auto

lemma ins_not_Nil: "ins x xs \<noteq> []"
  using ins_length [of x xs] by auto

lemma ins_sorted: "sorted (map key xs) \<Longrightarrow> sorted (map key (ins x xs))"
proof (induction xs)
  case (Cons y ys)
  then show ?case
    using ins_set [of x ys] by (auto simp: ins_eq not_less)
qed (simp add: ins_eq)

lemma ins_remove1: "x \<notin> set xs \<Longrightarrow> remove1 x (ins x xs) = xs"
  unfolding ins_eq by (induction xs) auto

text \<open>The head changes only when the new element is strictly smaller than the old head.\<close>

lemma hd_ins: "xs \<noteq> [] \<Longrightarrow> hd (ins x xs) = (if key x < key (hd xs) then x else hd xs)"
  unfolding ins_eq by (cases xs) auto

text \<open>Elements with the same key keep their arrival order: the new one goes behind all of them.\<close>

lemma ins_after_equals:
  assumes "sorted (map key xs)"
  shows "filter (\<lambda>y. key y = key x) (ins x xs) = filter (\<lambda>y. key y = key x) xs @ [x]"
  using assms
proof (induction xs)
  case (Cons y ys)
  show ?case
  proof (cases "key x < key y")
    case True
    then have "filter (\<lambda>z. key z = key x) (y # ys) = []"
      using Cons.prems by (auto simp: filter_empty_conv)
    with True show ?thesis by (simp add: ins_eq)
  next
    case False
    then show ?thesis using Cons by (simp add: ins_eq)
  qed
qed (simp add: ins_eq)

end

end
