(* ===== verification/Klist.thy ===== *)
theory Klist
  imports Rhino_Prelude
begin

text \<open>
  The intrusive, circular, doubly linked list of \<^verbatim>\<open>kernel/rhino/core/include/k_list.h\<close>, at the
  level of its \<open>next\<close> and \<open>prev\<close> pointers, and the loop of \<open>pend_list_add\<close> (\<^verbatim>\<open>k_pend.c\<close>) that
  walks such a list.  The theorems relate the pointer operations to operations on the HOL list of
  the nodes behind a list head; the other theories then use HOL lists for the kernel's lists.
\<close>

section \<open>Pointer operations\<close>

type_synonym addr = nat

record klist_heap =
  next_of :: "addr \<Rightarrow> addr"
  prev_of :: "addr \<Rightarrow> addr"

definition set_next :: "addr \<Rightarrow> addr \<Rightarrow> klist_heap \<Rightarrow> klist_heap" where
  "set_next a v h = h\<lparr>next_of := (next_of h)(a := v)\<rparr>"

definition set_prev :: "addr \<Rightarrow> addr \<Rightarrow> klist_heap \<Rightarrow> klist_heap" where
  "set_prev a v h = h\<lparr>prev_of := (prev_of h)(a := v)\<rparr>"

definition klist_init :: "addr \<Rightarrow> klist_heap \<Rightarrow> klist_heap" where
  "klist_init list_head h = set_prev list_head list_head (set_next list_head list_head h)"

definition is_klist_empty :: "addr \<Rightarrow> klist_heap \<Rightarrow> bool" where
  "is_klist_empty list h \<longleftrightarrow> next_of h list = list"

definition klist_insert :: "addr \<Rightarrow> addr \<Rightarrow> klist_heap \<Rightarrow> klist_heap" where
  "klist_insert head element h =
     (let h1 = set_prev element (prev_of h head) h;
          h2 = set_next element head h1;
          h3 = set_next (prev_of h2 head) element h2
      in set_prev head element h3)"

definition klist_add :: "addr \<Rightarrow> addr \<Rightarrow> klist_heap \<Rightarrow> klist_heap" where
  "klist_add head element h =
     (let h1 = set_prev element head h;
          h2 = set_next element (next_of h1 head) h1;
          h3 = set_prev (next_of h2 head) element h2
      in set_next head element h3)"

definition klist_rm :: "addr \<Rightarrow> klist_heap \<Rightarrow> klist_heap" where
  "klist_rm element h =
     (let h1 = set_next (prev_of h element) (next_of h element) h
      in set_prev (next_of h1 element) (prev_of h1 element) h1)"

definition klist_rm_init :: "addr \<Rightarrow> klist_heap \<Rightarrow> klist_heap" where
  "klist_rm_init element h =
     (let h1 = klist_rm element h
      in set_next element element (set_prev element element h1))"

text \<open>The search loop of \<open>pend_list_add\<close>: stop at the head or at the first node with a larger key.\<close>

partial_function (option) klist_find ::
  "klist_heap \<Rightarrow> (addr \<Rightarrow> nat) \<Rightarrow> nat \<Rightarrow> addr \<Rightarrow> addr \<Rightarrow> addr option" where
  "klist_find h prio_of pri list_end tmp =
     (if tmp = list_end then Some tmp
      else if prio_of tmp > pri then Some tmp
      else klist_find h prio_of pri list_end (next_of h tmp))"

definition pend_list_add_ptr :: "addr \<Rightarrow> (addr \<Rightarrow> nat) \<Rightarrow> addr \<Rightarrow> klist_heap \<Rightarrow> klist_heap option" where
  "pend_list_add_ptr head prio_of node h =
     (case klist_find h prio_of (prio_of node) head (next_of h head) of
        None \<Rightarrow> None
      | Some tmp \<Rightarrow> Some (klist_insert tmp node h))"

lemmas klist_defs = set_next_def set_prev_def klist_init_def is_klist_empty_def klist_insert_def
  klist_add_def klist_rm_def klist_rm_init_def

section \<open>Well-formed lists\<close>

text \<open>Consecutive nodes point at each other.\<close>

fun chain :: "klist_heap \<Rightarrow> addr list \<Rightarrow> bool" where
  "chain h [] = True"
| "chain h [a] = True"
| "chain h (a # b # xs) = (next_of h a = b \<and> prev_of h b = a \<and> chain h (b # xs))"

definition is_dlist :: "klist_heap \<Rightarrow> addr \<Rightarrow> addr list \<Rightarrow> bool" where
  "is_dlist h head xs \<longleftrightarrow> distinct (head # xs) \<and> chain h (head # xs @ [head])"

lemma chain_append:
  "chain h (xs @ y # zs) \<longleftrightarrow> chain h (xs @ [y]) \<and> chain h (y # zs)"
  by (induction h xs rule: chain.induct) (auto simp: neq_Nil_conv)

lemma chain_cong:
  assumes "\<And>a. a \<in> set (butlast xs) \<Longrightarrow> next_of h' a = next_of h a"
    and "\<And>a. a \<in> set (tl xs) \<Longrightarrow> prev_of h' a = prev_of h a"
  shows "chain h' xs = chain h xs"
  using assms by (induction h xs rule: chain.induct) auto


text \<open>A link \<open>a \<rightarrow> p\<close> in the middle of a chain is replaced by \<open>a \<rightarrow> e \<rightarrow> p\<close>, or the other way round.\<close>

lemma chain_link:
  "chain h (as @ a # b # bs) \<longleftrightarrow>
     chain h (as @ [a]) \<and> next_of h a = b \<and> prev_of h b = a \<and> chain h (b # bs)"
  using chain_append [of h as a "b # bs"] by simp

text \<open>
  A list cut in two at a link \<open>a \<rightarrow> p\<close>: \<open>a\<close> is the last node of the first part (or the head), \<open>p\<close> the
  first node of the second part (or the head again).
\<close>

lemma dlist_cut:
  assumes "is_dlist h head (xs @ ys)"
  obtains as a p bs where "head # xs = as @ [a]" and "ys @ [head] = p # bs"
    and "chain h (as @ [a])" and "chain h (p # bs)" and "next_of h a = p" and "prev_of h p = a"
    and "distinct (as @ [a])" and "p \<notin> set xs" and "p \<notin> set bs" and "a \<notin> set ys"
    and "set (tl (as @ [a])) = set xs" and "set (butlast (p # bs)) = set ys"
    and "set bs \<subseteq> insert head (set ys)" and "p \<in> insert head (set ys)" and "a \<in> insert head (set xs)"
proof -
  obtain as a where as: "head # xs = as @ [a]" by (metis list.distinct(1) rev_exhaust)
  obtain p bs where bs: "ys @ [head] = p # bs" by (cases "ys @ [head]") auto
  have "chain h (as @ a # p # bs)" and dist: "distinct (head # xs @ ys)"
    using assms as bs by (metis append.assoc append_Cons append_Nil is_dlist_def)+
  then have ch: "chain h (as @ [a])" "next_of h a = p" "prev_of h p = a" "chain h (p # bs)"
    by (simp_all add: chain_link)
  have "set (as @ [a]) = insert head (set xs)" using as by (metis list.simps(15))
  then have a: "a \<in> insert head (set xs)" by auto
  have p: "p \<in> insert head (set ys)" and pbs: "p \<notin> set bs" and sub: "set bs \<subseteq> insert head (set ys)"
    using bs dist by (cases ys; auto)+
  have "set (butlast (p # bs)) = set ys" using bs by (metis butlast_snoc)
  moreover have "set (tl (as @ [a])) = set xs" using as by (metis list.sel(3))
  moreover have "distinct (as @ [a])" using as dist by (metis append_Cons distinct_append)
  moreover have "p \<notin> set xs" and "a \<notin> set ys" using a p dist by auto
  ultimately show ?thesis using that as bs ch a p pbs sub by blast
qed

lemma dlist_join:
  assumes "head # xs = as @ [a]" and "ys @ [head] = p # bs" and "distinct (head # xs @ zs @ ys)"
    and "chain h (as @ a # zs @ p # bs)"
  shows "is_dlist h head (xs @ zs @ ys)"
proof -
  have "as @ a # zs @ p # bs = head # (xs @ zs @ ys) @ [head]"
    using assms(1,2) by (metis append.assoc append_Cons append_Nil)
  with assms(3,4) show ?thesis by (simp add: is_dlist_def)
qed

lemma dlist_prev_hd:
  assumes "is_dlist h head (xs @ ys)"
  shows "prev_of h (hd (ys @ [head])) = last (head # xs)"
    and "next_of h (last (head # xs)) = hd (ys @ [head])"
  using assms by (rule dlist_cut, metis last_snoc list.sel(1))+

section \<open>The operations on well-formed lists\<close>

lemma dlist_init: "is_dlist (klist_init head h) head []"
  by (simp add: is_dlist_def klist_defs)

lemma dlist_empty: "is_dlist h head xs \<Longrightarrow> is_klist_empty head h \<longleftrightarrow> xs = []"
  by (cases xs) (auto simp: is_dlist_def klist_defs)

lemma klist_insert_fields:
  assumes "e \<noteq> p" and "prev_of h p \<noteq> e"
  shows "next_of (klist_insert p e h) = (next_of h)(prev_of h p := e, e := p)"
    and "prev_of (klist_insert p e h) = (prev_of h)(e := prev_of h p, p := e)"
  using assms by (auto simp: klist_defs Let_def)

text \<open>
  \<open>klist_insert p e\<close> puts \<open>e\<close> in front of \<open>p\<close>; with the list head for \<open>p\<close> this is the end of the
  list.
\<close>

lemma dlist_insert_before:
  assumes "is_dlist h head (xs @ ys)" and "e \<notin> set (head # xs @ ys)"
  shows "is_dlist (klist_insert (hd (ys @ [head])) e h) head (xs @ e # ys)"
  using assms(1)
proof (rule dlist_cut)
  fix as a p bs
  assume eqs: "head # xs = as @ [a]" "ys @ [head] = p # bs"
    and ch: "chain h (as @ [a])" "chain h (p # bs)" and "prev_of h p = a" and "distinct (as @ [a])"
    and out: "p \<notin> set xs" "p \<notin> set bs" "a \<notin> set ys"
    and sets: "set (tl (as @ [a])) = set xs" "set (butlast (p # bs)) = set ys"
    and sub: "set bs \<subseteq> insert head (set ys)" and "p \<in> insert head (set ys)" and "a \<in> insert head (set xs)"
  let ?h = "klist_insert p e h"
  have "e \<noteq> p" and "a \<noteq> e"
    using assms(2) \<open>p \<in> _\<close> \<open>a \<in> _\<close> by auto
  then have nx: "next_of ?h = (next_of h)(a := e, e := p)" and pv: "prev_of ?h = (prev_of h)(e := a, p := e)"
    using klist_insert_fields [of e p h] \<open>prev_of h p = a\<close> by simp_all
  have "e \<notin> set as" using assms(2) eqs(1) by (metis Un_iff append_Cons set_append)
  then have "chain ?h (as @ [a]) = chain h (as @ [a])"
    using \<open>distinct (as @ [a])\<close> out sets assms(2) by (intro chain_cong) (auto simp: nx pv)
  moreover have "chain ?h (p # bs) = chain h (p # bs)"
    using out sub sets assms(2) by (intro chain_cong) (auto simp: nx pv)
  ultimately have "chain ?h (as @ a # [e] @ p # bs)"
    using ch \<open>e \<noteq> p\<close> \<open>a \<noteq> e\<close> by (simp add: chain_link nx pv)
  moreover have "distinct (head # xs @ [e] @ ys)" using assms by (auto simp: is_dlist_def)
  ultimately have "is_dlist ?h head (xs @ [e] @ ys)" using eqs by (blast intro: dlist_join)
  then show ?thesis using eqs(2) by simp
qed

lemma dlist_insert_end:
  assumes "is_dlist h head xs" and "e \<notin> set (head # xs)"
  shows "is_dlist (klist_insert head e h) head (xs @ [e])"
  using dlist_insert_before [of h head xs "[]" e] assms by simp

lemma dlist_add:
  assumes "is_dlist h head xs" and "e \<notin> set (head # xs)"
  shows "is_dlist (klist_add head e h) head (e # xs)"
proof -
  have "prev_of h (next_of h head) = head" and "next_of h head = hd (xs @ [head])"
    using dlist_prev_hd [of h head "[]" xs] assms(1) by simp_all
  moreover have "e \<noteq> hd (xs @ [head])" and "e \<noteq> head"
    using assms(2) by (cases xs; simp)+
  ultimately have "klist_add head e h = klist_insert (hd (xs @ [head])) e h"
    by (auto simp: klist_defs Let_def fun_eq_iff intro!: klist_heap.equality)
  then show ?thesis
    using dlist_insert_before [of h head "[]" xs e] assms by simp
qed

lemma dlist_rm:
  assumes "is_dlist h head (xs @ e # ys)"
  shows "is_dlist (klist_rm e h) head (xs @ ys)"
proof -
  have "is_dlist h head ((xs @ [e]) @ ys)" using assms by simp
  then show ?thesis
  proof (rule dlist_cut)
    fix cs c p bs
    assume eqs: "head # xs @ [e] = cs @ [c]" "ys @ [head] = p # bs"
      and ch: "chain h (cs @ [c])" "chain h (p # bs)" and nxc: "next_of h c = p"
      and out: "p \<notin> set (xs @ [e])" "p \<notin> set bs"
      and sets: "set (butlast (p # bs)) = set ys"
    obtain as a where as: "head # xs = as @ [a]" by (metis list.distinct(1) rev_exhaust)
    then have "cs = as @ [a]" and "c = e" using eqs(1) by (metis append_Cons append_same_eq butlast_snoc, metis append_Cons last_snoc)
    then have ch': "chain h (as @ [a])" "next_of h a = e" "prev_of h e = a"
      using ch(1) chain_link [of h as a e "[]"] by simp_all
    have dist: "distinct (head # xs @ e # ys)" using assms by (simp add: is_dlist_def)
    have asx: "set (as @ [a]) = insert head (set xs)" "distinct (as @ [a])" "set (tl (as @ [a])) = set xs"
      using as dist by (metis list.simps(15), metis append_Cons distinct_append, metis list.sel(3))
    let ?h = "klist_rm e h"
    have "a \<noteq> e" using asx dist by auto
    then have nx: "next_of ?h = (next_of h)(a := p)" and pv: "prev_of ?h = (prev_of h)(p := a)"
      using ch' nxc \<open>c = e\<close> by (auto simp: klist_defs Let_def)
    have "chain ?h (as @ [a]) = chain h (as @ [a])"
      using asx out by (intro chain_cong) (auto simp: nx pv)
    moreover have "chain ?h (p # bs) = chain h (p # bs)"
      using out sets asx dist by (intro chain_cong) (auto simp: nx pv)
    ultimately have "chain ?h (as @ a # [] @ p # bs)"
      using ch ch' by (simp add: chain_link nx pv)
    moreover have "distinct (head # xs @ [] @ ys)" using dist by auto
    ultimately have "is_dlist ?h head (xs @ [] @ ys)" using as eqs(2) by (blast intro: dlist_join)
    then show ?thesis by simp
  qed
qed

text \<open>Lists that share no node with the one that is changed stay as they are.\<close>

lemma dlist_frame:
  assumes "is_dlist h head zs" and "\<And>a. a \<in> set (head # zs) \<Longrightarrow> next_of h' a = next_of h a"
    and "\<And>a. a \<in> set (head # zs) \<Longrightarrow> prev_of h' a = prev_of h a"
  shows "is_dlist h' head zs"
proof -
  have "chain h' (head # zs @ [head]) = chain h (head # zs @ [head])"
    by (rule chain_cong) (auto simp: assms(2,3) butlast_append dest: in_set_butlastD)
  with assms(1) show ?thesis by (simp add: is_dlist_def)
qed

lemma dlist_insert_frame:
  assumes "is_dlist h head (xs @ ys)" and "is_dlist h head' zs"
    and "set (head' # zs) \<inter> set (e # head # xs @ ys) = {}" and "e \<notin> set (head # xs @ ys)"
  shows "is_dlist (klist_insert (hd (ys @ [head])) e h) head' zs"
proof (rule dlist_frame [OF assms(2)])
  have p: "hd (ys @ [head]) \<in> set (head # ys)" and a: "last (head # xs) \<in> set (head # xs)"
    by (cases ys; simp) (metis last_in_set list.distinct(1))
  then have ne: "e \<noteq> hd (ys @ [head])" "prev_of h (hd (ys @ [head])) \<noteq> e"
    using assms(4) dlist_prev_hd(1) [OF assms(1)] by auto
  fix b assume "b \<in> set (head' # zs)"
  then have "b \<noteq> e" "b \<noteq> hd (ys @ [head])" "b \<noteq> last (head # xs)"
    using assms(3) p a by auto
  then show "next_of (klist_insert (hd (ys @ [head])) e h) b = next_of h b"
    and "prev_of (klist_insert (hd (ys @ [head])) e h) b = prev_of h b"
    by (simp_all add: klist_insert_fields [OF ne] dlist_prev_hd(1) [OF assms(1)])
qed

section \<open>The priority-ordered insertion of \<open>pend_list_add\<close>\<close>

text \<open>The search returns on every well-formed list, with the first node of larger key or the head.\<close>

lemma klist_find_returns:
  assumes "chain h (ys @ [head])" and "head \<notin> set ys"
  shows "klist_find h prio_of pri head (hd (ys @ [head]))
           = Some (hd (dropWhile (\<lambda>y. prio_of y \<le> pri) ys @ [head]))"
  using assms
proof (induction ys)
  case Nil
  then show ?case by (simp add: klist_find.simps)
next
  case (Cons y ys)
  have "next_of h y = hd (ys @ [head])" and "chain h (ys @ [head])"
    using Cons.prems(1) by (cases ys; simp)+
  moreover have "y \<noteq> head" using Cons.prems(2) by simp
  ultimately show ?case
    using Cons by (subst klist_find.simps) (simp add: not_less)
qed

lemma pend_list_add_ptr_refines:
  assumes "is_dlist h head xs" and "node \<notin> set (head # xs)"
  obtains h' where "pend_list_add_ptr head prio_of node h = Some h'"
    and "is_dlist h' head (ins_before prio_of (prio_of node) node xs)"
proof -
  let ?P = "\<lambda>y. prio_of y \<le> prio_of node"
  let ?as = "takeWhile ?P xs" and ?bs = "dropWhile ?P xs"
  have ch: "chain h (xs @ [head])" and "head \<notin> set xs" and nx: "next_of h head = hd (xs @ [head])"
    using assms(1) by (auto simp: is_dlist_def chain_append [of h "[head]"] neq_Nil_conv
        intro: dlist_prev_hd(2) [of h head "[]" xs, simplified] split: list.splits)
      (cases xs; simp)+
  then have "klist_find h prio_of (prio_of node) head (next_of h head) = Some (hd (?bs @ [head]))"
    using klist_find_returns by simp
  moreover have "is_dlist (klist_insert (hd (?bs @ [head])) node h) head (?as @ node # ?bs)"
    by (rule dlist_insert_before) (use assms in \<open>simp_all add: takeWhile_dropWhile_id\<close>)
  ultimately show ?thesis
    using that by (simp add: pend_list_add_ptr_def ins_before_split)
qed

section \<open>Properties\<close>

text \<open>C36: on a well-formed list the loop of \<open>pend_list_add\<close> ends, and the node it inserts stands before the
  first waiter of lower urgency and behind all waiters of its own priority.
\<close>

theorem pend_list_add_ptr_returns:
  assumes "is_dlist h head xs" and "node \<notin> set (head # xs)"
  shows "\<exists>h'. pend_list_add_ptr head prio_of node h = Some h' \<and>
    is_dlist h' head (ins_before prio_of (prio_of node) node xs)"
  using pend_list_add_ptr_refines [OF assms, of prio_of] by metis

theorem pend_list_add_ptr_returns_witness:
  "\<exists>h'. pend_list_add_ptr 0 id 5 (klist_insert 0 7 (klist_insert 0 3 (klist_init 0 \<lparr>next_of = id, prev_of = id\<rparr>))) = Some h' \<and>
     is_dlist h' 0 [3, 5, 7]"
proof -
  let ?h0 = "klist_init 0 \<lparr>next_of = id, prev_of = id\<rparr>"
  have "is_dlist (klist_insert 0 7 (klist_insert 0 3 ?h0)) 0 [3, 7]"
    using dlist_insert_end [of "klist_insert 0 3 ?h0" 0 "[3]" 7] dlist_insert_end [of ?h0 0 "[]" 3] dlist_init by simp
  from pend_list_add_ptr_returns [OF this, of 5 id] show ?thesis by simp
qed

text \<open>
  Linking a node in at the end of a list and unlinking it again gives the list back.
\<close>

theorem klist_insert_rm_roundtrip:
  assumes "is_dlist h head xs" and "e \<notin> set (head # xs)"
  shows "is_dlist (klist_rm e (klist_insert head e h)) head xs"
  using dlist_rm [of _ head xs e "[]"] dlist_insert_end [OF assms] by simp

theorem klist_insert_rm_roundtrip_witness:
  "is_dlist (klist_rm 4 (klist_insert 0 4 (klist_init 0 \<lparr>next_of = id, prev_of = id\<rparr>))) 0 []"
  using klist_insert_rm_roundtrip [OF dlist_init, of 4 0] by simp

end
