(* ===== verification/Bitmap.thy ===== *)
theory Bitmap
  imports Rhino_Prelude
begin

unbundle bit_operations_syntax

text \<open>
  The priority bitmap of \<^verbatim>\<open>kernel/rhino/core/include/k_bitmap.h\<close>: an array of 32-bit words in which
  position \<open>nr\<close> is bit \<open>31 - nr mod 32\<close> of word \<open>nr div 32\<close>, so that the most significant bit of
  the first word is position 0.  \<open>krhino_find_first_bit\<close> is the software binary search of the
  configuration \<open>RHINO_CONFIG_BITMAP_HW = 0\<close>; reading past the array (an empty bitmap) is \<open>None\<close>.
\<close>

section \<open>Operations\<close>

definition BITMAP_MASK :: "nat \<Rightarrow> u32" where
  "BITMAP_MASK nr = push_bit (31 - nr mod 32) 1"

definition BITMAP_WORD :: "nat \<Rightarrow> nat" where
  "BITMAP_WORD nr = nr div 32"

definition krhino_bitmap_set :: "u32 list \<Rightarrow> nat \<Rightarrow> u32 list" where
  "krhino_bitmap_set bitmap nr =
     bitmap[BITMAP_WORD nr := bitmap ! BITMAP_WORD nr OR BITMAP_MASK nr]"

definition krhino_bitmap_clear :: "u32 list \<Rightarrow> nat \<Rightarrow> u32 list" where
  "krhino_bitmap_clear bitmap nr =
     bitmap[BITMAP_WORD nr := bitmap ! BITMAP_WORD nr AND NOT (BITMAP_MASK nr)]"

text \<open>The tail of \<open>krhino_find_first_bit\<close>, after the first non-zero word \<open>tmp\<close> has been found.\<close>

definition find_first_bit_word :: "u32 \<Rightarrow> nat \<Rightarrow> nat" where
  "find_first_bit_word tmp nr =
     (let (tmp, nr) = (if tmp AND 0xFFFF0000 = 0 then (push_bit 16 tmp, nr + 16) else (tmp, nr));
          (tmp, nr) = (if tmp AND 0xFF000000 = 0 then (push_bit 8 tmp, nr + 8) else (tmp, nr));
          (tmp, nr) = (if tmp AND 0xF0000000 = 0 then (push_bit 4 tmp, nr + 4) else (tmp, nr));
          (tmp, nr) = (if tmp AND 0xC0000000 = 0 then (push_bit 2 tmp, nr + 2) else (tmp, nr))
      in if tmp AND 0x80000000 = 0 then nr + 1 else nr)"

fun find_first_bit_from :: "u32 list \<Rightarrow> nat \<Rightarrow> nat option" where
  "find_first_bit_from [] nr = None"
| "find_first_bit_from (w # bitmap) nr =
     (if w = 0 then find_first_bit_from bitmap (nr + 32) else Some (find_first_bit_word w nr))"

definition krhino_find_first_bit :: "u32 list \<Rightarrow> nat option" where
  "krhino_find_first_bit bitmap = find_first_bit_from bitmap 0"

section \<open>Reading a position\<close>

definition bitmap_test :: "u32 list \<Rightarrow> nat \<Rightarrow> bool" where
  "bitmap_test bitmap nr \<longleftrightarrow> nr < 32 * length bitmap \<and> bit (bitmap ! (nr div 32)) (31 - nr mod 32)"

lemma bitmap_length [simp]:
  "length (krhino_bitmap_set bitmap nr) = length bitmap"
  "length (krhino_bitmap_clear bitmap nr) = length bitmap"
  by (simp_all add: krhino_bitmap_set_def krhino_bitmap_clear_def)

lemma bit_BITMAP_MASK: "i < 32 \<Longrightarrow> bit (BITMAP_MASK nr) (31 - i) \<longleftrightarrow> i = nr mod 32"
  by (auto simp: BITMAP_MASK_def bit_simps)

lemma same_position_iff: "(m::nat) = n \<longleftrightarrow> m div 32 = n div 32 \<and> m mod 32 = n mod 32"
  by (metis div_mult_mod_eq)

lemma bitmap_test_set:
  assumes "nr < 32 * length bitmap"
  shows "bitmap_test (krhino_bitmap_set bitmap nr) m \<longleftrightarrow> m = nr \<or> bitmap_test bitmap m"
proof (cases "m = nr")
  case True
  have "nr div 32 < length bitmap" using assms by (simp add: less_mult_imp_div_less mult.commute)
  then show ?thesis
    using True assms
    by (simp add: bitmap_test_def krhino_bitmap_set_def BITMAP_WORD_def bit_or_iff bit_BITMAP_MASK)
next
  case False
  then have "m div 32 \<noteq> nr div 32 \<or> m mod 32 \<noteq> nr mod 32" by (simp add: same_position_iff [of m nr])
  then show ?thesis
    using False assms
    by (auto simp: bitmap_test_def krhino_bitmap_set_def BITMAP_WORD_def nth_list_update bit_or_iff
        bit_BITMAP_MASK less_mult_imp_div_less mult.commute)
qed

lemma bitmap_test_clear:
  assumes "nr < 32 * length bitmap"
  shows "bitmap_test (krhino_bitmap_clear bitmap nr) m \<longleftrightarrow> m \<noteq> nr \<and> bitmap_test bitmap m"
  using assms
  by (auto simp: bitmap_test_def krhino_bitmap_clear_def BITMAP_WORD_def nth_list_update bit_and_iff
      bit_not_iff bit_BITMAP_MASK same_position_iff [of m nr] less_mult_imp_div_less mult.commute)

section \<open>The binary search finds the first set position\<close>

text \<open>\<open>n\<close> is the position of the most significant set bit of a word.\<close>

definition first_set :: "u32 \<Rightarrow> nat \<Rightarrow> bool" where
  "first_set w n \<longleftrightarrow> n < 32 \<and> bit w (31 - n) \<and> (\<forall>m < n. \<not> bit w (31 - m))"

lemma first_set_exists: "w \<noteq> 0 \<Longrightarrow> \<exists>n. first_set w n"
proof -
  assume "w \<noteq> 0"
  then obtain i where "i < 32" "bit w i"
    by (auto simp: bit_eq_iff word_size dest: bit_imp_le_length)
  then have "bit w (31 - (31 - i)) \<and> 31 - i < 32" by simp
  then obtain n where "bit w (31 - n) \<and> n < 32" and "\<forall>m < n. \<not> (bit w (31 - m) \<and> m < 32)"
    using exists_least_iff [of "\<lambda>n. bit w (31 - n) \<and> n < 32"] by blast
  then show ?thesis by (auto simp: first_set_def)
qed

lemma top_mask_numerals:
  "(0xFFFF0000 :: u32) = push_bit 16 (mask 16)" "(0xFF000000 :: u32) = push_bit 24 (mask 8)"
  "(0xF0000000 :: u32) = push_bit 28 (mask 4)" "(0xC0000000 :: u32) = push_bit 30 (mask 2)"
  "(0x80000000 :: u32) = push_bit 31 (mask 1)"
  by (simp_all add: mask_eq_exp_minus_1 push_bit_eq_mult)

lemma and_top_mask_zero:
  assumes "first_set w n" and "0 < k" and "k < 32"
  shows "w AND push_bit (32 - k) (mask k) = 0 \<longleftrightarrow> k \<le> n"
proof
  assume "w AND push_bit (32 - k) (mask k) = 0"
  then have "\<not> bit (w AND push_bit (32 - k) (mask k)) (31 - n)" by simp
  then show "k \<le> n" using assms by (auto simp: first_set_def bit_simps)
next
  assume kn: "k \<le> n"
  show "w AND push_bit (32 - k) (mask k) = 0"
  proof (rule bit_eqI)
    fix i assume "possible_bit TYPE(32 word) i"
    then have "i < 32" by (simp add: possible_bit_word)
    then have "i = 31 - (31 - i)" and "bit w i \<Longrightarrow> \<not> 31 - i < n"
      using assms(1) by (auto simp: first_set_def)
    then show "bit (w AND push_bit (32 - k) (mask k)) i = bit 0 i"
      using kn assms by (auto simp: bit_simps)
  qed
qed

lemma first_set_push:
  assumes "first_set w n" and "k \<le> n"
  shows "first_set (push_bit k w) (n - k)"
  using assms by (auto simp: first_set_def bit_simps)

lemma narrow_step:
  assumes "first_set w n" and "n < 2 * k" and "0 < k" and "k < 32"
  obtains w' nr' n' where
    "(if w AND push_bit (32 - k) (mask k) = 0 then (push_bit k w, nr + k) else (w, nr)) = (w', nr')"
    and "first_set w' n'" and "n' < k" and "nr' + n' = nr + n"
proof (cases "k \<le> n")
  case True
  then show ?thesis
    using assms that [of "push_bit k w" "nr + k" "n - k"]
    by (simp add: and_top_mask_zero first_set_push)
next
  case False
  then show ?thesis
    using assms that [of w nr n] by (simp add: and_top_mask_zero)
qed

lemma find_first_bit_word_correct:
  assumes "first_set w n"
  shows "find_first_bit_word w nr = nr + n"
proof -
  have "n < 2 * 16" using assms by (simp add: first_set_def)
  with assms obtain w1 r1 n1 where 1:
    "(if w AND push_bit 16 (mask 16) = 0 then (push_bit 16 w, nr + 16) else (w, nr)) = (w1, r1)"
    "first_set w1 n1" "n1 < 2 * 8" "r1 + n1 = nr + n"
    by (rule narrow_step [where nr = nr]) simp_all
  obtain w2 r2 n2 where 2:
    "(if w1 AND push_bit 24 (mask 8) = 0 then (push_bit 8 w1, r1 + 8) else (w1, r1)) = (w2, r2)"
    "first_set w2 n2" "n2 < 2 * 4" "r2 + n2 = r1 + n1"
    using 1(2,3) by (rule narrow_step [where nr = r1]) simp_all
  obtain w3 r3 n3 where 3:
    "(if w2 AND push_bit 28 (mask 4) = 0 then (push_bit 4 w2, r2 + 4) else (w2, r2)) = (w3, r3)"
    "first_set w3 n3" "n3 < 2 * 2" "r3 + n3 = r2 + n2"
    using 2(2,3) by (rule narrow_step [where nr = r2]) simp_all
  obtain w4 r4 n4 where 4:
    "(if w3 AND push_bit 30 (mask 2) = 0 then (push_bit 2 w3, r3 + 2) else (w3, r3)) = (w4, r4)"
    "first_set w4 n4" "n4 < 2 * 1" "r4 + n4 = r3 + n3"
    using 3(2,3) by (rule narrow_step [where nr = r3]) simp_all
  have "(if w4 AND push_bit 31 (mask 1) = 0 then r4 + 1 else r4) = r4 + n4"
    using and_top_mask_zero [OF 4(2), of 1] 4(3) by auto
  then show ?thesis
    unfolding find_first_bit_word_def top_mask_numerals Let_def
    using 1 2 3 4 by simp
qed

lemma find_first_bit_from_spec:
  "find_first_bit_from bitmap nr = Some n \<longleftrightarrow>
     nr \<le> n \<and> bitmap_test bitmap (n - nr) \<and> (\<forall>m < n - nr. \<not> bitmap_test bitmap m)"
proof (induction bitmap nr arbitrary: n rule: find_first_bit_from.induct)
  case (1 nr)
  then show ?case by (simp add: bitmap_test_def)
next
  case (2 w bitmap nr)
  have low: "bitmap_test (w # bitmap) m \<longleftrightarrow> bit w (31 - m)" if "m < 32" for m
    using that by (simp add: bitmap_test_def)
  have high: "bitmap_test (w # bitmap) (m + 32) \<longleftrightarrow> bitmap_test bitmap m" for m
  proof -
    have "(m + 32) div 32 = Suc (m div 32)" by simp
    then show ?thesis by (simp only: bitmap_test_def nth_Cons_Suc mod_add_self2 length_Cons) auto
  qed
  show ?case
  proof (cases "w = 0")
    case True
    have all: "(\<forall>m < k. \<not> bitmap_test (w # bitmap) m) \<longleftrightarrow> (\<forall>m < k - 32. \<not> bitmap_test bitmap m)" for k
    proof (intro iffI allI impI)
      fix m assume "\<forall>m < k. \<not> bitmap_test (w # bitmap) m" "m < k - 32"
      then have "m + 32 < k" by simp
      then show "\<not> bitmap_test bitmap m" using \<open>\<forall>m < k. _ m\<close> high by blast
    next
      fix m assume *: "\<forall>m < k - 32. \<not> bitmap_test bitmap m" "m < k"
      show "\<not> bitmap_test (w # bitmap) m"
      proof (cases "m < 32")
        case False
        then have "m - 32 < k - 32" using *(2) by simp
        then show ?thesis using *(1) high [of "m - 32"] False by simp
      next
        case True
        then show ?thesis unfolding low [OF True] using \<open>w = 0\<close> by simp
      qed
    qed
    have "bitmap_test (w # bitmap) (n - nr) \<longleftrightarrow> nr + 32 \<le> n \<and> bitmap_test bitmap (n - nr - 32)"
      if "nr \<le> n"
      using low [of "n - nr"] high [of "n - nr - 32"] True that by (cases "n - nr < 32") auto
    then show ?thesis
      using True "2.IH" [OF True] all [of "n - nr"] by (auto simp: diff_diff_add)
  next
    case False
    then obtain k where k: "first_set w k" using first_set_exists by blast
    then have least: "bitmap_test (w # bitmap) k" "\<forall>m < k. \<not> bitmap_test (w # bitmap) m"
      by (auto simp: first_set_def low)
    then have "nr + k = n \<longleftrightarrow> nr \<le> n \<and> bitmap_test (w # bitmap) (n - nr) \<and>
        (\<forall>m < n - nr. \<not> bitmap_test (w # bitmap) m)"
      by (auto; metis add_diff_cancel_left' le_add_diff_inverse linorder_neqE_nat)
    then show ?thesis using False k by (simp add: find_first_bit_word_correct)
  qed
qed

text \<open>The result is the smallest set position, and there is a result exactly when some position is set.\<close>

lemma find_first_bit_Some:
  "krhino_find_first_bit bitmap = Some n \<longleftrightarrow>
     bitmap_test bitmap n \<and> (\<forall>m < n. \<not> bitmap_test bitmap m)"
  by (simp add: krhino_find_first_bit_def find_first_bit_from_spec)

lemma find_first_bit_None:
  "krhino_find_first_bit bitmap = None \<longleftrightarrow> (\<forall>n. \<not> bitmap_test bitmap n)"
proof -
  have "(\<exists>n. krhino_find_first_bit bitmap = Some n) \<longleftrightarrow> (\<exists>n. bitmap_test bitmap n)"
    unfolding find_first_bit_Some by (metis exists_least_iff)
  then show ?thesis by (metis not_None_eq)
qed

section \<open>Properties\<close>

text \<open>C35: the binary search over the bitmap words (16, 8, 4, 2 and 1 bit at a time) returns the position
  of the first set bit of the whole bitmap, and runs off the array exactly when no bit is set.
\<close>

theorem find_first_bit_reference:
  "krhino_find_first_bit bitmap =
     (if \<exists>n. bitmap_test bitmap n then Some (LEAST n. bitmap_test bitmap n) else None)"
proof (cases "\<exists>n. bitmap_test bitmap n")
  case True
  then show ?thesis
    unfolding find_first_bit_Some if_P [OF True] by (auto intro: LeastI dest: not_less_Least)
next
  case False
  then show ?thesis using find_first_bit_None [of bitmap] by simp
qed

text \<open>
  Setting and clearing a priority inside the bitmap changes that position and no other.
\<close>

theorem bitmap_set_clear_test:
  assumes "nr < 32 * length bitmap"
  shows "bitmap_test (krhino_bitmap_set bitmap nr) m = (m = nr \<or> bitmap_test bitmap m) \<and>
    bitmap_test (krhino_bitmap_clear bitmap nr) m = (m \<noteq> nr \<and> bitmap_test bitmap m)"
  using bitmap_test_set [OF assms] bitmap_test_clear [OF assms] by simp

theorem bitmap_set_clear_test_witness:
  "(61 :: nat) < 32 * length [0, 1 :: u32] \<and>
   bitmap_test (krhino_bitmap_set [0, 1] 61) 61 = (61 = 61 \<or> bitmap_test [0, 1] (61 :: nat)) \<and>
   bitmap_test (krhino_bitmap_clear [0, 1] 61) 61 = (61 \<noteq> 61 \<and> bitmap_test [0, 1] (61 :: nat))"
  using bitmap_set_clear_test [of 61 "[0, 1]" 61] by simp

end
