(* ===== verification/Kernel_State.thy ===== *)
theory Kernel_State
  imports Bitmap
begin

text \<open>
  The data model of the rhino kernel: task control blocks (\<^verbatim>\<open>k_task.h\<close>), the blocking-object
  header shared by semaphores, mutexes, queues, buffer queues and events (\<^verbatim>\<open>k_obj.h\<close>), the ready
  queue (\<^verbatim>\<open>k_sched.h\<close>) and the kernel globals of \<^verbatim>\<open>k_obj.c\<close>, for the single-core configuration
  (\<open>RHINO_CONFIG_CPU_NUM = 1\<close>) of both boards.

  C memory is a total function from addresses to records.  The doubly linked lists are HOL lists of
  task addresses (justified in \<^verbatim>\<open>Klist\<close>); the singly linked list of the mutexes a task holds keeps
  its \<open>next\<close> pointers.  \<open>k_fault\<close> records an access the C program may not make (a null pointer, the
  end of the priority bitmap) or a loop that does not end; \<open>g_err\<close> records the arguments of
  \<open>k_err_proc\<close> and \<open>mm_freed\<close> those of \<open>krhino_mm_free\<close>.  Critical sections are the atomic steps of the model; \<open>g_intrpt_masked\<close> records a
  return that leaves a critical section without \<open>RHINO_CRITICAL_EXIT\<close>.
\<close>

section \<open>Types\<close>

datatype (plugins only: code size) task_stat_t =
    K_SEED | K_RDY | K_PEND | K_SUSPENDED | K_PEND_SUSPENDED | K_SLEEP | K_SLEEP_SUSPENDED | K_DELETED

datatype (plugins only: code size) blk_state_t =
    BLK_FINISH | BLK_ABORT | BLK_TIMEOUT | BLK_DEL | BLK_INVALID

datatype (plugins only: code size) blk_policy_t = BLK_POLICY_PRI | BLK_POLICY_FIFO

datatype (plugins only: code size) kobj_type_t =
    RHINO_OBJ_TYPE_NONE | RHINO_SEM_OBJ_TYPE | RHINO_MUTEX_OBJ_TYPE | RHINO_QUEUE_OBJ_TYPE
  | RHINO_BUF_QUEUE_OBJ_TYPE | RHINO_TIMER_OBJ_TYPE | RHINO_EVENT_OBJ_TYPE | RHINO_MM_BLK_OBJ_TYPE
  | RHINO_MM_OBJ_TYPE

abbreviation (input) K_OBJ_STATIC_ALLOC :: u8 where "K_OBJ_STATIC_ALLOC \<equiv> 1"
abbreviation (input) K_OBJ_DYN_ALLOC :: u8 where "K_OBJ_DYN_ALLOC \<equiv> 2"

text \<open>\<open>ktask_t\<close>.  \<open>tick_head\<close> says whether the pointer of that name is set, i.e.\ whether the task is
  linked into the tick list; \<open>bq_msg\<close> is the message in the buffer a task waiting for a buffer queue
  has passed, \<open>task_stack_mem\<close> the words from \<open>task_stack_base\<close> on.\<close>

record ktask =
  suspend_count :: u8
  mutex_list :: "oid option"
  tick_match :: u32
  tick_remain :: u32
  tick_head :: bool
  msg :: u32
  bq_msg :: "u8 list"
  task_state :: task_stat_t
  blk_state :: blk_state_t
  blk_obj :: "oid option"
  task_sem_obj :: "oid option"
  pend_flags :: u32
  pend_info :: u32
  pend_option :: u8
  prio :: nat
  b_prio :: nat
  mm_alloc_flag :: u8
  task_name :: string
  user_info :: "u32 list"
  task_stack_mem :: "u32 list"

record blk_obj_t =
  blk_list :: "tid list"
  obj_name :: string
  blk_policy :: blk_policy_t
  obj_type :: kobj_type_t

text \<open>\<open>runqueue_t\<close>: \<open>cur_list p\<close> is the circular list of priority \<open>p\<close> read from \<open>cur_list_item[p]\<close>.\<close>

record runqueue =
  cur_list :: "nat \<Rightarrow> tid list"
  task_bit_map :: "u32 list"
  highest_pri :: nat

record ksem =
  sem_count :: u32
  peak_count :: u32
  sem_alloc_flag :: u8

record kmutex =
  mutex_task :: "tid option"
  mutex_next :: "oid option"
  owner_nested :: u32
  mutex_alloc_flag :: u8

record kernel =
  g_sys_stat :: kstat
  g_idle_task_spawned :: bool
  g_ready_queue :: runqueue
  g_sched_lock :: u8
  g_intrpt_nested_level :: u8
  g_preferred_ready_task :: tid
  g_active_task :: tid
  g_tick_count :: u32
  g_tick_head :: "tid list"
  g_sys_time_tick :: u64
  task_head :: "tid list"
  mutex_head :: "oid list"
  sem_head :: "oid list"
  tasks :: "tid \<Rightarrow> ktask"
  objs :: "oid \<Rightarrow> blk_obj_t"
  sems :: "oid \<Rightarrow> ksem"
  mutexes :: "oid \<Rightarrow> kmutex"
  g_res_list :: "tid list"
  mm_freed :: "nat list"
  g_err :: "kstat list"
  k_fault :: bool
  g_intrpt_masked :: bool

text \<open>A control block after \<open>memset(task, 0, sizeof(ktask_t))\<close>.\<close>

definition ktask_zero :: ktask where
  "ktask_zero = \<lparr>suspend_count = 0, mutex_list = None, tick_match = 0, tick_remain = 0,
     tick_head = False, msg = 0, bq_msg = [], task_state = K_SEED, blk_state = BLK_FINISH,
     blk_obj = None, task_sem_obj = None, pend_flags = 0, pend_info = 0, pend_option = 0,
     prio = 0, b_prio = 0, mm_alloc_flag = 0, task_name = [], user_info = replicate 2 0,
     task_stack_mem = []\<rparr>"

section \<open>Access\<close>

definition upd_task :: "tid \<Rightarrow> (ktask \<Rightarrow> ktask) \<Rightarrow> 'a kernel_scheme \<Rightarrow> 'a kernel_scheme" where
  [simp]: "upd_task t f k = k\<lparr>tasks := (tasks k)(t := f (tasks k t))\<rparr>"

definition upd_obj :: "oid \<Rightarrow> (blk_obj_t \<Rightarrow> blk_obj_t) \<Rightarrow> 'a kernel_scheme \<Rightarrow> 'a kernel_scheme" where
  [simp]: "upd_obj b f k = k\<lparr>objs := (objs k)(b := f (objs k b))\<rparr>"

definition upd_sem :: "oid \<Rightarrow> (ksem \<Rightarrow> ksem) \<Rightarrow> 'a kernel_scheme \<Rightarrow> 'a kernel_scheme" where
  [simp]: "upd_sem b f k = k\<lparr>sems := (sems k)(b := f (sems k b))\<rparr>"

definition upd_mutex :: "oid \<Rightarrow> (kmutex \<Rightarrow> kmutex) \<Rightarrow> 'a kernel_scheme \<Rightarrow> 'a kernel_scheme" where
  [simp]: "upd_mutex b f k = k\<lparr>mutexes := (mutexes k)(b := f (mutexes k b))\<rparr>"

abbreviation prio_of :: "'a kernel_scheme \<Rightarrow> tid \<Rightarrow> nat" where
  "prio_of k t \<equiv> prio (tasks k t)"

abbreviation state_of :: "'a kernel_scheme \<Rightarrow> tid \<Rightarrow> task_stat_t" where
  "state_of k t \<equiv> task_state (tasks k t)"

abbreviation waiters :: "'a kernel_scheme \<Rightarrow> oid \<Rightarrow> tid list" where
  "waiters k b \<equiv> blk_list (objs k b)"

definition pending :: "task_stat_t \<Rightarrow> bool" where
  "pending s \<longleftrightarrow> s = K_PEND \<or> s = K_PEND_SUSPENDED"

definition sleeping :: "task_stat_t \<Rightarrow> bool" where
  "sleeping s \<longleftrightarrow> s = K_SLEEP \<or> s = K_SLEEP_SUSPENDED"

lemma pending_simps [simp]:
  "pending K_PEND" "pending K_PEND_SUSPENDED" "\<not> pending K_RDY" "\<not> pending K_SEED"
  "\<not> pending K_SUSPENDED" "\<not> pending K_SLEEP" "\<not> pending K_SLEEP_SUSPENDED" "\<not> pending K_DELETED"
  by (simp_all add: pending_def)

lemma sleeping_simps [simp]:
  "sleeping K_SLEEP" "sleeping K_SLEEP_SUSPENDED" "\<not> sleeping K_RDY" "\<not> sleeping K_SEED"
  "\<not> sleeping K_SUSPENDED" "\<not> sleeping K_PEND" "\<not> sleeping K_PEND_SUSPENDED" "\<not> sleeping K_DELETED"
  by (simp_all add: sleeping_def)

text \<open>\<open>k_err_proc\<close> calls the user's error hook; a fault is undefined behaviour of the C program.\<close>

definition k_err_proc :: "kstat \<Rightarrow> 'a kernel_scheme \<Rightarrow> 'a kernel_scheme" where
  [simp]: "k_err_proc err k = k\<lparr>g_err := g_err k @ [err]\<rparr>"

definition k_crash :: "'a kernel_scheme \<Rightarrow> 'a kernel_scheme" where
  [simp]: "k_crash k = k\<lparr>k_fault := True\<rparr>"

text \<open>
  \<open>klist_rm(&task->task_list)\<close> for a task on some block list: it leaves whichever list it is on.
\<close>

definition klist_rm_task :: "tid \<Rightarrow> 'a kernel_scheme \<Rightarrow> 'a kernel_scheme" where
  "klist_rm_task t k = k\<lparr>objs := (\<lambda>b. (objs k b)\<lparr>blk_list := remove1 t (waiters k b)\<rparr>)\<rparr>"

section \<open>Frames\<close>

text \<open>
  The part of the state that the list and priority primitives leave alone.  A primitive \<open>f\<close> has one
  lemma \<open>env (f k) = env k\<close>; unfolded with \<open>env_frame\<close> it gives one rewrite rule for each field.
\<close>

definition env where
  "env k = (g_sys_stat k, g_idle_task_spawned k, g_sched_lock k, g_intrpt_nested_level k,
     g_active_task k, g_preferred_ready_task k, g_tick_count k, g_sys_time_tick k, task_head k,
     mutex_head k, sem_head k, sems k, g_res_list k, mm_freed k, g_intrpt_masked k, kernel.more k)"

lemmas env_frame = env_def prod.inject

lemma env_upd [simp]:
  "env (k\<lparr>tasks := a\<rparr>) = env k" "env (k\<lparr>objs := b\<rparr>) = env k" "env (k\<lparr>g_ready_queue := c\<rparr>) = env k"
  "env (k\<lparr>g_tick_head := d\<rparr>) = env k" "env (k\<lparr>mutexes := e\<rparr>) = env k" "env (k\<lparr>g_err := f\<rparr>) = env k"
  "env (k\<lparr>k_fault := g\<rparr>) = env k"
  by (simp_all add: env_def)

lemma klist_rm_task_env [simp]: "env (klist_rm_task t k) = env k"
  by (simp add: klist_rm_task_def)

lemma klist_rm_task_frame [simp]:
  "tasks (klist_rm_task t k) = tasks k" "g_ready_queue (klist_rm_task t k) = g_ready_queue k"
  "g_tick_head (klist_rm_task t k) = g_tick_head k" "mutexes (klist_rm_task t k) = mutexes k"
  "g_err (klist_rm_task t k) = g_err k" "k_fault (klist_rm_task t k) = k_fault k"
  "blk_policy (objs (klist_rm_task t k) b) = blk_policy (objs k b)"
  "obj_type (objs (klist_rm_task t k) b) = obj_type (objs k b)"
  "waiters (klist_rm_task t k) b = remove1 t (waiters k b)"
  by (simp_all add: klist_rm_task_def)

declare klist_rm_task_env [unfolded env_frame, simp]

end
