(* ===== verification/Sched.thy ===== *)
theory Sched
  imports Kernel_State
begin

text \<open>
  The ready queue and the scheduler of \<^verbatim>\<open>kernel/rhino/core/k_sched.c\<close> (single core, no round robin),
  and the interrupt entry and exit of \<^verbatim>\<open>k_sys.c\<close>.  \<open>rq_wf\<close> says that the priority bitmap, the ready
  lists and the cached highest priority agree; every queue operation keeps it, and under it
  \<open>preferred_cpu_ready_task_get\<close> picks the first task of the most urgent non-empty list.
\<close>

section \<open>The run queue\<close>

text \<open>The run queue before and after \<open>runqueue_init\<close>; the bitmap is a zero-initialised global.\<close>

definition runqueue_init :: "runqueue \<Rightarrow> runqueue" where
  "runqueue_init rq = rq\<lparr>highest_pri := RHINO_CONFIG_PRI_MAX,
     cur_list := (\<lambda>p. if p < RHINO_CONFIG_PRI_MAX then [] else cur_list rq p)\<rparr>"

definition ready_list_init :: "runqueue \<Rightarrow> tid \<Rightarrow> nat \<Rightarrow> runqueue" where
  "ready_list_init rq task pri =
     rq\<lparr>cur_list := (cur_list rq)(pri := [task]),
        task_bit_map := krhino_bitmap_set (task_bit_map rq) pri,
        highest_pri := (if pri < highest_pri rq then pri else highest_pri rq)\<rparr>"

definition is_ready_list_empty :: "runqueue \<Rightarrow> nat \<Rightarrow> bool" where
  "is_ready_list_empty rq pri \<longleftrightarrow> cur_list rq pri = []"

text \<open>\<open>klist_insert\<close> in front of the current item is the end of the circular list.\<close>

definition rq_add_tail :: "runqueue \<Rightarrow> tid \<Rightarrow> nat \<Rightarrow> runqueue" where
  "rq_add_tail rq task pri =
     (if is_ready_list_empty rq pri then ready_list_init rq task pri
      else rq\<lparr>cur_list := (cur_list rq)(pri := cur_list rq pri @ [task])\<rparr>)"

definition rq_add_head :: "runqueue \<Rightarrow> tid \<Rightarrow> nat \<Rightarrow> runqueue" where
  "rq_add_head rq task pri =
     (if is_ready_list_empty rq pri then ready_list_init rq task pri
      else rq\<lparr>cur_list := (cur_list rq)(pri := task # cur_list rq pri)\<rparr>)"

text \<open>
  \<open>ready_list_rm\<close>; \<open>None\<close> stands for dereferencing a null \<open>cur_list_item\<close>, or for
  \<open>krhino_find_first_bit\<close> running off an empty bitmap.
\<close>

definition rq_rm :: "runqueue \<Rightarrow> tid \<Rightarrow> nat \<Rightarrow> runqueue option" where
  "rq_rm rq task pri =
     (case cur_list rq pri of
        [] \<Rightarrow> None
      | [_] \<Rightarrow>
          (let rq1 = rq\<lparr>cur_list := (cur_list rq)(pri := []),
                        task_bit_map := krhino_bitmap_clear (task_bit_map rq) pri\<rparr>
           in if pri \<noteq> highest_pri rq1 then Some rq1
              else (case krhino_find_first_bit (task_bit_map rq1) of
                      None \<Rightarrow> None
                    | Some i \<Rightarrow> Some (rq1\<lparr>highest_pri := i\<rparr>)))
      | _ \<Rightarrow> Some (rq\<lparr>cur_list := (cur_list rq)(pri := remove1 task (cur_list rq pri))\<rparr>))"

section \<open>Operations on the kernel state\<close>

definition ready_list_add_tail :: "tid \<Rightarrow> 'a kernel_scheme \<Rightarrow> 'a kernel_scheme" where
  "ready_list_add_tail t k = k\<lparr>g_ready_queue := rq_add_tail (g_ready_queue k) t (prio_of k t)\<rparr>"

definition ready_list_add_head :: "tid \<Rightarrow> 'a kernel_scheme \<Rightarrow> 'a kernel_scheme" where
  "ready_list_add_head t k = k\<lparr>g_ready_queue := rq_add_head (g_ready_queue k) t (prio_of k t)\<rparr>"

definition ready_list_add :: "tid \<Rightarrow> 'a kernel_scheme \<Rightarrow> 'a kernel_scheme" where
  "ready_list_add t k =
     (if prio_of k t = prio_of k (g_active_task k) then ready_list_add_tail t k
      else ready_list_add_head t k)"

definition ready_list_rm :: "tid \<Rightarrow> 'a kernel_scheme \<Rightarrow> 'a kernel_scheme" where
  "ready_list_rm t k =
     (case rq_rm (g_ready_queue k) t (prio_of k t) of
        None \<Rightarrow> k_crash k
      | Some rq \<Rightarrow> k\<lparr>g_ready_queue := rq\<rparr>)"

definition ready_list_head_to_tail :: "tid \<Rightarrow> 'a kernel_scheme \<Rightarrow> 'a kernel_scheme" where
  "ready_list_head_to_tail t k =
     (let rq = g_ready_queue k; p = prio_of k t
      in if cur_list rq p = [] then k_crash k
         else k\<lparr>g_ready_queue := rq\<lparr>cur_list := (cur_list rq)(p := rotate1 (cur_list rq p))\<rparr>\<rparr>)"

definition preferred_cpu_ready_task_get :: "'a kernel_scheme \<Rightarrow> 'a kernel_scheme" where
  "preferred_cpu_ready_task_get k =
     (case cur_list (g_ready_queue k) (highest_pri (g_ready_queue k)) of
        [] \<Rightarrow> k_crash k
      | t # _ \<Rightarrow> k\<lparr>g_preferred_ready_task := t\<rparr>)"

text \<open>\<open>cpu_task_switch\<close> makes the preferred task the active one.\<close>

definition core_sched :: "'a kernel_scheme \<Rightarrow> 'a kernel_scheme" where
  "core_sched k =
     (if g_intrpt_nested_level k > 0 then k
      else if g_sched_lock k > 0 then k
      else let k1 = preferred_cpu_ready_task_get k
           in if g_preferred_ready_task k1 = g_active_task k1 then k1
              else k1\<lparr>g_active_task := g_preferred_ready_task k1\<rparr>)"

definition krhino_sched_disable :: "'a kernel_scheme \<Rightarrow> kstat \<times> 'a kernel_scheme" where
  "krhino_sched_disable k =
     (if g_intrpt_nested_level k > 0 then (RHINO_NOT_CALLED_BY_INTRPT, k)
      else if g_sched_lock k \<ge> 200 then (RHINO_SCHED_LOCK_COUNT_OVF, k)
      else (RHINO_SUCCESS, k\<lparr>g_sched_lock := g_sched_lock k + 1\<rparr>))"

definition krhino_sched_enable :: "'a kernel_scheme \<Rightarrow> kstat \<times> 'a kernel_scheme" where
  "krhino_sched_enable k =
     (if g_intrpt_nested_level k > 0 then (RHINO_NOT_CALLED_BY_INTRPT, k)
      else if g_sched_lock k = 0 then (RHINO_SCHED_ALREADY_ENABLED, k)
      else let k1 = k\<lparr>g_sched_lock := g_sched_lock k - 1\<rparr>
           in if g_sched_lock k1 > 0 then (RHINO_SCHED_DISABLE, k1)
              else (RHINO_SUCCESS, core_sched k1))"

text \<open>\<open>RHINO_CONFIG_INTRPT_MAX_NESTED_LEVEL\<close> is 188.\<close>

definition krhino_intrpt_enter :: "'a kernel_scheme \<Rightarrow> kstat \<times> 'a kernel_scheme" where
  "krhino_intrpt_enter k =
     (if g_intrpt_nested_level k \<ge> 188
      then (RHINO_INTRPT_NESTED_LEVEL_OVERFLOW, k_err_proc RHINO_INTRPT_NESTED_LEVEL_OVERFLOW k)
      else (RHINO_SUCCESS, k\<lparr>g_intrpt_nested_level := g_intrpt_nested_level k + 1\<rparr>))"

definition krhino_intrpt_exit :: "'a kernel_scheme \<Rightarrow> 'a kernel_scheme" where
  "krhino_intrpt_exit k =
     (let k0 = (if g_intrpt_nested_level k = 0 then k_err_proc RHINO_INV_INTRPT_NESTED_LEVEL k else k);
          k1 = k0\<lparr>g_intrpt_nested_level := g_intrpt_nested_level k0 - 1\<rparr>
      in if g_intrpt_nested_level k1 > 0 then k1
         else if g_sched_lock k1 > 0 then k1
         else let k2 = preferred_cpu_ready_task_get k1
              in if g_preferred_ready_task k2 = g_active_task k2 then k2
                 else k2\<lparr>g_active_task := g_preferred_ready_task k2\<rparr>)"

lemmas sched_defs [kernel_defs] = ready_list_add_tail_def ready_list_add_head_def ready_list_add_def
  ready_list_rm_def ready_list_head_to_tail_def

section \<open>Frames\<close>

lemma ready_list_env [simp]:
  "env (ready_list_add_tail t k) = env k" "env (ready_list_add_head t k) = env k"
  "env (ready_list_add t k) = env k" "env (ready_list_rm t k) = env k"
  "env (ready_list_head_to_tail t k) = env k"
  by (simp_all add: sched_defs Let_def split: option.split)

declare ready_list_env [unfolded env_frame, simp]

lemma ready_list_frame [simp]:
  "tasks (ready_list_add_tail t k) = tasks k" "tasks (ready_list_add_head t k) = tasks k"
  "tasks (ready_list_add t k) = tasks k" "tasks (ready_list_rm t k) = tasks k"
  "tasks (ready_list_head_to_tail t k) = tasks k"
  "objs (ready_list_add_tail t k) = objs k" "objs (ready_list_add_head t k) = objs k"
  "objs (ready_list_add t k) = objs k" "objs (ready_list_rm t k) = objs k"
  "objs (ready_list_head_to_tail t k) = objs k"
  "mutexes (ready_list_add_tail t k) = mutexes k" "mutexes (ready_list_add_head t k) = mutexes k"
  "mutexes (ready_list_add t k) = mutexes k" "mutexes (ready_list_rm t k) = mutexes k"
  "mutexes (ready_list_head_to_tail t k) = mutexes k"
  "g_tick_head (ready_list_add_tail t k) = g_tick_head k" "g_tick_head (ready_list_add_head t k) = g_tick_head k"
  "g_tick_head (ready_list_add t k) = g_tick_head k" "g_tick_head (ready_list_rm t k) = g_tick_head k"
  "g_tick_head (ready_list_head_to_tail t k) = g_tick_head k"
  "g_err (ready_list_add_tail t k) = g_err k" "g_err (ready_list_add_head t k) = g_err k"
  "g_err (ready_list_add t k) = g_err k" "g_err (ready_list_rm t k) = g_err k"
  "g_err (ready_list_head_to_tail t k) = g_err k"
  "k_fault (ready_list_add_tail t k) = k_fault k" "k_fault (ready_list_add_head t k) = k_fault k"
  "k_fault (ready_list_add t k) = k_fault k"
  by (simp_all add: sched_defs Let_def split: option.split)

lemma ready_list_add_rq:
  assumes "g_ready_queue k' = g_ready_queue k" and "g_active_task k' = g_active_task k"
    and "prio_of k' t = prio_of k t" and "prio_of k' (g_active_task k) = prio_of k (g_active_task k)"
  shows "g_ready_queue (ready_list_add t k') = g_ready_queue (ready_list_add t k)"
  using assms by (simp add: sched_defs)

section \<open>Well-formed run queues\<close>

definition rq_wf :: "runqueue \<Rightarrow> bool" where
  "rq_wf rq \<longleftrightarrow> length (task_bit_map rq) = 2 \<and>
     (\<forall>p. bitmap_test (task_bit_map rq) p \<longleftrightarrow> cur_list rq p \<noteq> []) \<and>
     (\<forall>p. distinct (cur_list rq p)) \<and>
     (\<forall>p. cur_list rq p \<noteq> [] \<longrightarrow> p < RHINO_CONFIG_PRI_MAX \<and> highest_pri rq \<le> p) \<and>
     (highest_pri rq < RHINO_CONFIG_PRI_MAX \<longrightarrow> cur_list rq (highest_pri rq) \<noteq> [])"

lemma rq_wfD:
  assumes "rq_wf rq"
  shows "length (task_bit_map rq) = 2"
    and "bitmap_test (task_bit_map rq) p \<longleftrightarrow> cur_list rq p \<noteq> []"
    and "distinct (cur_list rq p)"
    and "cur_list rq p \<noteq> [] \<Longrightarrow> p < RHINO_CONFIG_PRI_MAX"
    and "cur_list rq p \<noteq> [] \<Longrightarrow> highest_pri rq \<le> p"
    and "cur_list rq p \<noteq> [] \<Longrightarrow> cur_list rq (highest_pri rq) \<noteq> []"
    and "highest_pri rq < RHINO_CONFIG_PRI_MAX \<Longrightarrow> cur_list rq (highest_pri rq) \<noteq> []"
  using assms by (auto simp: rq_wf_def dest: le_less_trans)

lemma rq_wf_ready_list_init:
  assumes wf: "rq_wf rq" and pri: "pri < RHINO_CONFIG_PRI_MAX"
  shows "rq_wf (ready_list_init rq t pri)"
proof -
  let ?rq = "ready_list_init rq t pri"
  have bits: "bitmap_test (task_bit_map ?rq) p \<longleftrightarrow> cur_list ?rq p \<noteq> []" for p
    using rq_wfD(1,2) [OF wf] pri by (simp add: ready_list_init_def bitmap_test_set)
  have bounds: "p < 62 \<and> highest_pri ?rq \<le> p" if "cur_list ?rq p \<noteq> []" for p
    using rq_wfD(4,5) [OF wf, of p] that pri by (auto simp: ready_list_init_def split: if_splits)
  have "cur_list ?rq (highest_pri ?rq) \<noteq> []"
  proof (cases "pri < highest_pri rq")
    case False
    then show ?thesis
      using rq_wfD(7) [OF wf] pri by (cases "pri = highest_pri rq") (auto simp: ready_list_init_def)
  qed (simp add: ready_list_init_def)
  then show ?thesis
    using bits bounds rq_wfD(1,3) [OF wf] unfolding rq_wf_def by (simp add: ready_list_init_def)
qed

lemma rq_wf_replace:
  assumes "rq_wf rq" and "cur_list rq pri \<noteq> []" and "xs \<noteq> []" and "distinct xs"
  shows "rq_wf (rq\<lparr>cur_list := (cur_list rq)(pri := xs)\<rparr>)"
  using assms unfolding rq_wf_def by auto

lemma rq_add_tail_wf:
  assumes "rq_wf rq" and "pri < RHINO_CONFIG_PRI_MAX" and "t \<notin> set (cur_list rq pri)"
  shows "rq_wf (rq_add_tail rq t pri)"
  using assms rq_wfD(3) [OF assms(1), of pri]
  by (auto simp: rq_add_tail_def is_ready_list_empty_def rq_wf_ready_list_init intro: rq_wf_replace)

lemma rq_add_head_wf:
  assumes "rq_wf rq" and "pri < RHINO_CONFIG_PRI_MAX" and "t \<notin> set (cur_list rq pri)"
  shows "rq_wf (rq_add_head rq t pri)"
  using assms rq_wfD(3) [OF assms(1), of pri]
  by (auto simp: rq_add_head_def is_ready_list_empty_def rq_wf_ready_list_init intro: rq_wf_replace)

lemma rq_add_lists [simp]:
  "cur_list (rq_add_tail rq t pri) = (cur_list rq)(pri := cur_list rq pri @ [t])"
  "cur_list (rq_add_head rq t pri) = (cur_list rq)(pri := t # cur_list rq pri)"
  by (auto simp: rq_add_tail_def rq_add_head_def ready_list_init_def is_ready_list_empty_def)

text \<open>Removing a task succeeds as long as some other ready task remains.\<close>

lemma rq_rm_lists:
  assumes "rq_wf rq" and "t \<in> set (cur_list rq pri)" and "rq_rm rq t pri = Some rq'"
  shows "cur_list rq' = (cur_list rq)(pri := remove1 t (cur_list rq pri))"
  using assms by (auto simp: rq_rm_def Let_def split: list.splits if_splits option.splits)

lemma rq_rm_total:
  assumes wf: "rq_wf rq" and t: "t \<in> set (cur_list rq pri)"
    and other: "q \<noteq> pri" "cur_list rq q \<noteq> []"
  obtains rq' where "rq_rm rq t pri = Some rq'"
    and "cur_list rq' = (cur_list rq)(pri := remove1 t (cur_list rq pri))" and "rq_wf rq'"
proof (cases "cur_list rq pri = [t]")
  case True
  have pri: "pri < 62" using rq_wfD(4) [OF wf] True by simp
  define rq1 where "rq1 = rq\<lparr>cur_list := (cur_list rq)(pri := []),
      task_bit_map := krhino_bitmap_clear (task_bit_map rq) pri\<rparr>"
  have tests: "bitmap_test (task_bit_map rq1) p \<longleftrightarrow> cur_list rq1 p \<noteq> []" for p
    using pri rq_wfD(1,2) [OF wf] by (auto simp: rq1_def bitmap_test_clear)
  show ?thesis
  proof (cases "pri = highest_pri rq")
    case False
    then have "rq_rm rq t pri = Some rq1" using True by (simp add: rq_rm_def rq1_def)
    moreover have "rq_wf rq1"
      using wf False tests other unfolding rq_wf_def rq1_def by auto
    ultimately show ?thesis using that True by (simp add: rq1_def)
  next
    case hi: True
    obtain i where i: "krhino_find_first_bit (task_bit_map rq1) = Some i"
      using find_first_bit_None [of "task_bit_map rq1"] tests other(2) other(1)
      by (metis (no_types, lifting) fun_upd_apply not_None_eq rq1_def runqueue.select_convs(1)
          runqueue.surjective runqueue.update_convs(1,2))
    then have least: "cur_list rq1 i \<noteq> []" "\<forall>m < i. cur_list rq1 m = []"
      using tests by (auto simp: find_first_bit_Some)
    have "rq_rm rq t pri = Some (rq1\<lparr>highest_pri := i\<rparr>)"
      using True hi i by (simp add: rq_rm_def rq1_def)
    moreover have "rq_wf (rq1\<lparr>highest_pri := i\<rparr>)"
      using wf tests least unfolding rq_wf_def by (auto simp: rq1_def not_less split: if_splits)
    ultimately show ?thesis using that True by (simp add: rq1_def)
  qed
next
  case False
  then obtain x y zs where xs: "cur_list rq pri = x # y # zs"
    using t by (cases "cur_list rq pri"; cases "tl (cur_list rq pri)") auto
  let ?rq = "rq\<lparr>cur_list := (cur_list rq)(pri := remove1 t (cur_list rq pri))\<rparr>"
  have "rq_rm rq t pri = Some ?rq" using xs by (simp add: rq_rm_def)
  moreover have "rq_wf ?rq"
    using xs rq_wfD(3) [OF wf, of pri] by (intro rq_wf_replace [OF wf]) auto
  ultimately show ?thesis using that by simp
qed

lemma rq_wf_rotate:
  assumes "rq_wf rq" and "cur_list rq pri \<noteq> []"
  shows "rq_wf (rq\<lparr>cur_list := (cur_list rq)(pri := rotate1 (cur_list rq pri))\<rparr>)"
  using assms by (intro rq_wf_replace) (auto simp: rq_wfD)

end
