(* ===== verification/Kernel_Inv.thy ===== *)
theory Kernel_Inv
  imports Sched
begin

text \<open>
  The invariant of the kernel state between API calls.  Each part is a predicate on the components
  of the state it is about (task states and priorities as functions of the task, block lists as a
  function of the object), so that the effect of an operation on one part can be stated without the
  rest of the state.  \<open>kernel_inv\<close> collects the parts.
\<close>

section \<open>Parts of the invariant\<close>

text \<open>A task is on the ready list of its priority exactly when it is ready.\<close>

definition rdy_ok :: "runqueue \<Rightarrow> (tid \<Rightarrow> task_stat_t) \<Rightarrow> (tid \<Rightarrow> nat) \<Rightarrow> bool" where
  "rdy_ok rq st pr \<longleftrightarrow> rq_wf rq \<and>
     (\<forall>t p. t \<in> set (cur_list rq p) \<longleftrightarrow> st t = K_RDY \<and> pr t = p)"

text \<open>
  A task is on the block list of an object exactly when it is pending on that object; block lists
  of the priority policy are sorted by priority.
\<close>

definition blk_ok :: "(oid \<Rightarrow> tid list) \<Rightarrow> (oid \<Rightarrow> blk_policy_t) \<Rightarrow> (tid \<Rightarrow> task_stat_t) \<Rightarrow>
    (tid \<Rightarrow> nat) \<Rightarrow> (tid \<Rightarrow> oid option) \<Rightarrow> bool" where
  "blk_ok wl pol st pr bo \<longleftrightarrow>
     (\<forall>b. distinct (wl b)) \<and>
     (\<forall>t b. t \<in> set (wl b) \<longleftrightarrow> pending (st t) \<and> bo t = Some b) \<and>
     (\<forall>t. pending (st t) \<longrightarrow> bo t \<noteq> None) \<and>
     (\<forall>b. pol b = BLK_POLICY_PRI \<longrightarrow> sorted (map pr (wl b)))"

text \<open>
  The tick list holds the tasks that wait for a time, sorted by the number of ticks they still wait
  (the difference \<open>tick_match - g_tick_count\<close> in 32 bit arithmetic).  Between the ticks none of these
  numbers is zero (\<open>tick_pos\<close>).
\<close>

definition tick_ok :: "tid list \<Rightarrow> (tid \<Rightarrow> u32) \<Rightarrow> (tid \<Rightarrow> bool) \<Rightarrow> (tid \<Rightarrow> task_stat_t) \<Rightarrow> bool" where
  "tick_ok tq left th st \<longleftrightarrow> distinct tq \<and> sorted (map left tq) \<and>
     (\<forall>t. t \<in> set tq \<longleftrightarrow> th t) \<and>
     (\<forall>t. th t \<longrightarrow> pending (st t) \<or> sleeping (st t)) \<and> (\<forall>t. sleeping (st t) \<longrightarrow> th t)"

text \<open>The list of mutexes that starts at a pointer, following \<open>mutex_list\<close> of each mutex.\<close>

fun mutex_path :: "(oid \<Rightarrow> oid option) \<Rightarrow> oid option \<Rightarrow> oid list \<Rightarrow> bool" where
  "mutex_path nx None ms = (ms = [])"
| "mutex_path nx (Some m) [] = False"
| "mutex_path nx (Some m) (m' # ms) = (m = m' \<and> mutex_path nx (nx m) ms)"

definition owns :: "(oid \<Rightarrow> kobj_type_t) \<Rightarrow> (oid \<Rightarrow> tid option) \<Rightarrow> tid \<Rightarrow> oid \<Rightarrow> bool" where
  "owns ty ow t m \<longleftrightarrow> ty m = RHINO_MUTEX_OBJ_TYPE \<and> ow m = Some t"

definition live :: "task_stat_t \<Rightarrow> bool" where
  "live s \<longleftrightarrow> s \<noteq> K_SEED \<and> s \<noteq> K_DELETED"

text \<open>\<open>mchain_ok R\<close>: for every live task the mutexes it is related to are those on its \<open>mutex_list\<close>.\<close>

definition mchain_ok :: "(tid \<Rightarrow> oid \<Rightarrow> bool) \<Rightarrow> (oid \<Rightarrow> oid option) \<Rightarrow> (tid \<Rightarrow> oid option) \<Rightarrow>
    (tid \<Rightarrow> task_stat_t) \<Rightarrow> bool" where
  "mchain_ok R nx ml st \<longleftrightarrow>
     (\<forall>t. live (st t) \<longrightarrow> (\<exists>ms. mutex_path nx (ml t) ms \<and> distinct ms \<and> set ms = {m. R t m}))"

text \<open>
  The mutexes a live task owns are exactly those on its \<open>mutex_list\<close>; only live tasks own mutexes;
  a mutex without owner has no waiters, and no owner waits for its own mutex.
\<close>

definition mtx_ok :: "(oid \<Rightarrow> kobj_type_t) \<Rightarrow> (oid \<Rightarrow> tid option) \<Rightarrow> (oid \<Rightarrow> oid option) \<Rightarrow>
    (oid \<Rightarrow> u32) \<Rightarrow> (oid \<Rightarrow> tid list) \<Rightarrow> oid list \<Rightarrow> (tid \<Rightarrow> oid option) \<Rightarrow> (tid \<Rightarrow> task_stat_t) \<Rightarrow> bool" where
  "mtx_ok ty ow nx ne wl mh ml st \<longleftrightarrow>
     mchain_ok (owns ty ow) nx ml st \<and>
     (\<forall>t m. owns ty ow t m \<longrightarrow> live (st t) \<and> t \<notin> set (wl m) \<and> ne m \<noteq> 0) \<and>
     (\<forall>m. ty m = RHINO_MUTEX_OBJ_TYPE \<longrightarrow> m \<in> set mh) \<and>
     (\<forall>m. ty m = RHINO_MUTEX_OBJ_TYPE \<and> ow m = None \<longrightarrow> wl m = [])"

text \<open>
  \<open>eff\<close>: the priority a task should have, the most urgent one among its base priority and the
  priorities of its \<open>boosters\<close>, the tasks that wait for a mutex it owns.
\<close>

definition boosters :: "(oid \<Rightarrow> kobj_type_t) \<Rightarrow> (oid \<Rightarrow> tid option) \<Rightarrow> (oid \<Rightarrow> tid list) \<Rightarrow> tid \<Rightarrow> tid set" where
  "boosters ty ow wl t = {w. \<exists>m. owns ty ow t m \<and> w \<in> set (wl m)}"

definition eff :: "(oid \<Rightarrow> kobj_type_t) \<Rightarrow> (oid \<Rightarrow> tid option) \<Rightarrow> (oid \<Rightarrow> tid list) \<Rightarrow> (tid \<Rightarrow> nat) \<Rightarrow>
    (tid \<Rightarrow> nat) \<Rightarrow> tid \<Rightarrow> nat \<Rightarrow> bool" where
  "eff ty ow wl pr bp t p \<longleftrightarrow> least_of (bp t) (pr ` boosters ty ow wl t) p"

definition pi_ok :: "(oid \<Rightarrow> kobj_type_t) \<Rightarrow> (oid \<Rightarrow> tid option) \<Rightarrow> (oid \<Rightarrow> tid list) \<Rightarrow> (tid \<Rightarrow> nat) \<Rightarrow>
    (tid \<Rightarrow> nat) \<Rightarrow> (tid \<Rightarrow> task_stat_t) \<Rightarrow> bool" where
  "pi_ok ty ow wl pr bp st \<longleftrightarrow> (\<forall>t. live (st t) \<longrightarrow> eff ty ow wl pr bp t (pr t))"

text \<open>The idle task (its control block is the global \<open>g_idle_task[0]\<close>, at address 0 here).\<close>

definition g_idle_task :: tid where
  "g_idle_task = 0"

definition idle_ok :: "(tid \<Rightarrow> task_stat_t) \<Rightarrow> (tid \<Rightarrow> nat) \<Rightarrow> (tid \<Rightarrow> nat) \<Rightarrow> (oid \<Rightarrow> kobj_type_t) \<Rightarrow>
    (oid \<Rightarrow> tid option) \<Rightarrow> bool" where
  "idle_ok st pr bp ty ow \<longleftrightarrow> st g_idle_task = K_RDY \<and> pr g_idle_task = RHINO_IDLE_PRI \<and>
     bp g_idle_task = RHINO_IDLE_PRI \<and> (\<forall>m. \<not> owns ty ow g_idle_task m) \<and>
     (\<forall>t. live (st t) \<and> t \<noteq> g_idle_task \<longrightarrow> pr t < RHINO_IDLE_PRI \<and> bp t < RHINO_IDLE_PRI)"

definition susp_ok :: "(tid \<Rightarrow> task_stat_t) \<Rightarrow> (tid \<Rightarrow> u8) \<Rightarrow> bool" where
  "susp_ok st sc \<longleftrightarrow> (\<forall>t. st t \<in> {K_SUSPENDED, K_PEND_SUSPENDED, K_SLEEP_SUSPENDED} \<longrightarrow> sc t \<noteq> 0)"

text \<open>Object headers: a mutex blocks by priority, no task waits for a semaphore with a positive count, and the list of all tasks holds the live ones.\<close>

definition hdr_ok :: "(oid \<Rightarrow> kobj_type_t) \<Rightarrow> (oid \<Rightarrow> blk_policy_t) \<Rightarrow> (oid \<Rightarrow> tid list) \<Rightarrow>
    (oid \<Rightarrow> u32) \<Rightarrow> tid list \<Rightarrow> (tid \<Rightarrow> task_stat_t) \<Rightarrow> bool" where
  "hdr_ok ty pol wl cnt th st \<longleftrightarrow>
     (\<forall>m. ty m = RHINO_MUTEX_OBJ_TYPE \<longrightarrow> pol m = BLK_POLICY_PRI) \<and>
     (\<forall>b. ty b = RHINO_SEM_OBJ_TYPE \<and> 0 < cnt b \<longrightarrow> wl b = []) \<and>
     distinct th \<and> (\<forall>t. live (st t) \<longrightarrow> t \<in> set th)"

section \<open>The invariant\<close>

definition ticks_left :: "'a kernel_scheme \<Rightarrow> tid \<Rightarrow> u32" where
  "ticks_left k t = tick_match (tasks k t) - g_tick_count k"

definition rdy_inv :: "'a kernel_scheme \<Rightarrow> bool" where
  "rdy_inv k \<longleftrightarrow> rdy_ok (g_ready_queue k) (task_state \<circ> tasks k) (prio \<circ> tasks k)"

definition blk_inv :: "'a kernel_scheme \<Rightarrow> bool" where
  "blk_inv k \<longleftrightarrow> blk_ok (blk_list \<circ> objs k) (blk_policy \<circ> objs k) (task_state \<circ> tasks k)
     (prio \<circ> tasks k) (blk_obj \<circ> tasks k)"

definition tick_inv :: "'a kernel_scheme \<Rightarrow> bool" where
  "tick_inv k \<longleftrightarrow> tick_ok (g_tick_head k) (ticks_left k) (tick_head \<circ> tasks k) (task_state \<circ> tasks k)"

definition tick_pos :: "'a kernel_scheme \<Rightarrow> bool" where
  "tick_pos k \<longleftrightarrow> (\<forall>t. tick_head (tasks k t) \<longrightarrow> 0 < ticks_left k t)"

text \<open>Nobody waits for a deleted object, and no deleted task is on the list of all tasks.\<close>

definition dead_ok :: "'a kernel_scheme \<Rightarrow> bool" where
  "dead_ok k \<longleftrightarrow> (\<forall>b. obj_type (objs k b) = RHINO_OBJ_TYPE_NONE \<longrightarrow> waiters k b = []) \<and>
     (\<forall>t \<in> set (task_head k). live (state_of k t))"

lemma dead_ok_cong:
  assumes "dead_ok k" and "\<And>b. obj_type (objs k' b) = RHINO_OBJ_TYPE_NONE \<Longrightarrow> obj_type (objs k b) = RHINO_OBJ_TYPE_NONE"
    and "\<And>b. obj_type (objs k b) = RHINO_OBJ_TYPE_NONE \<Longrightarrow> waiters k b = [] \<Longrightarrow> waiters k' b = []"
    and "task_head k' = task_head k" and "\<And>t. live (state_of k t) \<Longrightarrow> live (state_of k' t)"
  shows "dead_ok k'"
  using assms by (simp add: dead_ok_def)

definition mtx_inv :: "'a kernel_scheme \<Rightarrow> bool" where
  "mtx_inv k \<longleftrightarrow> mtx_ok (obj_type \<circ> objs k) (mutex_task \<circ> mutexes k) (mutex_next \<circ> mutexes k)
     (owner_nested \<circ> mutexes k) (blk_list \<circ> objs k) (mutex_head k) (mutex_list \<circ> tasks k)
     (task_state \<circ> tasks k)"

definition pi_inv :: "'a kernel_scheme \<Rightarrow> bool" where
  "pi_inv k \<longleftrightarrow> pi_ok (obj_type \<circ> objs k) (mutex_task \<circ> mutexes k) (blk_list \<circ> objs k)
     (prio \<circ> tasks k) (b_prio \<circ> tasks k) (task_state \<circ> tasks k)"

definition idle_inv :: "'a kernel_scheme \<Rightarrow> bool" where
  "idle_inv k \<longleftrightarrow> idle_ok (task_state \<circ> tasks k) (prio \<circ> tasks k) (b_prio \<circ> tasks k)
     (obj_type \<circ> objs k) (mutex_task \<circ> mutexes k) \<and> g_idle_task_spawned k"

definition misc_inv :: "'a kernel_scheme \<Rightarrow> bool" where
  "misc_inv k \<longleftrightarrow> susp_ok (task_state \<circ> tasks k) (suspend_count \<circ> tasks k) \<and>
     hdr_ok (obj_type \<circ> objs k) (blk_policy \<circ> objs k) (blk_list \<circ> objs k)
       (sem_count \<circ> sems k) (task_head k) (task_state \<circ> tasks k)"

definition kernel_inv :: "'a kernel_scheme \<Rightarrow> bool" where
  "kernel_inv k \<longleftrightarrow> rdy_inv k \<and> blk_inv k \<and> tick_inv k \<and> mtx_inv k \<and> pi_inv k \<and> idle_inv k \<and>
     misc_inv k \<and> tick_pos k \<and> dead_ok k \<and> \<not> k_fault k"

lemmas inv_defs = rdy_inv_def blk_inv_def tick_inv_def mtx_inv_def pi_inv_def idle_inv_def misc_inv_def

lemma kernel_invI:
  "rdy_inv k \<Longrightarrow> blk_inv k \<Longrightarrow> tick_inv k \<Longrightarrow> mtx_inv k \<Longrightarrow> pi_inv k \<Longrightarrow> idle_inv k \<Longrightarrow>
   misc_inv k \<Longrightarrow> tick_pos k \<Longrightarrow> dead_ok k \<Longrightarrow> \<not> k_fault k \<Longrightarrow> kernel_inv k"
  by (simp add: kernel_inv_def)

lemma kernel_invD:
  assumes "kernel_inv k"
  shows "rdy_inv k" "blk_inv k" "tick_inv k" "mtx_inv k" "pi_inv k" "idle_inv k" "misc_inv k" "\<not> k_fault k" "tick_pos k" "dead_ok k"
  using assms by (simp_all add: kernel_inv_def)

text \<open>Projections of an updated memory.\<close>

lemma comp_upd_same [simp]: "(f \<circ> g)(x := f (g x)) = f \<circ> g"
  by (auto simp: fun_eq_iff)

lemma comp_upd_eq: "f y = f (g x) \<Longrightarrow> f \<circ> g(x := y) = f \<circ> g"
  by (auto simp: fun_eq_iff)

declare fun_upd_comp [simp]

lemma live_simps [simp]:
  "live K_RDY" "live K_PEND" "live K_SUSPENDED" "live K_PEND_SUSPENDED" "live K_SLEEP"
  "live K_SLEEP_SUSPENDED" "\<not> live K_SEED" "\<not> live K_DELETED"
  by (simp_all add: live_def)

lemma pending_live: "pending s \<Longrightarrow> live s" and sleeping_live: "sleeping s \<Longrightarrow> live s"
  by (auto simp: pending_def sleeping_def)

section \<open>Ready list facts\<close>

lemma rdy_ok_other:
  assumes "rdy_ok rq st pr" and "st t \<noteq> K_RDY" and "s \<noteq> K_RDY" and "\<And>u. u \<noteq> t \<Longrightarrow> pr' u = pr u"
  shows "rdy_ok rq (st(t := s)) pr'"
  using assms unfolding rdy_ok_def by (metis fun_upd_apply)

lemma rdy_ok_prio: "rdy_ok rq st pr \<Longrightarrow> st t = K_RDY \<Longrightarrow> pr t < RHINO_CONFIG_PRI_MAX"
  unfolding rdy_ok_def using rq_wfD(4) [of rq "pr t"] by force

lemma rdy_ok_add:
  assumes "rdy_ok rq st pr" and "st t \<noteq> K_RDY" and "pr t < RHINO_CONFIG_PRI_MAX"
    and "rq' = rq_add_tail rq t (pr t) \<or> rq' = rq_add_head rq t (pr t)"
  shows "rdy_ok rq' (st(t := K_RDY)) pr"
proof -
  have "t \<notin> set (cur_list rq (pr t))" using assms by (simp add: rdy_ok_def)
  then have "rq_wf rq'" using assms by (auto simp: rdy_ok_def rq_add_tail_wf rq_add_head_wf)
  moreover have "u \<in> set (cur_list rq' p) \<longleftrightarrow> u \<in> set (cur_list rq p) \<or> u = t \<and> p = pr t" for u p
    using assms(4) by (auto split: if_splits)
  ultimately show ?thesis using assms(1,2) unfolding rdy_ok_def by auto
qed

lemma rdy_ok_rm:
  assumes "rdy_ok rq st pr" and "st t = K_RDY" and "st u = K_RDY" and "pr u \<noteq> pr t" and "s \<noteq> K_RDY"
    and "\<And>u. u \<noteq> t \<Longrightarrow> pr' u = pr u"
  obtains rq' where "rq_rm rq t (pr t) = Some rq'" and "rdy_ok rq' (st(t := s)) pr'"
    and "cur_list rq' = (cur_list rq)(pr t := remove1 t (cur_list rq (pr t)))"
proof -
  have t: "t \<in> set (cur_list rq (pr t))" and u: "cur_list rq (pr u) \<noteq> []" and wf: "rq_wf rq"
    using assms(1-3) unfolding rdy_ok_def by (auto, metis empty_iff empty_set)
  obtain rq' where rq': "rq_rm rq t (pr t) = Some rq'" "rq_wf rq'"
    "cur_list rq' = (cur_list rq)(pr t := remove1 t (cur_list rq (pr t)))"
    using rq_rm_total [OF wf t assms(4) u] by metis
  have "rdy_ok rq' (st(t := s)) pr'"
    unfolding rdy_ok_def
  proof (intro conjI allI)
    fix v p
    show "v \<in> set (cur_list rq' p) \<longleftrightarrow> (st(t := s)) v = K_RDY \<and> pr' v = p"
      using assms rq_wfD(3) [OF wf, of "pr t"] unfolding rq'(3) rdy_ok_def by (cases "v = t") auto
  qed (fact rq'(2))
  then show ?thesis using that rq' by blast
qed

section \<open>Block list facts\<close>

lemma blk_ok_rm:
  assumes "blk_ok wl pol st pr bo" and "\<not> pending s"
    and "\<And>u. u \<noteq> t \<Longrightarrow> pr' u = pr u" and "\<And>u. u \<noteq> t \<Longrightarrow> bo' u = bo u"
  shows "blk_ok (\<lambda>b. remove1 t (wl b)) pol (st(t := s)) pr' bo'"
proof -
  have d: "distinct (wl b)" for b using assms(1) by (simp add: blk_ok_def)
  have "map pr' (remove1 t (wl b)) = map pr (remove1 t (wl b))" for b
    using assms(3) d [of b] by (intro map_agree [of t]) auto
  moreover have "sorted (map pr (remove1 t (wl b)))" if "pol b = BLK_POLICY_PRI" for b
    using assms(1) that by (simp add: blk_ok_def)
  ultimately have "sorted (map pr' (remove1 t (wl b)))" if "pol b = BLK_POLICY_PRI" for b
    using that by metis
  then show ?thesis
    using assms(1,2,4) d unfolding blk_ok_def by auto
qed

lemma blk_ok_other:
  assumes "blk_ok wl pol st pr bo" and "\<not> pending (st t)" and "\<not> pending s"
    and "\<And>u. u \<noteq> t \<Longrightarrow> pr' u = pr u" and "\<And>u. u \<noteq> t \<Longrightarrow> bo' u = bo u"
  shows "blk_ok wl pol (st(t := s)) pr' bo'"
proof -
  have "remove1 t (wl b) = wl b" for b
    using assms(1,2) by (intro remove1_idem) (auto simp: blk_ok_def)
  then show ?thesis using blk_ok_rm [OF assms(1,3), of t pr' bo'] assms(4,5) by simp
qed

lemma blk_ok_same_pending:
  assumes "blk_ok wl pol st pr bo" and "pending s = pending (st t)"
  shows "blk_ok wl pol (st(t := s)) pr bo"
  using assms unfolding blk_ok_def by auto

interpretation pend_order: ordered_insert "pr :: tid \<Rightarrow> nat" "\<lambda>t. ins_before pr (pr t) t" for pr
  by unfold_locales simp

lemma blk_ok_add:
  assumes "blk_ok wl pol st pr bo" and "\<not> pending (st t)" and "pending s"
    and xs: "xs = (if pol b = BLK_POLICY_FIFO then wl b @ [t] else ins_before pr (pr t) t (wl b))"
  shows "blk_ok (wl(b := xs)) pol (st(t := s)) pr (bo(t := Some b))"
proof -
  have notin: "t \<notin> set (wl c)" for c using assms by (auto simp: blk_ok_def)
  have "set xs = insert t (set (wl b))" and "distinct xs" and
    "pol b = BLK_POLICY_PRI \<Longrightarrow> sorted (map pr xs)"
    using assms(1) notin [of b] unfolding xs
    by (auto simp: blk_ok_def pend_order.ins_set pend_order.ins_distinct pend_order.ins_sorted)
  then show ?thesis
    using assms(1-3) notin unfolding blk_ok_def by auto
qed

section \<open>Tick list facts\<close>

lemma tick_ok_rm:
  assumes "tick_ok tq left th st" and "\<not> sleeping s" and "\<And>u. u \<noteq> t \<Longrightarrow> left' u = left u"
  shows "tick_ok (remove1 t tq) left' (th(t := False)) (st(t := s))"
proof -
  have d: "distinct tq" using assms(1) by (simp add: tick_ok_def)
  have "map left' (remove1 t tq) = map left (remove1 t tq)"
    using assms(3) d by (intro map_agree [of t]) auto
  moreover have "sorted (map left (remove1 t tq))" using assms(1) by (simp add: tick_ok_def)
  ultimately have "sorted (map left' (remove1 t tq))" by metis
  then show ?thesis
    using assms d unfolding tick_ok_def by auto
qed

lemma tick_ok_not_listed:
  assumes "tick_ok tq left th st" and "\<not> th t" and "\<not> sleeping s"
  shows "tick_ok tq left th (st(t := s))"
  using assms unfolding tick_ok_def by auto

lemma tick_ok_same:
  assumes "tick_ok tq left th st" and "pending s = pending (st t)" and "sleeping s = sleeping (st t)"
  shows "tick_ok tq left th (st(t := s))"
  using assms unfolding tick_ok_def by auto

interpretation tick_order: ordered_insert "left :: tid \<Rightarrow> u32" "\<lambda>t. ins_before left (left t) t" for left
  by unfold_locales simp

lemma tick_ok_add:
  assumes "tick_ok tq left th st" and "\<not> th t" and "pending s \<or> sleeping s"
    and "\<And>u. u \<noteq> t \<Longrightarrow> left' u = left u"
  shows "tick_ok (ins_before left' (left' t) t tq) left' (th(t := True)) (st(t := s))"
proof -
  have notin: "t \<notin> set tq" using assms by (auto simp: tick_ok_def)
  have "map left' tq = map left tq"
    using assms(4) notin by (intro map_agree [of t]) auto
  moreover have "sorted (map left tq)" using assms(1) by (simp add: tick_ok_def)
  ultimately have "sorted (map left' (ins_before left' (left' t) t tq))"
    by (metis tick_order.ins_sorted)
  then show ?thesis
    using assms notin unfolding tick_ok_def
    by (auto simp: tick_order.ins_set tick_order.ins_distinct)
qed

section \<open>What the invariant depends on\<close>

definition view where
  "view k = (g_ready_queue k, task_state \<circ> tasks k, prio \<circ> tasks k, b_prio \<circ> tasks k,
     suspend_count \<circ> tasks k, blk_obj \<circ> tasks k, tick_head \<circ> tasks k, ticks_left k, g_tick_head k,
     blk_list \<circ> objs k, obj_type \<circ> objs k, blk_policy \<circ> objs k, mutex_task \<circ> mutexes k,
     mutex_next \<circ> mutexes k, owner_nested \<circ> mutexes k, mutex_list \<circ> tasks k, mutex_head k,
     task_head k, sem_count \<circ> sems k, g_idle_task_spawned k, k_fault k)"

lemma inv_view:
  assumes "view k' = view k"
  shows "rdy_inv k' = rdy_inv k" "blk_inv k' = blk_inv k" "tick_inv k' = tick_inv k"
    "mtx_inv k' = mtx_inv k" "pi_inv k' = pi_inv k" "idle_inv k' = idle_inv k"
    "misc_inv k' = misc_inv k" "tick_pos k' = tick_pos k" "dead_ok k' = dead_ok k" "kernel_inv k' = kernel_inv k"
proof -
  have "tick_head (tasks k' t) = tick_head (tasks k t)" for t
    using assms by (simp add: view_def fun_eq_iff)
  moreover have "ticks_left k' = ticks_left k" using assms by (simp add: view_def)
  ultimately have pos: "tick_pos k' = tick_pos k" by (simp add: tick_pos_def)
  have "obj_type (objs k' b) = obj_type (objs k b)" "waiters k' b = waiters k b" for b
    using assms by (simp_all add: view_def fun_eq_iff)
  moreover have "state_of k' t = state_of k t" "task_head k' = task_head k" for t
    using assms by (simp_all add: view_def fun_eq_iff)
  ultimately have "dead_ok k' = dead_ok k" by (simp add: dead_ok_def)
  with pos show "rdy_inv k' = rdy_inv k" "blk_inv k' = blk_inv k" "tick_inv k' = tick_inv k"
    "mtx_inv k' = mtx_inv k" "pi_inv k' = pi_inv k" "idle_inv k' = idle_inv k"
    "misc_inv k' = misc_inv k" "tick_pos k' = tick_pos k" "dead_ok k' = dead_ok k" "kernel_inv k' = kernel_inv k"
    using assms by (simp_all add: view_def inv_defs kernel_inv_def)
qed

lemma view_upd [simp]:
  "view (k\<lparr>g_sys_stat := a1\<rparr>) = view k" "view (k\<lparr>g_sched_lock := a2\<rparr>) = view k"
  "view (k\<lparr>g_intrpt_nested_level := a3\<rparr>) = view k" "view (k\<lparr>g_preferred_ready_task := a4\<rparr>) = view k"
  "view (k\<lparr>g_active_task := a5\<rparr>) = view k" "view (k\<lparr>g_sys_time_tick := a6\<rparr>) = view k"
  "view (k\<lparr>sem_head := a7\<rparr>) = view k" "view (k\<lparr>g_err := a9\<rparr>) = view k"
  "view (k\<lparr>g_res_list := c1\<rparr>) = view k" "view (k\<lparr>mm_freed := c2\<rparr>) = view k"
  "view (k\<lparr>g_intrpt_masked := b1\<rparr>) = view k"
  "view (k\<lparr>tasks := (tasks k)(t := (tasks k t)\<lparr>blk_state := b2\<rparr>)\<rparr>) = view k"
  "view (k\<lparr>tasks := (tasks k)(t := (tasks k t)\<lparr>msg := b3\<rparr>)\<rparr>) = view k"
  "view (k\<lparr>tasks := (tasks k)(t := (tasks k t)\<lparr>bq_msg := b4\<rparr>)\<rparr>) = view k"
  "view (k\<lparr>tasks := (tasks k)(t := (tasks k t)\<lparr>task_sem_obj := b5\<rparr>)\<rparr>) = view k"
  by (simp_all add: view_def ticks_left_def fun_eq_iff)

end
