(* ===== verification/Pend.thy ===== *)
theory Pend
  imports Kernel_Inv
begin

text \<open>
  Waiting: the tick list primitives of \<^verbatim>\<open>kernel/rhino/core/k_tick.c\<close> (the tick itself is in
  \<^verbatim>\<open>Tick\<close>) and the block list primitives of \<^verbatim>\<open>k_pend.c\<close>.  For each primitive: which part of the
  state it changes, and that it keeps the ready, block and tick lists consistent.
\<close>

section \<open>Operations\<close>

definition tick_list_pri_insert :: "tid \<Rightarrow> 'a kernel_scheme \<Rightarrow> 'a kernel_scheme" where
  "tick_list_pri_insert t k =
     k\<lparr>g_tick_head := ins_before (ticks_left k) (tick_remain (tasks k t)) t (g_tick_head k)\<rparr>"

definition tick_list_insert :: "tid \<Rightarrow> u32 \<Rightarrow> 'a kernel_scheme \<Rightarrow> 'a kernel_scheme" where
  "tick_list_insert t time k =
     (if time > 0 then
        upd_task t (\<lambda>c. c\<lparr>tick_head := True\<rparr>)
          (tick_list_pri_insert t
            (upd_task t (\<lambda>c. c\<lparr>tick_match := g_tick_count k + time, tick_remain := time\<rparr>) k))
      else k)"

definition tick_list_rm :: "tid \<Rightarrow> 'a kernel_scheme \<Rightarrow> 'a kernel_scheme" where
  "tick_list_rm t k =
     (if tick_head (tasks k t) then
        upd_task t (\<lambda>c. c\<lparr>tick_head := False\<rparr>) (k\<lparr>g_tick_head := remove1 t (g_tick_head k)\<rparr>)
      else k)"

definition pend_list_add :: "oid \<Rightarrow> tid \<Rightarrow> 'a kernel_scheme \<Rightarrow> 'a kernel_scheme" where
  "pend_list_add b t k =
     upd_obj b (\<lambda>h. h\<lparr>blk_list := ins_before (prio_of k) (prio_of k t) t (blk_list h)\<rparr>) k"

text \<open>The switch shared by \<open>pend_task_wakeup\<close> and \<open>pend_task_rm\<close>.\<close>

definition pend_leave :: "tid \<Rightarrow> 'a kernel_scheme \<Rightarrow> 'a kernel_scheme" where
  "pend_leave t k =
     (case state_of k t of
        K_PEND \<Rightarrow> upd_task t (\<lambda>c. c\<lparr>task_state := K_RDY\<rparr>) (ready_list_add t (klist_rm_task t k))
      | K_PEND_SUSPENDED \<Rightarrow> upd_task t (\<lambda>c. c\<lparr>task_state := K_SUSPENDED\<rparr>) (klist_rm_task t k)
      | _ \<Rightarrow> k_err_proc RHINO_SYS_FATAL_ERR k)"

definition pend_task_wakeup :: "tid \<Rightarrow> 'a kernel_scheme \<Rightarrow> 'a kernel_scheme" where
  "pend_task_wakeup t k =
     upd_task t (\<lambda>c. c\<lparr>blk_state := BLK_FINISH, blk_obj := None\<rparr>) (tick_list_rm t (pend_leave t k))"

definition pend_task_rm :: "tid \<Rightarrow> 'a kernel_scheme \<Rightarrow> 'a kernel_scheme" where
  "pend_task_rm t k =
     upd_task t (\<lambda>c. c\<lparr>blk_state := BLK_DEL, blk_obj := None\<rparr>) (tick_list_rm t (pend_leave t k))"

definition pend_to_blk_obj :: "oid \<Rightarrow> tid \<Rightarrow> u32 \<Rightarrow> 'a kernel_scheme \<Rightarrow> 'a kernel_scheme" where
  "pend_to_blk_obj b t timeout k =
     (let k1 = upd_task t (\<lambda>c. c\<lparr>blk_obj := Some b\<rparr>) k;
          k2 = (if timeout \<noteq> RHINO_WAIT_FOREVER then tick_list_insert t timeout k1 else k1);
          k3 = upd_task t (\<lambda>c. c\<lparr>task_state := K_PEND\<rparr>) k2;
          k4 = ready_list_rm t k3
      in if blk_policy (objs k4 b) = BLK_POLICY_FIFO
         then upd_obj b (\<lambda>h. h\<lparr>blk_list := blk_list h @ [t]\<rparr>) k4
         else pend_list_add b t k4)"

definition pend_list_reorder :: "tid \<Rightarrow> 'a kernel_scheme \<Rightarrow> 'a kernel_scheme" where
  "pend_list_reorder t k =
     (case blk_obj (tasks k t) of
        None \<Rightarrow> k_crash k
      | Some b \<Rightarrow>
          if blk_policy (objs k b) = BLK_POLICY_PRI then pend_list_add b t (klist_rm_task t k) else k)"

definition pend_state_end_proc :: "tid \<Rightarrow> 'a kernel_scheme \<Rightarrow> kstat \<times> 'a kernel_scheme" where
  "pend_state_end_proc t k =
     (case blk_state (tasks k t) of
        BLK_FINISH \<Rightarrow> (RHINO_SUCCESS, k)
      | BLK_ABORT \<Rightarrow> (RHINO_BLK_ABORT, k)
      | BLK_TIMEOUT \<Rightarrow> (RHINO_BLK_TIMEOUT, k)
      | BLK_DEL \<Rightarrow> (RHINO_BLK_DEL, k)
      | _ \<Rightarrow> (RHINO_BLK_INV_STATE, k_err_proc RHINO_BLK_INV_STATE k))"

text \<open>
  The loop \<open>while (!is_klist_empty(blk_list_head)) f(first)\<close> that empties a block list.  The number of
  waiters at the start bounds the rounds when every round takes one task off; running out of rounds
  is a loop that does not end.
\<close>

fun while_waiters :: "(tid \<Rightarrow> 'a kernel_scheme \<Rightarrow> 'a kernel_scheme) \<Rightarrow> oid \<Rightarrow> nat \<Rightarrow> 'a kernel_scheme \<Rightarrow> 'a kernel_scheme" where
  "while_waiters f b 0 k = (if waiters k b = [] then k else k_crash k)"
| "while_waiters f b (Suc n) k =
     (case waiters k b of [] \<Rightarrow> k | t # _ \<Rightarrow> while_waiters f b n (f t k))"

definition for_waiters :: "(tid \<Rightarrow> 'a kernel_scheme \<Rightarrow> 'a kernel_scheme) \<Rightarrow> oid \<Rightarrow> 'a kernel_scheme \<Rightarrow> 'a kernel_scheme" where
  "for_waiters f b k = while_waiters f b (length (waiters k b)) k"

section \<open>Frames\<close>

lemma pend_env [simp]:
  "env (tick_list_insert t time k) = env k" "env (tick_list_rm t k) = env k"
  "env (pend_list_add b t k) = env k" "env (pend_leave t k) = env k"
  "env (pend_task_wakeup t k) = env k" "env (pend_task_rm t k) = env k"
  "env (pend_to_blk_obj b t timeout k) = env k" "env (pend_list_reorder t k) = env k"
  by (simp_all add: tick_list_insert_def tick_list_pri_insert_def tick_list_rm_def pend_list_add_def
      pend_leave_def pend_task_wakeup_def pend_task_rm_def pend_to_blk_obj_def pend_list_reorder_def
      Let_def split: task_stat_t.split option.split)

declare pend_env [unfolded env_frame, simp]

lemma ticks_left_upd [simp]:
  "ticks_left (k\<lparr>g_ready_queue := a\<rparr>) = ticks_left k" "ticks_left (k\<lparr>objs := c\<rparr>) = ticks_left k"
  "ticks_left (k\<lparr>g_tick_head := b\<rparr>) = ticks_left k" "ticks_left (k\<lparr>mutexes := d\<rparr>) = ticks_left k"
  "ticks_left (k\<lparr>g_err := e\<rparr>) = ticks_left k" "ticks_left (k\<lparr>k_fault := g\<rparr>) = ticks_left k"
  by (auto simp: ticks_left_def fun_eq_iff)

lemma ticks_left_task_upd [simp]:
  "ticks_left (k\<lparr>tasks := (tasks k')(t := c)\<rparr>) =
     (ticks_left (k\<lparr>tasks := tasks k'\<rparr>))(t := tick_match c - g_tick_count k)"
  by (auto simp: ticks_left_def fun_eq_iff)

lemma tick_list_rm_proj [simp]:
  "task_state (tasks (tick_list_rm t k) u) = task_state (tasks k u)"
  "prio (tasks (tick_list_rm t k) u) = prio (tasks k u)"
  "b_prio (tasks (tick_list_rm t k) u) = b_prio (tasks k u)"
  "blk_obj (tasks (tick_list_rm t k) u) = blk_obj (tasks k u)"
  "blk_state (tasks (tick_list_rm t k) u) = blk_state (tasks k u)"
  "mutex_list (tasks (tick_list_rm t k) u) = mutex_list (tasks k u)"
  "suspend_count (tasks (tick_list_rm t k) u) = suspend_count (tasks k u)"
  "tick_match (tasks (tick_list_rm t k) u) = tick_match (tasks k u)"
  "tick_head (tasks (tick_list_rm t k) u) \<longleftrightarrow> u \<noteq> t \<and> tick_head (tasks k u)"
  "mm_alloc_flag (tasks (tick_list_rm t k) u) = mm_alloc_flag (tasks k u)"
  "msg (tasks (tick_list_rm t k) u) = msg (tasks k u)"
  "ticks_left (tick_list_rm t k) u = ticks_left k u"
  "objs (tick_list_rm t k) = objs k" "mutexes (tick_list_rm t k) = mutexes k"
  "g_ready_queue (tick_list_rm t k) = g_ready_queue k"
  "k_fault (tick_list_rm t k) = k_fault k" "g_err (tick_list_rm t k) = g_err k"
  by (auto simp: tick_list_rm_def ticks_left_def)

lemma tick_list_rm_list:
  "tick_inv k \<Longrightarrow> g_tick_head (tick_list_rm t k) = remove1 t (g_tick_head k)"
  by (auto simp: tick_list_rm_def tick_inv_def tick_ok_def intro!: remove1_idem [symmetric])

text \<open>The state a waiting task has after its wait has ended.\<close>

fun woken :: "task_stat_t \<Rightarrow> task_stat_t" where
  "woken K_PEND = K_RDY"
| "woken K_PEND_SUSPENDED = K_SUSPENDED"
| "woken K_SLEEP = K_RDY"
| "woken K_SLEEP_SUSPENDED = K_SUSPENDED"
| "woken s = s"

lemma woken_simps [simp]:
  "live (woken s) = live s" "\<not> pending (woken s)" "\<not> sleeping (woken s)"
  by (cases s; simp)+

lemma pend_leave_proj [simp]:
  assumes "pending (state_of k t)"
  shows "tasks (pend_leave t k) = (tasks k)(t := (tasks k t)\<lparr>task_state := woken (state_of k t)\<rparr>)"
    and "objs (pend_leave t k) = objs (klist_rm_task t k)"
    and "mutexes (pend_leave t k) = mutexes k" and "g_tick_head (pend_leave t k) = g_tick_head k"
    and "k_fault (pend_leave t k) = k_fault k" and "g_err (pend_leave t k) = g_err k"
  using assms by (auto simp: pend_leave_def pending_def)

lemma pend_leave_rq:
  "g_ready_queue (pend_leave t k) =
     (if state_of k t = K_PEND then g_ready_queue (ready_list_add t k) else g_ready_queue k)"
  by (auto simp: pend_leave_def sched_defs split: task_stat_t.split)

section \<open>Leaving and entering a wait\<close>

text \<open>The invariant without the parts about mutexes, elapsed waits and deleted objects.\<close>

definition base_inv :: "'a kernel_scheme \<Rightarrow> bool" where
  "base_inv k \<longleftrightarrow> rdy_inv k \<and> blk_inv k \<and> tick_inv k \<and> idle_inv k \<and> misc_inv k \<and> \<not> k_fault k"

lemma kernel_inv_base: "kernel_inv k \<longleftrightarrow> base_inv k \<and> mtx_inv k \<and> pi_inv k \<and> tick_pos k \<and> dead_ok k"
  by (auto simp: base_inv_def kernel_inv_def)

lemma base_invD:
  assumes "base_inv k"
  shows "rdy_inv k" "blk_inv k" "tick_inv k" "idle_inv k" "misc_inv k" "\<not> k_fault k"
  using assms by (simp_all add: base_inv_def)

lemma idle_invD:
  assumes "idle_inv k"
  shows "state_of k g_idle_task = K_RDY" "prio_of k g_idle_task = RHINO_IDLE_PRI"
    and "b_prio (tasks k g_idle_task) = RHINO_IDLE_PRI"
    and "live (state_of k t) \<Longrightarrow> t \<noteq> g_idle_task \<Longrightarrow> prio_of k t < RHINO_IDLE_PRI"
    and "live (state_of k t) \<Longrightarrow> t \<noteq> g_idle_task \<Longrightarrow> b_prio (tasks k t) < RHINO_IDLE_PRI"
  using assms by (auto simp: idle_inv_def idle_ok_def)

lemma live_prio: "idle_inv k \<Longrightarrow> live (state_of k t) \<Longrightarrow> prio_of k t < RHINO_CONFIG_PRI_MAX"
  using idle_invD(2,4) [of k] by (cases "t = g_idle_task") force+

lemma ready_list_add_rdy:
  assumes "rdy_inv k" and "state_of k t \<noteq> K_RDY" and "prio_of k t < RHINO_CONFIG_PRI_MAX"
  shows "rdy_ok (g_ready_queue (ready_list_add t k)) ((task_state \<circ> tasks k)(t := K_RDY)) (prio \<circ> tasks k)"
    and "rdy_ok (g_ready_queue (ready_list_add_tail t k)) ((task_state \<circ> tasks k)(t := K_RDY)) (prio \<circ> tasks k)"
  using assms by (auto simp: rdy_inv_def sched_defs intro: rdy_ok_add)

lemma leave_wait_base:
  assumes inv: "base_inv k" and wait: "pending (state_of k t) \<or> sleeping (state_of k t)"
    and st: "task_state \<circ> tasks k' = (task_state \<circ> tasks k)(t := woken (state_of k t))"
    and pr: "prio \<circ> tasks k' = prio \<circ> tasks k" "b_prio \<circ> tasks k' = b_prio \<circ> tasks k"
      "suspend_count \<circ> tasks k' = suspend_count \<circ> tasks k"
    and bo: "\<And>u. u \<noteq> t \<Longrightarrow> blk_obj (tasks k' u) = blk_obj (tasks k u)"
    and tk: "tick_head \<circ> tasks k' = (tick_head \<circ> tasks k)(t := False)"
      "g_tick_head k' = remove1 t (g_tick_head k)" "\<And>u. u \<noteq> t \<Longrightarrow> ticks_left k' u = ticks_left k u"
    and wl: "blk_list \<circ> objs k' = (\<lambda>b. remove1 t (waiters k b))" "obj_type \<circ> objs k' = obj_type \<circ> objs k"
      "blk_policy \<circ> objs k' = blk_policy \<circ> objs k" "mutex_task \<circ> mutexes k' = mutex_task \<circ> mutexes k"
    and rq: "g_ready_queue k' = (if woken (state_of k t) = K_RDY then g_ready_queue (ready_list_add t k) else g_ready_queue k)"
    and glob: "task_head k' = task_head k" "g_idle_task_spawned k' = g_idle_task_spawned k" "k_fault k' = k_fault k"
      "sems k' = sems k"
  shows "base_inv k'"
proof -
  note parts = base_invD [OF inv]
  have live: "live (state_of k t)" and nrdy: "state_of k t \<noteq> K_RDY"
    using wait pending_live sleeping_live by auto
  have "rdy_inv k'"
  proof (cases "woken (state_of k t) = K_RDY")
    case True
    then show ?thesis
      using ready_list_add_rdy(1) [OF parts(1) nrdy live_prio [OF parts(4) live]]
      by (simp add: rdy_inv_def st pr rq)
  next
    case False
    then show ?thesis
      using parts(1) nrdy by (auto simp: rdy_inv_def st pr rq intro: rdy_ok_other)
  qed
  moreover have "blk_inv k'"
    using blk_ok_rm [OF parts(2) [unfolded blk_inv_def], of "woken (state_of k t)" t "prio \<circ> tasks k" "blk_obj \<circ> tasks k'"] bo
    by (simp add: blk_inv_def st pr wl)
  moreover have "tick_inv k'"
    using parts(3) tk(3) unfolding tick_inv_def st tk(1,2) by (intro tick_ok_rm) simp_all
  moreover have "idle_inv k'"
    using parts(4) nrdy live unfolding idle_inv_def st pr wl glob idle_ok_def by auto
  moreover have "misc_inv k'"
    using parts(5) live wait unfolding misc_inv_def st pr wl glob susp_ok_def hdr_ok_def
    by (auto simp: pending_def sleeping_def)
  ultimately show ?thesis using parts(6) glob(3) by (simp add: base_inv_def)
qed

lemma pend_task_wakeup_base:
  assumes "base_inv k" and "pending (state_of k t)"
  shows "base_inv (pend_task_wakeup t k)"
proof (rule leave_wait_base [OF assms(1)])
  show "g_tick_head (pend_task_wakeup t k) = remove1 t (g_tick_head k)"
    using assms base_invD(3) [OF assms(1)]
    by (auto simp: pend_task_wakeup_def tick_list_rm_def tick_inv_def tick_ok_def intro!: remove1_idem [symmetric])
  show "g_ready_queue (pend_task_wakeup t k) =
    (if woken (state_of k t) = K_RDY then g_ready_queue (ready_list_add t k) else g_ready_queue k)"
    using assms(2) by (auto simp: pend_task_wakeup_def pend_leave_rq pending_def)
qed (use assms in \<open>auto simp: pend_task_wakeup_def fun_eq_iff ticks_left_def\<close>)

lemma base_inv_view: "view k' = view k \<Longrightarrow> base_inv k' = base_inv k"
  using inv_view [of k' k] by (simp add: base_inv_def view_def)

lemma ktask_blk_upd: "c\<lparr>blk_state := s, blk_obj := b\<rparr> = c\<lparr>blk_obj := b, blk_state := (s :: blk_state_t)\<rparr>"
  for c :: ktask
  by (cases c) simp

lemma pend_task_rm_eq:
  "pend_task_rm t k = upd_task t (\<lambda>c. c\<lparr>blk_state := BLK_DEL\<rparr>) (pend_task_wakeup t k)"
  by (simp add: pend_task_rm_def pend_task_wakeup_def ktask_blk_upd)

lemma pend_task_rm_view: "view (pend_task_rm t k) = view (pend_task_wakeup t k)"
  by (simp add: pend_task_rm_eq)

lemma pend_task_rm_base:
  "base_inv k \<Longrightarrow> pending (state_of k t) \<Longrightarrow> base_inv (pend_task_rm t k)"
  using pend_task_wakeup_base base_inv_view [OF pend_task_rm_view] by blast

text \<open>Removing the running task from the ready queue never empties it: the idle task stays.\<close>

lemma ready_list_rm_rdy:
  assumes "rdy_inv k" "idle_inv k" and "state_of k t = K_RDY" and "t \<noteq> g_idle_task" and "s \<noteq> K_RDY"
    and "prio_of k' t = prio_of k t" "g_ready_queue k' = g_ready_queue k"
  obtains rq where "ready_list_rm t k' = k'\<lparr>g_ready_queue := rq\<rparr>"
    and "rdy_ok rq ((task_state \<circ> tasks k)(t := s)) (prio \<circ> tasks k)"
    and "cur_list rq = (cur_list (g_ready_queue k))(prio_of k t := remove1 t (cur_list (g_ready_queue k) (prio_of k t)))"
proof -
  have "prio_of k t < RHINO_IDLE_PRI" using idle_invD(4) [OF assms(2)] assms(3,4) by simp
  then have "(prio \<circ> tasks k) g_idle_task \<noteq> (prio \<circ> tasks k) t" using idle_invD(2) [OF assms(2)] by simp
  then show ?thesis
    using rdy_ok_rm [OF assms(1) [unfolded rdy_inv_def], of t g_idle_task s "prio \<circ> tasks k"]
      that assms idle_invD(1) [OF assms(2)]
    by (metis (no_types, lifting) comp_apply option.simps(5) ready_list_rm_def)
qed

lemma pend_to_blk_obj_base:
  assumes inv: "base_inv k" and t: "state_of k t = K_RDY" "t \<noteq> g_idle_task"
    and b: "obj_type (objs k b) = RHINO_SEM_OBJ_TYPE \<Longrightarrow> sem_count (sems k b) = 0"
  shows "base_inv (pend_to_blk_obj b t timeout k)"
proof -
  note parts = base_invD [OF inv]
  have nt: "\<not> tick_head (tasks k t)"
    using parts(3) t(1) by (force simp: tick_inv_def tick_ok_def)
  define k1 where "k1 = upd_task t (\<lambda>c. c\<lparr>blk_obj := Some b\<rparr>) k"
  define k2 where "k2 = (if timeout \<noteq> RHINO_WAIT_FOREVER then tick_list_insert t timeout k1 else k1)"
  define k3 where "k3 = upd_task t (\<lambda>c. c\<lparr>task_state := K_PEND\<rparr>) k2"
  have k3: "task_state \<circ> tasks k3 = (task_state \<circ> tasks k)(t := K_PEND)" "prio \<circ> tasks k3 = prio \<circ> tasks k"
    "b_prio \<circ> tasks k3 = b_prio \<circ> tasks k" "suspend_count \<circ> tasks k3 = suspend_count \<circ> tasks k"
    "blk_obj \<circ> tasks k3 = (blk_obj \<circ> tasks k)(t := Some b)" "objs k3 = objs k" "mutexes k3 = mutexes k"
    "g_ready_queue k3 = g_ready_queue k" "k_fault k3 = k_fault k" "env k3 = env k"
    unfolding k3_def k2_def k1_def
    by (auto simp: tick_list_insert_def tick_list_pri_insert_def fun_eq_iff)
  have pr3: "prio_of k3 u = prio_of k u" for u using fun_cong [OF k3(2), of u] by simp
  have tick: "tick_ok (g_tick_head k3) (ticks_left k3) (tick_head \<circ> tasks k3) (task_state \<circ> tasks k3)"
  proof (cases "timeout \<noteq> RHINO_WAIT_FOREVER \<and> timeout > 0")
    case True
    then have "g_tick_head k3 = ins_before (ticks_left k3) (ticks_left k3 t) t (g_tick_head k)"
      "tick_head \<circ> tasks k3 = (tick_head \<circ> tasks k)(t := True)" "ticks_left k3 t = timeout"
      "\<And>u. u \<noteq> t \<Longrightarrow> ticks_left k3 u = ticks_left k u"
      unfolding k3_def k2_def k1_def
      by (auto simp: tick_list_insert_def tick_list_pri_insert_def ticks_left_def fun_eq_iff
          intro!: arg_cong [where f = "\<lambda>key. ins_before key _ _ _"])
    then show ?thesis
      using tick_ok_add [OF parts(3) [unfolded tick_inv_def], of t K_PEND "ticks_left k3"] nt True
      by (simp add: k3(1))
  next
    case False
    then have "k3 = upd_task t (\<lambda>c. c\<lparr>blk_obj := Some b, task_state := K_PEND\<rparr>) k"
      by (auto simp: k3_def k2_def k1_def tick_list_insert_def)
    then have "g_tick_head k3 = g_tick_head k" "ticks_left k3 = ticks_left k" "tick_head \<circ> tasks k3 = tick_head \<circ> tasks k"
      by (auto simp: ticks_left_def fun_eq_iff)
    then show ?thesis
      using tick_ok_not_listed [OF parts(3) [unfolded tick_inv_def], of t K_PEND] nt by (simp add: k3(1))
  qed
  obtain rq where rq: "ready_list_rm t k3 = k3\<lparr>g_ready_queue := rq\<rparr>"
    "rdy_ok rq ((task_state \<circ> tasks k)(t := K_PEND)) (prio \<circ> tasks k)"
    by (rule ready_list_rm_rdy [OF parts(1,4) t, of K_PEND k3]) (simp_all add: k3(8) pr3)
  define xs where "xs = (if blk_policy (objs k b) = BLK_POLICY_FIFO then waiters k b @ [t]
      else ins_before (prio_of k) (prio_of k t) t (waiters k b))"
  have res: "pend_to_blk_obj b t timeout k =
      upd_obj b (\<lambda>h. h\<lparr>blk_list := xs\<rparr>) (k3\<lparr>g_ready_queue := rq\<rparr>)"
    unfolding pend_to_blk_obj_def Let_def k1_def [symmetric] k2_def [symmetric] k3_def [symmetric] rq(1)
    by (simp add: k3(6) pr3 xs_def pend_list_add_def)
  let ?k = "pend_to_blk_obj b t timeout k"
  have env: "task_head ?k = task_head k" "g_idle_task_spawned ?k = g_idle_task_spawned k"
    "sems ?k = sems k" by simp_all
  have st: "task_state \<circ> tasks ?k = (task_state \<circ> tasks k)(t := K_PEND)" and "prio \<circ> tasks ?k = prio \<circ> tasks k"
    and "b_prio \<circ> tasks ?k = b_prio \<circ> tasks k" "suspend_count \<circ> tasks ?k = suspend_count \<circ> tasks k"
    and bo: "blk_obj \<circ> tasks ?k = (blk_obj \<circ> tasks k)(t := Some b)"
    and ob: "blk_list \<circ> objs ?k = (blk_list \<circ> objs k)(b := xs)" "obj_type \<circ> objs ?k = obj_type \<circ> objs k"
      "blk_policy \<circ> objs ?k = blk_policy \<circ> objs k" "mutexes ?k = mutexes k"
    and "g_ready_queue ?k = rq" "k_fault ?k = k_fault k"
    using k3 by (simp_all add: res)
  note proj = this
  have "rdy_inv ?k" using rq(2) by (simp add: rdy_inv_def proj)
  moreover have "blk_inv ?k"
    unfolding blk_inv_def proj
    by (rule blk_ok_add [OF parts(2) [unfolded blk_inv_def]]) (simp_all add: t xs_def comp_def)
  moreover have "tick_inv ?k" using tick by (simp add: tick_inv_def res)
  moreover have "idle_inv ?k"
    using parts(4) t unfolding idle_inv_def proj env idle_ok_def by simp
  moreover have "misc_inv ?k"
    using parts(5) t b unfolding misc_inv_def proj env susp_ok_def hdr_ok_def by auto
  ultimately show ?thesis using parts(6) proj by (simp add: base_inv_def)
qed

end
