(* ===== verification/Prio.thy ===== *)
theory Prio
  imports Pend
begin

text \<open>
  Priorities and priority inheritance: \<open>mutex_pri_limit\<close>, \<open>mutex_pri_look\<close>, \<open>mutex_release\<close> and
  \<open>mutex_task_pri_reset\<close> of \<^verbatim>\<open>kernel/rhino/core/k_mutex.c\<close> and the loop of \<open>task_pri_change\<close> of
  \<^verbatim>\<open>k_task.c\<close>, which passes a changed priority on along the chain of mutex owners.  The theorems say
  what the two searches compute, that the loop ends within one round for each task, and that it
  re-establishes the inheritance rule \<open>pi_inv\<close>.
\<close>

section \<open>Operations\<close>

text \<open>The walks along \<open>mutex_list\<close> pointers carry a bound; \<open>None\<close> is a walk that exceeds it.\<close>

fun mutex_pri_limit_loop :: "'a kernel_scheme \<Rightarrow> nat \<Rightarrow> oid option \<Rightarrow> nat \<Rightarrow> nat \<Rightarrow> nat option" where
  "mutex_pri_limit_loop k n None pri high_pri = Some high_pri"
| "mutex_pri_limit_loop k 0 (Some m) pri high_pri = None"
| "mutex_pri_limit_loop k (Suc n) (Some m) pri high_pri =
     (let pri = (case waiters k m of [] \<Rightarrow> pri | first_blk_task # _ \<Rightarrow> prio_of k first_blk_task);
          high_pri = (if pri < high_pri then pri else high_pri)
      in mutex_pri_limit_loop k n (mutex_next (mutexes k m)) pri high_pri)"

definition mutex_pri_limit :: "tid \<Rightarrow> nat \<Rightarrow> 'a kernel_scheme \<Rightarrow> nat option" where
  "mutex_pri_limit t pri k =
     mutex_pri_limit_loop k (length (mutex_head k)) (mutex_list (tasks k t)) pri pri"

text \<open>\<open>prev\<close> points at the list field of the task or of a mutex.\<close>

datatype (plugins only: code size) mutex_ptr = Task_field tid | Mutex_field oid

fun ptr_get :: "mutex_ptr \<Rightarrow> 'a kernel_scheme \<Rightarrow> oid option" where
  "ptr_get (Task_field t) k = mutex_list (tasks k t)"
| "ptr_get (Mutex_field m) k = mutex_next (mutexes k m)"

fun ptr_set :: "mutex_ptr \<Rightarrow> oid option \<Rightarrow> 'a kernel_scheme \<Rightarrow> 'a kernel_scheme" where
  "ptr_set (Task_field t) v k = upd_task t (\<lambda>c. c\<lparr>mutex_list := v\<rparr>) k"
| "ptr_set (Mutex_field m) v k = upd_mutex m (\<lambda>c. c\<lparr>mutex_next := v\<rparr>) k"

fun mutex_pri_look_loop :: "nat \<Rightarrow> mutex_ptr \<Rightarrow> oid option \<Rightarrow> nat \<Rightarrow> nat \<Rightarrow> 'a kernel_scheme \<Rightarrow>
    (nat \<times> 'a kernel_scheme) option" where
  "mutex_pri_look_loop 0 prev rel pri new_pri k =
     (if ptr_get prev k = None then Some (new_pri, k) else None)"
| "mutex_pri_look_loop (Suc n) prev rel pri new_pri k =
     (case ptr_get prev k of
        None \<Rightarrow> Some (new_pri, k)
      | Some m \<Rightarrow>
          if Some m = rel
          then mutex_pri_look_loop n prev rel pri new_pri (ptr_set prev (mutex_next (mutexes k m)) k)
          else
            let pri = (case waiters k m of [] \<Rightarrow> pri | first_blk_task # _ \<Rightarrow> prio_of k first_blk_task);
                new_pri = (if new_pri > pri then pri else new_pri)
            in mutex_pri_look_loop n (Mutex_field m) rel pri new_pri k)"

definition mutex_pri_look :: "tid \<Rightarrow> oid option \<Rightarrow> 'a kernel_scheme \<Rightarrow> (nat \<times> 'a kernel_scheme) option" where
  "mutex_pri_look t mutex_rel k =
     (let new_pri = b_prio (tasks k t)
      in mutex_pri_look_loop (length (mutex_head k)) (Task_field t) mutex_rel new_pri new_pri k)"

text \<open>
  The \<open>do ... while\<close> loop of \<open>task_pri_change\<close>; each round changes one task and either stops or goes
  on with the owner of the mutex that task waits for.
\<close>

fun task_pri_change_loop :: "nat \<Rightarrow> tid \<Rightarrow> nat \<Rightarrow> 'a kernel_scheme \<Rightarrow> kstat \<times> 'a kernel_scheme" where
  "task_pri_change_loop 0 t new_pri k = (RHINO_SUCCESS, k_crash k)"
| "task_pri_change_loop (Suc n) t new_pri k =
     (if prio_of k t \<noteq> new_pri then
        (case state_of k t of
           K_RDY \<Rightarrow>
             (let k1 = upd_task t (\<lambda>c. c\<lparr>prio := new_pri\<rparr>) (ready_list_rm t k)
              in (RHINO_SUCCESS,
                  if t = g_active_task k then ready_list_add_head t k1 else ready_list_add_tail t k1))
         | K_SLEEP \<Rightarrow> (RHINO_SUCCESS, upd_task t (\<lambda>c. c\<lparr>prio := new_pri\<rparr>) k)
         | K_SUSPENDED \<Rightarrow> (RHINO_SUCCESS, upd_task t (\<lambda>c. c\<lparr>prio := new_pri\<rparr>) k)
         | K_SLEEP_SUSPENDED \<Rightarrow> (RHINO_SUCCESS, upd_task t (\<lambda>c. c\<lparr>prio := new_pri\<rparr>) k)
         | K_SEED \<Rightarrow> (RHINO_INV_TASK_STATE, k_err_proc RHINO_INV_TASK_STATE k)
         | K_DELETED \<Rightarrow> (RHINO_INV_TASK_STATE, k_err_proc RHINO_INV_TASK_STATE k)
         | _ \<Rightarrow>
             (let old_pri = prio_of k t;
                  k1 = pend_list_reorder t (upd_task t (\<lambda>c. c\<lparr>prio := new_pri\<rparr>) k)
              in case blk_obj (tasks k1 t) of
                   None \<Rightarrow> (RHINO_SUCCESS, k_crash k1)
                 | Some b \<Rightarrow>
                     if obj_type (objs k1 b) = RHINO_MUTEX_OBJ_TYPE then
                       (case mutex_task (mutexes k1 b) of
                          None \<Rightarrow> (RHINO_SUCCESS, k_crash k1)
                        | Some mt \<Rightarrow>
                            if prio_of k1 mt > prio_of k1 t then task_pri_change_loop n mt new_pri k1
                            else if prio_of k1 mt = old_pri then
                              (case mutex_pri_look mt None k1 of
                                 None \<Rightarrow> (RHINO_SUCCESS, k_crash k1)
                               | Some (new_pri, k2) \<Rightarrow>
                                   if new_pri \<noteq> prio_of k2 mt then task_pri_change_loop n mt new_pri k2
                                   else (RHINO_SUCCESS, k2))
                            else (RHINO_SUCCESS, k1))
                     else (RHINO_SUCCESS, k1)))
      else (RHINO_SUCCESS, k))"

definition task_pri_change :: "tid \<Rightarrow> nat \<Rightarrow> 'a kernel_scheme \<Rightarrow> kstat \<times> 'a kernel_scheme" where
  "task_pri_change t new_pri k = task_pri_change_loop (Suc (length (task_head k))) t new_pri k"

definition mutex_release :: "tid \<Rightarrow> oid option \<Rightarrow> 'a kernel_scheme \<Rightarrow> 'a kernel_scheme" where
  "mutex_release t mutex_rel k =
     (case mutex_pri_look t mutex_rel k of
        None \<Rightarrow> k_crash k
      | Some (new_pri, k1) \<Rightarrow>
          if new_pri \<noteq> prio_of k1 t then snd (task_pri_change t new_pri k1) else k1)"

definition mutex_task_pri_reset :: "tid \<Rightarrow> 'a kernel_scheme \<Rightarrow> 'a kernel_scheme" where
  "mutex_task_pri_reset t k =
     (case blk_obj (tasks k t) of
        None \<Rightarrow> k_crash k
      | Some b \<Rightarrow>
          if obj_type (objs k b) = RHINO_MUTEX_OBJ_TYPE then
            (case mutex_task (mutexes k b) of
               None \<Rightarrow> k_crash k
             | Some mt \<Rightarrow> if prio_of k mt = prio_of k t then mutex_release mt None k else k)
          else k)"

section \<open>Paths of mutexes\<close>

lemma mutex_path_upd [simp]: "m \<notin> set ms \<Longrightarrow> mutex_path (nx(m := v)) p ms = mutex_path nx p ms"
  by (induction nx p ms rule: mutex_path.induct) auto

lemma mutex_path_unique: "mutex_path nx p ms \<Longrightarrow> mutex_path nx p ns \<Longrightarrow> ms = ns"
proof (induction ms arbitrary: p ns)
  case Nil
  then show ?case by (cases p) simp_all
next
  case (Cons m ms)
  then show ?case by (cases p; cases ns) auto
qed

lemma mutex_path_Nil [simp]: "mutex_path nx p [] \<longleftrightarrow> p = None"
  by (cases p) simp_all

lemma mutex_path_Cons [simp]: "mutex_path nx p (m # ms) \<longleftrightarrow> p = Some m \<and> mutex_path nx (nx m) ms"
  by (cases p) auto

section \<open>The two searches\<close>

text \<open>The most urgent of a starting priority and the first waiters of the mutexes of a list.\<close>

definition first_waiters :: "'a kernel_scheme \<Rightarrow> oid list \<Rightarrow> nat \<Rightarrow> nat" where
  "first_waiters k ms p = foldl (\<lambda>p m. case waiters k m of [] \<Rightarrow> p | w # _ \<Rightarrow> min p (prio_of k w)) p ms"

lemma first_waiters_simps [simp]:
  "first_waiters k [] p = p"
  "first_waiters k (m # ms) p =
     first_waiters k ms (case waiters k m of [] \<Rightarrow> p | w # _ \<Rightarrow> min p (prio_of k w))"
  by (simp_all add: first_waiters_def)

lemma mutex_pri_limit_loop_eq:
  assumes "mutex_path (mutex_next \<circ> mutexes k) p ms" and "length ms \<le> n" and "high \<le> pri"
  shows "mutex_pri_limit_loop k n p pri high = Some (first_waiters k ms high)"
  using assms
proof (induction ms arbitrary: n p pri high)
  case Nil
  then show ?case by (cases p) simp_all
next
  case (Cons m ms)
  obtain n' where n: "n = Suc n'" using Cons.prems(2) by (cases n) simp_all
  have p: "p = Some m" "mutex_path (mutex_next \<circ> mutexes k) (mutex_next (mutexes k m)) ms"
    using Cons.prems(1) unfolding mutex_path_Cons by simp_all
  have len: "length ms \<le> n'" using Cons.prems(2) n by simp
  show ?case
  proof (cases "waiters k m")
    case Nil
    then show ?thesis using Cons.IH [OF p(2) len] Cons.prems(3) p(1) n by simp
  next
    case wl: (Cons w ws)
    then show ?thesis
      using Cons.IH [OF p(2) len, of "min high (prio_of k w)" "prio_of k w"] p(1) n
      by (cases "high \<le> prio_of k w") (simp_all add: Let_def min_def)
  qed
qed

lemma mutex_pri_limit_eq:
  assumes "mutex_path (mutex_next \<circ> mutexes k) (mutex_list (tasks k t)) ms" and "length ms \<le> length (mutex_head k)"
  shows "mutex_pri_limit t pri k = Some (first_waiters k ms pri)"
  using mutex_pri_limit_loop_eq [OF assms] by (simp add: mutex_pri_limit_def)

text \<open>Without a mutex to release, \<open>mutex_pri_look\<close> only reads.\<close>

lemma mutex_pri_look_loop_None:
  assumes "mutex_path (mutex_next \<circ> mutexes k) (ptr_get prev k) ms" and "length ms \<le> n" and "new \<le> pri"
    and "\<And>m. rel = Some m \<Longrightarrow> m \<notin> set ms"
  shows "mutex_pri_look_loop n prev rel pri new k = Some (first_waiters k ms new, k)"
  using assms
proof (induction ms arbitrary: n prev pri new)
  case Nil
  then show ?case by (cases "ptr_get prev k"; cases n) simp_all
next
  case (Cons m ms)
  obtain n' where n: "n = Suc n'" using Cons.prems(2) by (cases n) simp_all
  have p: "ptr_get prev k = Some m" "mutex_path (mutex_next \<circ> mutexes k) (ptr_get (Mutex_field m) k) ms"
    using Cons.prems(1) unfolding mutex_path_Cons by simp_all
  have len: "length ms \<le> n'" and rel: "Some m \<noteq> rel" "\<And>m. rel = Some m \<Longrightarrow> m \<notin> set ms"
    using Cons.prems(2,4) n by auto
  show ?case
  proof (cases "waiters k m")
    case Nil
    then show ?thesis using Cons.IH [OF p(2) len _ rel(2)] Cons.prems(3) p(1) n rel(1) by simp
  next
    case wl: (Cons w ws)
    then show ?thesis
      using Cons.IH [OF p(2) len _ rel(2), of "min new (prio_of k w)" "prio_of k w"] p(1) n rel(1)
      by (cases "new \<le> prio_of k w") (simp_all add: Let_def min_def)
  qed
qed

lemma first_waiters_cong:
  assumes "objs k' = objs k" and "\<And>w. prio_of k' w = prio_of k w"
  shows "first_waiters k' ms p = first_waiters k ms p"
  by (induction ms arbitrary: p) (simp_all add: assms split: list.split)

lemma first_waiters_least:
  assumes "\<And>m. m \<in> set ms \<Longrightarrow> sorted (map (prio_of k) (waiters k m))"
  shows "least_of p (\<Union>m \<in> set ms. prio_of k ` set (waiters k m)) (first_waiters k ms p)"
  using assms
proof (induction ms arbitrary: p)
  case (Cons a ms)
  let ?q = "case waiters k a of [] \<Rightarrow> p | w # _ \<Rightarrow> min p (prio_of k w)"
  have "least_of p (prio_of k ` set (waiters k a)) ?q"
    using Cons.prems [of a] by (cases "waiters k a") (auto simp: min_def least_of_def)
  moreover have "least_of ?q (\<Union>m \<in> set ms. prio_of k ` set (waiters k m)) (first_waiters k ms ?q)"
    using Cons by simp
  ultimately show ?case using least_of_Un by fastforce
qed (simp add: least_of_def)

lemma mutex_pri_look_loop_rel:
  assumes "mutex_path (mutex_next \<circ> mutexes k) (ptr_get prev k) (as @ r # bs)" and "distinct (as @ r # bs)"
    and "\<And>p. prev = Mutex_field p \<Longrightarrow> p \<notin> set (as @ r # bs)"
    and "length (as @ r # bs) \<le> n" and "new \<le> pri"
  shows "mutex_pri_look_loop n prev (Some r) pri new k =
     Some (first_waiters k (as @ bs) new,
           ptr_set (if as = [] then prev else Mutex_field (last as)) (mutex_next (mutexes k r)) k)"
  using assms
proof (induction as arbitrary: n prev pri new)
  case Nil
  obtain n' where n: "n = Suc n'" using Nil.prems(4) by (cases n) simp_all
  let ?k = "ptr_set prev (mutex_next (mutexes k r)) k"
  have p: "ptr_get prev k = Some r" "mutex_path (mutex_next \<circ> mutexes k) (mutex_next (mutexes k r)) bs"
    using Nil.prems(1) unfolding append_Nil mutex_path_Cons by simp_all
  have "mutex_path (mutex_next \<circ> mutexes ?k) (ptr_get prev ?k) bs"
    using p(2) Nil.prems(3) by (cases prev) simp_all
  then have "mutex_pri_look_loop n' prev (Some r) pri new ?k = Some (first_waiters ?k bs new, ?k)"
    using Nil.prems(2,4,5) n by (intro mutex_pri_look_loop_None) auto
  moreover have "first_waiters ?k bs new = first_waiters k bs new"
    by (rule first_waiters_cong) (cases prev; simp)+
  ultimately show ?case using n p(1) by simp
next
  case (Cons m as)
  obtain n' where n: "n = Suc n'" using Cons.prems(4) by (cases n) simp_all
  have p: "ptr_get prev k = Some m" "mutex_path (mutex_next \<circ> mutexes k) (ptr_get (Mutex_field m) k) (as @ r # bs)"
    using Cons.prems(1) unfolding append_Cons mutex_path_Cons by simp_all
  have side: "distinct (as @ r # bs)" "length (as @ r # bs) \<le> n'" "m \<noteq> r"
    "\<And>p. Mutex_field m = Mutex_field p \<Longrightarrow> p \<notin> set (as @ r # bs)"
    using Cons.prems(2,4) n by auto
  have IH: "mutex_pri_look_loop n' (Mutex_field m) (Some r) pri new k =
      Some (first_waiters k (as @ bs) new,
        ptr_set (Mutex_field (last (m # as))) (mutex_next (mutexes k r)) k)" if "new \<le> pri" for pri new
    using Cons.IH [OF p(2) side(1) _ side(2) that] side(4) by simp
  show ?case
  proof (cases "waiters k m")
    case Nil
    then show ?thesis using IH [OF Cons.prems(5)] Cons.prems(5) p(1) n side(3) by simp
  next
    case wl: (Cons w ws)
    then show ?thesis
      using IH [of "min new (prio_of k w)" "prio_of k w"] p(1) n side(3)
      by (cases "new \<le> prio_of k w") (simp_all add: Let_def min_def)
  qed
qed

section \<open>The searches compute the effective priority\<close>

definition boosters_of :: "'a kernel_scheme \<Rightarrow> tid \<Rightarrow> tid set" where
  "boosters_of k = boosters (obj_type \<circ> objs k) (mutex_task \<circ> mutexes k) (blk_list \<circ> objs k)"

abbreviation owns_of :: "'a kernel_scheme \<Rightarrow> tid \<Rightarrow> oid \<Rightarrow> bool" where
  "owns_of k \<equiv> owns (obj_type \<circ> objs k) (mutex_task \<circ> mutexes k)"

definition eff_of :: "'a kernel_scheme \<Rightarrow> tid \<Rightarrow> nat \<Rightarrow> bool" where
  "eff_of k t p \<longleftrightarrow> least_of (b_prio (tasks k t)) (prio_of k ` boosters_of k t) p"

lemma pi_inv_eff: "pi_inv k \<longleftrightarrow> (\<forall>t. live (state_of k t) \<longrightarrow> eff_of k t (prio_of k t))"
  by (simp add: pi_inv_def pi_ok_def eff_def eff_of_def boosters_of_def image_def)

lemma owned_sorted:
  assumes "blk_inv k" and "misc_inv k" and "owns_of k t m"
  shows "sorted (map (prio_of k) (waiters k m))"
proof -
  have "blk_policy (objs k m) = BLK_POLICY_PRI"
    using assms(2,3) by (simp add: misc_inv_def hdr_ok_def owns_def)
  then show ?thesis using assms(1) by (simp add: blk_inv_def blk_ok_def comp_def)
qed

lemma mtx_invD:
  assumes "mtx_inv k"
  shows "owns_of k t m \<Longrightarrow> live (state_of k t)" "owns_of k t m \<Longrightarrow> t \<notin> set (waiters k m)"
    and "owns_of k t m \<Longrightarrow> owner_nested (mutexes k m) \<noteq> 0" "owns_of k t m \<Longrightarrow> m \<in> set (mutex_head k)"
    and "obj_type (objs k m) = RHINO_MUTEX_OBJ_TYPE \<Longrightarrow> waiters k m \<noteq> [] \<Longrightarrow> \<exists>u. mutex_task (mutexes k m) = Some u"
  using assms by (auto simp: mtx_inv_def mtx_ok_def owns_def)

lemma held_path:
  assumes "mtx_inv k" and "live (state_of k t)"
  obtains ms where "mutex_path (mutex_next \<circ> mutexes k) (mutex_list (tasks k t)) ms" and "distinct ms"
    and "set ms = {m. owns_of k t m}" and "length ms \<le> length (mutex_head k)"
proof -
  obtain ms where ms: "mutex_path (mutex_next \<circ> mutexes k) (mutex_list (tasks k t)) ms" "distinct ms"
    "set ms = {m. owns_of k t m}"
    using assms unfolding mtx_inv_def mtx_ok_def mchain_ok_def by auto
  have "set ms \<subseteq> set (mutex_head k)" using mtx_invD(4) [OF assms(1)] ms(3) by auto
  then have "length ms \<le> length (mutex_head k)"
    using ms(2) by (metis List.finite_set card_length card_mono distinct_card le_trans)
  then show ?thesis using that ms by blast
qed

lemma first_waiters_eff:
  assumes "blk_inv k" and "misc_inv k" and "set ms = {m. owns_of k t m}"
  shows "least_of p (prio_of k ` boosters_of k t) (first_waiters k ms p)"
proof -
  have "prio_of k ` boosters_of k t = (\<Union>m \<in> set ms. prio_of k ` set (waiters k m))"
    unfolding assms(3) boosters_of_def boosters_def by auto
  then show ?thesis
    using first_waiters_least [of ms k p] owned_sorted [OF assms(1,2)] assms(3) by simp
qed

lemma mutex_pri_look_eff:
  assumes "mtx_inv k" "blk_inv k" "misc_inv k" "live (state_of k t)"
  obtains p where "mutex_pri_look t None k = Some (p, k)" and "eff_of k t p"
proof -
  obtain ms where ms: "mutex_path (mutex_next \<circ> mutexes k) (mutex_list (tasks k t)) ms" "distinct ms"
    "set ms = {m. owns_of k t m}" "length ms \<le> length (mutex_head k)"
    by (rule held_path [OF assms(1,4)])
  have "mutex_pri_look t None k = Some (first_waiters k ms (b_prio (tasks k t)), k)"
    using mutex_pri_look_loop_None [of k "Task_field t" ms "length (mutex_head k)" "b_prio (tasks k t)"
        "b_prio (tasks k t)" None] ms
    by (simp add: mutex_pri_look_def Let_def)
  then show ?thesis using that first_waiters_eff [OF assms(2,3) ms(3)] unfolding eff_of_def by blast
qed

lemma mutex_pri_limit_eff:
  assumes "mtx_inv k" "blk_inv k" "misc_inv k" "live (state_of k t)"
  obtains p where "mutex_pri_limit t pri k = Some p" and "least_of pri (prio_of k ` boosters_of k t) p"
proof -
  obtain ms where ms: "mutex_path (mutex_next \<circ> mutexes k) (mutex_list (tasks k t)) ms" "distinct ms"
    "set ms = {m. owns_of k t m}" "length ms \<le> length (mutex_head k)"
    by (rule held_path [OF assms(1,4)])
  show ?thesis
    using that [OF mutex_pri_limit_eq [OF ms(1,4)] first_waiters_eff [OF assms(2,3) ms(3)]] .
qed

section \<open>Changing one priority\<close>

text \<open>What one round of the loop does to the task it is at.\<close>

definition set_prio :: "tid \<Rightarrow> nat \<Rightarrow> 'a kernel_scheme \<Rightarrow> 'a kernel_scheme" where
  "set_prio t p k =
     (if state_of k t = K_RDY then
        (let k1 = upd_task t (\<lambda>c. c\<lparr>prio := p\<rparr>) (ready_list_rm t k)
         in if t = g_active_task k then ready_list_add_head t k1 else ready_list_add_tail t k1)
      else if pending (state_of k t) then pend_list_reorder t (upd_task t (\<lambda>c. c\<lparr>prio := p\<rparr>) k)
      else upd_task t (\<lambda>c. c\<lparr>prio := p\<rparr>) k)"

lemma set_prio_env [simp]: "env (set_prio t p k) = env k"
  by (simp add: set_prio_def Let_def)

declare set_prio_env [unfolded env_frame, simp]

lemma pend_list_reorder_frame [simp]:
  "tasks (pend_list_reorder t k) = tasks k" "mutexes (pend_list_reorder t k) = mutexes k"
  "g_ready_queue (pend_list_reorder t k) = g_ready_queue k" "g_tick_head (pend_list_reorder t k) = g_tick_head k"
  "g_err (pend_list_reorder t k) = g_err k"
  "obj_type (objs (pend_list_reorder t k) b) = obj_type (objs k b)"
  "blk_policy (objs (pend_list_reorder t k) b) = blk_policy (objs k b)"
  by (simp_all add: pend_list_reorder_def pend_list_add_def split: option.split)

lemma set_prio_frame [simp]:
  "tasks (set_prio t p k) = (tasks k)(t := (tasks k t)\<lparr>prio := p\<rparr>)"
  "mutexes (set_prio t p k) = mutexes k" "g_tick_head (set_prio t p k) = g_tick_head k"
  "g_err (set_prio t p k) = g_err k"
  "obj_type (objs (set_prio t p k) b) = obj_type (objs k b)"
  "blk_policy (objs (set_prio t p k) b) = blk_policy (objs k b)"
  by (simp_all add: set_prio_def Let_def)

lemma set_prio_ticks [simp]: "ticks_left (set_prio t p k) = ticks_left k"
  by (auto simp: ticks_left_def fun_eq_iff)

lemma set_prio_comp [simp]:
  "obj_type \<circ> objs (set_prio t p k) = obj_type \<circ> objs k"
  "blk_policy \<circ> objs (set_prio t p k) = blk_policy \<circ> objs k"
  by (auto simp: fun_eq_iff)

lemma reorder_waiters:
  assumes "blk_inv k" and "pending (state_of k t)"
  shows "set (waiters (pend_list_reorder t (k\<lparr>tasks := (tasks k)(t := (tasks k t)\<lparr>prio := p\<rparr>)\<rparr>)) b) = set (waiters k b)"
    and "k_fault (pend_list_reorder t (k\<lparr>tasks := (tasks k)(t := (tasks k t)\<lparr>prio := p\<rparr>)\<rparr>)) = k_fault k"
proof -
  obtain c where c: "blk_obj (tasks k t) = Some c" "t \<in> set (waiters k c)"
    using assms(1,2) by (fastforce simp: blk_inv_def blk_ok_def)
  have other: "b \<noteq> c \<Longrightarrow> t \<notin> set (waiters k b)" for b
    using assms(1) c(1) by (auto simp: blk_inv_def blk_ok_def)
  have "distinct (waiters k c)" "distinct (waiters k b)" using assms(1) by (simp_all add: blk_inv_def blk_ok_def)
  then show "set (waiters (pend_list_reorder t (k\<lparr>tasks := (tasks k)(t := (tasks k t)\<lparr>prio := p\<rparr>)\<rparr>)) b) = set (waiters k b)"
    "k_fault (pend_list_reorder t (k\<lparr>tasks := (tasks k)(t := (tasks k t)\<lparr>prio := p\<rparr>)\<rparr>)) = k_fault k"
    using c other [of b]
    by (auto simp: pend_list_reorder_def pend_list_add_def)
qed

lemma set_prio_waiters:
  assumes "base_inv k"
  shows "set (waiters (set_prio t p k) b) = set (waiters k b)"
  by (simp add: set_prio_def Let_def reorder_waiters(1) [OF base_invD(2) [OF assms]])

lemma set_prio_rdy:
  assumes inv: "base_inv k" and t: "live (state_of k t)" "t \<noteq> g_idle_task" and p: "p < RHINO_IDLE_PRI"
  shows "rdy_inv (set_prio t p k)" and "k_fault (set_prio t p k) = k_fault k"
proof -
  note parts = base_invD [OF inv]
  let ?pr = "(prio \<circ> tasks k)(t := p)"
  have goal: "rdy_inv (set_prio t p k) \<longleftrightarrow> rdy_ok (g_ready_queue (set_prio t p k)) (task_state \<circ> tasks k) ?pr"
    by (simp add: rdy_inv_def)
  have "rdy_inv (set_prio t p k) \<and> k_fault (set_prio t p k) = k_fault k"
  proof (cases "state_of k t = K_RDY")
    case True
    have neq: "(prio \<circ> tasks k) g_idle_task \<noteq> (prio \<circ> tasks k) t"
      using idle_invD(2) [OF parts(4)] idle_invD(4) [OF parts(4) t] by simp
    obtain rq where rq': "rq_rm (g_ready_queue k) t ((prio \<circ> tasks k) t) = Some rq"
      and rq2: "rdy_ok rq ((task_state \<circ> tasks k)(t := K_SEED)) ?pr"
      and "cur_list rq = (cur_list (g_ready_queue k))((prio \<circ> tasks k) t := remove1 t (cur_list (g_ready_queue k) ((prio \<circ> tasks k) t)))"
      by (rule rdy_ok_rm [OF parts(1) [unfolded rdy_inv_def], of t g_idle_task K_SEED ?pr])
        (use True neq idle_invD(1) [OF parts(4)] in simp_all)
    then have rq: "rq_rm (g_ready_queue k) t (prio_of k t) = Some rq" by simp
    have q: "g_ready_queue (set_prio t p k) = rq_add_head rq t p \<or> g_ready_queue (set_prio t p k) = rq_add_tail rq t p"
      using True rq by (simp add: set_prio_def Let_def sched_defs)
    have "rdy_ok (g_ready_queue (set_prio t p k)) ((task_state \<circ> tasks k)(t := K_SEED, t := K_RDY)) ?pr"
      by (rule rdy_ok_add [OF rq2]) (use q p in auto)
    moreover have "(task_state \<circ> tasks k)(t := K_RDY) = task_state \<circ> tasks k"
      using True by (metis comp_upd_same)
    moreover have "k_fault (set_prio t p k) = k_fault k"
      using True rq by (simp add: set_prio_def Let_def sched_defs)
    ultimately show ?thesis using goal by simp
  next
    case False
    then have "rdy_ok (g_ready_queue k) ((task_state \<circ> tasks k)(t := state_of k t)) ?pr"
      by (intro rdy_ok_other [OF parts(1) [unfolded rdy_inv_def]]) simp_all
    then show ?thesis
      using False goal by (simp add: set_prio_def reorder_waiters(2) [OF parts(2)])
  qed
  then show "rdy_inv (set_prio t p k)" "k_fault (set_prio t p k) = k_fault k" by simp_all
qed

lemma set_prio_blk:
  assumes "blk_inv k"
  shows "blk_inv (set_prio t p k)"
proof (cases "pending (state_of k t)")
  case False
  then have "blk_ok (blk_list \<circ> objs k) (blk_policy \<circ> objs k) ((task_state \<circ> tasks k)(t := state_of k t))
      ((prio \<circ> tasks k)(t := p)) (blk_obj \<circ> tasks k)"
    by (intro blk_ok_other [OF assms [unfolded blk_inv_def]]) simp_all
  moreover have "objs (set_prio t p k) = objs k" using False by (simp add: set_prio_def Let_def)
  ultimately show ?thesis by (simp add: blk_inv_def)
next
  case True
  then obtain c where c: "blk_obj (tasks k t) = Some c" using assms by (fastforce simp: blk_inv_def blk_ok_def)
  let ?pr = "(prio \<circ> tasks k)(t := p)" and ?wl = "\<lambda>b. remove1 t (waiters k b)"
  have rm: "blk_ok ?wl (blk_policy \<circ> objs k) ((task_state \<circ> tasks k)(t := K_SEED)) ?pr (blk_obj \<circ> tasks k)"
    using blk_ok_rm [OF assms [unfolded blk_inv_def], of K_SEED t ?pr "blk_obj \<circ> tasks k"] by simp
  have sp: "set_prio t p k = pend_list_reorder t (upd_task t (\<lambda>c. c\<lparr>prio := p\<rparr>) k)"
    using True by (auto simp: set_prio_def)
  show ?thesis
  proof (cases "blk_policy (objs k c) = BLK_POLICY_PRI")
    case pri: True
    have "blk_ok (?wl(c := ins_before ?pr p t (?wl c))) (blk_policy \<circ> objs k)
        ((task_state \<circ> tasks k)(t := K_SEED, t := state_of k t)) ?pr ((blk_obj \<circ> tasks k)(t := Some c))"
      by (rule blk_ok_add [OF rm]) (use True pri in simp_all)
    moreover have "(blk_obj \<circ> tasks k)(t := Some c) = blk_obj \<circ> tasks k" using c by (metis comp_upd_same)
    moreover have "(\<lambda>u. if u = t then p else prio_of k u) = ?pr" by auto
    then have "blk_list \<circ> objs (set_prio t p k) = ?wl(c := ins_before ?pr p t (?wl c))"
      using c pri by (auto simp: sp pend_list_reorder_def pend_list_add_def if_distrib [of prio] cong: if_cong)
    ultimately show ?thesis by (simp add: blk_inv_def)
  next
    case fifo: False
    have "t \<notin> set (waiters k b)" if "blk_policy (objs k b) = BLK_POLICY_PRI" for b
      using assms c fifo that by (auto simp: blk_inv_def blk_ok_def)
    then have "map ?pr (waiters k b) = map (prio_of k) (waiters k b)" if "blk_policy (objs k b) = BLK_POLICY_PRI" for b
      using that by (intro map_agree [of t]) auto
    moreover have "sorted (map (prio_of k) (waiters k b))" if "blk_policy (objs k b) = BLK_POLICY_PRI" for b
      using assms that by (simp add: blk_inv_def blk_ok_def comp_def)
    ultimately have "sorted (map ?pr (waiters k b))" if "blk_policy (objs k b) = BLK_POLICY_PRI" for b
      using that by metis
    moreover have "objs (set_prio t p k) = objs k" using c fifo by (simp add: sp pend_list_reorder_def)
    ultimately show ?thesis using assms by (simp add: blk_inv_def blk_ok_def)
  qed
qed

lemma set_prio_base:
  assumes "base_inv k" and "live (state_of k t)" "t \<noteq> g_idle_task" and "p < RHINO_IDLE_PRI"
  shows "base_inv (set_prio t p k)"
proof -
  note parts = base_invD [OF assms(1)]
  have "tick_inv (set_prio t p k)" using parts(3) by (simp add: tick_inv_def)
  moreover have "idle_inv (set_prio t p k)"
    using parts(4) assms(2-4) by (auto simp: idle_inv_def idle_ok_def)
  moreover have "misc_inv (set_prio t p k)"
    using parts(5) set_prio_waiters [OF assms(1), of t p]
    unfolding misc_inv_def hdr_ok_def by (simp add: set_empty [symmetric] del: set_empty)
  ultimately show ?thesis
    using set_prio_rdy [OF assms] set_prio_blk [OF parts(2)] parts(6) by (simp add: base_inv_def)
qed

section \<open>The chain of owners\<close>

text \<open>Two states that differ in priorities and in the order of waiters and ready tasks only.\<close>

definition prio_only :: "'a kernel_scheme \<Rightarrow> 'a kernel_scheme \<Rightarrow> bool" where
  "prio_only k k' \<longleftrightarrow> env k' = env k \<and> (\<forall>u. tasks k' u = (tasks k u)\<lparr>prio := prio_of k' u\<rparr>) \<and>
     mutexes k' = mutexes k \<and> g_tick_head k' = g_tick_head k \<and> g_err k' = g_err k \<and> k_fault k' = k_fault k \<and>
     obj_type \<circ> objs k' = obj_type \<circ> objs k \<and> blk_policy \<circ> objs k' = blk_policy \<circ> objs k \<and>
     (\<forall>b. set (waiters k' b) = set (waiters k b))"

lemma prio_only_refl [simp]: "prio_only k k"
  by (simp add: prio_only_def)

lemma prio_only_trans: "prio_only k k' \<Longrightarrow> prio_only k' k'' \<Longrightarrow> prio_only k k''"
  unfolding prio_only_def by (metis (no_types, lifting) ktask.surjective ktask.update_convs(15))

lemma prio_only_tasks:
  assumes "prio_only k k'"
  shows "task_state (tasks k' u) = task_state (tasks k u)" "b_prio (tasks k' u) = b_prio (tasks k u)"
    "blk_obj (tasks k' u) = blk_obj (tasks k u)" "mutex_list (tasks k' u) = mutex_list (tasks k u)"
    "tick_head (tasks k' u) = tick_head (tasks k u)" "blk_state (tasks k' u) = blk_state (tasks k u)"
    "tick_match (tasks k' u) = tick_match (tasks k u)" "suspend_count (tasks k' u) = suspend_count (tasks k u)"
proof -
  have eq: "tasks k' u = (tasks k u)\<lparr>prio := prio_of k' u\<rparr>" using assms by (simp add: prio_only_def)
  show "task_state (tasks k' u) = task_state (tasks k u)" "b_prio (tasks k' u) = b_prio (tasks k u)"
    "blk_obj (tasks k' u) = blk_obj (tasks k u)" "mutex_list (tasks k' u) = mutex_list (tasks k u)"
    "tick_head (tasks k' u) = tick_head (tasks k u)" "blk_state (tasks k' u) = blk_state (tasks k u)"
    "tick_match (tasks k' u) = tick_match (tasks k u)" "suspend_count (tasks k' u) = suspend_count (tasks k u)"
    by (subst eq, simp)+
qed

lemma prio_only_env: "prio_only k k' \<Longrightarrow> env k' = env k"
  by (simp add: prio_only_def)

lemmas prio_only_globals = prio_only_env [unfolded env_frame]

lemma prio_only_owns: "prio_only k k' \<Longrightarrow> owns_of k' = owns_of k"
  by (simp add: prio_only_def)

lemma prio_only_boosters: "prio_only k k' \<Longrightarrow> boosters_of k' = boosters_of k"
  using prio_only_owns [of k k'] by (auto simp: prio_only_def boosters_of_def boosters_def)

lemma prio_only_mtx:
  assumes "prio_only k k'" and "mtx_inv k"
  shows "mtx_inv k'"
proof -
  have "task_state \<circ> tasks k' = task_state \<circ> tasks k" "mutex_list \<circ> tasks k' = mutex_list \<circ> tasks k"
    using prio_only_tasks [OF assms(1)] by (auto simp: fun_eq_iff)
  moreover have "waiters k' m = [] \<longleftrightarrow> waiters k m = []" for m
    using assms(1) by (metis prio_only_def set_empty)
  ultimately show ?thesis
    using assms prio_only_globals [OF assms(1)] unfolding mtx_inv_def mtx_ok_def prio_only_def by simp
qed

lemma set_prio_only:
  assumes "base_inv k" "live (state_of k t)" "t \<noteq> g_idle_task" "p < RHINO_IDLE_PRI"
  shows "prio_only k (set_prio t p k)"
  using set_prio_waiters [OF assms(1)] set_prio_rdy(2) [OF assms] by (simp add: prio_only_def)

text \<open>Where a task waits, and whom it boosts.\<close>

lemma booster_pending: "blk_inv k \<Longrightarrow> w \<in> boosters_of k u \<Longrightarrow>
    pending (state_of k w) \<and> (\<exists>b. blk_obj (tasks k w) = Some b \<and> owns_of k u b)"
  by (auto simp: boosters_of_def boosters_def blk_inv_def blk_ok_def)

lemma pending_on_mutex:
  assumes "blk_inv k" "mtx_inv k" "idle_inv k" and "pending (state_of k t)" "blk_obj (tasks k t) = Some b"
    and "obj_type (objs k b) = RHINO_MUTEX_OBJ_TYPE"
  obtains u where "mutex_task (mutexes k b) = Some u" "u \<noteq> t" "u \<noteq> g_idle_task" "live (state_of k u)"
    "t \<in> boosters_of k u" "\<forall>v. v \<noteq> u \<longrightarrow> t \<notin> boosters_of k v"
proof -
  have t: "t \<in> set (waiters k b)" using assms(1,4,5) by (simp add: blk_inv_def blk_ok_def)
  then have "waiters k b \<noteq> []" by auto
  then obtain u where u: "mutex_task (mutexes k b) = Some u" using mtx_invD(5) [OF assms(2,6)] by blast
  then have ow: "owns_of k u b" using assms(6) by (simp add: owns_def)
  show ?thesis
  proof (rule that [OF u])
    show "u \<noteq> t" "live (state_of k u)" using mtx_invD(1,2) [OF assms(2) ow] t by auto
    show "u \<noteq> g_idle_task" using ow assms(3) by (auto simp: idle_inv_def idle_ok_def)
    show "t \<in> boosters_of k u" using ow t by (auto simp: boosters_of_def boosters_def)
    show "\<forall>v. v \<noteq> u \<longrightarrow> t \<notin> boosters_of k v"
      using booster_pending [OF assms(1), of t] assms(5) ow by (auto simp: owns_def)
  qed
qed

lemma not_booster:
  assumes "blk_inv k" and "\<not> (pending (state_of k t) \<and> blk_obj (tasks k t) = Some b \<and>
      obj_type (objs k b) = RHINO_MUTEX_OBJ_TYPE)"
    and "blk_obj (tasks k t) = Some b \<or> \<not> pending (state_of k t)"
  shows "t \<notin> boosters_of k v"
  using booster_pending [OF assms(1), of t v] assms(2,3) by (auto simp: owns_def)

lemma loop_stop:
  assumes "prio_of k t \<noteq> p" and "live (state_of k t)"
    and "pending (state_of k t) \<Longrightarrow> blk_obj (tasks k t) = Some b \<and> obj_type (objs k b) \<noteq> RHINO_MUTEX_OBJ_TYPE"
  shows "task_pri_change_loop (Suc n) t p k = (RHINO_SUCCESS, set_prio t p k)"
proof (cases "pending (state_of k t)")
  case True
  then have "set_prio t p k = pend_list_reorder t (upd_task t (\<lambda>c. c\<lparr>prio := p\<rparr>) k)"
    by (auto simp: set_prio_def)
  then show ?thesis using True assms(1) assms(3) [OF True] by (auto simp: pending_def Let_def)
next
  case False
  then consider "state_of k t = K_RDY" | "state_of k t = K_SLEEP" | "state_of k t = K_SUSPENDED"
    | "state_of k t = K_SLEEP_SUSPENDED"
    using assms(2) by (cases "state_of k t") simp_all
  then show ?thesis
    using assms(1) by cases (simp_all add: set_prio_def Let_def)
qed

lemma loop_go:
  assumes "prio_of k t \<noteq> p" and "pending (state_of k t)" and "blk_obj (tasks k t) = Some b"
    and "obj_type (objs k b) = RHINO_MUTEX_OBJ_TYPE" and "mutex_task (mutexes k b) = Some u" and "u \<noteq> t"
  shows "task_pri_change_loop (Suc n) t p k =
     (if prio_of k u > p then task_pri_change_loop n u p (set_prio t p k)
      else if prio_of k u = prio_of k t then
        (case mutex_pri_look u None (set_prio t p k) of
           None \<Rightarrow> (RHINO_SUCCESS, k_crash (set_prio t p k))
         | Some (q, k2) \<Rightarrow> if q \<noteq> prio_of k2 u then task_pri_change_loop n u q k2 else (RHINO_SUCCESS, k2))
      else (RHINO_SUCCESS, set_prio t p k))"
proof -
  have "set_prio t p k = pend_list_reorder t (upd_task t (\<lambda>c. c\<lparr>prio := p\<rparr>) k)"
    using assms(2) by (auto simp: set_prio_def)
  then show ?thesis
    using assms by (auto simp: pending_def Let_def split: option.split)
qed

declare task_pri_change_loop.simps [simp del]

text \<open>\<open>eff_of\<close> of a task after another task's priority has changed.\<close>

lemma least_of_lower:
  assumes "least_of b (f ` A) q" and "t \<in> A" and "p < q"
  shows "least_of b ((f(t := p)) ` A) p"
  using assms unfolding least_of_def by (force simp: image_iff)

lemma least_of_raise:
  assumes "least_of b (f ` A) q" and "q < f t" and "q \<le> p"
  shows "least_of b ((f(t := p)) ` A) q"
  using assms unfolding least_of_def by (force simp: image_iff)

lemma set_prio_prio: "prio_of (set_prio t p k) = (prio_of k)(t := p)"
  by (auto simp: fun_eq_iff)

lemma set_prio_b_prio: "b_prio (tasks (set_prio t p k) u) = b_prio (tasks k u)"
  by simp

lemma eff_set_prio_booster:
  assumes "prio_only k (set_prio t p k)"
  shows "eff_of (set_prio t p k) u q \<longleftrightarrow>
     least_of (b_prio (tasks k u)) (((prio_of k)(t := p)) ` boosters_of k u) q"
  unfolding eff_of_def set_prio_prio set_prio_b_prio prio_only_boosters [OF assms] ..

lemma eff_set_prio:
  assumes "prio_only k (set_prio t p k)" and "t \<notin> boosters_of k u"
  shows "eff_of (set_prio t p k) u q = eff_of k u q"
proof -
  have "((prio_of k)(t := p)) ` boosters_of k u = prio_of k ` boosters_of k u"
    using assms(2) by (intro image_cong) auto
  then show ?thesis by (simp only: eff_set_prio_booster [OF assms(1)] eff_of_def [of k])
qed

lemma eff_lower:
  assumes "prio_only k (set_prio t p k)" and "eff_of k u q" and "t \<in> boosters_of k u" and "p < q"
  shows "eff_of (set_prio t p k) u p"
  unfolding eff_set_prio_booster [OF assms(1)]
  by (rule least_of_lower [OF assms(2) [unfolded eff_of_def] assms(3,4)])

lemma eff_raise:
  assumes "prio_only k (set_prio t p k)" and "eff_of k u q" and "q < prio_of k t" and "q \<le> p"
  shows "eff_of (set_prio t p k) u q"
  unfolding eff_set_prio_booster [OF assms(1)]
  by (rule least_of_raise [OF assms(2) [unfolded eff_of_def] assms(3,4)])

lemma count_less:
  assumes "t \<in> set xs" and "P t" and "\<not> Q t" and "\<And>u. u \<noteq> t \<Longrightarrow> Q u = P u"
  shows "Suc (card {u \<in> set xs. Q u}) = card {u \<in> set xs. P u}"
proof -
  have "{u \<in> set xs. P u} = insert t {u \<in> set xs. Q u}" using assms by (auto; metis)
  then show ?thesis using assms(3) by simp
qed

lemma pending_object: "blk_inv k \<Longrightarrow> \<exists>b. pending (state_of k t) \<longrightarrow> blk_obj (tasks k t) = Some b"
  by (simp add: blk_inv_def blk_ok_def)

lemma live_listed: "misc_inv k \<Longrightarrow> live (state_of k t) \<Longrightarrow> t \<in> set (task_head k)"
  by (simp add: misc_inv_def hdr_ok_def)

lemma raise_chain:
  assumes "base_inv k" "mtx_inv k" "live (state_of k t)" "t \<noteq> g_idle_task" "p < prio_of k t"
    and "\<And>u. live (state_of k u) \<Longrightarrow> u \<notin> X \<Longrightarrow> u \<noteq> t \<Longrightarrow> eff_of k u (prio_of k u)"
    and "t \<notin> X \<Longrightarrow> eff_of k t p" and "\<And>x. x \<in> X \<Longrightarrow> x \<noteq> t \<Longrightarrow> prio_of k x \<le> p"
    and "card {u \<in> set (task_head k). p < prio_of k u} \<le> n"
  shows "\<exists>k'. task_pri_change_loop n t p k = (RHINO_SUCCESS, k') \<and> base_inv k' \<and> mtx_inv k' \<and>
     prio_only k k' \<and> (\<forall>u. live (state_of k u) \<and> u \<notin> X \<longrightarrow> eff_of k' u (prio_of k' u)) \<and> prio_of k' t = p \<and>
     (\<forall>u. prio_of k' u = prio_of k u \<or> prio_of k' u = p \<and> p < prio_of k u)"
  using assms
proof (induction n arbitrary: t k)
  case 0
  have "t \<in> {u \<in> set (task_head k). p < prio_of k u}"
    using 0(3,5) live_listed [OF base_invD(5) [OF 0(1)]] by simp
  then show ?case using 0(9) by auto
next
  case (Suc n)
  note parts = base_invD [OF Suc.prems(1)]
  have p: "p < RHINO_IDLE_PRI" using idle_invD(4) [OF parts(4) Suc.prems(3,4)] Suc.prems(5) by simp
  let ?k = "set_prio t p k"
  have base: "base_inv ?k" and only: "prio_only k ?k"
    using set_prio_base set_prio_only Suc.prems(1,3,4) p by blast+
  have mtx: "mtx_inv ?k" using prio_only_mtx [OF only Suc.prems(2)] .
  have pr: "prio_of ?k u = (if u = t then p else prio_of k u)" for u by simp
  have st: "state_of ?k u = state_of k u" for u by simp
  show ?case
  proof (cases "pending (state_of k t) \<and> (\<exists>b. blk_obj (tasks k t) = Some b \<and> obj_type (objs k b) = RHINO_MUTEX_OBJ_TYPE)")
    case False
    then obtain b where b: "pending (state_of k t) \<Longrightarrow> blk_obj (tasks k t) = Some b \<and> obj_type (objs k b) \<noteq> RHINO_MUTEX_OBJ_TYPE"
      using pending_object [OF parts(2), of t] by blast
    have "t \<notin> boosters_of k v" for v using not_booster [OF parts(2), of t b v] b by blast
    then have "eff_of ?k u (prio_of ?k u)" if "live (state_of k u)" "u \<notin> X" for u
      using eff_set_prio [OF only] Suc.prems(6,7) that pr by (cases "u = t") simp_all
    moreover have "task_pri_change_loop (Suc n) t p k = (RHINO_SUCCESS, ?k)"
      using loop_stop [OF _ Suc.prems(3) b] Suc.prems(5) by simp
    ultimately show ?thesis using base mtx only Suc.prems(5) by auto
  next
    case True
    then obtain b where b: "pending (state_of k t)" "blk_obj (tasks k t) = Some b" "obj_type (objs k b) = RHINO_MUTEX_OBJ_TYPE"
      by blast
    obtain u where u: "mutex_task (mutexes k b) = Some u" "u \<noteq> t" "u \<noteq> g_idle_task" "live (state_of k u)"
      "t \<in> boosters_of k u" "\<forall>v. v \<noteq> u \<longrightarrow> t \<notin> boosters_of k v"
      by (rule pending_on_mutex [OF parts(2) Suc.prems(2) parts(4) b])
    have others: "eff_of ?k v (prio_of ?k v)" if "live (state_of k v)" "v \<notin> X" "v \<noteq> u" for v
      using eff_set_prio [OF only u(6) [rule_format, OF that(3)]] Suc.prems(6,7) that pr by (cases "v = t") simp_all
    note go = loop_go [OF _ b u(1,2), of p n]
    show ?thesis
    proof (cases "p < prio_of k u")
      case True
      have uX: "u \<notin> X" using Suc.prems(8) u(2) True by (meson leD)
      have "eff_of ?k u p"
        using eff_lower [OF only Suc.prems(6) [OF u(4) uX u(2)] u(5) True] .
      moreover have "card {v \<in> set (task_head k). p < prio_of ?k v} \<le> n"
        using count_less [of t "task_head k" "\<lambda>v. p < prio_of k v" "\<lambda>v. p < prio_of ?k v"]
          Suc.prems(3,5,9) live_listed [OF parts(5)] by simp
      moreover have "prio_of ?k x \<le> p" if "x \<in> X" for x using Suc.prems(8) [OF that] pr by simp
      ultimately have "\<exists>k'. task_pri_change_loop n u p ?k = (RHINO_SUCCESS, k') \<and> base_inv k' \<and> mtx_inv k' \<and>
          prio_only ?k k' \<and> (\<forall>v. live (state_of ?k v) \<and> v \<notin> X \<longrightarrow> eff_of k' v (prio_of k' v)) \<and> prio_of k' u = p \<and>
          (\<forall>v. prio_of k' v = prio_of ?k v \<or> prio_of k' v = p \<and> p < prio_of ?k v)"
        using u(2-4) True others
        by (intro Suc.IH [OF base mtx]) (simp_all add: st pr del: set_prio_frame(1) split del: if_split)
      then obtain k' where k': "task_pri_change_loop n u p ?k = (RHINO_SUCCESS, k')" "base_inv k'" "mtx_inv k'"
        "prio_only ?k k'" "\<forall>v. live (state_of ?k v) \<and> v \<notin> X \<longrightarrow> eff_of k' v (prio_of k' v)" "prio_of k' u = p"
        "\<forall>v. prio_of k' v = prio_of ?k v \<or> prio_of k' v = p \<and> p < prio_of ?k v"
        by blast
      have "task_pri_change_loop (Suc n) t p k = (RHINO_SUCCESS, k')" using go True Suc.prems(5) k'(1) by simp
      moreover have "prio_of k' t = p" using k'(7) pr by (metis order_less_irrefl)
      moreover have "prio_of k' v = prio_of k v \<or> prio_of k' v = p \<and> p < prio_of k v" for v
        using k'(7) pr Suc.prems(5) by (metis order_less_irrefl)
      ultimately show ?thesis
        using k'(2,3) k'(5) [unfolded st] prio_only_trans [OF only k'(4)] by blast
    next
      case False
      then have "prio_of k u \<noteq> prio_of k t" using Suc.prems(5) by simp
      then have "task_pri_change_loop (Suc n) t p k = (RHINO_SUCCESS, ?k)" using go False Suc.prems(5) by simp
      moreover have "eff_of ?k u (prio_of ?k u)" if "u \<notin> X"
        using eff_raise [OF only Suc.prems(6) [OF u(4) that u(2)]] False Suc.prems(5) u(2) pr by simp
      ultimately have "\<forall>v. live (state_of k v) \<and> v \<notin> X \<longrightarrow> eff_of ?k v (prio_of ?k v)" using others by blast
      then show ?thesis
        using base mtx only Suc.prems(5) \<open>task_pri_change_loop (Suc n) t p k = (RHINO_SUCCESS, ?k)\<close> pr by simp
    qed
  qed
qed

lemma least_of_mono:
  assumes "least_of b (f ` A) r" and "least_of b (g ` A) q" and "\<And>x. f x \<le> g x"
  shows "r \<le> q"
  using assms unfolding least_of_def by (metis (no_types, lifting) imageE imageI order_trans)

lemma lower_chain:
  assumes "base_inv k" "mtx_inv k" "live (state_of k t)" "t \<noteq> g_idle_task" "prio_of k t < p"
    and "\<And>u. live (state_of k u) \<Longrightarrow> u \<noteq> t \<Longrightarrow> eff_of k u (prio_of k u)" and "eff_of k t p"
    and "card {u \<in> set (task_head k). prio_of k u = prio_of k t} \<le> n"
  shows "\<exists>k'. task_pri_change_loop n t p k = (RHINO_SUCCESS, k') \<and> base_inv k' \<and> mtx_inv k' \<and>
     prio_only k k' \<and> pi_inv k'"
  using assms
proof (induction n arbitrary: t p k)
  case 0
  have "t \<in> {u \<in> set (task_head k). prio_of k u = prio_of k t}"
    using 0(3) live_listed [OF base_invD(5) [OF 0(1)]] by simp
  then show ?case using 0(8) by auto
next
  case (Suc n)
  note parts = base_invD [OF Suc.prems(1)]
  have p: "p < RHINO_IDLE_PRI"
    using idle_invD(5) [OF parts(4) Suc.prems(3,4)] Suc.prems(7) by (simp add: eff_of_def least_of_def)
  let ?k = "set_prio t p k"
  have base: "base_inv ?k" and only: "prio_only k ?k"
    using set_prio_base set_prio_only Suc.prems(1,3,4) p by blast+
  have mtx: "mtx_inv ?k" using prio_only_mtx [OF only Suc.prems(2)] .
  have pr: "prio_of ?k u = (if u = t then p else prio_of k u)" for u by simp
  have st: "state_of ?k u = state_of k u" for u by simp
  show ?case
  proof (cases "pending (state_of k t) \<and> (\<exists>b. blk_obj (tasks k t) = Some b \<and> obj_type (objs k b) = RHINO_MUTEX_OBJ_TYPE)")
    case False
    then obtain b where b: "pending (state_of k t) \<Longrightarrow> blk_obj (tasks k t) = Some b \<and> obj_type (objs k b) \<noteq> RHINO_MUTEX_OBJ_TYPE"
      using pending_object [OF parts(2), of t] by blast
    have "t \<notin> boosters_of k v" for v using not_booster [OF parts(2), of t b v] b by blast
    then have "eff_of ?k u (prio_of ?k u)" if "live (state_of k u)" for u
      using eff_set_prio [OF only] Suc.prems(6,7) that pr by (cases "u = t") simp_all
    moreover have "task_pri_change_loop (Suc n) t p k = (RHINO_SUCCESS, ?k)"
      using loop_stop [OF _ Suc.prems(3) b] Suc.prems(5) by simp
    ultimately show ?thesis using base mtx only by (simp add: pi_inv_eff del: set_prio_frame(1) add: st)
  next
    case True
    then obtain b where b: "pending (state_of k t)" "blk_obj (tasks k t) = Some b" "obj_type (objs k b) = RHINO_MUTEX_OBJ_TYPE"
      by blast
    obtain u where u: "mutex_task (mutexes k b) = Some u" "u \<noteq> t" "u \<noteq> g_idle_task" "live (state_of k u)"
      "t \<in> boosters_of k u" "\<forall>v. v \<noteq> u \<longrightarrow> t \<notin> boosters_of k v"
      by (rule pending_on_mutex [OF parts(2) Suc.prems(2) parts(4) b])
    have others: "eff_of ?k v (prio_of ?k v)" if "live (state_of k v)" "v \<noteq> u" for v
      using eff_set_prio [OF only u(6) [rule_format, OF that(2)]] Suc.prems(6,7) that pr by (cases "v = t") simp_all
    note go = loop_go [OF _ b u(1,2), of p n]
    have effu: "eff_of k u (prio_of k u)" using Suc.prems(6) u(2,4) by blast
    then have le: "prio_of k u \<le> prio_of k t" using u(5) by (auto simp: eff_of_def least_of_def)
    show ?thesis
    proof (cases "prio_of k u = prio_of k t")
      case True
      obtain q where q: "mutex_pri_look u None ?k = Some (q, ?k)" "eff_of ?k u q"
        by (rule mutex_pri_look_eff [OF mtx base_invD(2,5) [OF base]]) (use u(4) st in simp_all)
      then have go': "task_pri_change_loop (Suc n) t p k =
          (if q \<noteq> prio_of k u then task_pri_change_loop n u q ?k else (RHINO_SUCCESS, ?k))"
        using go True Suc.prems(5) u(2) by simp
      show ?thesis
      proof (cases "q = prio_of k u")
        case True
        then have "pi_inv ?k" using others q(2) pr u(2) unfolding pi_inv_eff st by metis
        then show ?thesis using go' True base mtx only by simp
      next
        case False
        have "prio_of k u \<le> q"
          using effu [unfolded eff_of_def] q(2) [unfolded eff_set_prio_booster [OF only]]
          by (rule least_of_mono) (use Suc.prems(5) in simp)
        moreover have "card {v \<in> set (task_head ?k). prio_of ?k v = prio_of ?k u} \<le> n"
          using count_less [of t "task_head k" "\<lambda>v. prio_of k v = prio_of k t" "\<lambda>v. prio_of ?k v = prio_of k t"]
            Suc.prems(3,5,8) live_listed [OF parts(5)] True u(2) by simp
        ultimately have "\<exists>k'. task_pri_change_loop n u q ?k = (RHINO_SUCCESS, k') \<and> base_inv k' \<and> mtx_inv k' \<and>
            prio_only ?k k' \<and> pi_inv k'"
          using u(2-4) False others q(2)
          by (intro Suc.IH [OF base mtx]) (simp_all add: st pr del: set_prio_frame(1) split del: if_split)
        then show ?thesis using go' False prio_only_trans [OF only] by auto
      qed
    next
      case False
      then have "prio_of k u < prio_of k t" using le by simp
      then have "eff_of ?k u (prio_of ?k u)"
        using eff_raise [OF only effu] Suc.prems(5) u(2) pr by simp
      then have "pi_inv ?k" using others unfolding pi_inv_eff st by metis
      moreover have "task_pri_change_loop (Suc n) t p k = (RHINO_SUCCESS, ?k)"
        using go False le Suc.prems(5) by simp
      ultimately show ?thesis using base mtx only by simp
    qed
  qed
qed

section \<open>Contracts of the priority operations\<close>

lemma card_task_head: "card {u \<in> set (task_head k). P u} \<le> Suc (length (task_head k))"
proof -
  have "card {u \<in> set (task_head k). P u} \<le> card (set (task_head k))" by (intro card_mono) auto
  then show ?thesis using card_length [of "task_head k"] by simp
qed

text \<open>
  \<open>task_pri_change\<close> to the effective priority of a task: it returns, and afterwards every task has
  its effective priority.
\<close>

lemma task_pri_change_eff:
  assumes "base_inv k" "mtx_inv k" "live (state_of k t)" "t \<noteq> g_idle_task"
    and "\<And>u. live (state_of k u) \<Longrightarrow> u \<noteq> t \<Longrightarrow> eff_of k u (prio_of k u)" and "eff_of k t p"
  obtains k' where "task_pri_change t p k = (RHINO_SUCCESS, k')" "base_inv k'" "mtx_inv k'" "prio_only k k'" "pi_inv k'"
proof (cases rule: linorder_cases [of p "prio_of k t"])
  case less
  then show ?thesis
    using raise_chain [where X = "{}", OF assms(1-4) less _ _ _ card_task_head] assms(5,6) that
    unfolding task_pri_change_def pi_inv_eff by (simp, metis prio_only_tasks(1))
next
  case equal
  then have "pi_inv k" using assms(5,6) unfolding pi_inv_eff by metis
  moreover have "task_pri_change t p k = (RHINO_SUCCESS, k)"
    using equal by (simp add: task_pri_change_def task_pri_change_loop.simps(2))
  ultimately show ?thesis using that assms(1,2) by simp
next
  case greater
  then show ?thesis
    using lower_chain [OF assms(1-4) greater _ _ card_task_head] assms(5,6) that
    unfolding task_pri_change_def by blast
qed

text \<open>Raising a task above its effective priority, for a waiter about to be added.\<close>

lemma task_pri_change_boost:
  assumes "base_inv k" "mtx_inv k" "live (state_of k t)" "t \<noteq> g_idle_task" "pi_inv k" "p < prio_of k t"
  obtains k' where "task_pri_change t p k = (RHINO_SUCCESS, k')" "base_inv k'" "mtx_inv k'" "prio_only k k'"
    "\<forall>u. live (state_of k u) \<and> u \<noteq> t \<longrightarrow> eff_of k' u (prio_of k' u)" "prio_of k' t = p"
    "\<forall>u. prio_of k' u = prio_of k u \<or> prio_of k' u = p \<and> p < prio_of k u"
  using raise_chain [where X = "{t}", OF assms(1-4,6) _ _ _ card_task_head] assms(5) that
  unfolding task_pri_change_def pi_inv_eff by (simp, metis)

lemma mutex_release_None:
  assumes "base_inv k" "mtx_inv k" "live (state_of k t)" "t \<noteq> g_idle_task"
    and "\<And>u. live (state_of k u) \<Longrightarrow> u \<noteq> t \<Longrightarrow> eff_of k u (prio_of k u)"
  shows "base_inv (mutex_release t None k) \<and> mtx_inv (mutex_release t None k) \<and>
    prio_only k (mutex_release t None k) \<and> pi_inv (mutex_release t None k)"
proof -
  obtain p where p: "mutex_pri_look t None k = Some (p, k)" "eff_of k t p"
    by (rule mutex_pri_look_eff [OF assms(2) base_invD(2,5) [OF assms(1)] assms(3)])
  obtain k' where k': "task_pri_change t p k = (RHINO_SUCCESS, k')" "base_inv k'" "mtx_inv k'" "prio_only k k'" "pi_inv k'"
    by (rule task_pri_change_eff [OF assms p(2)])
  have "pi_inv k" if "p = prio_of k t" using assms(5) p(2) that unfolding pi_inv_eff by metis
  then show ?thesis using p(1) k' assms(1,2) by (simp add: mutex_release_def)
qed

lemma mutex_task_pri_reset_inv:
  assumes "base_inv k" "mtx_inv k" "blk_obj (tasks k t) = Some b"
    and "obj_type (objs k b) \<noteq> RHINO_MUTEX_OBJ_TYPE \<Longrightarrow> pi_inv k"
    and "obj_type (objs k b) = RHINO_MUTEX_OBJ_TYPE \<Longrightarrow> mutex_task (mutexes k b) = Some u \<and>
      (\<forall>v. live (state_of k v) \<and> v \<noteq> u \<longrightarrow> eff_of k v (prio_of k v)) \<and>
      (prio_of k u \<noteq> prio_of k t \<longrightarrow> eff_of k u (prio_of k u))"
  shows "base_inv (mutex_task_pri_reset t k) \<and> mtx_inv (mutex_task_pri_reset t k) \<and>
    prio_only k (mutex_task_pri_reset t k) \<and> pi_inv (mutex_task_pri_reset t k)"
proof (cases "obj_type (objs k b) = RHINO_MUTEX_OBJ_TYPE")
  case True
  note own = assms(5) [OF True]
  then have "owns_of k u b" using True by (simp add: owns_def)
  then have u: "live (state_of k u)" "u \<noteq> g_idle_task"
    using mtx_invD(1) [OF assms(2)] base_invD(4) [OF assms(1)] by (auto simp: idle_inv_def idle_ok_def)
  show ?thesis
  proof (cases "prio_of k u = prio_of k t")
    case eq: True
    then have "mutex_task_pri_reset t k = mutex_release u None k"
      using True own assms(3) by (simp add: mutex_task_pri_reset_def)
    then show ?thesis using mutex_release_None [OF assms(1,2) u] own by simp
  next
    case False
    then have "pi_inv k" using own unfolding pi_inv_eff by metis
    then show ?thesis using True own False assms(1-3) by (simp add: mutex_task_pri_reset_def)
  qed
next
  case False
  then show ?thesis using assms by (simp add: mutex_task_pri_reset_def)
qed

section \<open>Waiters that leave\<close>

lemma unwait_boosters:
  assumes "blk_inv k" and "blk_list \<circ> objs k' = (\<lambda>b. remove1 t (waiters k b))"
    and "obj_type \<circ> objs k' = obj_type \<circ> objs k" "mutex_task \<circ> mutexes k' = mutex_task \<circ> mutexes k"
  shows "boosters_of k' v = boosters_of k v - {t}"
proof -
  have "distinct (waiters k b)" for b using assms(1) by (simp add: blk_inv_def blk_ok_def)
  then show ?thesis unfolding boosters_of_def boosters_def assms by auto
qed

lemma unwait_eff:
  assumes "blk_inv k" and "blk_list \<circ> objs k' = (\<lambda>b. remove1 t (waiters k b))"
    and "obj_type \<circ> objs k' = obj_type \<circ> objs k" "mutex_task \<circ> mutexes k' = mutex_task \<circ> mutexes k"
    and "prio \<circ> tasks k' = prio \<circ> tasks k" "b_prio \<circ> tasks k' = b_prio \<circ> tasks k"
    and "eff_of k v (prio_of k v)" and "t \<notin> boosters_of k v \<or> prio_of k v \<noteq> prio_of k t"
  shows "eff_of k' v (prio_of k' v)"
proof -
  have "prio_of k' x = prio_of k x" "b_prio (tasks k' x) = b_prio (tasks k x)" for x
    using fun_cong [OF assms(5)] fun_cong [OF assms(6)] by simp_all
  then show ?thesis
    using assms(7,8) unfolding eff_of_def unwait_boosters [OF assms(1-4)] least_of_def by auto
qed

lemma unwait_mtx:
  assumes "mtx_inv k" and "blk_list \<circ> objs k' = (\<lambda>b. remove1 t (waiters k b))"
    and "obj_type \<circ> objs k' = obj_type \<circ> objs k" "mutexes k' = mutexes k"
    and "mutex_list \<circ> tasks k' = mutex_list \<circ> tasks k" "mutex_head k' = mutex_head k"
    and "task_state \<circ> tasks k' = (task_state \<circ> tasks k)(t := s)" "live s = live (state_of k t)"
  shows "mtx_inv k'"
proof -
  have "live (((task_state \<circ> tasks k)(t := s)) u) = live (state_of k u)" for u
    using assms(8) by simp
  then show ?thesis
    using assms(1) unfolding mtx_inv_def mtx_ok_def mchain_ok_def assms(2-7)
    by (auto dest: notin_set_remove1)
qed

end
