(* ===== verification/Tick.thy ===== *)
theory Tick
  imports Prio
begin

text \<open>
  The tick interrupt: \<open>tick_list_update\<close> of \<^verbatim>\<open>kernel/rhino/core/k_tick.c\<close> and \<open>krhino_tick_proc\<close>,
  \<open>krhino_sys_tick_get\<close> of \<^verbatim>\<open>k_time.c\<close> (without round robin and without dynamic ticks).  The theorems:
  a tick keeps the kernel invariant, ends exactly the waits that are due, and leaves the others with
  one tick less to wait, also when the 32 bit tick counter wraps around.
\<close>

section \<open>Operations\<close>

text \<open>The body of the loop for a task whose time has come.\<close>

definition tick_timeout :: "tid \<Rightarrow> 'a kernel_scheme \<Rightarrow> 'a kernel_scheme" where
  "tick_timeout t k =
     (case state_of k t of
        K_SLEEP \<Rightarrow>
          ready_list_add t (tick_list_rm t
            (upd_task t (\<lambda>c. c\<lparr>blk_state := BLK_FINISH, task_state := K_RDY\<rparr>) k))
      | K_PEND \<Rightarrow>
          (let k1 = ready_list_add t (klist_rm_task t (tick_list_rm t k));
               k2 = upd_task t (\<lambda>c. c\<lparr>blk_state := BLK_TIMEOUT, task_state := K_RDY\<rparr>) k1
           in upd_task t (\<lambda>c. c\<lparr>blk_obj := None\<rparr>) (mutex_task_pri_reset t k2))
      | K_PEND_SUSPENDED \<Rightarrow>
          (let k1 = klist_rm_task t (tick_list_rm t k);
               k2 = upd_task t (\<lambda>c. c\<lparr>blk_state := BLK_TIMEOUT, task_state := K_SUSPENDED\<rparr>) k1
           in upd_task t (\<lambda>c. c\<lparr>blk_obj := None\<rparr>) (mutex_task_pri_reset t k2))
      | K_SLEEP_SUSPENDED \<Rightarrow>
          tick_list_rm t (upd_task t (\<lambda>c. c\<lparr>task_state := K_SUSPENDED, blk_state := BLK_FINISH\<rparr>) k)
      | _ \<Rightarrow> k_err_proc RHINO_SYS_FATAL_ERR k)"

text \<open>The walk from the head of the tick list; \<open>iter_temp\<close> is read before the task is taken off.\<close>

fun tick_list_walk :: "tid list \<Rightarrow> 'a kernel_scheme \<Rightarrow> 'a kernel_scheme" where
  "tick_list_walk [] k = k"
| "tick_list_walk (t # ts) k =
     (if g_tick_count k = tick_match (tasks k t) then tick_list_walk ts (tick_timeout t k) else k)"

definition tick_list_update :: "'a kernel_scheme \<Rightarrow> 'a kernel_scheme" where
  "tick_list_update k =
     (let k1 = k\<lparr>g_tick_count := g_tick_count k + 1, g_sys_time_tick := g_sys_time_tick k + 1\<rparr>
      in tick_list_walk (g_tick_head k1) k1)"

definition krhino_tick_proc :: "'a kernel_scheme \<Rightarrow> 'a kernel_scheme" where
  "krhino_tick_proc k = tick_list_update k"

definition krhino_sys_tick_get :: "'a kernel_scheme \<Rightarrow> u64" where
  "krhino_sys_tick_get k = g_sys_time_tick k"

section \<open>One timeout\<close>

lemma clear_blk_obj:
  assumes "\<not> pending (state_of k t)"
  shows "base_inv k \<Longrightarrow> base_inv (upd_task t (\<lambda>c. c\<lparr>blk_obj := None\<rparr>) k)"
    and "mtx_inv k \<Longrightarrow> mtx_inv (upd_task t (\<lambda>c. c\<lparr>blk_obj := None\<rparr>) k)"
    and "pi_inv k \<Longrightarrow> pi_inv (upd_task t (\<lambda>c. c\<lparr>blk_obj := None\<rparr>) k)"
proof -
  let ?k = "upd_task t (\<lambda>c. c\<lparr>blk_obj := None\<rparr>) k"
  have "ticks_left ?k = ticks_left k" by (auto simp: ticks_left_def fun_eq_iff)
  moreover have "blk_inv ?k" if "blk_inv k"
    using blk_ok_other [OF that [unfolded blk_inv_def], of t "state_of k t" "prio \<circ> tasks k"
        "(blk_obj \<circ> tasks k)(t := None)"] assms by (simp add: blk_inv_def)
  ultimately show "base_inv k \<Longrightarrow> base_inv ?k" by (simp add: base_inv_def inv_defs)
  show "mtx_inv k \<Longrightarrow> mtx_inv ?k" "pi_inv k \<Longrightarrow> pi_inv ?k" by (simp_all add: inv_defs)
qed

text \<open>The state a pending task is in when \<open>mutex_task_pri_reset\<close> looks at the mutex it waited for.\<close>

definition pend_timed_out :: "tid \<Rightarrow> 'a kernel_scheme \<Rightarrow> 'a kernel_scheme" where
  "pend_timed_out t k =
     (let k1 = klist_rm_task t (tick_list_rm t k);
          k2 = (if state_of k t = K_PEND then ready_list_add t k1 else k1)
      in upd_task t (\<lambda>c. c\<lparr>blk_state := BLK_TIMEOUT, task_state := woken (state_of k t)\<rparr>) k2)"

lemma tick_timeout_pending:
  "pending (state_of k t) \<Longrightarrow>
   tick_timeout t k = upd_task t (\<lambda>c. c\<lparr>blk_obj := None\<rparr>) (mutex_task_pri_reset t (pend_timed_out t k))"
  by (auto simp: tick_timeout_def pend_timed_out_def pending_def Let_def)

lemma pend_timed_out_proj:
  "task_state \<circ> tasks (pend_timed_out t k) = (task_state \<circ> tasks k)(t := woken (state_of k t))"
  "prio \<circ> tasks (pend_timed_out t k) = prio \<circ> tasks k" "b_prio \<circ> tasks (pend_timed_out t k) = b_prio \<circ> tasks k"
  "suspend_count \<circ> tasks (pend_timed_out t k) = suspend_count \<circ> tasks k"
  "mutex_list \<circ> tasks (pend_timed_out t k) = mutex_list \<circ> tasks k"
  "blk_obj \<circ> tasks (pend_timed_out t k) = blk_obj \<circ> tasks k"
  "tick_head \<circ> tasks (pend_timed_out t k) = (tick_head \<circ> tasks k)(t := False)"
  "tick_match \<circ> tasks (pend_timed_out t k) = tick_match \<circ> tasks k"
  "blk_list \<circ> objs (pend_timed_out t k) = (\<lambda>b. remove1 t (waiters k b))"
  "obj_type \<circ> objs (pend_timed_out t k) = obj_type \<circ> objs k"
  "blk_policy \<circ> objs (pend_timed_out t k) = blk_policy \<circ> objs k" "mutexes (pend_timed_out t k) = mutexes k"
  "ticks_left (pend_timed_out t k) = ticks_left k" "k_fault (pend_timed_out t k) = k_fault k"
  "env (pend_timed_out t k) = env k" "g_err (pend_timed_out t k) = g_err k"
  by (auto simp: pend_timed_out_def Let_def fun_eq_iff ticks_left_def)

lemma pend_timed_out_rq:
  "pending (state_of k t) \<Longrightarrow> g_ready_queue (pend_timed_out t k) =
    (if woken (state_of k t) = K_RDY then g_ready_queue (ready_list_add t k) else g_ready_queue k)"
  by (auto simp: pend_timed_out_def Let_def pending_def sched_defs)

lemma pend_timed_out_list:
  "tick_inv k \<Longrightarrow> g_tick_head (pend_timed_out t k) = remove1 t (g_tick_head k)"
  by (simp add: pend_timed_out_def Let_def tick_list_rm_list)

lemmas pend_timed_out_globals = pend_timed_out_proj(15) [unfolded env_frame]

lemma pend_timed_out_base:
  assumes "base_inv k" and "pending (state_of k t)"
  shows "base_inv (pend_timed_out t k)"
proof (rule leave_wait_base [OF assms(1)])
  show "\<And>u. u \<noteq> t \<Longrightarrow> blk_obj (tasks (pend_timed_out t k) u) = blk_obj (tasks k u)"
    using fun_cong [OF pend_timed_out_proj(6)] by simp
qed (use assms pend_timed_out_globals [of t k] base_invD(3) [OF assms(1)] in
    \<open>simp_all add: pend_timed_out_proj pend_timed_out_rq pend_timed_out_list\<close>)

text \<open>The inheritance rule after a waiter has timed out: only the owner of the mutex may be off.\<close>

lemma leave_mutex:
  assumes "base_inv k" "mtx_inv k" "pending (state_of k t)"
    and k': "blk_list \<circ> objs k' = (\<lambda>b. remove1 t (waiters k b))" "obj_type \<circ> objs k' = obj_type \<circ> objs k"
      "mutexes k' = mutexes k" "prio \<circ> tasks k' = prio \<circ> tasks k" "b_prio \<circ> tasks k' = b_prio \<circ> tasks k"
    and live: "\<And>v. v \<noteq> t \<Longrightarrow> live (state_of k' v) = live (state_of k v)"
    and old: "\<And>v. live (state_of k' v) \<Longrightarrow> eff_of k v (prio_of k v)"
  obtains b where "blk_obj (tasks k t) = Some b"
    and "obj_type (objs k' b) \<noteq> RHINO_MUTEX_OBJ_TYPE \<Longrightarrow> pi_inv k'"
    and "obj_type (objs k' b) = RHINO_MUTEX_OBJ_TYPE \<Longrightarrow> \<exists>u. mutex_task (mutexes k' b) = Some u \<and>
      (\<forall>v. live (state_of k' v) \<and> v \<noteq> u \<longrightarrow> eff_of k' v (prio_of k' v)) \<and>
      (prio_of k' u \<noteq> prio_of k' t \<longrightarrow> eff_of k' u (prio_of k' u))"
proof -
  note parts = base_invD [OF assms(1)]
  obtain b where b: "blk_obj (tasks k t) = Some b" using pending_object [OF parts(2), of t] assms(3) by blast
  have ty: "obj_type (objs k' b) = obj_type (objs k b)" using fun_cong [OF k'(2)] by simp
  have pr: "prio_of k' x = prio_of k x" for x using fun_cong [OF k'(4)] by simp
  have eff: "eff_of k' v (prio_of k' v)" if "live (state_of k' v)" "t \<notin> boosters_of k v \<or> prio_of k v \<noteq> prio_of k t" for v
    using unwait_eff [OF parts(2) k'(1,2) _ k'(4,5), of v] old that k'(3) by simp
  show ?thesis
  proof (rule that [OF b])
    assume "obj_type (objs k' b) \<noteq> RHINO_MUTEX_OBJ_TYPE"
    then have "t \<notin> boosters_of k v" for v
      using not_booster [OF parts(2), of t b v] b ty by simp
    then show "pi_inv k'" using eff by (simp add: pi_inv_eff)
  next
    assume "obj_type (objs k' b) = RHINO_MUTEX_OBJ_TYPE"
    then have m: "obj_type (objs k b) = RHINO_MUTEX_OBJ_TYPE" using ty by simp
    obtain u where u: "mutex_task (mutexes k b) = Some u" "u \<noteq> t" "u \<noteq> g_idle_task" "live (state_of k u)"
      "t \<in> boosters_of k u" "\<forall>v. v \<noteq> u \<longrightarrow> t \<notin> boosters_of k v"
      by (rule pending_on_mutex [OF parts(2) assms(2) parts(4) assms(3) b m])
    have "eff_of k' u (prio_of k' u)" if "prio_of k' u \<noteq> prio_of k' t"
      using eff [of u] live [of u] u(2,4) that pr by simp
    then show "\<exists>u. mutex_task (mutexes k' b) = Some u \<and>
      (\<forall>v. live (state_of k' v) \<and> v \<noteq> u \<longrightarrow> eff_of k' v (prio_of k' v)) \<and>
      (prio_of k' u \<noteq> prio_of k' t \<longrightarrow> eff_of k' u (prio_of k' u))"
      using u(1,6) eff k'(3) by auto
  qed
qed

text \<open>What one timeout does, in one record of facts.\<close>

definition timeout_effect :: "tid \<Rightarrow> 'a kernel_scheme \<Rightarrow> 'a kernel_scheme \<Rightarrow> bool" where
  "timeout_effect t k k' \<longleftrightarrow> base_inv k' \<and> mtx_inv k' \<and> pi_inv k' \<and>
     task_state \<circ> tasks k' = (task_state \<circ> tasks k)(t := woken (state_of k t)) \<and>
     tick_head \<circ> tasks k' = (tick_head \<circ> tasks k)(t := False) \<and>
     blk_state \<circ> tasks k' = (blk_state \<circ> tasks k)(t := (if pending (state_of k t) then BLK_TIMEOUT else BLK_FINISH)) \<and>
     tick_match \<circ> tasks k' = tick_match \<circ> tasks k \<and> g_tick_head k' = remove1 t (g_tick_head k) \<and>
     env k' = env k \<and> g_err k' = g_err k \<and> obj_type \<circ> objs k' = obj_type \<circ> objs k \<and>
     (\<forall>b. set (waiters k' b) \<subseteq> set (waiters k b))"

lemma tick_timeout_pend_effect:
  assumes "base_inv k" "mtx_inv k" "pi_inv k" and "pending (state_of k t)"
  shows "timeout_effect t k (tick_timeout t k)"
proof -
  let ?k = "pend_timed_out t k"
  have base: "base_inv ?k" using pend_timed_out_base [OF assms(1,4)] .
  have st: "state_of ?k v = (if v = t then woken (state_of k t) else state_of k v)" for v
    using fun_cong [OF pend_timed_out_proj(1), of t k v] by simp
  have mtx: "mtx_inv ?k"
    by (rule unwait_mtx [OF assms(2) pend_timed_out_proj(9,10,12,5) _ pend_timed_out_proj(1)])
      (use pend_timed_out_globals [of t k] in simp_all)
  obtain b where b: "blk_obj (tasks k t) = Some b"
    and "obj_type (objs ?k b) \<noteq> RHINO_MUTEX_OBJ_TYPE \<Longrightarrow> pi_inv ?k"
    and "obj_type (objs ?k b) = RHINO_MUTEX_OBJ_TYPE \<Longrightarrow> \<exists>u. mutex_task (mutexes ?k b) = Some u \<and>
      (\<forall>v. live (state_of ?k v) \<and> v \<noteq> u \<longrightarrow> eff_of ?k v (prio_of ?k v)) \<and>
      (prio_of ?k u \<noteq> prio_of ?k t \<longrightarrow> eff_of ?k u (prio_of ?k u))"
    by (rule leave_mutex [OF assms(1,2,4), of ?k])
      (use assms(3) in \<open>simp_all add: pend_timed_out_proj st pi_inv_eff split: if_splits\<close>)
  moreover have "blk_obj (tasks ?k t) = Some b" using fun_cong [OF pend_timed_out_proj(6), of t k t] b by simp
  ultimately have res: "base_inv (mutex_task_pri_reset t ?k)" "mtx_inv (mutex_task_pri_reset t ?k)"
    "prio_only ?k (mutex_task_pri_reset t ?k)" "pi_inv (mutex_task_pri_reset t ?k)"
    using mutex_task_pri_reset_inv [OF base mtx] by (metis, metis, metis, metis)
  note tsk = prio_only_tasks [OF res(3)]
  have bs: "blk_state (tasks ?k v) = (if v = t then BLK_TIMEOUT else blk_state (tasks k v))" for v
    by (simp add: pend_timed_out_def Let_def)
  have "\<not> pending (state_of (mutex_task_pri_reset t ?k) t)" using tsk(1) st by simp
  then have "base_inv (tick_timeout t k)" "mtx_inv (tick_timeout t k)" "pi_inv (tick_timeout t k)"
    using clear_blk_obj res unfolding tick_timeout_pending [OF assms(4)] by blast+
  moreover have "env (tick_timeout t k) = env k" "g_err (tick_timeout t k) = g_err k"
    "g_tick_head (tick_timeout t k) = remove1 t (g_tick_head k)"
    using res(3) pend_timed_out_list [OF base_invD(3) [OF assms(1)], of t]
    by (simp_all add: tick_timeout_pending [OF assms(4)] prio_only_def pend_timed_out_proj)
  moreover have "set (waiters ?k b) \<subseteq> set (waiters k b)" for b
    using fun_cong [OF pend_timed_out_proj(9), of t k b] set_remove1_subset [of t "waiters k b"] by simp
  then have "obj_type \<circ> objs (tick_timeout t k) = obj_type \<circ> objs k"
    "set (waiters (tick_timeout t k) b) \<subseteq> set (waiters k b)" for b
    using res(3) by (simp_all add: tick_timeout_pending [OF assms(4)] prio_only_def pend_timed_out_proj)
  moreover have "task_state \<circ> tasks (tick_timeout t k) = (task_state \<circ> tasks k)(t := woken (state_of k t))"
    "tick_head \<circ> tasks (tick_timeout t k) = (tick_head \<circ> tasks k)(t := False)"
    "blk_state \<circ> tasks (tick_timeout t k) = (blk_state \<circ> tasks k)(t := BLK_TIMEOUT)"
    "tick_match \<circ> tasks (tick_timeout t k) = tick_match \<circ> tasks k"
    using tsk st bs fun_cong [OF pend_timed_out_proj(7), of t k] fun_cong [OF pend_timed_out_proj(8), of t k]
    by (auto simp: tick_timeout_pending [OF assms(4)] fun_eq_iff)
  ultimately show ?thesis using assms(4) by (simp add: timeout_effect_def)
qed

lemma tick_timeout_sleep_effect:
  assumes "base_inv k" "mtx_inv k" "pi_inv k" and "sleeping (state_of k t)"
  shows "timeout_effect t k (tick_timeout t k)"
proof -
  note parts = base_invD [OF assms(1)]
  let ?k = "tick_timeout t k"
  have np: "\<not> pending (state_of k t)" using assms(4) by (auto simp: sleeping_def)
  have t: "t \<notin> set (waiters k b)" for b
    using parts(2) np by (auto simp: blk_inv_def blk_ok_def)
  have st: "task_state \<circ> tasks ?k = (task_state \<circ> tasks k)(t := woken (state_of k t))"
    and pr: "prio \<circ> tasks ?k = prio \<circ> tasks k" "b_prio \<circ> tasks ?k = b_prio \<circ> tasks k"
      "suspend_count \<circ> tasks ?k = suspend_count \<circ> tasks k" "mutex_list \<circ> tasks ?k = mutex_list \<circ> tasks k"
      "tick_match \<circ> tasks ?k = tick_match \<circ> tasks k" "blk_obj \<circ> tasks ?k = blk_obj \<circ> tasks k"
      "tick_head \<circ> tasks ?k = (tick_head \<circ> tasks k)(t := False)"
      "blk_state \<circ> tasks ?k = (blk_state \<circ> tasks k)(t := BLK_FINISH)"
      "ticks_left ?k = ticks_left k" "objs ?k = objs k" "mutexes ?k = mutexes k" "k_fault ?k = k_fault k"
      "env ?k = env k" "g_err ?k = g_err k"
    using assms(4) by (auto simp: tick_timeout_def sleeping_def fun_eq_iff ticks_left_def)
  have tl: "g_tick_head ?k = remove1 t (g_tick_head k)"
  proof -
    have "tick_head (tasks k t)" using assms(4) parts(3) by (simp add: tick_inv_def tick_ok_def)
    then show ?thesis using assms(4) by (auto simp: tick_timeout_def sleeping_def tick_list_rm_def)
  qed
  have rq: "g_ready_queue ?k = (if woken (state_of k t) = K_RDY then g_ready_queue (ready_list_add t k) else g_ready_queue k)"
    using assms(4) unfolding sleeping_def
    by (elim disjE) (auto simp: tick_timeout_def intro!: ready_list_add_rq)
  have wl: "blk_list \<circ> objs ?k = (\<lambda>b. remove1 t (waiters k b))"
    using t by (simp add: pr(10) fun_eq_iff remove1_idem)
  note globals = pr(13) [unfolded env_frame]
  have base: "base_inv ?k"
    by (rule leave_wait_base [OF assms(1) _ st pr(1-3) _ pr(7) tl _ wl])
      (use assms(4) globals fun_cong [OF pr(6)] in \<open>simp_all add: rq pr(9-14)\<close>)
  have mtx: "mtx_inv ?k"
    by (rule unwait_mtx [OF assms(2) wl _ pr(11,4) _ st]) (use globals in \<open>simp_all add: pr(9-14)\<close>)
  have "boosters_of ?k = boosters_of k" by (simp add: boosters_of_def pr)
  then have "pi_inv ?k"
    using assms(3) fun_cong [OF st] fun_cong [OF pr(1)] fun_cong [OF pr(2)]
    unfolding pi_inv_eff eff_of_def by (simp cong: image_cong)
  then show ?thesis
    using base mtx np by (simp add: timeout_effect_def st pr tl)
qed

lemma tick_timeout_effect:
  assumes "base_inv k" "mtx_inv k" "pi_inv k" and "tick_head (tasks k t)"
  shows "timeout_effect t k (tick_timeout t k)"
proof -
  have "pending (state_of k t) \<or> sleeping (state_of k t)"
    using base_invD(3) [OF assms(1)] assms(4) by (simp add: tick_inv_def tick_ok_def)
  then show ?thesis using tick_timeout_pend_effect tick_timeout_sleep_effect assms(1-3) by blast
qed

section \<open>The walk and the tick\<close>

text \<open>The effect of ending the waits of a set of tasks.\<close>

definition ends_waits :: "tid set \<Rightarrow> 'a kernel_scheme \<Rightarrow> 'a kernel_scheme \<Rightarrow> bool" where
  "ends_waits D k k' \<longleftrightarrow> env k' = env k \<and> g_err k' = g_err k \<and>
     obj_type \<circ> objs k' = obj_type \<circ> objs k \<and> (\<forall>b. set (waiters k' b) \<subseteq> set (waiters k b)) \<and>
     (\<forall>t. state_of k' t = (if t \<in> D then woken (state_of k t) else state_of k t)) \<and>
     (\<forall>t. tick_head (tasks k' t) \<longleftrightarrow> t \<notin> D \<and> tick_head (tasks k t)) \<and>
     (\<forall>t. blk_state (tasks k' t) =
        (if t \<in> D then (if pending (state_of k t) then BLK_TIMEOUT else BLK_FINISH) else blk_state (tasks k t))) \<and>
     (\<forall>t. tick_match (tasks k' t) = tick_match (tasks k t))"

lemma ends_waits_none: "ends_waits {} k k"
  by (simp add: ends_waits_def)

lemma ends_waits_one: "timeout_effect t k k' \<Longrightarrow> ends_waits {t} k k'"
  unfolding timeout_effect_def ends_waits_def fun_eq_iff by (auto split: if_splits)

lemma ends_waits_insert:
  assumes "ends_waits {t} k k1" and "ends_waits D k1 k2" and "t \<notin> D"
  shows "ends_waits (insert t D) k k2"
  using assms unfolding ends_waits_def by (simp, blast)

lemma ends_waits_left: "ends_waits D k k' \<Longrightarrow> ticks_left k' t = ticks_left k t"
  unfolding ends_waits_def ticks_left_def env_frame by simp

lemma tick_list_walk_spec:
  assumes "base_inv k" "mtx_inv k" "pi_inv k" and "g_tick_head k = ts"
  defines "due \<equiv> \<lambda>t. ticks_left k t = 0"
  shows "base_inv (tick_list_walk ts k) \<and> mtx_inv (tick_list_walk ts k) \<and> pi_inv (tick_list_walk ts k) \<and>
     ends_waits (set (takeWhile due ts)) k (tick_list_walk ts k) \<and>
     g_tick_head (tick_list_walk ts k) = dropWhile due ts"
  using assms(1-4) unfolding due_def
proof (induction ts arbitrary: k)
  case Nil
  then show ?case by (simp add: ends_waits_none)
next
  case (Cons t ts)
  show ?case
  proof (cases "ticks_left k t = 0")
    case True
    have "tick_head (tasks k t)" and dist: "distinct (t # ts)"
      using base_invD(3) [OF Cons.prems(1)] Cons.prems(4) by (auto simp: tick_inv_def tick_ok_def)
    then have te: "timeout_effect t k (tick_timeout t k)" using tick_timeout_effect Cons.prems(1-3) by blast
    let ?k = "tick_timeout t k"
    have one: "ends_waits {t} k ?k" using ends_waits_one [OF te] .
    have left: "ticks_left ?k u = ticks_left k u" for u using ends_waits_left [OF one] .
    have "base_inv (tick_list_walk ts ?k) \<and> mtx_inv (tick_list_walk ts ?k) \<and> pi_inv (tick_list_walk ts ?k) \<and>
      ends_waits (set (takeWhile (\<lambda>u. ticks_left ?k u = 0) ts)) ?k (tick_list_walk ts ?k) \<and>
      g_tick_head (tick_list_walk ts ?k) = dropWhile (\<lambda>u. ticks_left ?k u = 0) ts"
      using te Cons.prems(4) dist by (intro Cons.IH) (auto simp: timeout_effect_def)
    note IH = this [unfolded left]
    moreover have "t \<notin> set (takeWhile (\<lambda>u. ticks_left k u = 0) ts)"
      using dist by (auto dest: set_takeWhileD)
    ultimately have "ends_waits (insert t (set (takeWhile (\<lambda>u. ticks_left k u = 0) ts))) k (tick_list_walk ts ?k)"
      using ends_waits_insert [OF one] by blast
    moreover have "tick_list_walk (t # ts) k = tick_list_walk ts ?k" using True by (simp add: ticks_left_def)
    ultimately show ?thesis using IH True by simp
  next
    case False
    then show ?thesis using Cons.prems by (simp add: ends_waits_none ticks_left_def)
  qed
qed

lemma sorted_takeWhile_zero:
  assumes "sorted (map f xs)"
  shows "set (takeWhile (\<lambda>x. f x = (0 :: u32)) xs) = {x \<in> set xs. f x = 0}"
    and "x \<in> set (dropWhile (\<lambda>x. f x = 0) xs) \<Longrightarrow> 0 < f x"
proof -
  have "set (takeWhile (\<lambda>x. f x = 0) xs) = {x \<in> set xs. f x = 0} \<and> (\<forall>x \<in> set (dropWhile (\<lambda>x. f x = 0) xs). 0 < f x)"
    using assms
  proof (induction xs)
    case (Cons y ys)
    show ?case
    proof (cases "f y = 0")
      case False
      then have "0 < f y" by (simp add: word_gt_0)
      then have "\<forall>z \<in> set (y # ys). 0 < f z" using Cons.prems by (auto intro: less_le_trans)
      then show ?thesis using False by auto
    qed (use Cons in auto)
  qed simp
  then show "set (takeWhile (\<lambda>x. f x = 0) xs) = {x \<in> set xs. f x = 0}"
    and "x \<in> set (dropWhile (\<lambda>x. f x = 0) xs) \<Longrightarrow> 0 < f x" by auto
qed

text \<open>Advancing the counter takes one tick off every positive remaining time, across the wrap-around.\<close>

lemma sorted_minus_one:
  assumes "sorted (map f xs)" and "\<And>x. x \<in> set xs \<Longrightarrow> 0 < (f x :: u32)"
  shows "sorted (map (\<lambda>x. f x - 1) xs)"
  using assms
proof (induction xs)
  case (Cons y ys)
  have "f y - 1 \<le> f z - 1" if "z \<in> set ys" for z
  proof -
    have "f y \<le> f z" "0 < f y" "0 < f z" using Cons.prems that by auto
    then show ?thesis by unat_arith
  qed
  then show ?case using Cons by auto
qed simp

lemma advance_inv:
  assumes "kernel_inv k"
  defines "k1 \<equiv> k\<lparr>g_tick_count := g_tick_count k + 1, g_sys_time_tick := g_sys_time_tick k + 1\<rparr>"
  shows "base_inv k1" "mtx_inv k1" "pi_inv k1" "ticks_left k1 t = ticks_left k t - 1"
    "g_tick_head k1 = g_tick_head k"
proof -
  note parts = kernel_invD [OF assms(1)]
  have left: "ticks_left k1 t = ticks_left k t - 1" for t by (simp add: ticks_left_def k1_def)
  have "0 < ticks_left k t" if "t \<in> set (g_tick_head k)" for t
    using parts(3,9) that by (simp add: tick_inv_def tick_ok_def tick_pos_def)
  then have "sorted (map (\<lambda>t. ticks_left k t - 1) (g_tick_head k))"
    using parts(3) by (intro sorted_minus_one) (simp_all add: tick_inv_def tick_ok_def)
  then have "tick_ok (g_tick_head k) (ticks_left k1) (tick_head \<circ> tasks k) (task_state \<circ> tasks k)"
    using parts(3) by (simp add: tick_inv_def tick_ok_def left cong: map_cong)
  then show "base_inv k1" using parts by (simp add: base_inv_def inv_defs k1_def)
  show "mtx_inv k1" "pi_inv k1" "g_tick_head k1 = g_tick_head k" "ticks_left k1 t = ticks_left k t - 1"
    using parts left by (simp_all add: inv_defs k1_def)
qed

lemma tick_list_update_spec:
  assumes "kernel_inv k"
  shows "kernel_inv (tick_list_update k)"
    and "ends_waits {t. tick_head (tasks k t) \<and> ticks_left k t = 1}
      (k\<lparr>g_tick_count := g_tick_count k + 1, g_sys_time_tick := g_sys_time_tick k + 1\<rparr>) (tick_list_update k)"
proof -
  let ?k = "k\<lparr>g_tick_count := g_tick_count k + 1, g_sys_time_tick := g_sys_time_tick k + 1\<rparr>"
  let ?ts = "g_tick_head k" and ?due = "\<lambda>t. ticks_left ?k t = 0"
  note adv = advance_inv [OF assms]
  have upd: "tick_list_update k = tick_list_walk ?ts ?k" by (simp add: tick_list_update_def)
  have walk: "base_inv (tick_list_update k)" "mtx_inv (tick_list_update k)" "pi_inv (tick_list_update k)"
    "ends_waits (set (takeWhile ?due ?ts)) ?k (tick_list_update k)"
    "g_tick_head (tick_list_update k) = dropWhile ?due ?ts"
    using tick_list_walk_spec [OF adv(1-3), of ?ts] unfolding upd by simp_all
  have tick: "sorted (map (ticks_left ?k) ?ts)" "\<And>t. t \<in> set ?ts \<longleftrightarrow> tick_head (tasks k t)"
    using base_invD(3) [OF adv(1)] by (simp_all add: tick_inv_def tick_ok_def)
  have "set (takeWhile ?due ?ts) = {t. tick_head (tasks k t) \<and> ticks_left k t = 1}"
    unfolding sorted_takeWhile_zero(1) [OF tick(1)] by (auto simp: tick(2) adv(4))
  with walk(4) show "ends_waits {t. tick_head (tasks k t) \<and> ticks_left k t = 1} ?k (tick_list_update k)" by simp
  have "0 < ticks_left (tick_list_update k) t" if "tick_head (tasks (tick_list_update k) t)" for t
  proof -
    have "t \<in> set (dropWhile ?due ?ts)"
      using base_invD(3) [OF walk(1)] that walk(5) by (simp add: tick_inv_def tick_ok_def)
    then show ?thesis
      using sorted_takeWhile_zero(2) [OF tick(1)] ends_waits_left [OF walk(4)] by simp
  qed
  moreover have "dead_ok (tick_list_update k)"
  proof (rule dead_ok_cong [OF kernel_invD(10) [OF assms]])
    note ew = walk(4) [unfolded ends_waits_def]
    have wl: "set (waiters (tick_list_update k) b) \<subseteq> set (waiters k b)" for b using ew by simp
    show "waiters (tick_list_update k) b = []" if "waiters k b = []" for b using wl [of b] that by simp
    show "obj_type (objs k b) = RHINO_OBJ_TYPE_NONE" if "obj_type (objs (tick_list_update k) b) = RHINO_OBJ_TYPE_NONE" for b
      using ew that by (simp add: fun_eq_iff)
    show "task_head (tick_list_update k) = task_head k" using ew by (simp add: env_def)
    show "live (state_of (tick_list_update k) t)" if "live (state_of k t)" for t using ew that by simp
  qed
  ultimately show "kernel_inv (tick_list_update k)"
    using walk(1-3) by (simp add: kernel_inv_base tick_pos_def)
qed

lemma tick_list_update_task:
  assumes "kernel_inv k"
  shows "state_of (tick_list_update k) t =
      (if tick_head (tasks k t) \<and> ticks_left k t = 1 then woken (state_of k t) else state_of k t)"
    and "blk_state (tasks (tick_list_update k) t) =
      (if tick_head (tasks k t) \<and> ticks_left k t = 1
       then (if pending (state_of k t) then BLK_TIMEOUT else BLK_FINISH) else blk_state (tasks k t))"
    and "tick_head (tasks (tick_list_update k) t) \<longleftrightarrow> tick_head (tasks k t) \<and> ticks_left k t \<noteq> 1"
    and "ticks_left (tick_list_update k) t = ticks_left k t - 1"
proof -
  note spec = tick_list_update_spec(2) [OF assms]
  show "ticks_left (tick_list_update k) t = ticks_left k t - 1"
    using ends_waits_left [OF spec, of t] advance_inv(4) [OF assms, of t] by simp
qed (use tick_list_update_spec(2) [OF assms] in \<open>auto simp: ends_waits_def\<close>)

lemma tick_list_update_frame:
  assumes "kernel_inv k"
  shows "env (tick_list_update k) = env (k\<lparr>g_tick_count := g_tick_count k + 1, g_sys_time_tick := g_sys_time_tick k + 1\<rparr>)"
    and "g_err (tick_list_update k) = g_err k"
  using tick_list_update_spec(2) [OF assms] by (simp_all add: ends_waits_def)

lemma ticks_inv: "kernel_inv k \<Longrightarrow> kernel_inv ((tick_list_update ^^ n) k)"
  by (induction n) (simp_all add: tick_list_update_spec(1))

text \<open>A wait of \<open>n\<close> ticks is undisturbed for \<open>n - 1\<close> ticks and over after the \<open>n\<close>-th.\<close>

lemma ticks_countdown:
  assumes "kernel_inv k" and "tick_head (tasks k t)" and "m < unat (ticks_left k t)"
  shows "tick_head (tasks ((tick_list_update ^^ m) k) t) \<and>
    ticks_left ((tick_list_update ^^ m) k) t = ticks_left k t - of_nat m \<and>
    state_of ((tick_list_update ^^ m) k) t = state_of k t \<and>
    blk_state (tasks ((tick_list_update ^^ m) k) t) = blk_state (tasks k t)"
  using assms(3)
proof (induction m)
  case (Suc m)
  let ?k = "(tick_list_update ^^ m) k"
  have IH: "tick_head (tasks ?k t)" "ticks_left ?k t = ticks_left k t - of_nat m"
    "state_of ?k t = state_of k t" "blk_state (tasks ?k t) = blk_state (tasks k t)"
    using Suc by simp_all
  have "ticks_left ?k t \<noteq> 1"
  proof
    assume "ticks_left ?k t = 1"
    then have "ticks_left k t = of_nat (Suc m)" using IH(2) by (simp add: algebra_simps)
    moreover have "unat (of_nat (Suc m) :: u32) \<le> Suc m"
      unfolding unat_of_nat by (rule mod_less_eq_dividend)
    ultimately show False using Suc.prems by simp
  qed
  then show ?case
    using tick_list_update_task [OF ticks_inv [OF assms(1)], of m t] IH by simp
qed (simp add: assms(2))

lemma ticks_expire:
  assumes "kernel_inv k" and "tick_head (tasks k t)" and "n = unat (ticks_left k t)"
  shows "state_of ((tick_list_update ^^ n) k) t = woken (state_of k t) \<and>
    blk_state (tasks ((tick_list_update ^^ n) k) t) = (if pending (state_of k t) then BLK_TIMEOUT else BLK_FINISH)"
proof -
  have "0 < ticks_left k t" using kernel_invD(9) [OF assms(1)] assms(2) by (simp add: tick_pos_def)
  then have pos: "0 < n" using assms(3) by (simp add: word_less_nat_alt)
  then obtain m where m: "n = Suc m" by (cases n) simp_all
  let ?k = "(tick_list_update ^^ m) k"
  have cd: "tick_head (tasks ?k t)" "ticks_left ?k t = ticks_left k t - of_nat m" "state_of ?k t = state_of k t"
    using ticks_countdown [OF assms(1,2), of m] assms(3) m by simp_all
  have "ticks_left k t = of_nat n" using assms(3) by simp
  then have "ticks_left ?k t = 1" using cd(2) m by simp
  then show ?thesis
    using tick_list_update_task(1,2) [OF ticks_inv [OF assms(1)], of m t] cd m by simp
qed

end
