(* ===== verification/Kernel_Ops.thy ===== *)
theory Kernel_Ops
  imports Tick
begin

text \<open>
  What the API calls share: the reschedule at the end of a critical section, waking the tasks of a
  block list, and blocking the running task.  \<open>sys_inv\<close> is the invariant of a running system, the
  kernel invariant together with \<open>sched_ok\<close>: outside interrupts, and in interrupts that hit a task
  that has locked the scheduler, the running task is ready; outside interrupts and
  while the scheduler is not locked it is the first of the most urgent ready tasks.
\<close>

section \<open>The scheduler's choice\<close>

definition best :: "'a kernel_scheme \<Rightarrow> tid" where
  "best k = hd (cur_list (g_ready_queue k) (highest_pri (g_ready_queue k)))"

definition sched_ok :: "'a kernel_scheme \<Rightarrow> bool" where
  "sched_ok k \<longleftrightarrow> (g_intrpt_nested_level k = 0 \<or> g_sched_lock k > 0 \<longrightarrow> state_of k (g_active_task k) = K_RDY) \<and>
     (g_intrpt_nested_level k = 0 \<and> g_sched_lock k = 0 \<longrightarrow> g_active_task k = best k)"

definition sys_inv :: "'a kernel_scheme \<Rightarrow> bool" where
  "sys_inv k \<longleftrightarrow> kernel_inv k \<and> sched_ok k"

lemma sched_okD:
  assumes "sched_ok k" and "g_intrpt_nested_level k = 0"
  shows "state_of k (g_active_task k) = K_RDY" and "g_sched_lock k = 0 \<Longrightarrow> g_active_task k = best k"
  using assms by (simp_all add: sched_ok_def)

lemma sched_ok_locked: "sched_ok k \<Longrightarrow> g_sched_lock k > 0 \<Longrightarrow> state_of k (g_active_task k) = K_RDY"
  by (simp add: sched_ok_def)

lemma highest_not_empty:
  assumes "rdy_inv k" and "idle_inv k"
  shows "cur_list (g_ready_queue k) (highest_pri (g_ready_queue k)) \<noteq> []"
proof -
  have "g_idle_task \<in> set (cur_list (g_ready_queue k) RHINO_IDLE_PRI)" "rq_wf (g_ready_queue k)"
    using assms idle_invD(1,2) [of k] by (simp_all add: rdy_inv_def rdy_ok_def)
  then show ?thesis using rq_wfD(6) by fastforce
qed

lemma best_ready:
  assumes "rdy_inv k" and "idle_inv k"
  shows "state_of k (best k) = K_RDY" and "state_of k u = K_RDY \<Longrightarrow> prio_of k (best k) \<le> prio_of k u"
proof -
  let ?q = "g_ready_queue k"
  have wf: "rq_wf ?q" and mem: "\<And>t p. t \<in> set (cur_list ?q p) \<longleftrightarrow> state_of k t = K_RDY \<and> prio_of k t = p"
    using assms(1) by (simp_all add: rdy_inv_def rdy_ok_def)
  have "best k \<in> set (cur_list ?q (highest_pri ?q))"
    using highest_not_empty [OF assms] by (simp add: best_def)
  then have b: "state_of k (best k) = K_RDY" "prio_of k (best k) = highest_pri ?q" using mem by simp_all
  show "state_of k (best k) = K_RDY" by (fact b(1))
  assume "state_of k u = K_RDY"
  then have "u \<in> set (cur_list ?q (prio_of k u))" using mem by simp
  then have "cur_list ?q (prio_of k u) \<noteq> []" by auto
  then show "prio_of k (best k) \<le> prio_of k u" using rq_wfD(5) [OF wf] b(2) by simp
qed

lemma active_upd_same:
  "g_active_task k = x \<Longrightarrow> k\<lparr>g_preferred_ready_task := y, g_active_task := x\<rparr> = k\<lparr>g_preferred_ready_task := y\<rparr>"
  by (cases k) auto

lemma core_sched_eq:
  assumes "rdy_inv k" and "idle_inv k"
  shows "core_sched k =
    (if g_intrpt_nested_level k > 0 \<or> g_sched_lock k > 0 then k
     else k\<lparr>g_preferred_ready_task := best k, g_active_task := best k\<rparr>)"
  using highest_not_empty [OF assms]
  by (auto simp: core_sched_def preferred_cpu_ready_task_get_def best_def Let_def active_upd_same
      split: list.split)

lemma core_sched_view:
  assumes "rdy_inv k" and "idle_inv k"
  shows "view (core_sched k) = view k"
  unfolding core_sched_eq [OF assms] by simp

lemma core_sched_frame [simp]:
  "tasks (core_sched k) = tasks k" "objs (core_sched k) = objs k" "sems (core_sched k) = sems k"
  "mutexes (core_sched k) = mutexes k" "g_tick_head (core_sched k) = g_tick_head k"
  "g_sched_lock (core_sched k) = g_sched_lock k" "g_intrpt_nested_level (core_sched k) = g_intrpt_nested_level k"
  "g_ready_queue (core_sched k) = g_ready_queue k" "g_err (core_sched k) = g_err k"
  "g_tick_count (core_sched k) = g_tick_count k" "sem_head (core_sched k) = sem_head k"
  "mutex_head (core_sched k) = mutex_head k" "task_head (core_sched k) = task_head k"
  "mm_freed (core_sched k) = mm_freed k" "g_res_list (core_sched k) = g_res_list k"
  "g_sys_stat (core_sched k) = g_sys_stat k" "g_intrpt_masked (core_sched k) = g_intrpt_masked k"
  "kernel.more (core_sched k) = kernel.more k"
  by (simp_all add: core_sched_def preferred_cpu_ready_task_get_def Let_def split: list.split)

text \<open>Leaving a critical section with a reschedule.\<close>

lemma sched_exit:
  assumes "kernel_inv k"
    and "g_sched_lock k > 0 \<Longrightarrow> state_of k (g_active_task k) = K_RDY"
  shows "sys_inv (core_sched k)"
proof -
  note parts = kernel_invD [OF assms(1)]
  have "kernel_inv (core_sched k)"
    using inv_view [OF core_sched_view [OF parts(1,6)]] assms(1) by simp
  moreover have "sched_ok (core_sched k)"
    using assms(2) best_ready(1) [OF parts(1,6)] unfolding core_sched_eq [OF parts(1,6)]
    by (auto simp: sched_ok_def best_def word_gt_0)
  ultimately show ?thesis by (simp add: sys_inv_def)
qed

text \<open>Calls that leave the scheduler's data alone.\<close>

lemma sys_inv_cong:
  assumes "kernel_inv k'" and "sched_ok k" and "g_ready_queue k' = g_ready_queue k"
    and "g_active_task k' = g_active_task k" "g_sched_lock k' = g_sched_lock k"
    and "g_intrpt_nested_level k' = g_intrpt_nested_level k"
    and "state_of k' (g_active_task k) = state_of k (g_active_task k)"
  shows "sys_inv k'"
  using assms by (simp add: sys_inv_def sched_ok_def best_def)

lemma pi_inv_cong:
  assumes "pi_inv k" and "\<And>u. boosters_of k' u = boosters_of k u" and "prio \<circ> tasks k' = prio \<circ> tasks k"
    and "b_prio \<circ> tasks k' = b_prio \<circ> tasks k" and "\<And>u. live (state_of k' u) \<Longrightarrow> live (state_of k u)"
  shows "pi_inv k'"
proof -
  have "prio_of k' u = prio_of k u" "b_prio (tasks k' u) = b_prio (tasks k u)" for u
    using fun_cong [OF assms(3)] fun_cong [OF assms(4)] by simp_all
  then show ?thesis using assms(1,2,5) by (simp add: pi_inv_eff eff_of_def cong: image_cong)
qed

section \<open>Waking tasks\<close>

lemma wakeup_proj:
  assumes "pending (state_of k t)"
  shows "task_state \<circ> tasks (pend_task_wakeup t k) = (task_state \<circ> tasks k)(t := woken (state_of k t))"
    "prio \<circ> tasks (pend_task_wakeup t k) = prio \<circ> tasks k"
    "b_prio \<circ> tasks (pend_task_wakeup t k) = b_prio \<circ> tasks k"
    "mutex_list \<circ> tasks (pend_task_wakeup t k) = mutex_list \<circ> tasks k"
    "tick_head \<circ> tasks (pend_task_wakeup t k) = (tick_head \<circ> tasks k)(t := False)"
    "tick_match \<circ> tasks (pend_task_wakeup t k) = tick_match \<circ> tasks k"
    "blk_state \<circ> tasks (pend_task_wakeup t k) = (blk_state \<circ> tasks k)(t := BLK_FINISH)"
    "blk_list \<circ> objs (pend_task_wakeup t k) = (\<lambda>b. remove1 t (waiters k b))"
    "obj_type \<circ> objs (pend_task_wakeup t k) = obj_type \<circ> objs k"
    "mutexes (pend_task_wakeup t k) = mutexes k" "g_err (pend_task_wakeup t k) = g_err k"
    "k_fault (pend_task_wakeup t k) = k_fault k"
  using assms by (auto simp: pend_task_wakeup_def fun_eq_iff)

lemma wakeup_pos:
  assumes "pending (state_of k t)" and "tick_pos k"
  shows "tick_pos (pend_task_wakeup t k)"
  unfolding tick_pos_def ticks_left_def
  using assms(2) fun_cong [OF wakeup_proj(5) [OF assms(1)]] fun_cong [OF wakeup_proj(6) [OF assms(1)]]
  by (auto simp: tick_pos_def ticks_left_def)

lemma wakeup_mtx:
  assumes "pending (state_of k t)" and "mtx_inv k"
  shows "mtx_inv (pend_task_wakeup t k)"
  by (rule unwait_mtx [OF assms(2) wakeup_proj(8,9,10,4) _ wakeup_proj(1)])
    (simp_all add: assms(1))

text \<open>A task that waited for something other than a mutex boosts nobody.\<close>

lemma wakeup_pi:
  assumes "blk_inv k" "pi_inv k" and "pending (state_of k t)" and "blk_obj (tasks k t) = Some b"
    and "obj_type (objs k b) \<noteq> RHINO_MUTEX_OBJ_TYPE"
  shows "pi_inv (pend_task_wakeup t k)"
  unfolding pi_inv_eff
proof (intro allI impI)
  fix v assume v: "live (state_of (pend_task_wakeup t k) v)"
  have "state_of (pend_task_wakeup t k) v = (if v = t then woken (state_of k t) else state_of k v)"
    using fun_cong [OF wakeup_proj(1) [OF assms(3)], of v] by simp
  then have "live (state_of k v)" using v by (simp split: if_splits)
  then have "eff_of k v (prio_of k v)" using assms(2) by (simp add: pi_inv_eff)
  moreover have "t \<notin> boosters_of k v" using not_booster [OF assms(1), of t b v] assms(3-5) by blast
  ultimately show "eff_of (pend_task_wakeup t k) v (prio_of (pend_task_wakeup t k) v)"
    using unwait_eff [OF assms(1) wakeup_proj(8,9) _ wakeup_proj(2,3)] assms(3)
    by (simp add: wakeup_proj(10) [OF assms(3)])
qed

lemma wakeup_inv:
  assumes "kernel_inv k" and "pending (state_of k t)" and "blk_obj (tasks k t) = Some b"
    and "obj_type (objs k b) \<noteq> RHINO_MUTEX_OBJ_TYPE"
  shows "kernel_inv (pend_task_wakeup t k)"
proof -
  note parts = kernel_invD [OF assms(1)]
  have "dead_ok (pend_task_wakeup t k)"
    by (rule dead_ok_cong [OF parts(10)])
      (use fun_cong [OF wakeup_proj(8) [OF assms(2)]] fun_cong [OF wakeup_proj(9) [OF assms(2)]]
        fun_cong [OF wakeup_proj(1) [OF assms(2)]] in auto)
  then show ?thesis
    using assms parts pend_task_wakeup_base wakeup_mtx wakeup_pi wakeup_pos
    unfolding kernel_inv_base by blast
qed

lemma pend_rm_inv:
  assumes "kernel_inv k" and "pending (state_of k t)" and "blk_obj (tasks k t) = Some b"
    and "obj_type (objs k b) \<noteq> RHINO_MUTEX_OBJ_TYPE"
  shows "kernel_inv (pend_task_rm t k)"
  using wakeup_inv [OF assms] inv_view [OF pend_task_rm_view] by blast

text \<open>The first waiter of an object is pending on it.\<close>

lemma waiter_pending:
  assumes "blk_inv k" and "t \<in> set (waiters k b)"
  shows "pending (state_of k t)" "blk_obj (tasks k t) = Some b"
  using assms by (auto simp: blk_inv_def blk_ok_def)

text \<open>
  A step of an emptying loop: it takes the first task of a block list off that list, ends its wait
  with a given result and keeps an invariant.  Both \<open>pend_task_wakeup\<close> and \<open>pend_task_rm\<close> are such
  steps; the loop then ends, empties the list, keeps the invariant and ends the waits of exactly the
  tasks that were on the list.
\<close>

locale emptying_step =
  fixes f :: "tid \<Rightarrow> 'a kernel_scheme \<Rightarrow> 'a kernel_scheme" and I :: "oid \<Rightarrow> 'a kernel_scheme \<Rightarrow> bool"
    and s :: blk_state_t
  assumes step_inv: "I b k \<Longrightarrow> waiters k b = t # ts \<Longrightarrow> I b (f t k)"
    and step_list: "I b k \<Longrightarrow> waiters k b = t # ts \<Longrightarrow> waiters (f t k) b = ts"
    and step_state: "I b k \<Longrightarrow> waiters k b = t # ts \<Longrightarrow>
      state_of (f t k) u = (if u = t then woken (state_of k t) else state_of k u)"
    and step_result: "I b k \<Longrightarrow> waiters k b = t # ts \<Longrightarrow>
      blk_state (tasks (f t k) u) = (if u = t then s else blk_state (tasks k u))"
    and step_env: "env (f t k) = env k"
    and distinct_waiters: "I b k \<Longrightarrow> distinct (waiters k b)"
begin

lemma while_waiters_fold:
  "I b k \<Longrightarrow> waiters k b = ts \<Longrightarrow> while_waiters f b (length ts) k = fold f ts k"
proof (induction ts arbitrary: k)
  case (Cons t ts)
  then show ?case using step_inv [of b k t ts] step_list [of b k t ts] by simp
qed simp

lemma fold_spec:
  "I b k \<Longrightarrow> waiters k b = ts \<Longrightarrow> I b (fold f ts k) \<and> waiters (fold f ts k) b = [] \<and> env (fold f ts k) = env k \<and>
    (\<forall>u. state_of (fold f ts k) u = (if u \<in> set ts then woken (state_of k u) else state_of k u)) \<and>
    (\<forall>u. blk_state (tasks (fold f ts k) u) = (if u \<in> set ts then s else blk_state (tasks k u)))"
proof (induction ts arbitrary: k)
  case (Cons t ts)
  have "t \<notin> set ts" using distinct_waiters [OF Cons.prems(1)] Cons.prems(2) by simp
  then show ?case
    using Cons.IH [OF step_inv [OF Cons.prems] step_list [OF Cons.prems]]
      step_state [OF Cons.prems] step_result [OF Cons.prems] step_env by simp
qed simp

lemma for_waiters_spec:
  assumes "I b k"
  shows "I b (for_waiters f b k)" and "waiters (for_waiters f b k) b = []" and "env (for_waiters f b k) = env k"
    and "state_of (for_waiters f b k) u = (if u \<in> set (waiters k b) then woken (state_of k u) else state_of k u)"
    and "blk_state (tasks (for_waiters f b k) u) = (if u \<in> set (waiters k b) then s else blk_state (tasks k u))"
  using fold_spec [OF assms refl] while_waiters_fold [OF assms refl] by (simp_all add: for_waiters_def)

end

text \<open>The invariant while the block list of a (possibly already deleted) object is emptied.\<close>

definition emptying :: "oid \<Rightarrow> 'a kernel_scheme \<Rightarrow> bool" where
  "emptying b k \<longleftrightarrow> base_inv k \<and> mtx_inv k \<and> pi_inv k \<and> tick_pos k \<and>
     obj_type (objs k b) \<noteq> RHINO_MUTEX_OBJ_TYPE \<and>
     (\<forall>c. c \<noteq> b \<and> obj_type (objs k c) = RHINO_OBJ_TYPE_NONE \<longrightarrow> waiters k c = []) \<and>
     (\<forall>t \<in> set (task_head k). live (state_of k t))"

lemma emptying_wakeup:
  assumes "emptying b k" and "waiters k b = t # ts"
  shows "emptying b (pend_task_wakeup t k)" and "waiters (pend_task_wakeup t k) b = ts"
proof -
  have blk: "blk_inv k" using assms(1) base_invD(2) [of k] by (simp add: emptying_def)
  have t: "pending (state_of k t)" "blk_obj (tasks k t) = Some b"
    using waiter_pending [OF blk, of t b] assms(2) by simp_all
  have wl: "waiters (pend_task_wakeup t k) c = remove1 t (waiters k c)" for c
    using fun_cong [OF wakeup_proj(8) [OF t(1)], of c] by simp
  then show "waiters (pend_task_wakeup t k) b = ts" using assms(2) by simp
  have "obj_type (objs (pend_task_wakeup t k) c) = obj_type (objs k c)" for c
    using fun_cong [OF wakeup_proj(9) [OF t(1)], of c] by simp
  moreover have "live (state_of (pend_task_wakeup t k) u) = live (state_of k u)" for u
    using fun_cong [OF wakeup_proj(1) [OF t(1)], of u] by simp
  ultimately show "emptying b (pend_task_wakeup t k)"
    using assms(1) wl pend_task_wakeup_base [OF _ t(1)] wakeup_mtx [OF t(1)] wakeup_pi [OF blk _ t]
      wakeup_pos [OF t(1)] unfolding emptying_def by simp
qed

interpretation wake: emptying_step pend_task_wakeup emptying BLK_FINISH
proof (standard, goal_cases)
  case (1 b k t ts) then show ?case by (rule emptying_wakeup)
next
  case (2 b k t ts) then show ?case by (rule emptying_wakeup)
next
  case (3 b k t ts u)
  then have "pending (state_of k t)" using waiter_pending(1) [of k t b] base_invD(2) [of k] by (simp add: emptying_def)
  then show ?case using fun_cong [OF wakeup_proj(1), of k t u] by simp
next
  case (4 b k t ts u)
  then have "pending (state_of k t)" using waiter_pending(1) [of k t b] base_invD(2) [of k] by (simp add: emptying_def)
  then show ?case using fun_cong [OF wakeup_proj(7), of k t u] by simp
next
  case (6 b k) then show ?case using base_invD(2) [of k] by (simp add: emptying_def blk_inv_def blk_ok_def)
qed simp

lemma emptying_rm: "emptying b (pend_task_rm t k) = emptying b (pend_task_wakeup t k)"
proof -
  have "state_of (pend_task_rm t k) u = state_of (pend_task_wakeup t k) u" for u by (simp add: pend_task_rm_eq)
  moreover have "objs (pend_task_rm t k) = objs (pend_task_wakeup t k)" by (simp add: pend_task_rm_eq)
  ultimately show ?thesis
    using inv_view [OF pend_task_rm_view, of t k] base_inv_view [OF pend_task_rm_view, of t k]
    by (simp add: emptying_def)
qed

interpretation del: emptying_step pend_task_rm emptying BLK_DEL
proof (standard, goal_cases)
  case (1 b k t ts) then show ?case using wake.step_inv emptying_rm by blast
next
  case (2 b k t ts) then show ?case using wake.step_list [OF 2] by (simp add: pend_task_rm_eq)
next
  case (3 b k t ts u) then show ?case using wake.step_state [OF 3, of u] by (cases "u = t") (simp_all add: pend_task_rm_eq)
next
  case (4 b k t ts u) then show ?case using wake.step_result [OF 4, of u] by (cases "u = t") (simp_all add: pend_task_rm_eq)
next
  case (6 b k) then show ?case by (rule wake.distinct_waiters)
qed simp

lemma emptying_kernel:
  "kernel_inv k \<Longrightarrow> obj_type (objs k b) \<noteq> RHINO_MUTEX_OBJ_TYPE \<Longrightarrow> emptying b k"
  "emptying b k \<Longrightarrow> waiters k b = [] \<Longrightarrow> kernel_inv k"
  by (auto simp: emptying_def kernel_inv_base dead_ok_def)

section \<open>Blocking the running task\<close>

definition timed :: "u32 \<Rightarrow> bool" where
  "timed timeout \<longleftrightarrow> timeout \<noteq> RHINO_WAIT_FOREVER \<and> timeout > 0"

lemma pend_to_blk_obj_proj:
  "task_state \<circ> tasks (pend_to_blk_obj b t timeout k) = (task_state \<circ> tasks k)(t := K_PEND)"
  "prio \<circ> tasks (pend_to_blk_obj b t timeout k) = prio \<circ> tasks k"
  "b_prio \<circ> tasks (pend_to_blk_obj b t timeout k) = b_prio \<circ> tasks k"
  "mutex_list \<circ> tasks (pend_to_blk_obj b t timeout k) = mutex_list \<circ> tasks k"
  "obj_type \<circ> objs (pend_to_blk_obj b t timeout k) = obj_type \<circ> objs k"
  "mutexes (pend_to_blk_obj b t timeout k) = mutexes k" "g_err (pend_to_blk_obj b t timeout k) = g_err k"
  by (auto simp: pend_to_blk_obj_def Let_def pend_list_add_def tick_list_insert_def
      tick_list_pri_insert_def fun_eq_iff)

lemma pend_to_blk_obj_waiters:
  "set (waiters (pend_to_blk_obj b t timeout k) c) = (if c = b then insert t (set (waiters k b)) else set (waiters k c))"
  by (simp add: pend_to_blk_obj_def Let_def pend_list_add_def tick_list_insert_def tick_list_pri_insert_def)

lemma pend_to_blk_obj_ticks:
  "tick_head (tasks (pend_to_blk_obj b t timeout k) u) \<longleftrightarrow> (u = t \<and> timed timeout) \<or> tick_head (tasks k u)"
  "u \<noteq> t \<Longrightarrow> ticks_left (pend_to_blk_obj b t timeout k) u = ticks_left k u"
  "timed timeout \<Longrightarrow> ticks_left (pend_to_blk_obj b t timeout k) t = timeout"
  by (auto simp: pend_to_blk_obj_def Let_def pend_list_add_def tick_list_insert_def
      tick_list_pri_insert_def ticks_left_def timed_def)

lemma pend_to_blk_obj_pos:
  assumes "tick_inv k" "tick_pos k" "state_of k t = K_RDY"
  shows "tick_pos (pend_to_blk_obj b t timeout k)"
  unfolding tick_pos_def
proof (intro allI impI)
  fix u assume u: "tick_head (tasks (pend_to_blk_obj b t timeout k) u)"
  have "\<not> tick_head (tasks k t)" using assms(1,3) by (force simp: tick_inv_def tick_ok_def)
  then show "0 < ticks_left (pend_to_blk_obj b t timeout k) u"
    using u assms(2) pend_to_blk_obj_ticks(1) [of b t timeout k u] pend_to_blk_obj_ticks(2) [of u t b timeout k]
      pend_to_blk_obj_ticks(3) [of timeout b t k]
    by (cases "u = t") (auto simp: tick_pos_def timed_def)
qed

text \<open>Blocking on a mutex or another object keeps the list of owned mutexes.\<close>

lemma pend_to_blk_obj_mtx:
  assumes "mtx_inv k" and "state_of k t = K_RDY"
    and "obj_type (objs k b) = RHINO_MUTEX_OBJ_TYPE \<Longrightarrow> \<exists>u. mutex_task (mutexes k b) = Some u \<and> u \<noteq> t"
  shows "mtx_inv (pend_to_blk_obj b t timeout k)"
proof -
  let ?k = "pend_to_blk_obj b t timeout k"
  have wl: "u \<in> set (waiters ?k m) \<longleftrightarrow> u \<in> set (waiters k m) \<or> m = b \<and> u = t" for u m
    unfolding pend_to_blk_obj_waiters by auto
  have nil: "waiters ?k m = [] \<longleftrightarrow> m \<noteq> b \<and> waiters k m = []" for m
    using wl [of _ m] by (metis empty_iff list.set(1) list.set_intros(1) neq_Nil_conv)
  have live: "live (((task_state \<circ> tasks k)(t := K_PEND)) u) = live (state_of k u)" for u
    using assms(2) by simp
  have mh: "mutex_head ?k = mutex_head k" by simp
  show ?thesis
    using assms unfolding mtx_inv_def mtx_ok_def mchain_ok_def pend_to_blk_obj_proj mh
    by (auto simp: live wl nil owns_def)
qed

lemma pend_to_blk_obj_pi:
  assumes "pi_inv k" and "state_of k t = K_RDY" and "obj_type (objs k b) \<noteq> RHINO_MUTEX_OBJ_TYPE"
  shows "pi_inv (pend_to_blk_obj b t timeout k)"
proof -
  let ?k = "pend_to_blk_obj b t timeout k"
  have "boosters_of ?k u = boosters_of k u" for u
    using assms(3) unfolding boosters_of_def boosters_def pend_to_blk_obj_proj
    by (auto simp: owns_def pend_to_blk_obj_waiters split: if_splits)
  moreover have "live (state_of k u)" if "live (state_of ?k u)" for u
    using fun_cong [OF pend_to_blk_obj_proj(1), of b t timeout k u] assms(2) that by (simp split: if_splits)
  ultimately show ?thesis using pi_inv_cong [OF assms(1)] pend_to_blk_obj_proj(2,3) by blast
qed

lemma pend_to_blk_obj_dead:
  assumes "dead_ok k" and "obj_type (objs k b) \<noteq> RHINO_OBJ_TYPE_NONE"
  shows "dead_ok (pend_to_blk_obj b t timeout k)"
  by (rule dead_ok_cong [OF assms(1)])
    (use assms(2) fun_cong [OF pend_to_blk_obj_proj(5), of b t timeout k] fun_cong [OF pend_to_blk_obj_proj(1), of b t timeout k]
      in \<open>auto simp: set_empty [symmetric] pend_to_blk_obj_waiters simp del: set_empty\<close>)

lemma pend_to_blk_obj_inv:
  assumes inv: "kernel_inv k" and t: "state_of k t = K_RDY" "t \<noteq> g_idle_task"
    and b: "obj_type (objs k b) \<noteq> RHINO_OBJ_TYPE_NONE" "obj_type (objs k b) \<noteq> RHINO_MUTEX_OBJ_TYPE"
      "obj_type (objs k b) = RHINO_SEM_OBJ_TYPE \<Longrightarrow> sem_count (sems k b) = 0"
  shows "kernel_inv (pend_to_blk_obj b t timeout k)"
proof -
  have k: "base_inv k" "mtx_inv k" "pi_inv k" "tick_pos k" "dead_ok k"
    using inv by (simp_all add: kernel_inv_base)
  have "dead_ok (pend_to_blk_obj b t timeout k)"
    by (rule pend_to_blk_obj_dead [OF k(5) b(1)])
  then show ?thesis
    using pend_to_blk_obj_base [OF k(1) t b(3)] pend_to_blk_obj_mtx [OF k(2) t(1), of b timeout] b(2)
      pend_to_blk_obj_pi [OF k(3) t(1) b(2)] pend_to_blk_obj_pos [OF base_invD(3) [OF k(1)] k(4) t(1)]
    by (simp add: kernel_inv_base)
qed

text \<open>The value a blocked call returns once its task runs again.\<close>

definition blk_call_return :: "'a kernel_scheme \<Rightarrow> kstat \<times> 'a kernel_scheme" where
  "blk_call_return k = pend_state_end_proc (g_active_task k) k"

end
