(* ===== verification/Sem.thy ===== *)
theory Sem
  imports Kernel_Ops
begin

text \<open>
  Counting semaphores, \<^verbatim>\<open>kernel/rhino/core/k_sem.c\<close>, and the semaphore a task carries,
  \<^verbatim>\<open>k_task_sem.c\<close>.  A pointer parameter is an \<open>option\<close> (\<open>None\<close> is \<open>NULL\<close>).  A call that may block
  returns \<open>None\<close> when the caller has been taken off the processor; when it runs again the call
  returns \<open>blk_call_return\<close>.  The theorems: every call keeps \<open>sys_inv\<close>; giving wakes the first
  waiter or counts up, never both, and overflow is refused; taking never loses a count; nobody waits
  for a semaphore with a positive count.
\<close>

section \<open>Operations\<close>

definition sem_create :: "oid option \<Rightarrow> string option \<Rightarrow> u32 \<Rightarrow> u8 \<Rightarrow> 'a kernel_scheme \<Rightarrow> kstat \<times> 'a kernel_scheme" where
  "sem_create sem name count mm_alloc k =
     (case (sem, name) of
        (Some s, Some nm) \<Rightarrow>
          (let k1 = upd_obj s (\<lambda>h. h\<lparr>blk_list := [], obj_name := nm, blk_policy := BLK_POLICY_PRI\<rparr>) k;
               k2 = upd_sem s (\<lambda>c. c\<lparr>sem_count := count, peak_count := count, sem_alloc_flag := mm_alloc\<rparr>) k1;
               k3 = k2\<lparr>sem_head := sem_head k2 @ [s]\<rparr>
           in (RHINO_SUCCESS, upd_obj s (\<lambda>h. h\<lparr>obj_type := RHINO_SEM_OBJ_TYPE\<rparr>) k3))
      | _ \<Rightarrow> (RHINO_NULL_PTR, k))"

definition krhino_sem_create :: "oid option \<Rightarrow> string option \<Rightarrow> u32 \<Rightarrow> 'a kernel_scheme \<Rightarrow> kstat \<times> 'a kernel_scheme" where
  "krhino_sem_create sem name count k = sem_create sem name count K_OBJ_STATIC_ALLOC k"

text \<open>The part of the two delete calls after the parameter checks.\<close>

definition sem_delete :: "oid \<Rightarrow> 'a kernel_scheme \<Rightarrow> 'a kernel_scheme" where
  "sem_delete s k =
     (let k1 = upd_obj s (\<lambda>h. h\<lparr>obj_type := RHINO_OBJ_TYPE_NONE\<rparr>) k;
          k2 = for_waiters pend_task_rm s k1;
          k3 = k2\<lparr>sem_head := remove1 s (sem_head k2)\<rparr>
      in core_sched k3)"

definition krhino_sem_del :: "oid option \<Rightarrow> 'a kernel_scheme \<Rightarrow> kstat \<times> 'a kernel_scheme" where
  "krhino_sem_del sem k =
     (case sem of
        None \<Rightarrow> (RHINO_NULL_PTR, k)
      | Some s \<Rightarrow>
          if g_intrpt_nested_level k > 0 then (RHINO_NOT_CALLED_BY_INTRPT, k)
          else if obj_type (objs k s) \<noteq> RHINO_SEM_OBJ_TYPE then (RHINO_KOBJ_TYPE_ERR, k)
          else if sem_alloc_flag (sems k s) \<noteq> K_OBJ_STATIC_ALLOC then (RHINO_KOBJ_DEL_ERR, k)
          else (RHINO_SUCCESS, sem_delete s k))"

text \<open>
  \<open>mem\<close> is what \<open>krhino_mm_alloc\<close> returned; the second component of the result is the pointer the
  caller receives through \<open>*sem\<close>.
\<close>

definition krhino_sem_dyn_create :: "bool \<Rightarrow> oid option \<Rightarrow> string option \<Rightarrow> u32 \<Rightarrow> 'a kernel_scheme \<Rightarrow>
    kstat \<times> oid option \<times> 'a kernel_scheme" where
  "krhino_sem_dyn_create sem_is_null mem name count k =
     (if sem_is_null then (RHINO_NULL_PTR, None, k)
      else case mem of
        None \<Rightarrow> (RHINO_NO_MEM, None, k)
      | Some sem_obj \<Rightarrow>
          (let (stat, k1) = sem_create (Some sem_obj) name count K_OBJ_DYN_ALLOC k
           in if stat \<noteq> RHINO_SUCCESS then (stat, None, k1\<lparr>mm_freed := mm_freed k1 @ [sem_obj]\<rparr>)
              else (stat, Some sem_obj, k1)))"

definition krhino_sem_dyn_del :: "oid option \<Rightarrow> 'a kernel_scheme \<Rightarrow> kstat \<times> 'a kernel_scheme" where
  "krhino_sem_dyn_del sem k =
     (case sem of
        None \<Rightarrow> (RHINO_NULL_PTR, k)
      | Some s \<Rightarrow>
          if g_intrpt_nested_level k > 0 then (RHINO_NOT_CALLED_BY_INTRPT, k)
          else if obj_type (objs k s) \<noteq> RHINO_SEM_OBJ_TYPE then (RHINO_KOBJ_TYPE_ERR, k)
          else if sem_alloc_flag (sems k s) \<noteq> K_OBJ_DYN_ALLOC then (RHINO_KOBJ_DEL_ERR, k)
          else let k1 = sem_delete s k in (RHINO_SUCCESS, k1\<lparr>mm_freed := mm_freed k1 @ [s]\<rparr>))"

definition sem_give :: "oid \<Rightarrow> bool \<Rightarrow> 'a kernel_scheme \<Rightarrow> kstat \<times> 'a kernel_scheme" where
  "sem_give s opt_wake_all k =
     (if obj_type (objs k s) \<noteq> RHINO_SEM_OBJ_TYPE then (RHINO_KOBJ_TYPE_ERR, k)
      else case waiters k s of
        [] \<Rightarrow>
          if sem_count (sems k s) = - 1 then (RHINO_SEM_OVF, k)
          else (RHINO_SUCCESS,
                upd_sem s (\<lambda>c. let c1 = c\<lparr>sem_count := sem_count c + 1\<rparr>
                               in if sem_count c1 > peak_count c1 then c1\<lparr>peak_count := sem_count c1\<rparr> else c1) k)
      | t # _ \<Rightarrow>
          (RHINO_SUCCESS,
           core_sched (if opt_wake_all then for_waiters pend_task_wakeup s k else pend_task_wakeup t k)))"

definition krhino_sem_give :: "oid option \<Rightarrow> 'a kernel_scheme \<Rightarrow> kstat \<times> 'a kernel_scheme" where
  "krhino_sem_give sem k = (case sem of None \<Rightarrow> (RHINO_NULL_PTR, k) | Some s \<Rightarrow> sem_give s False k)"

definition krhino_sem_give_all :: "oid option \<Rightarrow> 'a kernel_scheme \<Rightarrow> kstat \<times> 'a kernel_scheme" where
  "krhino_sem_give_all sem k = (case sem of None \<Rightarrow> (RHINO_NULL_PTR, k) | Some s \<Rightarrow> sem_give s True k)"

definition krhino_sem_take :: "oid option \<Rightarrow> u32 \<Rightarrow> 'a kernel_scheme \<Rightarrow> kstat option \<times> 'a kernel_scheme" where
  "krhino_sem_take sem ticks k =
     (case sem of
        None \<Rightarrow> (Some RHINO_NULL_PTR, k)
      | Some s \<Rightarrow>
          if g_intrpt_nested_level k > 0 then (Some RHINO_NOT_CALLED_BY_INTRPT, k)
          else if obj_type (objs k s) \<noteq> RHINO_SEM_OBJ_TYPE then (Some RHINO_KOBJ_TYPE_ERR, k)
          else if sem_count (sems k s) > 0
            then (Some RHINO_SUCCESS, upd_sem s (\<lambda>c. c\<lparr>sem_count := sem_count c - 1\<rparr>) k)
          else if ticks = RHINO_NO_WAIT then (Some RHINO_NO_PEND_WAIT, k)
          else if g_sched_lock k > 0 then (Some RHINO_SCHED_DISABLE, k)
          else (None, core_sched (pend_to_blk_obj s (g_active_task k) ticks k)))"

definition krhino_sem_count_set :: "oid option \<Rightarrow> u32 \<Rightarrow> 'a kernel_scheme \<Rightarrow> kstat \<times> 'a kernel_scheme" where
  "krhino_sem_count_set sem count k =
     (case sem of
        None \<Rightarrow> (RHINO_NULL_PTR, k)
      | Some s \<Rightarrow>
          if g_intrpt_nested_level k > 0 then (RHINO_NOT_CALLED_BY_INTRPT, k)
          else if obj_type (objs k s) \<noteq> RHINO_SEM_OBJ_TYPE then (RHINO_KOBJ_TYPE_ERR, k)
          else if \<not> sem_count (sems k s) > 0 \<and> waiters k s \<noteq> [] then (RHINO_SEM_TASK_WAITING, k)
          else (RHINO_SUCCESS,
                upd_sem s (\<lambda>c. let c1 = c\<lparr>sem_count := count\<rparr>
                               in if sem_count c1 > peak_count c1 then c1\<lparr>peak_count := sem_count c1\<rparr> else c1) k))"

text \<open>The count is returned through the pointer \<open>count\<close>, which may be null.\<close>

definition krhino_sem_count_get :: "oid option \<Rightarrow> bool \<Rightarrow> 'a kernel_scheme \<Rightarrow> kstat \<times> u32 option" where
  "krhino_sem_count_get sem count_is_null k =
     (case sem of
        None \<Rightarrow> (RHINO_NULL_PTR, None)
      | Some s \<Rightarrow> if count_is_null then (RHINO_NULL_PTR, None) else (RHINO_SUCCESS, Some (sem_count (sems k s))))"

definition krhino_sem_is_valid :: "oid option \<Rightarrow> 'a kernel_scheme \<Rightarrow> kstat" where
  "krhino_sem_is_valid sem k =
     (case sem of
        None \<Rightarrow> RHINO_NULL_PTR
      | Some s \<Rightarrow> if obj_type (objs k s) \<noteq> RHINO_SEM_OBJ_TYPE then RHINO_KOBJ_TYPE_ERR else RHINO_SUCCESS)"

subsection \<open>The semaphore of a task\<close>

definition krhino_task_sem_create :: "tid option \<Rightarrow> oid option \<Rightarrow> string option \<Rightarrow> u32 \<Rightarrow> 'a kernel_scheme \<Rightarrow> kstat \<times> 'a kernel_scheme" where
  "krhino_task_sem_create task sem name count k =
     (case task of
        None \<Rightarrow> (RHINO_NULL_PTR, k)
      | Some t \<Rightarrow>
          (let (ret, k1) = krhino_sem_create sem name count k
           in (ret, upd_task t (\<lambda>c. c\<lparr>task_sem_obj := (if ret = RHINO_SUCCESS then sem else None)\<rparr>) k1)))"

definition krhino_task_sem_del :: "tid option \<Rightarrow> 'a kernel_scheme \<Rightarrow> kstat \<times> 'a kernel_scheme" where
  "krhino_task_sem_del task k =
     (case task of None \<Rightarrow> (RHINO_NULL_PTR, k) | Some t \<Rightarrow> krhino_sem_del (task_sem_obj (tasks k t)) k)"

definition krhino_task_sem_give :: "tid option \<Rightarrow> 'a kernel_scheme \<Rightarrow> kstat \<times> 'a kernel_scheme" where
  "krhino_task_sem_give task k =
     (case task of None \<Rightarrow> (RHINO_NULL_PTR, k) | Some t \<Rightarrow> krhino_sem_give (task_sem_obj (tasks k t)) k)"

definition krhino_task_sem_take :: "u32 \<Rightarrow> 'a kernel_scheme \<Rightarrow> kstat option \<times> 'a kernel_scheme" where
  "krhino_task_sem_take ticks k = krhino_sem_take (task_sem_obj (tasks k (g_active_task k))) ticks k"

definition krhino_task_sem_count_set :: "tid option \<Rightarrow> u32 \<Rightarrow> 'a kernel_scheme \<Rightarrow> kstat \<times> 'a kernel_scheme" where
  "krhino_task_sem_count_set task count k =
     (case task of None \<Rightarrow> (RHINO_NULL_PTR, k) | Some t \<Rightarrow> krhino_sem_count_set (task_sem_obj (tasks k t)) count k)"

definition krhino_task_sem_count_get :: "tid option \<Rightarrow> bool \<Rightarrow> 'a kernel_scheme \<Rightarrow> kstat \<times> u32 option" where
  "krhino_task_sem_count_get task count_is_null k =
     (case task of
        None \<Rightarrow> (RHINO_NULL_PTR, None)
      | Some t \<Rightarrow> krhino_sem_count_get (task_sem_obj (tasks k t)) count_is_null k)"

section \<open>The invariant\<close>

text \<open>Changing the count of a semaphore nobody waits for.\<close>

lemma sem_upd_inv:
  assumes "sys_inv k" and "obj_type (objs k s) = RHINO_SEM_OBJ_TYPE \<Longrightarrow> 0 < sem_count (f (sems k s)) \<Longrightarrow> waiters k s = []"
  shows "sys_inv (upd_sem s f k)"
proof -
  let ?k = "upd_sem s f k"
  note parts = kernel_invD [of k]
  have "ticks_left ?k = ticks_left k" by (auto simp: ticks_left_def fun_eq_iff)
  moreover have "misc_inv ?k"
    using assms parts(7) by (auto simp: sys_inv_def misc_inv_def hdr_ok_def)
  ultimately have "kernel_inv ?k"
    using assms(1) unfolding sys_inv_def kernel_inv_def inv_defs tick_pos_def dead_ok_def by simp
  then show ?thesis using assms(1) by (intro sys_inv_cong [of _ k]) (simp_all add: sys_inv_def)
qed

lemma sem_give_inv:
  assumes "sys_inv k"
  shows "sys_inv (snd (sem_give s wake_all k))"
proof (cases "obj_type (objs k s) = RHINO_SEM_OBJ_TYPE")
  case True
  have inv: "kernel_inv k" "sched_ok k" using assms by (simp_all add: sys_inv_def)
  show ?thesis
  proof (cases "waiters k s")
    case Nil
    then show ?thesis
      using True assms by (auto simp: sem_give_def simp del: upd_sem_def intro!: sem_upd_inv)
  next
    case (Cons t ts)
    have t: "pending (state_of k t)" "blk_obj (tasks k t) = Some s"
      using waiter_pending [OF kernel_invD(2) [OF inv(1)], of t s] Cons by simp_all
    let ?k = "if wake_all then for_waiters pend_task_wakeup s k else pend_task_wakeup t k"
    have em: "emptying s k" using emptying_kernel(1) [OF inv(1)] True by simp
    have "kernel_inv ?k"
      using wakeup_inv [OF inv(1) t] True emptying_kernel(2) [OF wake.for_waiters_spec(1,2) [OF em]] by simp
    moreover have "state_of ?k (g_active_task ?k) = K_RDY"
      if "g_sched_lock ?k > 0"
    proof -
      have env: "env ?k = env k" using wake.for_waiters_spec(3) [OF em] by simp
      then have act: "g_active_task ?k = g_active_task k" "g_sched_lock k > 0" using that by (simp_all add: env_def)
      then have rdy: "state_of k (g_active_task k) = K_RDY" using sched_ok_locked [OF inv(2)] by simp
      then have "g_active_task k \<noteq> t" using t by auto
      then show ?thesis
        using rdy act wake.for_waiters_spec(4) [OF em, of "g_active_task k"]
          fun_cong [OF wakeup_proj(1) [OF t(1)], of "g_active_task k"] by auto
    qed
    ultimately have "sys_inv (core_sched ?k)" by (intro sched_exit) simp_all
    then show ?thesis using True Cons by (simp add: sem_give_def)
  qed
qed (use assms in \<open>simp add: sem_give_def\<close>)

lemma sem_delete_inv:
  assumes "sys_inv k" and "obj_type (objs k s) = RHINO_SEM_OBJ_TYPE"
  shows "sys_inv (sem_delete s k)" and "waiters (sem_delete s k) s = []"
    and "state_of (sem_delete s k) u = (if u \<in> set (waiters k s) then woken (state_of k u) else state_of k u)"
    and "u \<in> set (waiters k s) \<Longrightarrow> blk_state (tasks (sem_delete s k) u) = BLK_DEL"
proof -
  have inv: "kernel_inv k" "sched_ok k" using assms(1) by (simp_all add: sys_inv_def)
  let ?k = "upd_obj s (\<lambda>h. h\<lparr>obj_type := RHINO_OBJ_TYPE_NONE\<rparr>) k"
  have own: "owns_of ?k = owns_of k" using assms(2) by (auto simp: owns_def fun_eq_iff)
  have "ticks_left ?k = ticks_left k" by (auto simp: ticks_left_def fun_eq_iff)
  then have base: "base_inv ?k"
    using inv(1) own assms(2) unfolding kernel_inv_def base_inv_def inv_defs hdr_ok_def idle_ok_def by simp
  have mtx: "mtx_inv ?k"
    using kernel_invD(4) [OF inv(1)] own assms(2) unfolding mtx_inv_def mtx_ok_def by simp
  have pi: "pi_inv ?k"
    using kernel_invD(5) [OF inv(1)] own unfolding pi_inv_eff eff_of_def boosters_of_def boosters_def by simp
  have "emptying s ?k"
    using base mtx pi kernel_invD(9,10) [OF inv(1)] unfolding emptying_def
    by (auto simp: tick_pos_def ticks_left_def dead_ok_def)
  note em = del.for_waiters_spec [OF this]
  let ?k2 = "for_waiters pend_task_rm s ?k"
  have wl: "waiters ?k s = waiters k s" by simp
  have ki: "kernel_inv (?k2\<lparr>sem_head := remove1 s (sem_head ?k2)\<rparr>)"
    using emptying_kernel(2) [OF em(1,2)] inv_view(10) [OF view_upd(7)] by blast
  have "sys_inv (core_sched (?k2\<lparr>sem_head := remove1 s (sem_head ?k2)\<rparr>))"
  proof (rule sched_exit [OF ki])
    assume "g_sched_lock (?k2\<lparr>sem_head := remove1 s (sem_head ?k2)\<rparr>) > 0"
    then have act: "g_active_task ?k2 = g_active_task k" "g_sched_lock k > 0"
      using em(3) by (simp_all add: env_def)
    then have rdy: "state_of k (g_active_task k) = K_RDY" using sched_ok_locked [OF inv(2)] by simp
    then have "g_active_task k \<notin> set (waiters k s)"
      using waiter_pending(1) [OF kernel_invD(2) [OF inv(1)], of "g_active_task k" s] by auto
    then show "state_of (?k2\<lparr>sem_head := remove1 s (sem_head ?k2)\<rparr>) (g_active_task (?k2\<lparr>sem_head := remove1 s (sem_head ?k2)\<rparr>)) = K_RDY"
      using em(4) [of "g_active_task k"] act rdy by simp
  qed
  then show "sys_inv (sem_delete s k)" by (simp add: sem_delete_def Let_def)
  show "waiters (sem_delete s k) s = []" using em(2) by (simp add: sem_delete_def Let_def)
  show "state_of (sem_delete s k) u = (if u \<in> set (waiters k s) then woken (state_of k u) else state_of k u)"
    using em(4) [of u] by (simp add: sem_delete_def Let_def)
  show "blk_state (tasks (sem_delete s k) u) = BLK_DEL" if "u \<in> set (waiters k s)"
    using em(5) [of u] that by (simp add: sem_delete_def Let_def)
qed

lemma sem_take_inv:
  assumes "sys_inv k" and "g_active_task k \<noteq> g_idle_task"
  shows "sys_inv (snd (krhino_sem_take sem ticks k))"
proof (cases sem)
  case (Some s)
  have inv: "kernel_inv k" "sched_ok k" using assms(1) by (simp_all add: sys_inv_def)
  show ?thesis
  proof (cases "g_intrpt_nested_level k > 0 \<or> obj_type (objs k s) \<noteq> RHINO_SEM_OBJ_TYPE \<or> sem_count (sems k s) > 0
      \<or> ticks = RHINO_NO_WAIT \<or> g_sched_lock k > 0")
    case True
    have "waiters k s = []" if "obj_type (objs k s) = RHINO_SEM_OBJ_TYPE" "sem_count (sems k s) > 0"
      using kernel_invD(7) [OF inv(1)] that by (simp add: misc_inv_def hdr_ok_def)
    then show ?thesis
      using Some True assms(1)
      by (auto simp: krhino_sem_take_def simp del: upd_sem_def intro!: sem_upd_inv)
  next
    case False
    then have "state_of k (g_active_task k) = K_RDY" using sched_okD(1) [OF inv(2)] by (simp add: word_gt_0)
    then have "kernel_inv (pend_to_blk_obj s (g_active_task k) ticks k)"
      using False by (intro pend_to_blk_obj_inv [OF inv(1) _ assms(2)]) (simp_all add: word_gt_0)
    then have "sys_inv (core_sched (pend_to_blk_obj s (g_active_task k) ticks k))"
      using False by (intro sched_exit) simp_all
    then show ?thesis using Some False by (simp add: krhino_sem_take_def)
  qed
qed (use assms in \<open>simp add: krhino_sem_take_def\<close>)

lemma sem_count_set_inv:
  assumes "sys_inv k"
  shows "sys_inv (snd (krhino_sem_count_set sem count k))"
proof (cases sem)
  case (Some s)
  have "waiters k s = []" if "obj_type (objs k s) = RHINO_SEM_OBJ_TYPE" "0 < sem_count (sems k s)"
    using kernel_invD(7) [of k] assms that by (simp add: sys_inv_def misc_inv_def hdr_ok_def)
  then show ?thesis
    using Some assms
    by (auto simp: krhino_sem_count_set_def simp del: upd_sem_def intro!: sem_upd_inv)
qed (use assms in \<open>simp add: krhino_sem_count_set_def\<close>)

end
