(* ===== verification/Mutex.thy ===== *)
theory Mutex
  imports Kernel_Ops
begin

text \<open>
  Mutexes with nesting and priority inheritance, \<^verbatim>\<open>kernel/rhino/core/k_mutex.c\<close> (the routines shared
  with the tasks and the tick are in \<^verbatim>\<open>Prio\<close>).  The theorems: every call keeps \<open>sys_inv\<close>, which
  contains mutual exclusion (one owner, on whose \<open>mutex_list\<close> the mutex is) and the inheritance rule
  (every task runs at the most urgent of its base priority and the priorities of the tasks waiting
  for its mutexes); unlocking hands the mutex to the most urgent waiter.
\<close>

section \<open>Operations\<close>

definition mutex_create :: "oid option \<Rightarrow> string option \<Rightarrow> u8 \<Rightarrow> 'a kernel_scheme \<Rightarrow> kstat \<times> 'a kernel_scheme" where
  "mutex_create mutex name mm_alloc k =
     (case (mutex, name) of
        (Some m, Some nm) \<Rightarrow>
          (let k1 = upd_obj m (\<lambda>h. h\<lparr>blk_list := [], blk_policy := BLK_POLICY_PRI, obj_name := nm\<rparr>) k;
               k2 = upd_mutex m (\<lambda>c. c\<lparr>mutex_task := None, mutex_next := None, mutex_alloc_flag := mm_alloc\<rparr>) k1;
               k3 = k2\<lparr>mutex_head := mutex_head k2 @ [m]\<rparr>
           in (RHINO_SUCCESS, upd_obj m (\<lambda>h. h\<lparr>obj_type := RHINO_MUTEX_OBJ_TYPE\<rparr>) k3))
      | _ \<Rightarrow> (RHINO_NULL_PTR, k))"

definition krhino_mutex_create :: "oid option \<Rightarrow> string option \<Rightarrow> 'a kernel_scheme \<Rightarrow> kstat \<times> 'a kernel_scheme" where
  "krhino_mutex_create mutex name k = mutex_create mutex name K_OBJ_STATIC_ALLOC k"

text \<open>The part of the two delete calls after the parameter checks.\<close>

definition mutex_delete :: "oid \<Rightarrow> 'a kernel_scheme \<Rightarrow> 'a kernel_scheme" where
  "mutex_delete m k =
     (let k1 = upd_obj m (\<lambda>h. h\<lparr>obj_type := RHINO_OBJ_TYPE_NONE\<rparr>) k;
          k2 = (case mutex_task (mutexes k1 m) of None \<Rightarrow> k1 | Some t \<Rightarrow> mutex_release t (Some m) k1);
          k3 = for_waiters pend_task_rm m k2;
          k4 = k3\<lparr>mutex_head := remove1 m (mutex_head k3)\<rparr>
      in core_sched k4)"

definition krhino_mutex_del :: "oid option \<Rightarrow> 'a kernel_scheme \<Rightarrow> kstat \<times> 'a kernel_scheme" where
  "krhino_mutex_del mutex k =
     (case mutex of
        None \<Rightarrow> (RHINO_NULL_PTR, k)
      | Some m \<Rightarrow>
          if g_intrpt_nested_level k > 0 then (RHINO_NOT_CALLED_BY_INTRPT, k)
          else if obj_type (objs k m) \<noteq> RHINO_MUTEX_OBJ_TYPE then (RHINO_KOBJ_TYPE_ERR, k)
          else if mutex_alloc_flag (mutexes k m) \<noteq> K_OBJ_STATIC_ALLOC then (RHINO_KOBJ_DEL_ERR, k)
          else (RHINO_SUCCESS, mutex_delete m k))"

text \<open>\<open>mem\<close> is what \<open>krhino_mm_alloc\<close> returned.\<close>

definition krhino_mutex_dyn_create :: "bool \<Rightarrow> oid option \<Rightarrow> string option \<Rightarrow> 'a kernel_scheme \<Rightarrow>
    kstat \<times> oid option \<times> 'a kernel_scheme" where
  "krhino_mutex_dyn_create mutex_is_null mem name k =
     (if mutex_is_null then (RHINO_NULL_PTR, None, k)
      else case mem of
        None \<Rightarrow> (RHINO_NO_MEM, None, k)
      | Some mutex_obj \<Rightarrow>
          (let (stat, k1) = mutex_create (Some mutex_obj) name K_OBJ_DYN_ALLOC k
           in if stat \<noteq> RHINO_SUCCESS then (stat, None, k1\<lparr>mm_freed := mm_freed k1 @ [mutex_obj]\<rparr>)
              else (stat, Some mutex_obj, k1)))"

definition krhino_mutex_dyn_del :: "oid option \<Rightarrow> 'a kernel_scheme \<Rightarrow> kstat \<times> 'a kernel_scheme" where
  "krhino_mutex_dyn_del mutex k =
     (case mutex of
        None \<Rightarrow> (RHINO_NULL_PTR, k)
      | Some m \<Rightarrow>
          if g_intrpt_nested_level k > 0 then (RHINO_NOT_CALLED_BY_INTRPT, k)
          else if obj_type (objs k m) \<noteq> RHINO_MUTEX_OBJ_TYPE then (RHINO_KOBJ_TYPE_ERR, k)
          else if mutex_alloc_flag (mutexes k m) \<noteq> K_OBJ_DYN_ALLOC then (RHINO_KOBJ_DEL_ERR, k)
          else let k1 = mutex_delete m k in (RHINO_SUCCESS, k1\<lparr>mm_freed := mm_freed k1 @ [m]\<rparr>))"

text \<open>Linking a mutex in front of the list of the task that gets it.\<close>

definition mutex_take :: "oid \<Rightarrow> tid \<Rightarrow> 'a kernel_scheme \<Rightarrow> 'a kernel_scheme" where
  "mutex_take m t k =
     (let k1 = upd_mutex m (\<lambda>c. c\<lparr>mutex_task := Some t, mutex_next := mutex_list (tasks k t)\<rparr>) k
      in upd_task t (\<lambda>c. c\<lparr>mutex_list := Some m\<rparr>) k1)"

definition krhino_mutex_lock :: "oid option \<Rightarrow> u32 \<Rightarrow> 'a kernel_scheme \<Rightarrow> kstat option \<times> 'a kernel_scheme" where
  "krhino_mutex_lock mutex ticks k =
     (case mutex of
        None \<Rightarrow> (Some RHINO_NULL_PTR, k)
      | Some m \<Rightarrow>
          if g_sys_stat k = RHINO_STOPPED then (Some RHINO_SUCCESS, k)
          else if g_intrpt_nested_level k > 0 then (Some RHINO_NOT_CALLED_BY_INTRPT, k)
          else if obj_type (objs k m) \<noteq> RHINO_MUTEX_OBJ_TYPE then (Some RHINO_KOBJ_TYPE_ERR, k)
          else if mutex_task (mutexes k m) = Some (g_active_task k) then
            if owner_nested (mutexes k m) = - 1 then (Some RHINO_MUTEX_NESTED_OVF, k_err_proc RHINO_MUTEX_NESTED_OVF k)
            else (Some RHINO_MUTEX_OWNER_NESTED, upd_mutex m (\<lambda>c. c\<lparr>owner_nested := owner_nested c + 1\<rparr>) k)
          else
            (case mutex_task (mutexes k m) of
               None \<Rightarrow> (Some RHINO_SUCCESS, upd_mutex m (\<lambda>c. c\<lparr>owner_nested := 1\<rparr>) (mutex_take m (g_active_task k) k))
             | Some mt \<Rightarrow>
                 if ticks = RHINO_NO_WAIT then (Some RHINO_NO_PEND_WAIT, k)
                 else if g_sched_lock k > 0 then (Some RHINO_SCHED_DISABLE, k)
                 else
                   let k1 = (if prio_of k (g_active_task k) < prio_of k mt
                             then snd (task_pri_change mt (prio_of k (g_active_task k)) k) else k)
                   in (None, core_sched (pend_to_blk_obj m (g_active_task k) ticks k1))))"

definition krhino_mutex_unlock :: "oid option \<Rightarrow> 'a kernel_scheme \<Rightarrow> kstat \<times> 'a kernel_scheme" where
  "krhino_mutex_unlock mutex k =
     (case mutex of
        None \<Rightarrow> (RHINO_NULL_PTR, k)
      | Some m \<Rightarrow>
          if g_sys_stat k = RHINO_STOPPED then (RHINO_SUCCESS, k)
          else if g_intrpt_nested_level k > 0 then (RHINO_NOT_CALLED_BY_INTRPT, k)
          else if obj_type (objs k m) \<noteq> RHINO_MUTEX_OBJ_TYPE then (RHINO_KOBJ_TYPE_ERR, k)
          else if mutex_task (mutexes k m) \<noteq> Some (g_active_task k) then (RHINO_MUTEX_NOT_RELEASED_BY_OWNER, k)
          else
            let k1 = upd_mutex m (\<lambda>c. c\<lparr>owner_nested := owner_nested c - 1\<rparr>) k
            in if owner_nested (mutexes k1 m) > 0 then (RHINO_MUTEX_OWNER_NESTED, k1)
               else
                 let k2 = mutex_release (g_active_task k) (Some m) k1
                 in case waiters k2 m of
                      [] \<Rightarrow> (RHINO_SUCCESS, upd_mutex m (\<lambda>c. c\<lparr>mutex_task := None\<rparr>) k2)
                    | t # _ \<Rightarrow>
                        (RHINO_SUCCESS,
                         core_sched (upd_mutex m (\<lambda>c. c\<lparr>owner_nested := 1\<rparr>) (mutex_take m t (pend_task_wakeup t k2)))))"

definition krhino_mutex_is_valid :: "oid option \<Rightarrow> 'a kernel_scheme \<Rightarrow> kstat" where
  "krhino_mutex_is_valid mutex k =
     (case mutex of
        None \<Rightarrow> RHINO_NULL_PTR
      | Some m \<Rightarrow> if obj_type (objs k m) \<noteq> RHINO_MUTEX_OBJ_TYPE then RHINO_KOBJ_TYPE_ERR else RHINO_SUCCESS)"

lemma mtx_invI:
  assumes "mchain_ok (owns_of k) (mutex_next \<circ> mutexes k) (mutex_list \<circ> tasks k) (task_state \<circ> tasks k)"
    and "\<And>u b. owns_of k u b \<Longrightarrow> live (state_of k u) \<and> u \<notin> set (waiters k b) \<and> owner_nested (mutexes k b) \<noteq> 0"
    and "\<And>b. obj_type (objs k b) = RHINO_MUTEX_OBJ_TYPE \<Longrightarrow> b \<in> set (mutex_head k)"
    and "\<And>b. obj_type (objs k b) = RHINO_MUTEX_OBJ_TYPE \<Longrightarrow> mutex_task (mutexes k b) = None \<Longrightarrow> waiters k b = []"
  shows "mtx_inv k"
  using assms by (auto simp: mtx_inv_def mtx_ok_def)

lemma mutex_take_frame [simp]:
  "env (mutex_take m t k) = env k" "objs (mutex_take m t k) = objs k" "g_ready_queue (mutex_take m t k) = g_ready_queue k"
  "g_tick_head (mutex_take m t k) = g_tick_head k" "g_err (mutex_take m t k) = g_err k" "k_fault (mutex_take m t k) = k_fault k"
  "task_state (tasks (mutex_take m t k) u) = task_state (tasks k u)" "prio (tasks (mutex_take m t k) u) = prio (tasks k u)"
  by (simp_all add: mutex_take_def Let_def)

declare mutex_take_frame(1) [unfolded env_frame, simp]

section \<open>Unlinking a mutex\<close>

text \<open>Without the node \<open>r\<close>, a path of mutexes is still a path.\<close>

lemma mutex_path_append:
  "mutex_path nx p (as @ bs) \<Longrightarrow> as \<noteq> [] \<Longrightarrow> mutex_path nx (nx (last as)) bs"
  by (induction as arbitrary: p) (auto simp: last_ConsR split: if_splits)

lemma mutex_path_unlink:
  assumes "mutex_path nx p (as @ r # bs)" and "distinct (as @ r # bs)"
  shows "mutex_path (if as = [] then nx else nx(last as := nx r)) (if as = [] then nx r else p) (as @ bs)"
  using assms
proof (induction as arbitrary: p)
  case (Cons m as)
  show ?case
  proof (cases "as = []")
    case True
    then show ?thesis using Cons.prems mutex_path_upd [of m bs nx] by (simp add: fun_upd_def)
  next
    case False
    then have "m \<noteq> last as" using Cons.prems(2) by auto
    then show ?thesis using Cons.IH [of "nx m"] Cons.prems False by simp
  qed
qed simp

text \<open>
  \<open>mutex_pri_look\<close> with a mutex of the task: the mutex leaves the task's list, every other task's
  list stays, and the result is the effective priority without that mutex.
\<close>

definition unlinked :: "tid \<Rightarrow> oid \<Rightarrow> 'a kernel_scheme \<Rightarrow> 'a kernel_scheme \<Rightarrow> bool" where
  "unlinked t m k k' \<longleftrightarrow> (\<exists>ml nx. k' = k\<lparr>tasks := (tasks k)(t := (tasks k t)\<lparr>mutex_list := ml\<rparr>),
       mutexes := (\<lambda>b. (mutexes k b)\<lparr>mutex_next := nx b\<rparr>)\<rparr>)"

lemma ptr_set_unlinked:
  "unlinked t m k (ptr_set (if as = [] then Task_field t else Mutex_field (last as)) v k)"
proof (cases "as = []")
  case True
  have "mutexes k = (\<lambda>b. (mutexes k b)\<lparr>mutex_next := mutex_next (mutexes k b)\<rparr>)" by simp
  then show ?thesis using True unfolding unlinked_def
    by (intro exI [of _ v] exI [of _ "mutex_next \<circ> mutexes k"]) (simp add: comp_def)
next
  case False
  have "(mutexes k)(a := (mutexes k a)\<lparr>mutex_next := v\<rparr>) =
      (\<lambda>b. (mutexes k b)\<lparr>mutex_next := ((mutex_next \<circ> mutexes k)(a := v)) b\<rparr>)" for a
    by (auto simp: fun_eq_iff)
  then show ?thesis using False unfolding unlinked_def
    by (intro exI [of _ "mutex_list (tasks k t)"] exI [of _ "(mutex_next \<circ> mutexes k)(last as := v)"]) simp
qed

lemma mutex_pri_look_unlink:
  assumes "mutex_path (mutex_next \<circ> mutexes k) (mutex_list (tasks k t)) ms" and "distinct ms" and "m \<in> set ms"
    and "length ms \<le> length (mutex_head k)"
  obtains k' where "mutex_pri_look t (Some m) k = Some (first_waiters k (remove1 m ms) (b_prio (tasks k t)), k')"
    and "unlinked t m k k'" and "mutex_path (mutex_next \<circ> mutexes k') (mutex_list (tasks k' t)) (remove1 m ms)"
    and "\<forall>p ns. set ns \<inter> set ms = {} \<longrightarrow>
      mutex_path (mutex_next \<circ> mutexes k') p ns = mutex_path (mutex_next \<circ> mutexes k) p ns"
proof -
  obtain as bs where ms: "ms = as @ m # bs" using assms(3) by (meson split_list)
  let ?prev = "if as = [] then Task_field t else Mutex_field (last as)"
  let ?k = "ptr_set ?prev (mutex_next (mutexes k m)) k"
  let ?nx = "mutex_next \<circ> mutexes k"
  have rm: "remove1 m ms = as @ bs" using assms(2) ms by (simp add: remove1_append)
  have look: "mutex_pri_look t (Some m) k = Some (first_waiters k (remove1 m ms) (b_prio (tasks k t)), ?k)"
    using mutex_pri_look_loop_rel [of k "Task_field t" as m bs "length (mutex_head k)" "b_prio (tasks k t)" "b_prio (tasks k t)"]
      assms ms rm by (simp add: mutex_pri_look_def)
  have nx: "mutex_next \<circ> mutexes ?k = (if as = [] then ?nx else ?nx(last as := ?nx m))" by simp
  have ml: "mutex_list (tasks ?k t) = (if as = [] then ?nx m else mutex_list (tasks k t))" by simp
  have path: "mutex_path (mutex_next \<circ> mutexes ?k) (mutex_list (tasks ?k t)) (remove1 m ms)"
    unfolding nx ml rm using assms(1,2) unfolding ms by (rule mutex_path_unlink)
  have "\<forall>p ns. set ns \<inter> set ms = {} \<longrightarrow>
      mutex_path (mutex_next \<circ> mutexes ?k) p ns = mutex_path ?nx p ns"
  proof (intro allI impI)
    fix p ns assume "set ns \<inter> set ms = {}"
    then have "as \<noteq> [] \<Longrightarrow> last as \<notin> set ns" using ms last_in_set [of as] by auto
    then show "mutex_path (mutex_next \<circ> mutexes ?k) p ns = mutex_path ?nx p ns" unfolding nx by simp
  qed
  then show ?thesis using that [OF look ptr_set_unlinked path] by blast
qed

text \<open>
  The same in terms of the relation \<open>R\<close> between tasks and the mutexes on their lists.
\<close>

lemma mutex_look_release:
  assumes "mchain_ok R (mutex_next \<circ> mutexes k) (mutex_list \<circ> tasks k) (task_state \<circ> tasks k)"
    and "R t m" and "live (state_of k t)" and "\<And>u v b. R u b \<Longrightarrow> R v b \<Longrightarrow> u = v"
    and "\<And>b. R t b \<Longrightarrow> b \<in> set (mutex_head k)" and "\<And>b. R t b \<Longrightarrow> sorted (map (prio_of k) (waiters k b))"
  obtains p k' where "mutex_pri_look t (Some m) k = Some (p, k')" and "unlinked t m k k'"
    and "least_of (b_prio (tasks k t)) (prio_of k ` {w. \<exists>b. R t b \<and> b \<noteq> m \<and> w \<in> set (waiters k b)}) p"
    and "mchain_ok (\<lambda>u b. R u b \<and> b \<noteq> m) (mutex_next \<circ> mutexes k') (mutex_list \<circ> tasks k') (task_state \<circ> tasks k')"
proof -
  obtain ms where ms: "mutex_path (mutex_next \<circ> mutexes k) (mutex_list (tasks k t)) ms" "distinct ms" "set ms = {b. R t b}"
    using assms(1,3) unfolding mchain_ok_def by auto
  have "set ms \<subseteq> set (mutex_head k)" using ms(3) assms(5) by auto
  then have len: "length ms \<le> length (mutex_head k)"
    using ms(2) by (metis List.finite_set card_length card_mono distinct_card le_trans)
  have m: "m \<in> set ms" using ms(3) assms(2) by simp
  obtain k' where k': "mutex_pri_look t (Some m) k = Some (first_waiters k (remove1 m ms) (b_prio (tasks k t)), k')"
    "unlinked t m k k'" "mutex_path (mutex_next \<circ> mutexes k') (mutex_list (tasks k' t)) (remove1 m ms)"
    "\<forall>p ns. set ns \<inter> set ms = {} \<longrightarrow> mutex_path (mutex_next \<circ> mutexes k') p ns = mutex_path (mutex_next \<circ> mutexes k) p ns"
    by (rule mutex_pri_look_unlink [OF ms(1,2) m len])
  have rm: "set (remove1 m ms) = {b. R t b \<and> b \<noteq> m}" using ms(2,3) by auto
  have "(\<Union>b \<in> set (remove1 m ms). prio_of k ` set (waiters k b)) =
      prio_of k ` {w. \<exists>b. R t b \<and> b \<noteq> m \<and> w \<in> set (waiters k b)}"
    unfolding rm by auto
  then have least: "least_of (b_prio (tasks k t)) (prio_of k ` {w. \<exists>b. R t b \<and> b \<noteq> m \<and> w \<in> set (waiters k b)})
      (first_waiters k (remove1 m ms) (b_prio (tasks k t)))"
    using first_waiters_least [of "remove1 m ms" k "b_prio (tasks k t)"] assms(6) rm by simp
  have "\<exists>ns. mutex_path (mutex_next \<circ> mutexes k') (mutex_list (tasks k' u)) ns \<and> distinct ns \<and> set ns = {b. R u b \<and> b \<noteq> m}"
    if u: "live (state_of k u)" for u
  proof (cases "u = t")
    case True
    then show ?thesis using k'(3) ms(2) rm by (intro exI [of _ "remove1 m ms"]) simp
  next
    case False
    obtain ns where ns: "mutex_path (mutex_next \<circ> mutexes k) (mutex_list (tasks k u)) ns" "distinct ns" "set ns = {b. R u b}"
      using assms(1) u unfolding mchain_ok_def by auto
    have "set ns \<inter> set ms = {}" using ns(3) ms(3) assms(4) False by auto
    moreover have "mutex_list (tasks k' u) = mutex_list (tasks k u)" using k'(2) False by (auto simp: unlinked_def)
    moreover have "{b. R u b \<and> b \<noteq> m} = {b. R u b}" using assms(2,4) False by auto
    ultimately show ?thesis using k'(4) ns by (intro exI [of _ ns]) simp
  qed
  moreover have "task_state \<circ> tasks k' = task_state \<circ> tasks k" using k'(2) by (auto simp: unlinked_def)
  ultimately have "mchain_ok (\<lambda>u b. R u b \<and> b \<noteq> m) (mutex_next \<circ> mutexes k') (mutex_list \<circ> tasks k') (task_state \<circ> tasks k')"
    unfolding mchain_ok_def by simp
  then show ?thesis using that [OF k'(1,2) least] by blast
qed

lemma pend_task_rm_type: "obj_type (objs (pend_task_rm t k) b) = obj_type (objs k b)"
  by (simp add: pend_task_rm_def pend_leave_def split: task_stat_t.split)

lemma while_waiters_type: "obj_type (objs (while_waiters pend_task_rm c n k) b) = obj_type (objs k b)"
  by (induction n arbitrary: k) (simp_all add: pend_task_rm_type split: list.split)

lemma for_waiters_type: "obj_type (objs (for_waiters pend_task_rm c k) b) = obj_type (objs k b)"
  by (simp add: for_waiters_def while_waiters_type)

section \<open>The invariant: taking and nesting\<close>

lemma owns_functional: "owns ty ow u m \<Longrightarrow> owns ty ow v m \<Longrightarrow> u = v"
  by (simp add: owns_def)

text \<open>Linking a mutex in that nobody owns: the chains and the owners follow.\<close>

lemma mchain_link:
  assumes "mchain_ok R nx ml st" and "\<And>u. \<not> R u m" and "live (st t)"
    and "\<And>u b. R' u b \<longleftrightarrow> R u b \<or> u = t \<and> b = m" and "\<And>u. live (st' u) \<Longrightarrow> live (st u)"
  shows "mchain_ok R' (nx(m := ml t)) (ml(t := Some m)) st'"
  unfolding mchain_ok_def
proof (intro allI impI)
  fix u assume "live (st' u)"
  then obtain ms where ms: "mutex_path nx (ml u) ms" "distinct ms" "set ms = {b. R u b}"
    using assms(1,5) unfolding mchain_ok_def by blast
  then have m: "m \<notin> set ms" using assms(2) by simp
  show "\<exists>ms. mutex_path (nx(m := ml t)) ((ml(t := Some m)) u) ms \<and> distinct ms \<and> set ms = {b. R' u b}"
  proof (cases "u = t")
    case True
    then show ?thesis using ms m assms(4) by (intro exI [of _ "m # ms"]) auto
  next
    case False
    then show ?thesis using ms m assms(4) by (intro exI [of _ ms]) auto
  qed
qed

definition mutex_give :: "oid \<Rightarrow> tid \<Rightarrow> 'a kernel_scheme \<Rightarrow> 'a kernel_scheme" where
  "mutex_give m t k = upd_mutex m (\<lambda>c. c\<lparr>owner_nested := 1\<rparr>) (mutex_take m t k)"

lemma mutex_give_proj:
  "task_state \<circ> tasks (mutex_give m t k) = task_state \<circ> tasks k" "prio \<circ> tasks (mutex_give m t k) = prio \<circ> tasks k"
  "b_prio \<circ> tasks (mutex_give m t k) = b_prio \<circ> tasks k" "suspend_count \<circ> tasks (mutex_give m t k) = suspend_count \<circ> tasks k"
  "blk_obj \<circ> tasks (mutex_give m t k) = blk_obj \<circ> tasks k" "tick_head \<circ> tasks (mutex_give m t k) = tick_head \<circ> tasks k"
  "blk_state \<circ> tasks (mutex_give m t k) = blk_state \<circ> tasks k"
  "ticks_left (mutex_give m t k) = ticks_left k" "mutex_list \<circ> tasks (mutex_give m t k) = (mutex_list \<circ> tasks k)(t := Some m)"
  "mutex_next \<circ> mutexes (mutex_give m t k) = (mutex_next \<circ> mutexes k)(m := mutex_list (tasks k t))"
  "mutex_task \<circ> mutexes (mutex_give m t k) = (mutex_task \<circ> mutexes k)(m := Some t)"
  "owner_nested \<circ> mutexes (mutex_give m t k) = (owner_nested \<circ> mutexes k)(m := 1)"
  by (auto simp: mutex_give_def mutex_take_def Let_def ticks_left_def fun_eq_iff)

lemma mutex_give_frame [simp]:
  "env (mutex_give m t k) = env k" "objs (mutex_give m t k) = objs k" "g_ready_queue (mutex_give m t k) = g_ready_queue k"
  "g_tick_head (mutex_give m t k) = g_tick_head k" "g_err (mutex_give m t k) = g_err k" "k_fault (mutex_give m t k) = k_fault k"
  "task_state (tasks (mutex_give m t k) u) = task_state (tasks k u)" "prio (tasks (mutex_give m t k) u) = prio (tasks k u)"
  "b_prio (tasks (mutex_give m t k) u) = b_prio (tasks k u)" "tick_head (tasks (mutex_give m t k) u) = tick_head (tasks k u)"
  by (simp_all add: mutex_give_def mutex_take_def Let_def)

declare mutex_give_frame(1) [unfolded env_frame, simp]

lemma mutex_give_base:
  assumes "base_inv k" and "t \<noteq> g_idle_task"
  shows "base_inv (mutex_give m t k)"
proof -
  note parts = base_invD [OF assms(1)]
  have "idle_inv (mutex_give m t k)"
    using parts(4) assms(2) unfolding idle_inv_def idle_ok_def mutex_give_proj by (auto simp: owns_def)
  then show ?thesis using parts unfolding base_inv_def inv_defs mutex_give_proj by simp
qed

text \<open>
  \<open>R\<close> is who holds what apart from \<open>m\<close>; giving \<open>m\<close> to \<open>t\<close> completes the picture.
\<close>

lemma mutex_give_mtx:
  assumes ch: "mchain_ok R (mutex_next \<circ> mutexes k) (mutex_list \<circ> tasks k) (task_state \<circ> tasks k)"
    and R: "\<And>u b. R u b \<longleftrightarrow> owns_of k u b \<and> b \<noteq> m" and t: "live (state_of k t)" "t \<notin> set (waiters k m)"
    and m: "obj_type (objs k m) = RHINO_MUTEX_OBJ_TYPE"
    and own: "\<And>u b. R u b \<Longrightarrow> live (state_of k u) \<and> u \<notin> set (waiters k b) \<and> owner_nested (mutexes k b) \<noteq> 0"
    and mh: "\<And>b. obj_type (objs k b) = RHINO_MUTEX_OBJ_TYPE \<Longrightarrow> b \<in> set (mutex_head k)"
    and free: "\<And>b. b \<noteq> m \<Longrightarrow> obj_type (objs k b) = RHINO_MUTEX_OBJ_TYPE \<Longrightarrow> mutex_task (mutexes k b) = None \<Longrightarrow> waiters k b = []"
  shows "mtx_inv (mutex_give m t k)"
proof -
  have own': "owns_of (mutex_give m t k) u b \<longleftrightarrow> R u b \<or> u = t \<and> b = m" for u b
    using m unfolding mutex_give_proj R by (auto simp: owns_def)
  have chain: "mchain_ok (owns_of (mutex_give m t k)) (mutex_next \<circ> mutexes (mutex_give m t k))
      (mutex_list \<circ> tasks (mutex_give m t k)) (task_state \<circ> tasks (mutex_give m t k))"
    unfolding mutex_give_proj(1,9,10) comp_apply [symmetric, of mutex_list "tasks k" t]
    by (rule mchain_link [OF ch]) (use own' R t(1) in \<open>simp_all del: mutex_give_frame\<close>)
  show ?thesis
    unfolding mtx_inv_def mtx_ok_def
  proof (intro conjI allI impI chain)
    fix u b assume "owns_of (mutex_give m t k) u b"
    then show "live ((task_state \<circ> tasks (mutex_give m t k)) u)" "u \<notin> set ((blk_list \<circ> objs (mutex_give m t k)) b)"
      "(owner_nested \<circ> mutexes (mutex_give m t k)) b \<noteq> 0"
      using own' [of u b] own [of u b] t unfolding mutex_give_proj by auto
  next
    fix b assume "(obj_type \<circ> objs (mutex_give m t k)) b = RHINO_MUTEX_OBJ_TYPE"
    then show "b \<in> set (mutex_head (mutex_give m t k))" using mh by simp
  next
    fix b assume "(obj_type \<circ> objs (mutex_give m t k)) b = RHINO_MUTEX_OBJ_TYPE \<and> (mutex_task \<circ> mutexes (mutex_give m t k)) b = None"
    then show "(blk_list \<circ> objs (mutex_give m t k)) b = []"
      using free [of b] unfolding mutex_give_proj by (auto split: if_splits)
  qed
qed

lemma mutex_take_free_inv:
  assumes "sys_inv k" and "obj_type (objs k m) = RHINO_MUTEX_OBJ_TYPE" and "mutex_task (mutexes k m) = None"
    and "state_of k t = K_RDY" and "t \<noteq> g_idle_task"
  shows "sys_inv (mutex_give m t k)"
proof -
  have inv: "kernel_inv k" "sched_ok k" using assms(1) by (simp_all add: sys_inv_def)
  note parts = kernel_invD [OF inv(1)]
  have base: "base_inv k" using inv(1) by (simp add: kernel_inv_base)
  have wl: "waiters k m = []" using mtx_invD(5) [OF parts(4) assms(2)] assms(3) by auto
  have R: "owns_of k u b \<longleftrightarrow> owns_of k u b \<and> b \<noteq> m" for u b using assms(3) by (auto simp: owns_def)
  have mtx: "mtx_inv (mutex_give m t k)"
    by (rule mutex_give_mtx [OF _ R])
      (use parts(4) assms(2,4) wl mtx_invD(1-3) [OF parts(4)] in \<open>auto simp: mtx_inv_def mtx_ok_def\<close>)
  have "owns_of (mutex_give m t k) u b \<longleftrightarrow> owns_of k u b \<or> u = t \<and> b = m" for u b
    using assms(2,3) unfolding mutex_give_proj by (auto simp: owns_def)
  then have "boosters_of (mutex_give m t k) u = boosters_of k u" for u
    using wl unfolding boosters_of_def boosters_def by auto
  then have "pi_inv (mutex_give m t k)" by (rule pi_inv_cong [OF parts(5) _ mutex_give_proj(2,3)]) simp
  moreover have "tick_pos (mutex_give m t k)" "dead_ok (mutex_give m t k)"
    using parts(9,10) unfolding tick_pos_def dead_ok_def mutex_give_proj by simp_all
  ultimately have "kernel_inv (mutex_give m t k)"
    using mutex_give_base [OF base assms(5)] mtx by (simp add: kernel_inv_base)
  then show ?thesis by (rule sys_inv_cong [OF _ inv(2)]) simp_all
qed

text \<open>Changing only the nesting count, to another non-zero value.\<close>

lemma mutex_nest_inv:
  assumes "sys_inv k" and "n \<noteq> 0"
  shows "sys_inv (upd_mutex m (\<lambda>c. c\<lparr>owner_nested := n\<rparr>) k)"
proof -
  let ?k = "upd_mutex m (\<lambda>c. c\<lparr>owner_nested := n\<rparr>) k"
  have inv: "kernel_inv k" "sched_ok k" using assms(1) by (simp_all add: sys_inv_def)
  have "mtx_inv ?k"
    using kernel_invD(4) [OF inv(1)] assms(2) unfolding mtx_inv_def mtx_ok_def by simp
  then have "kernel_inv ?k"
    using inv(1) unfolding kernel_inv_def inv_defs tick_pos_def dead_ok_def ticks_left_upd by simp
  then show ?thesis by (rule sys_inv_cong [OF _ inv(2)]) simp_all
qed

section \<open>The invariant: blocking on a mutex\<close>

text \<open>
  Inheritance once the running task \<open>t\<close> has joined the waiters of the mutex \<open>m\<close> of \<open>u\<close>: the owner
  must have been raised to the priority of \<open>t\<close> before.
\<close>

lemma block_on_mutex_pi:
  assumes rdy: "state_of k t = K_RDY" and own: "owns_of k u m"
    and others: "\<And>v. live (state_of k v) \<Longrightarrow> v \<noteq> u \<Longrightarrow> eff_of k v (prio_of k v)"
    and raised: "least_of (b_prio (tasks k u)) (insert (prio_of k t) (prio_of k ` boosters_of k u)) (prio_of k u)"
  shows "pi_inv (pend_to_blk_obj m t timeout k)"
  unfolding pi_inv_eff
proof (intro allI impI)
  let ?k = "pend_to_blk_obj m t timeout k"
  have pr: "prio_of ?k v = prio_of k v" "b_prio (tasks ?k v) = b_prio (tasks k v)" for v
    using fun_cong [OF pend_to_blk_obj_proj(2), of m t timeout k v] fun_cong [OF pend_to_blk_obj_proj(3), of m t timeout k v] by simp_all
  have boost: "boosters_of ?k v = (if v = u then insert t (boosters_of k v) else boosters_of k v)" for v
  proof -
    have "w \<in> boosters_of ?k v \<longleftrightarrow> w \<in> boosters_of k v \<or> v = u \<and> w = t" for w
      using own owns_functional [OF own, of v] unfolding boosters_of_def boosters_def pend_to_blk_obj_proj(5,6)
      by (simp add: pend_to_blk_obj_waiters) (metis insert_iff)
    then show ?thesis by auto
  qed
  fix v assume "live (state_of ?k v)"
  then have live: "live (state_of k v)"
    using fun_cong [OF pend_to_blk_obj_proj(1), of m t timeout k v] rdy by (simp split: if_splits)
  show "eff_of ?k v (prio_of ?k v)"
  proof (cases "v = u")
    case True
    then show ?thesis using raised unfolding eff_of_def boost pr by simp
  next
    case False
    then show ?thesis using others [OF live False] unfolding eff_of_def boost pr by simp
  qed
qed

lemma mutex_block_inv:
  assumes "kernel_inv k" and t: "state_of k t = K_RDY" "t \<noteq> g_idle_task"
    and m: "obj_type (objs k m) = RHINO_MUTEX_OBJ_TYPE" "mutex_task (mutexes k m) = Some u" "u \<noteq> t"
    and k1: "k1 = (if prio_of k t < prio_of k u then snd (task_pri_change u (prio_of k t) k) else k)"
  shows "kernel_inv (pend_to_blk_obj m t timeout k1)" and "env k1 = env k"
proof -
  have inv: "base_inv k" "mtx_inv k" "pi_inv k" "tick_pos k" "dead_ok k"
    using assms(1) by (simp_all add: kernel_inv_base)
  have own: "owns_of k u m" using m by (simp add: owns_def)
  have u: "live (state_of k u)" "u \<noteq> g_idle_task"
    using mtx_invD(1) [OF inv(2) own] own base_invD(4) [OF inv(1)] by (auto simp: idle_inv_def idle_ok_def)
  have eff: "eff_of k u (prio_of k u)" using inv(3) u(1) by (simp add: pi_inv_eff)
  obtain "base_inv k1" "mtx_inv k1" "prio_only k k1"
    "\<forall>v. live (state_of k v) \<and> v \<noteq> u \<longrightarrow> eff_of k1 v (prio_of k1 v)"
    "least_of (b_prio (tasks k1 u)) (insert (prio_of k1 t) (prio_of k1 ` boosters_of k1 u)) (prio_of k1 u)"
  proof (cases "prio_of k t < prio_of k u")
    case True
    obtain k' where k': "task_pri_change u (prio_of k t) k = (RHINO_SUCCESS, k')" "base_inv k'" "mtx_inv k'" "prio_only k k'"
      "\<forall>v. live (state_of k v) \<and> v \<noteq> u \<longrightarrow> eff_of k' v (prio_of k' v)" "prio_of k' u = prio_of k t"
      "\<forall>v. prio_of k' v = prio_of k v \<or> prio_of k' v = prio_of k t \<and> prio_of k t < prio_of k v"
      by (rule task_pri_change_boost [OF inv(1,2) u inv(3) True])
    have "prio_of k' t = prio_of k t" using k'(7) by auto
    moreover have "prio_of k t \<le> prio_of k' w" if "w \<in> boosters_of k u" for w
      
    proof -
      have "prio_of k u \<le> prio_of k w" using eff that by (simp add: eff_of_def least_of_def)
      then show ?thesis using True spec [OF k'(7), of w] by auto
    qed
    moreover have "prio_of k t \<le> b_prio (tasks k u)" using eff True unfolding eff_of_def least_of_def by simp
    ultimately have "least_of (b_prio (tasks k' u)) (insert (prio_of k' t) (prio_of k' ` boosters_of k' u)) (prio_of k' u)"
      unfolding prio_only_boosters [OF k'(4)] prio_only_tasks(2) [OF k'(4)] k'(6) by (auto simp: least_of_def)
    then show ?thesis using that k' k1 True by simp
  next
    case False
    then have "least_of (b_prio (tasks k u)) (insert (prio_of k t) (prio_of k ` boosters_of k u)) (prio_of k u)"
      using eff by (auto simp: eff_of_def least_of_def)
    then show ?thesis using that inv k1 False by (simp add: pi_inv_eff)
  qed
  note po = this
  note tk = prio_only_tasks [OF po(3)]
  have ty: "obj_type (objs k1 b) = obj_type (objs k b)" and wl: "set (waiters k1 b) = set (waiters k b)" for b
    using po(3) by (auto simp: prio_only_def fun_eq_iff)
  have mt: "mutexes k1 = mutexes k" using po(3) by (simp add: prio_only_def)
  show "env k1 = env k" using po(3) by (rule prio_only_env)
  have t1: "state_of k1 t = K_RDY" using tk(1) t(1) by simp
  have own1: "owns_of k1 u m" using own prio_only_owns [OF po(3)] by simp
  have "tick_pos k1"
    using inv(4) tk(5,7) prio_only_globals [OF po(3)] by (simp add: tick_pos_def ticks_left_def)
  then have pos: "tick_pos (pend_to_blk_obj m t timeout k1)"
    using pend_to_blk_obj_pos [OF base_invD(3) [OF po(1)] _ t1] by blast
  have "dead_ok k1"
    by (rule dead_ok_cong [OF inv(5)])
      (use ty wl tk(1) prio_only_globals [OF po(3)] in \<open>auto simp: set_empty [symmetric] simp del: set_empty\<close>)
  then have dead: "dead_ok (pend_to_blk_obj m t timeout k1)" by (rule pend_to_blk_obj_dead) (use ty m in simp)
  have base: "base_inv (pend_to_blk_obj m t timeout k1)"
    by (rule pend_to_blk_obj_base [OF po(1) t1 t(2)]) (use ty m in simp)
  have mtx: "mtx_inv (pend_to_blk_obj m t timeout k1)"
    by (rule pend_to_blk_obj_mtx [OF po(2) t1]) (use mt m in simp)
  have pi: "pi_inv (pend_to_blk_obj m t timeout k1)"
    using block_on_mutex_pi [OF t1 own1 _ po(5)] po(4) tk(1) by simp
  show "kernel_inv (pend_to_blk_obj m t timeout k1)"
    using base mtx pi pos dead by (simp add: kernel_inv_base)
qed

text \<open>Every outcome of \<open>krhino_mutex_lock\<close> keeps the invariant.\<close>

lemma mutex_lock_inv:
  assumes "sys_inv k" and "g_active_task k \<noteq> g_idle_task"
  shows "sys_inv (snd (krhino_mutex_lock mutex ticks k))"
proof (cases mutex)
  case (Some m)
  have inv: "kernel_inv k" "sched_ok k" using assms(1) by (simp_all add: sys_inv_def)
  show ?thesis
  proof (cases "g_sys_stat k = RHINO_STOPPED \<or> g_intrpt_nested_level k > 0 \<or> obj_type (objs k m) \<noteq> RHINO_MUTEX_OBJ_TYPE")
    case True
    then show ?thesis using Some assms(1) by (auto simp: krhino_mutex_lock_def)
  next
    case False
    then have rdy: "state_of k (g_active_task k) = K_RDY" using sched_okD(1) [OF inv(2)] by (simp add: word_gt_0)
    consider "mutex_task (mutexes k m) = Some (g_active_task k)" | "mutex_task (mutexes k m) = None"
      | u where "mutex_task (mutexes k m) = Some u" "u \<noteq> g_active_task k" by fastforce
    then show ?thesis
    proof cases
      case 1
      have "kernel_inv (k\<lparr>g_err := e\<rparr>)" for e using inv(1) inv_view(10) [OF view_upd(8)] by blast
      then show ?thesis
        using 1 Some False assms(1) mutex_nest_inv [OF assms(1), of "owner_nested (mutexes k m) + 1" m]
        by (auto simp: krhino_mutex_lock_def eq_neg_iff_add_eq_0 sys_inv_def sched_ok_def best_def)
    next
      case 2
      then show ?thesis
        using Some False mutex_take_free_inv [OF assms(1) _ 2 rdy assms(2)] by (simp add: krhino_mutex_lock_def mutex_give_def)
    next
      case (3 u)
      let ?k1 = "if prio_of k (g_active_task k) < prio_of k u then snd (task_pri_change u (prio_of k (g_active_task k)) k) else k"
      have blk: "kernel_inv (pend_to_blk_obj m (g_active_task k) ticks ?k1)" "env ?k1 = env k"
        using mutex_block_inv(1) [OF inv(1) rdy assms(2) _ 3 refl, of ticks] mutex_block_inv(2) [OF inv(1) rdy assms(2) _ 3 refl] False by auto
      have "sys_inv (core_sched (pend_to_blk_obj m (g_active_task k) ticks ?k1))" if "\<not> g_sched_lock k > 0"
        by (rule sched_exit [OF blk(1)]) (use that blk(2) in \<open>simp add: env_def\<close>)
      then show ?thesis using Some False 3 assms(1) by (auto simp: krhino_mutex_lock_def Let_def)
    qed
  qed
qed (use assms in \<open>simp add: krhino_mutex_lock_def\<close>)

section \<open>The invariant: unlocking\<close>

lemma unlinkedD:
  assumes "unlinked t m k k'"
  shows "env k' = env k" "objs k' = objs k" "g_ready_queue k' = g_ready_queue k" "g_tick_head k' = g_tick_head k"
    "g_err k' = g_err k" "k_fault k' = k_fault k" "task_state (tasks k' u) = task_state (tasks k u)"
    "prio (tasks k' u) = prio (tasks k u)" "b_prio (tasks k' u) = b_prio (tasks k u)"
    "suspend_count (tasks k' u) = suspend_count (tasks k u)" "blk_obj (tasks k' u) = blk_obj (tasks k u)"
    "tick_head (tasks k' u) = tick_head (tasks k u)" "tick_match (tasks k' u) = tick_match (tasks k u)"
    "mutex_task (mutexes k' b) = mutex_task (mutexes k b)" "owner_nested (mutexes k' b) = owner_nested (mutexes k b)"
  using assms unfolding unlinked_def by (auto split: if_splits)

lemma unlinked_comp:
  assumes "unlinked t m k k'"
  shows "task_state \<circ> tasks k' = task_state \<circ> tasks k" "prio \<circ> tasks k' = prio \<circ> tasks k"
    "b_prio \<circ> tasks k' = b_prio \<circ> tasks k" "suspend_count \<circ> tasks k' = suspend_count \<circ> tasks k"
    "blk_obj \<circ> tasks k' = blk_obj \<circ> tasks k" "tick_head \<circ> tasks k' = tick_head \<circ> tasks k"
    "ticks_left k' = ticks_left k" "mutex_task \<circ> mutexes k' = mutex_task \<circ> mutexes k"
    "owner_nested \<circ> mutexes k' = owner_nested \<circ> mutexes k"
  using unlinkedD [OF assms] by (auto simp: fun_eq_iff ticks_left_def env_def)

lemma unlinked_base: "unlinked t m k k' \<Longrightarrow> base_inv k \<Longrightarrow> base_inv k'"
  using unlinkedD(1-6) [of t m k k'] unlinked_comp [of t m k k'] unfolding base_inv_def inv_defs env_def by simp

text \<open>
  The state in which \<open>t\<close> has let go of its mutex \<open>m\<close>: the mutex is off the list of \<open>t\<close>, and \<open>t\<close> has the
  priority it should have without \<open>m\<close>.
\<close>

definition let_go :: "tid \<Rightarrow> oid \<Rightarrow> 'a kernel_scheme \<Rightarrow> 'a kernel_scheme \<Rightarrow> bool" where
  "let_go t m k k' \<longleftrightarrow> base_inv k' \<and> env k' = env k \<and> objs k' = objs k \<and> g_err k' = g_err k \<and>
     task_state \<circ> tasks k' = task_state \<circ> tasks k \<and> b_prio \<circ> tasks k' = b_prio \<circ> tasks k \<and>
     tick_head \<circ> tasks k' = tick_head \<circ> tasks k \<and> ticks_left k' = ticks_left k \<and>
     blk_obj \<circ> tasks k' = blk_obj \<circ> tasks k \<and>
     mutex_task \<circ> mutexes k' = mutex_task \<circ> mutexes k \<and> owner_nested \<circ> mutexes k' = (owner_nested \<circ> mutexes k)(m := 0) \<and>
     (\<forall>u. u \<noteq> t \<longrightarrow> prio_of k' u = prio_of k u) \<and>
     least_of (b_prio (tasks k t)) (prio_of k ` {w. \<exists>b. owns_of k t b \<and> b \<noteq> m \<and> w \<in> set (waiters k b)}) (prio_of k' t) \<and>
     mchain_ok (\<lambda>u b. owns_of k u b \<and> b \<noteq> m) (mutex_next \<circ> mutexes k') (mutex_list \<circ> tasks k') (task_state \<circ> tasks k') \<and>
     (prio_of k' t = prio_of k t \<longrightarrow> g_ready_queue k' = g_ready_queue k)"

lemma least_of_idle:
  assumes "least_of p W q" and "p < n"
  shows "q < n"
  using assms by (simp add: least_of_def)

lemma mutex_release_active:
  assumes "kernel_inv k" and t: "state_of k t = K_RDY" and own: "owns_of k t m"
  shows "let_go t m k (mutex_release t (Some m) (upd_mutex m (\<lambda>c. c\<lparr>owner_nested := 0\<rparr>) k))"
proof -
  let ?k1 = "upd_mutex m (\<lambda>c. c\<lparr>owner_nested := 0\<rparr>) k"
  have inv: "base_inv k" "mtx_inv k" using assms(1) by (simp_all add: kernel_inv_base)
  have base1: "base_inv ?k1" using inv(1) unfolding base_inv_def inv_defs ticks_left_upd by simp
  have idle: "t \<noteq> g_idle_task" using own base_invD(4) [OF inv(1)] by (auto simp: idle_inv_def idle_ok_def)
  have bp: "b_prio (tasks k t) < RHINO_IDLE_PRI"
    using base_invD(4) [OF inv(1)] t idle by (simp add: idle_inv_def idle_ok_def)
  have own1: "mutex_task \<circ> mutexes ?k1 = mutex_task \<circ> mutexes k" "mutex_next \<circ> mutexes ?k1 = mutex_next \<circ> mutexes k" by simp_all
  have ch: "mchain_ok (owns_of k) (mutex_next \<circ> mutexes ?k1) (mutex_list \<circ> tasks ?k1) (task_state \<circ> tasks ?k1)"
    using inv(2) by (simp add: mtx_inv_def mtx_ok_def)
  have lv: "live (state_of ?k1 t)" using t by simp
  have mh: "b \<in> set (mutex_head ?k1)" if "owns_of k t b" for b using mtx_invD(4) [OF inv(2) that] by simp
  have srt: "sorted (map (prio_of ?k1) (waiters ?k1 b))" if "owns_of k t b" for b
    using owned_sorted [OF base_invD(2,5) [OF inv(1)] that] by simp
  obtain p k2 where look: "mutex_pri_look t (Some m) ?k1 = Some (p, k2)" and un: "unlinked t m ?k1 k2"
    and p: "least_of (b_prio (tasks ?k1 t)) (prio_of ?k1 ` {w. \<exists>b. owns_of k t b \<and> b \<noteq> m \<and> w \<in> set (waiters ?k1 b)}) p"
    and ch2: "mchain_ok (\<lambda>u b. owns_of k u b \<and> b \<noteq> m) (mutex_next \<circ> mutexes k2) (mutex_list \<circ> tasks k2) (task_state \<circ> tasks k2)"
    by (rule mutex_look_release [OF ch own lv owns_functional mh srt])
  note u = unlinkedD [OF un] and uc = unlinked_comp [OF un]
  have base2: "base_inv k2" by (rule unlinked_base [OF un base1])
  have plt: "p < RHINO_IDLE_PRI" using least_of_idle [OF p] bp by simp
  have t2: "state_of k2 t = K_RDY" using u(7) t by simp
  let ?k3 = "if p \<noteq> prio_of k2 t then set_prio t p k2 else k2"
  have rel: "mutex_release t (Some m) ?k1 = ?k3"
    using look loop_stop [of k2 t p] t2 by (simp add: mutex_release_def task_pri_change_def)
  have base3: "base_inv ?k3" using set_prio_base [OF base2 _ idle plt] t2 base2 by simp
  have objs3: "objs ?k3 = objs k" using t2 u(2) by (simp add: set_prio_def Let_def)
  have "prio_of ?k3 t = p" "\<forall>v. v \<noteq> t \<longrightarrow> prio_of ?k3 v = prio_of k v" using u(8) by simp_all
  moreover have "prio_of ?k3 t = prio_of k t \<longrightarrow> g_ready_queue ?k3 = g_ready_queue k" using u(3,8) by simp
  moreover have "env ?k3 = env k" "g_err ?k3 = g_err k" using u(1,5) by (simp_all add: env_def set_prio_def Let_def)
  moreover have "mutex_list \<circ> tasks ?k3 = mutex_list \<circ> tasks k2" "task_state \<circ> tasks ?k3 = task_state \<circ> tasks k2"
    "mutexes ?k3 = mutexes k2" "b_prio \<circ> tasks ?k3 = b_prio \<circ> tasks k2" "tick_head \<circ> tasks ?k3 = tick_head \<circ> tasks k2"
    "ticks_left ?k3 = ticks_left k2" "blk_obj \<circ> tasks ?k3 = blk_obj \<circ> tasks k2"
    using t2 by (auto simp: fun_eq_iff)
  ultimately show ?thesis
    unfolding rel let_go_def using base3 objs3 p ch2 uc by simp
qed

text \<open>Handing the mutex to its first waiter.\<close>

lemma unlock_handoff_inv:
  assumes "kernel_inv k" and t: "state_of k t = K_RDY" and own: "owns_of k t m" and lg: "let_go t m k k'"
    and wl: "waiters k m = w # ws"
  shows "kernel_inv (mutex_give m w (pend_task_wakeup w k'))"
proof -
  have inv: "base_inv k" "mtx_inv k" "pi_inv k" "tick_pos k" "dead_ok k" using assms(1) by (simp_all add: kernel_inv_base)
  note blk = base_invD(2) [OF inv(1)]
  note lgd = lg [unfolded let_go_def]
  have w: "pending (state_of k w)" "blk_obj (tasks k w) = Some m" using waiter_pending [OF blk, of w m] wl by simp_all
  have st: "state_of k' u = state_of k u" and ob: "objs k' = objs k" for u using lgd by (auto simp: fun_eq_iff)
  have pw: "pending (state_of k' w)" using w st by simp
  have ne: "w \<noteq> t" "w \<noteq> g_idle_task" using w t base_invD(4) [OF inv(1)] by (auto simp: idle_inv_def idle_ok_def)
  let ?k5 = "pend_task_wakeup w k'"
  note wp = wakeup_proj [OF pw]
  have base: "base_inv (mutex_give m w ?k5)"
    using mutex_give_base [OF pend_task_wakeup_base [OF _ pw] ne(2)] lgd by blast
  have wl5: "waiters ?k5 b = remove1 w (waiters k b)" for b using fun_cong [OF wp(8), of b] ob by simp
  have only: "w \<in> set (waiters k b) \<longleftrightarrow> b = m" for b
    using waiter_pending(2) [OF blk, of w b] w(2) wl by auto
  have d: "distinct (waiters k b)" for b using blk by (simp add: blk_inv_def blk_ok_def)
  have ty5: "obj_type (objs ?k5 b) = obj_type (objs k b)" for b using fun_cong [OF wp(9), of b] ob by simp
  have st5: "live (state_of ?k5 u) = live (state_of k u)" for u
    using fun_cong [OF wp(1), of u] st w(1) by (cases "u = w") (auto simp: pending_def)
  have mt5: "mutex_task (mutexes ?k5 b) = mutex_task (mutexes k b)" for b
    unfolding wp(10) using lgd by (auto simp: fun_eq_iff)
  have ne5: "b \<noteq> m \<Longrightarrow> owner_nested (mutexes ?k5 b) = owner_nested (mutexes k b)" for b
    unfolding wp(10) using lgd by (auto simp: fun_eq_iff)
  have own5: "owns_of ?k5 = owns_of k" using ty5 mt5 by (auto simp: owns_def fun_eq_iff)
  have ch5: "mchain_ok (\<lambda>u b. owns_of k u b \<and> b \<noteq> m) (mutex_next \<circ> mutexes ?k5) (mutex_list \<circ> tasks ?k5) (task_state \<circ> tasks ?k5)"
    using lgd st5 st unfolding wp(4,10) mchain_ok_def by (simp del: fun_upd_apply)
  have mty: "obj_type (objs k m) = RHINO_MUTEX_OBJ_TYPE" using own by (simp add: owns_def)
  have mtx: "mtx_inv (mutex_give m w ?k5)"
  proof (rule mutex_give_mtx [OF ch5])
    fix u b
    show "(owns_of k u b \<and> b \<noteq> m) = (owns_of ?k5 u b \<and> b \<noteq> m)" by (simp only: own5)
    show "live (state_of ?k5 w)" using st5 w(1) pending_live by blast
    show "w \<notin> set (waiters ?k5 m)" using wl5 d by simp
    show "obj_type (objs ?k5 m) = RHINO_MUTEX_OBJ_TYPE" using ty5 mty by simp
    show "live (state_of ?k5 u) \<and> u \<notin> set (waiters ?k5 b) \<and> owner_nested (mutexes ?k5 b) \<noteq> 0" if "owns_of k u b \<and> b \<noteq> m"
      using mtx_invD(1-3) [OF inv(2), of u b] that st5 wl5 ne5 by (auto dest: notin_set_remove1)
    show "b \<in> set (mutex_head ?k5)" if "obj_type (objs ?k5 b) = RHINO_MUTEX_OBJ_TYPE"
      using inv(2) that ty5 lgd by (simp add: mtx_inv_def mtx_ok_def env_def)
    show "waiters ?k5 b = []" if "obj_type (objs ?k5 b) = RHINO_MUTEX_OBJ_TYPE" "mutex_task (mutexes ?k5 b) = None"
    proof -
      from that have "waiters k b = []" using mtx_invD(5) [OF inv(2), of b] ty5 mt5 by auto
      then show ?thesis using wl5 by simp
    qed
  qed
  have pi: "pi_inv (mutex_give m w ?k5)"
    unfolding pi_inv_eff
  proof (intro allI impI)
    let ?kf = "mutex_give m w ?k5"
    fix v assume "live (state_of ?kf v)"
    then have v: "eff_of k v (prio_of k v)" using st5 inv(3) by (simp add: pi_inv_eff)
    have ownf: "owns_of ?kf u b \<longleftrightarrow> owns_of k u b \<and> b \<noteq> m \<or> u = w \<and> b = m" for u b
      using mty mt5 ty5 unfolding mutex_give_proj by (auto simp: owns_def)
    have prs: "prio_of ?kf u = prio_of k' u" "b_prio (tasks ?kf u) = b_prio (tasks k u)" for u
      using fun_cong [OF wp(2), of u] fun_cong [OF wp(3), of u] lgd by (auto simp: fun_eq_iff)
    have prk: "prio_of k' u = prio_of k u" if "u \<noteq> t" for u using lgd that by blast
    have swl5: "set (waiters ?k5 b) = (if b = m then set ws else set (waiters k b))" for b
      using only [of b] wl wl5 [of b] by (simp add: remove1_idem)
    have boost: "boosters_of ?kf u = {x. \<exists>b. owns_of k u b \<and> b \<noteq> m \<and> x \<in> set (waiters k b)} \<union>
        (if u = w then set ws else {})" for u
      unfolding boosters_of_def boosters_def ownf by (auto simp: swl5)
    have nt: "t \<notin> set (waiters k b)" for b using waiter_pending(1) [OF blk, of t b] t by auto
    have img: "prio_of k' ` B = prio_of k ` B" if "B \<subseteq> (\<Union>b. set (waiters k b))" for B
    proof (rule image_cong [OF refl])
      fix x assume "x \<in> B"
      then have "x \<noteq> t" using that nt by blast
      then show "prio_of k' x = prio_of k x" by (rule prk)
    qed
    have sub: "boosters_of ?kf v \<subseteq> (\<Union>b. set (waiters k b))" unfolding boost using wl by (auto split: if_splits) (metis list.set_intros(2))
    have "least_of (b_prio (tasks k v)) (prio_of k ` boosters_of ?kf v) (prio_of k' v)"
    proof (cases "v = t")
      case True
      then show ?thesis using lgd ne(1) unfolding boost by auto
    next
      case False
      have "boosters_of k v = {x. \<exists>b. owns_of k v b \<and> b \<noteq> m \<and> x \<in> set (waiters k b)}"
        using own False by (auto simp: boosters_of_def boosters_def owns_def)
      moreover have "prio_of k w \<le> prio_of k x" if "x \<in> set ws" for x
        using owned_sorted [OF blk base_invD(5) [OF inv(1)] own] wl that by simp
      ultimately show ?thesis
        using v False prk [OF False] unfolding boost by (auto simp: eff_of_def least_of_def image_Un)
    qed
    then show "eff_of ?kf v (prio_of ?kf v)" unfolding eff_of_def prs img [OF sub] .
  qed
  have "tick_pos ?k5" by (rule wakeup_pos [OF pw]) (use inv(4) lgd in \<open>auto simp: tick_pos_def fun_eq_iff\<close>)
  then have "tick_pos (mutex_give m w ?k5)" unfolding tick_pos_def mutex_give_proj by simp
  moreover have "dead_ok (mutex_give m w ?k5)"
    by (rule dead_ok_cong [OF inv(5)]) (use ty5 wl5 st5 lgd in \<open>simp_all add: env_def\<close>)
  ultimately show ?thesis using base mtx pi by (simp add: kernel_inv_base)
qed

text \<open>Nobody waits: the mutex becomes free, and the priority of the owner does not change.\<close>

lemma unlock_free_inv:
  assumes "sys_inv k" and t: "state_of k t = K_RDY" and own: "owns_of k t m" and lg: "let_go t m k k'"
    and wl: "waiters k m = []"
  shows "sys_inv (upd_mutex m (\<lambda>c. c\<lparr>mutex_task := None\<rparr>) k')" and "prio_of k' u = prio_of k u"
proof -
  let ?kf = "upd_mutex m (\<lambda>c. c\<lparr>mutex_task := None\<rparr>) k'"
  have k: "kernel_inv k" "sched_ok k" using assms(1) by (simp_all add: sys_inv_def)
  have inv: "base_inv k" "mtx_inv k" "pi_inv k" "tick_pos k" "dead_ok k" using k(1) by (simp_all add: kernel_inv_base)
  note lgd = lg [unfolded let_go_def]
  have "{w. \<exists>b. owns_of k t b \<and> b \<noteq> m \<and> w \<in> set (waiters k b)} = boosters_of k t"
    using wl by (auto simp: boosters_of_def boosters_def)
  then have "least_of (b_prio (tasks k t)) (prio_of k ` boosters_of k t) (prio_of k' t)" using lgd by simp
  moreover have "least_of (b_prio (tasks k t)) (prio_of k ` boosters_of k t) (prio_of k t)"
    using inv(3) t by (simp add: pi_inv_eff eff_of_def)
  ultimately have pt: "prio_of k' t = prio_of k t" by (rule least_of_unique)
  then have pr: "prio_of k' u = prio_of k u" for u using lgd by (cases "u = t") auto
  show "prio_of k' u = prio_of k u" by (rule pr)
  have mt: "mutex_task \<circ> mutexes ?kf = (mutex_task \<circ> mutexes k)(m := None)" using lgd by simp
  have "owner_nested \<circ> mutexes ?kf = owner_nested \<circ> mutexes k'" by simp
  also have "\<dots> = (owner_nested \<circ> mutexes k)(m := 0)" using lgd by blast
  finally have ne: "owner_nested \<circ> mutexes ?kf = (owner_nested \<circ> mutexes k)(m := 0)" .
  have nx: "mutex_next \<circ> mutexes ?kf = mutex_next \<circ> mutexes k'" by simp
  have own': "owns_of ?kf u b \<longleftrightarrow> owns_of k u b \<and> b \<noteq> m" for u b using lgd unfolding mt by (auto simp: owns_def)
  have st: "task_state \<circ> tasks ?kf = task_state \<circ> tasks k" "objs ?kf = objs k" using lgd by simp_all
  have mh: "mutex_head ?kf = mutex_head k" using lgd by (simp add: env_def)
  have chain: "mchain_ok (owns_of ?kf) (mutex_next \<circ> mutexes ?kf) (mutex_list \<circ> tasks ?kf) (task_state \<circ> tasks ?kf)"
  proof -
    have "owns_of ?kf = (\<lambda>u b. owns_of k u b \<and> b \<noteq> m)" using own' by (simp add: fun_eq_iff)
    moreover have "mutex_list \<circ> tasks ?kf = mutex_list \<circ> tasks k'" "task_state \<circ> tasks ?kf = task_state \<circ> tasks k'" by simp_all
    ultimately show ?thesis using lgd unfolding nx by metis
  qed
  have mtx: "mtx_inv ?kf"
    unfolding mtx_inv_def mtx_ok_def
  proof (intro conjI allI impI chain)
    fix u b assume "owns_of ?kf u b"
    then show "live ((task_state \<circ> tasks ?kf) u)" "u \<notin> set ((blk_list \<circ> objs ?kf) b)" "(owner_nested \<circ> mutexes ?kf) b \<noteq> 0"
      using own' [of u b] mtx_invD(1-3) [OF inv(2), of u b] unfolding ne st by auto
  next
    fix b assume "(obj_type \<circ> objs ?kf) b = RHINO_MUTEX_OBJ_TYPE"
    then show "b \<in> set (mutex_head ?kf)" using inv(2) unfolding mh st by (simp add: mtx_inv_def mtx_ok_def)
  next
    fix b assume "(obj_type \<circ> objs ?kf) b = RHINO_MUTEX_OBJ_TYPE \<and> (mutex_task \<circ> mutexes ?kf) b = None"
    then show "(blk_list \<circ> objs ?kf) b = []"
      using mtx_invD(5) [OF inv(2), of b] wl unfolding mt st by (auto split: if_splits)
  qed
  have "boosters_of ?kf u = boosters_of k u" for u
    using wl st(2) unfolding boosters_of_def boosters_def own' by auto
  moreover have "prio \<circ> tasks ?kf = prio \<circ> tasks k" "b_prio \<circ> tasks ?kf = b_prio \<circ> tasks k"
    using pr lgd by (auto simp: fun_eq_iff)
  ultimately have pi: "pi_inv ?kf"
    by (rule pi_inv_cong [OF inv(3)]) (use fun_cong [OF st(1)] in simp)
  have "base_inv k'" using lgd by blast
  then have base: "base_inv ?kf"
    unfolding base_inv_def inv_defs ticks_left_upd idle_ok_def by (auto simp: owns_def)
  have "task_state (tasks k' u) = task_state (tasks k u)" for u using fun_cong [OF st(1), of u] by simp
  then have "dead_ok ?kf" by (intro dead_ok_cong [OF inv(5)]) (use lgd in \<open>simp_all add: env_def\<close>)
  moreover have "tick_pos ?kf" using inv(4) lgd by (auto simp: tick_pos_def fun_eq_iff)
  ultimately have "kernel_inv ?kf" using base mtx pi by (simp add: kernel_inv_base)
  then show "sys_inv ?kf" by (rule sys_inv_cong [OF _ k(2)]) (use lgd pt in \<open>auto simp: env_def fun_eq_iff\<close>)
qed

lemma mutex_unlock_inv:
  assumes "sys_inv k"
  shows "sys_inv (snd (krhino_mutex_unlock mutex k))"
proof (cases mutex)
  case (Some m)
  have inv: "kernel_inv k" "sched_ok k" using assms(1) by (simp_all add: sys_inv_def)
  show ?thesis
  proof (cases "g_sys_stat k = RHINO_STOPPED \<or> g_intrpt_nested_level k > 0 \<or> obj_type (objs k m) \<noteq> RHINO_MUTEX_OBJ_TYPE
      \<or> mutex_task (mutexes k m) \<noteq> Some (g_active_task k)")
    case True
    then show ?thesis using Some assms(1) by (auto simp: krhino_mutex_unlock_def)
  next
    case guards: False
    let ?t = "g_active_task k" and ?n = "owner_nested (mutexes k m) - 1"
    have rdy: "state_of k ?t = K_RDY" using sched_okD(1) [OF inv(2)] guards by (simp add: word_gt_0)
    have own: "owns_of k ?t m" using guards by (simp add: owns_def)
    show ?thesis
    proof (cases "?n > 0")
      case True
      then show ?thesis
        using Some guards mutex_nest_inv [OF assms, of ?n m] by (simp add: krhino_mutex_unlock_def Let_def word_gt_0)
    next
      case False
      then have n: "?n = 0" by (simp add: word_gt_0)
      let ?k2 = "mutex_release ?t (Some m) (upd_mutex m (\<lambda>c. c\<lparr>owner_nested := 0\<rparr>) k)"
      have lg: "let_go ?t m k ?k2" by (rule mutex_release_active [OF inv(1) rdy own])
      have objs2: "objs ?k2 = objs k" and env2: "env ?k2 = env k" and st2: "task_state \<circ> tasks ?k2 = task_state \<circ> tasks k"
        using lg by (simp_all add: let_go_def)
      show ?thesis
      proof (cases "waiters k m")
        case Nil
        then show ?thesis
          using unlock_free_inv(1) [OF assms rdy own lg Nil] Some guards n objs2
          by (simp add: krhino_mutex_unlock_def Let_def)
      next
        case (Cons w ws)
        have w: "pending (state_of ?k2 w)" "w \<noteq> ?t"
          using waiter_pending(1) [OF kernel_invD(2) [OF inv(1)], of w m] Cons rdy fun_cong [OF st2, of w] by auto
        have "sys_inv (core_sched (mutex_give m w (pend_task_wakeup w ?k2)))"
        proof (rule sched_exit [OF unlock_handoff_inv [OF inv(1) rdy own lg Cons]])
          have "g_active_task ?k2 = ?t" using env2 by (simp add: env_def)
          then show "state_of (mutex_give m w (pend_task_wakeup w ?k2)) (g_active_task (mutex_give m w (pend_task_wakeup w ?k2))) = K_RDY"
            using fun_cong [OF wakeup_proj(1) [OF w(1)], of ?t] w(2) rdy fun_cong [OF st2, of ?t] by simp
        qed
        then show ?thesis
          using Some guards n objs2 Cons by (simp add: krhino_mutex_unlock_def mutex_give_def Let_def)
      qed
    qed
  qed
qed (use assms in \<open>simp add: krhino_mutex_unlock_def\<close>)

section \<open>The invariant: creating and deleting\<close>

text \<open>\<open>m\<close> is the memory of an object that has been deleted or never been used.\<close>

lemma mutex_create_inv:
  assumes "sys_inv k" and "\<And>m. mutex = Some m \<Longrightarrow> obj_type (objs k m) = RHINO_OBJ_TYPE_NONE"
  shows "sys_inv (snd (mutex_create mutex name mm_alloc k))"
proof (cases "\<exists>m nm. mutex = Some m \<and> name = Some nm")
  case False
  then show ?thesis using assms(1) by (auto simp: mutex_create_def split: option.split)
next
  case True
  then obtain m nm where args: "mutex = Some m" "name = Some nm" by blast
  let ?k = "snd (mutex_create mutex name mm_alloc k)"
  have inv: "kernel_inv k" "sched_ok k" using assms(1) by (simp_all add: sys_inv_def)
  note parts = kernel_invD [OF inv(1)]
  have none: "obj_type (objs k m) = RHINO_OBJ_TYPE_NONE" using assms(2) args by simp
  then have wl: "waiters k m = []" using parts(10) by (simp add: dead_ok_def)
  have obj: "obj_type \<circ> objs ?k = (obj_type \<circ> objs k)(m := RHINO_MUTEX_OBJ_TYPE)" "blk_list \<circ> objs ?k = blk_list \<circ> objs k"
    "blk_policy \<circ> objs ?k = (blk_policy \<circ> objs k)(m := BLK_POLICY_PRI)"
    "mutex_task \<circ> mutexes ?k = (mutex_task \<circ> mutexes k)(m := None)" "mutex_next \<circ> mutexes ?k = (mutex_next \<circ> mutexes k)(m := None)"
    "owner_nested \<circ> mutexes ?k = owner_nested \<circ> mutexes k" "mutex_head ?k = mutex_head k @ [m]"
    "ticks_left ?k = ticks_left k"
    using args wl by (auto simp: mutex_create_def Let_def fun_eq_iff ticks_left_def)
  have rest: "tasks ?k = tasks k" "g_ready_queue ?k = g_ready_queue k" "g_tick_head ?k = g_tick_head k" "task_head ?k = task_head k"
    "sems ?k = sems k" "k_fault ?k = k_fault k" "g_idle_task_spawned ?k = g_idle_task_spawned k" "g_active_task ?k = g_active_task k"
    "g_sched_lock ?k = g_sched_lock k" "g_intrpt_nested_level ?k = g_intrpt_nested_level k"
    using args by (simp_all add: mutex_create_def Let_def)
  have own: "owns_of ?k = owns_of k" using none unfolding obj by (auto simp: owns_def fun_eq_iff)
  have nom: "\<not> owns_of k u m" for u using none by (simp add: owns_def)
  have chain: "mchain_ok (owns_of ?k) (mutex_next \<circ> mutexes ?k) (mutex_list \<circ> tasks ?k) (task_state \<circ> tasks ?k)"
    unfolding own obj(5) rest mchain_ok_def
  proof (intro allI impI)
    fix u assume "live ((task_state \<circ> tasks k) u)"
    then obtain ms where "mutex_path (mutex_next \<circ> mutexes k) (mutex_list (tasks k u)) ms" "distinct ms" "set ms = {b. owns_of k u b}"
      using held_path [OF parts(4), of u] by auto
    then show "\<exists>ms. mutex_path ((mutex_next \<circ> mutexes k)(m := None)) ((mutex_list \<circ> tasks k) u) ms \<and> distinct ms \<and> set ms = {b. owns_of k u b}"
      using nom by (intro exI [of _ ms]) (simp del: fun_upd_apply)
  qed
  have "mtx_inv ?k"
    using chain parts(4) wl unfolding mtx_inv_def mtx_ok_def own unfolding obj rest by auto
  moreover have "pi_inv ?k"
    by (rule pi_inv_cong [OF parts(5)]) (simp_all only: rest obj(2) boosters_of_def boosters_def own)
  moreover have "blk_inv ?k"
    using parts(2) wl unfolding blk_inv_def blk_ok_def obj rest by auto
  moreover have "idle_inv ?k"
    using parts(6) unfolding idle_inv_def idle_ok_def own unfolding rest .
  moreover have "misc_inv ?k"
    using parts(7) wl unfolding misc_inv_def hdr_ok_def obj rest by auto
  moreover have "dead_ok ?k"
    by (rule dead_ok_cong [OF parts(10)]) (use fun_cong [OF obj(1)] fun_cong [OF obj(2)] in \<open>simp_all add: rest split: if_splits\<close>)
  moreover have "rdy_inv ?k" "tick_inv ?k" "tick_pos ?k" "\<not> k_fault ?k"
    using parts(1,3,8,9) unfolding rdy_inv_def tick_inv_def tick_pos_def obj rest by simp_all
  ultimately have "kernel_inv ?k" by (intro kernel_invI)
  then show ?thesis by (rule sys_inv_cong [OF _ inv(2)]) (simp_all only: rest)
qed

text \<open>
  The first half of a deletion: the object has no type any more and its owner, if any, has let go
  of it.  Nobody inherits a priority through it, so everything but the waiters is as it should be.
\<close>

definition mutex_retire :: "oid \<Rightarrow> 'a kernel_scheme \<Rightarrow> 'a kernel_scheme" where
  "mutex_retire m k =
     (let k1 = upd_obj m (\<lambda>h. h\<lparr>obj_type := RHINO_OBJ_TYPE_NONE\<rparr>) k
      in case mutex_task (mutexes k1 m) of None \<Rightarrow> k1 | Some t \<Rightarrow> mutex_release t (Some m) k1)"

lemma untype_base:
  assumes "base_inv k" and "obj_type (objs k m) = RHINO_MUTEX_OBJ_TYPE"
  shows "base_inv (upd_obj m (\<lambda>h. h\<lparr>obj_type := RHINO_OBJ_TYPE_NONE\<rparr>) k)"
proof -
  let ?k = "upd_obj m (\<lambda>h. h\<lparr>obj_type := RHINO_OBJ_TYPE_NONE\<rparr>) k"
  note parts = base_invD [OF assms(1)]
  have tl: "ticks_left ?k = ticks_left k" by (auto simp: ticks_left_def fun_eq_iff)
  have own: "owns_of k u b" if "owns_of ?k u b" for u b using that by (auto simp: owns_def split: if_splits)
  have pol: "blk_policy \<circ> objs ?k = blk_policy \<circ> objs k" "blk_list \<circ> objs ?k = blk_list \<circ> objs k" "tasks ?k = tasks k" by simp_all
  have ty: "(obj_type \<circ> objs k) b = ty" if "(obj_type \<circ> objs ?k) b = ty" "ty \<noteq> RHINO_OBJ_TYPE_NONE" for b ty
    using that by (simp split: if_splits)
  have "idle_inv ?k" using parts(4) own unfolding idle_inv_def idle_ok_def by auto
  moreover have "misc_inv ?k" unfolding misc_inv_def hdr_ok_def pol
  proof (intro conjI allI impI)
    fix b assume "(obj_type \<circ> objs ?k) b = RHINO_MUTEX_OBJ_TYPE"
    then show "(blk_policy \<circ> objs k) b = BLK_POLICY_PRI" using ty [of b] parts(5) unfolding misc_inv_def hdr_ok_def by blast
  next
    fix b assume "(obj_type \<circ> objs ?k) b = RHINO_SEM_OBJ_TYPE \<and> 0 < (sem_count \<circ> sems ?k) b"
    then show "(blk_list \<circ> objs k) b = []" using ty [of b] parts(5) unfolding misc_inv_def hdr_ok_def by auto
  qed (use parts(5) in \<open>auto simp: misc_inv_def hdr_ok_def\<close>)
  moreover have "rdy_inv ?k" "blk_inv ?k" "tick_inv ?k"
    using parts(1-3) unfolding rdy_inv_def blk_inv_def tick_inv_def pol tl by simp_all
  ultimately show ?thesis using parts(6) by (simp add: base_inv_def)
qed

lemma mutex_retire_spec:
  assumes "kernel_inv k" and m: "obj_type (objs k m) = RHINO_MUTEX_OBJ_TYPE"
  shows "base_inv (mutex_retire m k) \<and> mtx_inv (mutex_retire m k) \<and> pi_inv (mutex_retire m k) \<and>
    env (mutex_retire m k) = env k \<and> (\<forall>b. obj_type (objs (mutex_retire m k) b) = (if b = m then RHINO_OBJ_TYPE_NONE else obj_type (objs k b))) \<and>
    (\<forall>b. set (waiters (mutex_retire m k) b) = set (waiters k b)) \<and>
    (\<forall>u. state_of (mutex_retire m k) u = state_of k u \<and> tick_head (tasks (mutex_retire m k) u) = tick_head (tasks k u) \<and>
      ticks_left (mutex_retire m k) u = ticks_left k u)"
proof -
  let ?k1 = "upd_obj m (\<lambda>h. h\<lparr>obj_type := RHINO_OBJ_TYPE_NONE\<rparr>) k"
  have inv: "base_inv k" "mtx_inv k" "pi_inv k" using assms(1) by (simp_all add: kernel_inv_base)
  note base1 = untype_base [OF inv(1) m]
  have tl: "ticks_left ?k1 = ticks_left k" by (auto simp: ticks_left_def fun_eq_iff)
  have own1: "owns_of ?k1 u b \<longleftrightarrow> owns_of k u b \<and> b \<noteq> m" for u b by (auto simp: owns_def split: if_splits)
  show ?thesis
  proof (cases "mutex_task (mutexes k m)")
    case None
    then have own: "owns_of ?k1 = owns_of k" using own1 by (auto simp: owns_def fun_eq_iff)
    have "mtx_inv ?k1"
      using inv(2) unfolding mtx_inv_def mtx_ok_def own by (auto split: if_splits)
    moreover have "pi_inv ?k1"
      by (rule pi_inv_cong [OF inv(3)]) (simp_all add: boosters_of_def boosters_def own [simplified])
    ultimately show ?thesis using None base1 tl by (simp add: mutex_retire_def)
  next
    case (Some t)
    then have own: "owns_of k t m" using m by (simp add: owns_def)
    have live: "live (state_of k t)" and idle: "t \<noteq> g_idle_task"
      using mtx_invD(1) [OF inv(2) own] own base_invD(4) [OF inv(1)] by (auto simp: idle_inv_def idle_ok_def)
    have ch: "mchain_ok (owns_of k) (mutex_next \<circ> mutexes ?k1) (mutex_list \<circ> tasks ?k1) (task_state \<circ> tasks ?k1)"
      using inv(2) by (simp add: mtx_inv_def mtx_ok_def)
    have lv: "live (state_of ?k1 t)" using live by simp
    have mh: "b \<in> set (mutex_head ?k1)" if "owns_of k t b" for b using mtx_invD(4) [OF inv(2) that] by simp
    have srt: "sorted (map (prio_of ?k1) (waiters ?k1 b))" if "owns_of k t b" for b
      using owned_sorted [OF base_invD(2,5) [OF inv(1)] that] by auto
    obtain p k2 where look: "mutex_pri_look t (Some m) ?k1 = Some (p, k2)" and un: "unlinked t m ?k1 k2"
      and p: "least_of (b_prio (tasks ?k1 t)) (prio_of ?k1 ` {w. \<exists>b. owns_of k t b \<and> b \<noteq> m \<and> w \<in> set (waiters ?k1 b)}) p"
      and ch2: "mchain_ok (\<lambda>u b. owns_of k u b \<and> b \<noteq> m) (mutex_next \<circ> mutexes k2) (mutex_list \<circ> tasks k2) (task_state \<circ> tasks k2)"
      by (rule mutex_look_release [OF ch own lv owns_functional mh srt])
    note u = unlinkedD [OF un] and uc = unlinked_comp [OF un]
    have base2: "base_inv k2" by (rule unlinked_base [OF un base1])
    have own2: "owns_of k2 = (\<lambda>u b. owns_of k u b \<and> b \<noteq> m)"
      using own1 unfolding u(2) uc(8) by (simp add: fun_eq_iff)
    have wl2: "waiters k2 b = waiters k b" for b using u(2) by simp
    have "mutex_head k2 = mutex_head k" using u(1) by (simp add: env_def)
    note mh2 = this
    have mtx2: "mtx_inv k2"
    proof (rule mtx_invI [OF ch2 [folded own2]])
      fix v b assume "owns_of k2 v b"
      then have "owns_of k v b" unfolding own2 by blast
      then show "live (state_of k2 v) \<and> v \<notin> set (waiters k2 b) \<and> owner_nested (mutexes k2 b) \<noteq> 0"
        using mtx_invD(1-3) [OF inv(2), of v b] u(7,15) wl2 by simp
    next
      fix b assume "obj_type (objs k2 b) = RHINO_MUTEX_OBJ_TYPE"
      then have b: "obj_type (objs k b) = RHINO_MUTEX_OBJ_TYPE" using u(2) by (simp split: if_splits)
      then show "b \<in> set (mutex_head k2)" using inv(2) mh2 by (simp add: mtx_inv_def mtx_ok_def)
      show "waiters k2 b = []" if "mutex_task (mutexes k2 b) = None"
        using mtx_invD(5) [OF inv(2) b] that u(14) wl2 by fastforce
    qed
    have boost2: "boosters_of k2 v = {w. \<exists>b. owns_of k v b \<and> b \<noteq> m \<and> w \<in> set (waiters k b)}" for v
      unfolding boosters_of_def boosters_def own2 by (auto simp: wl2)
    have eff: "eff_of k2 v (prio_of k2 v)" if "live (state_of k2 v)" "v \<noteq> t" for v
    proof -
      have "boosters_of k2 v = boosters_of k v"
        unfolding boost2 using own that(2) by (auto simp: boosters_of_def boosters_def owns_def)
      then show ?thesis using inv(3) that u(7,8,9) by (simp add: pi_inv_eff eff_of_def cong: image_cong)
    qed
    have wl1: "waiters ?k1 b = waiters k b" for b by simp
    have efft: "eff_of k2 t p" using p [unfolded wl1] u(8,9) by (simp add: eff_of_def boost2 cong: image_cong)
    have live2: "live (state_of k2 t)" using live u(7) by simp
    obtain k3 where k3: "task_pri_change t p k2 = (RHINO_SUCCESS, k3)" "base_inv k3" "mtx_inv k3" "prio_only k2 k3" "pi_inv k3"
      by (rule task_pri_change_eff [OF base2 mtx2 live2 idle eff efft])
    let ?k3 = "if p \<noteq> prio_of k2 t then k3 else k2"
    have ret: "mutex_retire m k = ?k3" using Some look k3(1) by (simp add: mutex_retire_def mutex_release_def)
    have "pi_inv k2" if "p = prio_of k2 t" using eff efft that unfolding pi_inv_eff by metis
    moreover have po: "prio_only k2 ?k3" using k3(4) by simp
    moreover have "obj_type (objs ?k3 b) = (if b = m then RHINO_OBJ_TYPE_NONE else obj_type (objs k b))" for b
      using po u(2) by (auto simp: prio_only_def fun_eq_iff)
    moreover have "set (waiters ?k3 b) = set (waiters k b)" for b using po wl2 by (simp add: prio_only_def)
    moreover have "ticks_left ?k3 v = ticks_left k v" for v
      using prio_only_tasks(7) [OF po, of v] prio_only_globals [OF po] uc(7) tl by (simp add: ticks_left_def fun_eq_iff)
    ultimately show ?thesis
      using base2 mtx2 k3 prio_only_tasks(1,5) [OF po] prio_only_env [OF po] u(1,7,12) unfolding ret by simp
  qed
qed

lemma mutex_delete_inv:
  assumes "sys_inv k" and m: "obj_type (objs k m) = RHINO_MUTEX_OBJ_TYPE"
  shows "sys_inv (mutex_delete m k)" and "waiters (mutex_delete m k) m = []"
    and "obj_type (objs (mutex_delete m k) m) = RHINO_OBJ_TYPE_NONE"
    and "state_of (mutex_delete m k) u = (if u \<in> set (waiters k m) then woken (state_of k u) else state_of k u)"
    and "u \<in> set (waiters k m) \<Longrightarrow> blk_state (tasks (mutex_delete m k) u) = BLK_DEL"
proof -
  have inv: "kernel_inv k" "sched_ok k" using assms(1) by (simp_all add: sys_inv_def)
  let ?k2 = "mutex_retire m k"
  note ret = mutex_retire_spec [OF inv(1) m]
  have "task_head ?k2 = task_head k" using ret by (simp add: env_def)
  then have "emptying m ?k2"
    using ret kernel_invD(9,10) [OF inv(1)]
    by (auto simp: emptying_def tick_pos_def dead_ok_def set_empty [symmetric] simp del: set_empty)
  note em = del.for_waiters_spec [OF this]
  let ?k3 = "for_waiters pend_task_rm m ?k2"
  have tm: "obj_type (objs ?k3 m) = RHINO_OBJ_TYPE_NONE"
    using for_waiters_type [of m ?k2 m] ret by simp
  let ?k4 = "?k3\<lparr>mutex_head := remove1 m (mutex_head ?k3)\<rparr>"
  have ki: "kernel_inv ?k3" by (rule emptying_kernel(2) [OF em(1,2)])
  note parts = kernel_invD [OF ki]
  have "mtx_inv ?k4"
    using parts(4) tm unfolding mtx_inv_def mtx_ok_def by (auto, metis in_set_remove1 kobj_type_t.distinct(3))
  moreover have "ticks_left ?k4 = ticks_left ?k3" by (auto simp: ticks_left_def fun_eq_iff)
  ultimately have k4: "kernel_inv ?k4"
    using ki unfolding kernel_inv_def inv_defs tick_pos_def dead_ok_def by simp
  have "sys_inv (core_sched ?k4)"
  proof (rule sched_exit [OF k4])
    assume "g_sched_lock ?k4 > 0"
    then have act: "g_active_task ?k3 = g_active_task k" "g_sched_lock k > 0"
      using em(3) ret by (simp_all add: env_def)
    then have rdy: "state_of k (g_active_task k) = K_RDY" using sched_ok_locked [OF inv(2)] by simp
    then have "g_active_task k \<notin> set (waiters ?k2 m)"
      using waiter_pending(1) [OF kernel_invD(2) [OF inv(1)], of "g_active_task k" m] ret by auto
    then show "state_of ?k4 (g_active_task ?k4) = K_RDY" using em(4) [of "g_active_task k"] act rdy ret by simp
  qed
  moreover have eq: "mutex_delete m k = core_sched ?k4" by (simp add: mutex_delete_def mutex_retire_def Let_def)
  ultimately show "sys_inv (mutex_delete m k)" by simp
  show "waiters (mutex_delete m k) m = []" "obj_type (objs (mutex_delete m k) m) = RHINO_OBJ_TYPE_NONE"
    using em(2) tm by (simp_all add: eq)
  show "state_of (mutex_delete m k) u = (if u \<in> set (waiters k m) then woken (state_of k u) else state_of k u)"
    using em(4) [of u] ret by (simp add: eq)
  show "blk_state (tasks (mutex_delete m k) u) = BLK_DEL" if "u \<in> set (waiters k m)"
    using em(5) [of u] that ret by (simp add: eq)
qed

end
