(* ===== verification/Task.thy ===== *)
theory Task
  imports Sem Mutex
begin

text \<open>
  Tasks, \<^verbatim>\<open>kernel/rhino/core/k_task.c\<close>: creation, sleeping, yielding, suspension, priority changes and
  deletion (\<open>RHINO_CONFIG_TASK_WAIT_ABORT\<close> and the round-robin calls are compiled out; the loop of
  \<open>task_pri_change\<close> is in \<^verbatim>\<open>Prio\<close>).  The register frame that the port's \<open>cpu_task_stack_init\<close> stores at
  the top of a new stack is a parameter.  The theorems: every call keeps \<open>sys_inv\<close>; suspending and
  resuming are inverse; a sleep lasts exactly as long as asked for; deleting a task passes its
  mutexes on.
\<close>

section \<open>Creation\<close>

definition RHINO_TASK_STACK_OVF_MAGIC :: u32 where
  "RHINO_TASK_STACK_OVF_MAGIC = 0xdeadbeaf"

definition ktask_new :: "(u32 list \<Rightarrow> u32 list) \<Rightarrow> string \<Rightarrow> nat \<Rightarrow> nat \<Rightarrow> u8 \<Rightarrow> u8 \<Rightarrow> ktask" where
  "ktask_new cpu_task_stack_init name pri stack_size autorun mm_alloc =
     (let c1 = (if autorun > 0 then ktask_zero\<lparr>task_state := K_RDY\<rparr>
                else ktask_zero\<lparr>task_state := K_SUSPENDED, suspend_count := 1\<rparr>);
          stack = (replicate stack_size 0)[0 := RHINO_TASK_STACK_OVF_MAGIC]
      in c1\<lparr>task_name := name, prio := pri, b_prio := pri, mm_alloc_flag := mm_alloc,
            task_stack_mem := cpu_task_stack_init stack\<rparr>)"

definition task_create :: "(u32 list \<Rightarrow> u32 list) \<Rightarrow> tid option \<Rightarrow> string option \<Rightarrow> nat \<Rightarrow> bool \<Rightarrow> nat \<Rightarrow> bool \<Rightarrow>
    u8 \<Rightarrow> u8 \<Rightarrow> 'a kernel_scheme \<Rightarrow> kstat \<times> 'a kernel_scheme" where
  "task_create cpu_task_stack_init task name pri stack_is_null stack_size entry_is_null autorun mm_alloc k =
     (case (task, name) of
        (Some t, Some nm) \<Rightarrow>
          if entry_is_null \<or> stack_is_null then (RHINO_NULL_PTR, k)
          else if stack_size = 0 then (RHINO_TASK_INV_STACK_SIZE, k)
          else if pri \<ge> RHINO_CONFIG_PRI_MAX then (RHINO_BEYOND_MAX_PRI, k)
          else if g_intrpt_nested_level k > 0 then (RHINO_NOT_CALLED_BY_INTRPT, k)
          else if pri = RHINO_IDLE_PRI \<and> g_idle_task_spawned k then (RHINO_IDLE_TASK_EXIST, k)
          else
            let k0 = (if pri = RHINO_IDLE_PRI then k\<lparr>g_idle_task_spawned := True\<rparr> else k);
                k1 = upd_task t (\<lambda>_. ktask_new cpu_task_stack_init nm pri stack_size autorun mm_alloc) k0;
                k2 = k1\<lparr>task_head := task_head k1 @ [t]\<rparr>
            in if autorun > 0 then
                 let k3 = ready_list_add_tail t k2
                 in (RHINO_SUCCESS, if g_sys_stat k3 = RHINO_RUNNING then core_sched k3 else k3)
               else (RHINO_SUCCESS, k2)
      | _ \<Rightarrow> (RHINO_NULL_PTR, k))"

definition krhino_task_create :: "(u32 list \<Rightarrow> u32 list) \<Rightarrow> tid option \<Rightarrow> string option \<Rightarrow> nat \<Rightarrow> bool \<Rightarrow> nat \<Rightarrow> bool \<Rightarrow>
    u8 \<Rightarrow> 'a kernel_scheme \<Rightarrow> kstat \<times> 'a kernel_scheme" where
  "krhino_task_create cpu_task_stack_init task name pri stack_is_null stack_size entry_is_null autorun k =
     task_create cpu_task_stack_init task name pri stack_is_null stack_size entry_is_null autorun K_OBJ_STATIC_ALLOC k"

text \<open>\<open>mem_stack\<close> and \<open>mem_task\<close> are what the two calls of \<open>krhino_mm_alloc\<close> returned.\<close>

definition task_dyn_create :: "(u32 list \<Rightarrow> u32 list) \<Rightarrow> bool \<Rightarrow> string option \<Rightarrow> nat \<Rightarrow> nat \<Rightarrow> bool \<Rightarrow> u8 \<Rightarrow>
    nat option \<Rightarrow> tid option \<Rightarrow> 'a kernel_scheme \<Rightarrow> kstat \<times> tid option \<times> 'a kernel_scheme" where
  "task_dyn_create cpu_task_stack_init task_is_null name pri stack entry_is_null autorun mem_stack mem_task k =
     (if task_is_null then (RHINO_NULL_PTR, None, k)
      else if stack = 0 then (RHINO_INV_PARAM, None, k)
      else case mem_stack of
        None \<Rightarrow> (RHINO_NO_MEM, None, k)
      | Some task_stack \<Rightarrow>
          (case mem_task of
             None \<Rightarrow> (RHINO_NO_MEM, None, k\<lparr>mm_freed := mm_freed k @ [task_stack]\<rparr>)
           | Some task_obj \<Rightarrow>
               (let (ret, k1) = task_create cpu_task_stack_init (Some task_obj) name pri False stack entry_is_null autorun
                                  K_OBJ_DYN_ALLOC k
                in if ret \<noteq> RHINO_SUCCESS \<and> ret \<noteq> RHINO_STOPPED
                   then (ret, None, k1\<lparr>mm_freed := mm_freed k1 @ [task_stack, task_obj]\<rparr>)
                   else (ret, Some task_obj, k1))))"

section \<open>Sleeping and yielding\<close>

definition krhino_task_sleep :: "u32 \<Rightarrow> 'a kernel_scheme \<Rightarrow> kstat option \<times> 'a kernel_scheme" where
  "krhino_task_sleep ticks k =
     (if ticks = 0 then (Some RHINO_INV_PARAM, k)
      else if g_intrpt_nested_level k > 0 then (Some RHINO_NOT_CALLED_BY_INTRPT, k)
      else if g_sched_lock k > 0 then (Some RHINO_SCHED_DISABLE, k)
      else
        let t = g_active_task k;
            k1 = upd_task t (\<lambda>c. c\<lparr>task_state := K_SLEEP\<rparr>) k;
            k2 = tick_list_insert t ticks k1;
            k3 = ready_list_rm t k2
        in (None, core_sched k3))"

definition krhino_task_yield :: "'a kernel_scheme \<Rightarrow> kstat \<times> 'a kernel_scheme" where
  "krhino_task_yield k = (RHINO_SUCCESS, core_sched (ready_list_head_to_tail (g_active_task k) k))"

definition krhino_cur_task_get :: "'a kernel_scheme \<Rightarrow> tid" where
  "krhino_cur_task_get k = g_active_task k"

section \<open>Suspension\<close>

definition task_suspend :: "tid \<Rightarrow> 'a kernel_scheme \<Rightarrow> kstat \<times> 'a kernel_scheme" where
  "task_suspend t k =
     (if t = g_active_task k \<and> g_sched_lock k > 0 then (RHINO_SCHED_DISABLE, k)
      else
        (case state_of k t of
           K_RDY \<Rightarrow> (RHINO_SUCCESS, core_sched (ready_list_rm t
               (upd_task t (\<lambda>c. c\<lparr>suspend_count := 1, task_state := K_SUSPENDED\<rparr>) k)))
         | K_SLEEP \<Rightarrow> (RHINO_SUCCESS, core_sched (upd_task t (\<lambda>c. c\<lparr>suspend_count := 1, task_state := K_SLEEP_SUSPENDED\<rparr>) k))
         | K_PEND \<Rightarrow> (RHINO_SUCCESS, core_sched (upd_task t (\<lambda>c. c\<lparr>suspend_count := 1, task_state := K_PEND_SUSPENDED\<rparr>) k))
         | K_SEED \<Rightarrow> (RHINO_INV_TASK_STATE, k)
         | K_DELETED \<Rightarrow> (RHINO_INV_TASK_STATE, k)
         | _ \<Rightarrow>
             if suspend_count (tasks k t) = - 1 then (RHINO_SUSPENDED_COUNT_OVF, k)
             else (RHINO_SUCCESS, core_sched (upd_task t (\<lambda>c. c\<lparr>suspend_count := suspend_count c + 1\<rparr>) k))))"

definition krhino_task_suspend :: "tid option \<Rightarrow> 'a kernel_scheme \<Rightarrow> kstat \<times> 'a kernel_scheme" where
  "krhino_task_suspend task k =
     (case task of
        None \<Rightarrow> (RHINO_NULL_PTR, k)
      | Some t \<Rightarrow> if prio_of k t = RHINO_IDLE_PRI then (RHINO_TASK_SUSPEND_NOT_ALLOWED, k) else task_suspend t k)"

definition task_resume :: "tid \<Rightarrow> 'a kernel_scheme \<Rightarrow> kstat \<times> 'a kernel_scheme" where
  "task_resume t k =
     (let k1 = upd_task t (\<lambda>c. c\<lparr>suspend_count := suspend_count c - 1\<rparr>) k;
          done = suspend_count (tasks k1 t) = 0
      in case state_of k t of
           K_SUSPENDED \<Rightarrow> (RHINO_SUCCESS, core_sched
             (if done then ready_list_add t (upd_task t (\<lambda>c. c\<lparr>task_state := K_RDY\<rparr>) k1) else k1))
         | K_SLEEP_SUSPENDED \<Rightarrow> (RHINO_SUCCESS, core_sched
             (if done then upd_task t (\<lambda>c. c\<lparr>task_state := K_SLEEP\<rparr>) k1 else k1))
         | K_PEND_SUSPENDED \<Rightarrow> (RHINO_SUCCESS, core_sched
             (if done then upd_task t (\<lambda>c. c\<lparr>task_state := K_PEND\<rparr>) k1 else k1))
         | K_SEED \<Rightarrow> (RHINO_INV_TASK_STATE, k)
         | K_DELETED \<Rightarrow> (RHINO_INV_TASK_STATE, k)
         | _ \<Rightarrow> (RHINO_TASK_NOT_SUSPENDED, k))"

definition krhino_task_resume :: "tid option \<Rightarrow> 'a kernel_scheme \<Rightarrow> kstat \<times> 'a kernel_scheme" where
  "krhino_task_resume task k = (case task of None \<Rightarrow> (RHINO_NULL_PTR, k) | Some t \<Rightarrow> task_resume t k)"

section \<open>Stack use, user information and priority\<close>

text \<open>\<open>None\<close>: the loop reads beyond the stack.\<close>

fun stack_zeros :: "u32 list \<Rightarrow> nat option" where
  "stack_zeros [] = None"
| "stack_zeros (w # ws) = (if w = 0 then map_option Suc (stack_zeros ws) else Some 0)"

definition krhino_task_stack_min_free :: "tid option \<Rightarrow> bool \<Rightarrow> 'a kernel_scheme \<Rightarrow> (kstat \<times> nat option) option" where
  "krhino_task_stack_min_free task free_is_null k =
     (case task of
        None \<Rightarrow> Some (RHINO_NULL_PTR, None)
      | Some t \<Rightarrow>
          if free_is_null then Some (RHINO_NULL_PTR, None)
          else if state_of k t = K_DELETED then Some (RHINO_INV_TASK_STATE, None)
          else map_option (\<lambda>n. (RHINO_SUCCESS, Some n)) (stack_zeros (drop 1 (task_stack_mem (tasks k t)))))"

text \<open>\<open>RHINO_CONFIG_TASK_INFO_NUM\<close> is 2.\<close>

definition krhino_task_info_set :: "tid option \<Rightarrow> nat \<Rightarrow> u32 \<Rightarrow> 'a kernel_scheme \<Rightarrow> kstat \<times> 'a kernel_scheme" where
  "krhino_task_info_set task idx info k =
     (case task of
        None \<Rightarrow> (RHINO_NULL_PTR, k)
      | Some t \<Rightarrow>
          if idx \<ge> 2 then (RHINO_INV_PARAM, k)
          else (RHINO_SUCCESS, upd_task t (\<lambda>c. c\<lparr>user_info := (user_info c)[idx := info]\<rparr>) k))"

definition krhino_task_info_get :: "tid option \<Rightarrow> nat \<Rightarrow> bool \<Rightarrow> 'a kernel_scheme \<Rightarrow> kstat \<times> u32 option" where
  "krhino_task_info_get task idx info_is_null k =
     (case task of
        None \<Rightarrow> (RHINO_NULL_PTR, None)
      | Some t \<Rightarrow>
          if info_is_null then (RHINO_NULL_PTR, None)
          else if idx \<ge> 2 then (RHINO_INV_PARAM, None)
          else (RHINO_SUCCESS, Some (user_info (tasks k t) ! idx)))"

text \<open>The second component is what is stored through \<open>old_pri\<close>.\<close>

definition krhino_task_pri_change :: "tid option \<Rightarrow> nat \<Rightarrow> bool \<Rightarrow> 'a kernel_scheme \<Rightarrow> kstat \<times> nat option \<times> 'a kernel_scheme" where
  "krhino_task_pri_change task pri old_is_null k =
     (case task of
        None \<Rightarrow> (RHINO_NULL_PTR, None, k)
      | Some t \<Rightarrow>
          if old_is_null then (RHINO_NULL_PTR, None, k)
          else if prio_of k t \<ge> RHINO_IDLE_PRI then (RHINO_PRI_CHG_NOT_ALLOWED, None, k)
          else if pri \<ge> RHINO_IDLE_PRI then (RHINO_PRI_CHG_NOT_ALLOWED, None, k)
          else if state_of k t = K_DELETED then (RHINO_INV_TASK_STATE, None, k)
          else if g_intrpt_nested_level k > 0 then (RHINO_NOT_CALLED_BY_INTRPT, None, k)
          else
            (case mutex_pri_limit t pri k of
               None \<Rightarrow> (RHINO_SUCCESS, None, k_crash k)
             | Some pri_limit \<Rightarrow>
                 (let k1 = upd_task t (\<lambda>c. c\<lparr>b_prio := pri\<rparr>) k;
                      old_pri = prio_of k1 t;
                      (error, k2) = task_pri_change t pri_limit k1
                  in if error \<noteq> RHINO_SUCCESS then (error, Some old_pri, k2)
                     else (RHINO_SUCCESS, Some old_pri, core_sched k2))))"

section \<open>Deletion\<close>

text \<open>The walk over the mutexes a task holds; the bound is the number of mutexes.\<close>

fun task_mutex_free_loop :: "nat \<Rightarrow> oid option \<Rightarrow> 'a kernel_scheme \<Rightarrow> 'a kernel_scheme" where
  "task_mutex_free_loop n None k = k"
| "task_mutex_free_loop 0 (Some m) k = k_crash k"
| "task_mutex_free_loop (Suc n) (Some m) k =
     (let next_mutex = mutex_next (mutexes k m)
      in case waiters k m of
           [] \<Rightarrow> task_mutex_free_loop n next_mutex (upd_mutex m (\<lambda>c. c\<lparr>mutex_task := None\<rparr>) k)
         | next_task # _ \<Rightarrow> task_mutex_free_loop n next_mutex (mutex_take m next_task (pend_task_wakeup next_task k)))"

definition task_mutex_free :: "tid \<Rightarrow> 'a kernel_scheme \<Rightarrow> 'a kernel_scheme" where
  "task_mutex_free t k = task_mutex_free_loop (length (mutex_head k)) (mutex_list (tasks k t)) k"

text \<open>The switch over the state of the task that is deleted; \<open>None\<close> is its default branch.\<close>

definition task_leave :: "tid \<Rightarrow> 'a kernel_scheme \<Rightarrow> 'a kernel_scheme option" where
  "task_leave t k =
     (case state_of k t of
        K_RDY \<Rightarrow> Some (upd_task t (\<lambda>c. c\<lparr>task_state := K_DELETED\<rparr>) (ready_list_rm t k))
      | K_SUSPENDED \<Rightarrow> Some (upd_task t (\<lambda>c. c\<lparr>task_state := K_DELETED\<rparr>) k)
      | K_SLEEP \<Rightarrow> Some (upd_task t (\<lambda>c. c\<lparr>task_state := K_DELETED\<rparr>) (tick_list_rm t k))
      | K_SLEEP_SUSPENDED \<Rightarrow> Some (upd_task t (\<lambda>c. c\<lparr>task_state := K_DELETED\<rparr>) (tick_list_rm t k))
      | K_PEND \<Rightarrow> Some (mutex_task_pri_reset t
          (upd_task t (\<lambda>c. c\<lparr>task_state := K_DELETED\<rparr>) (klist_rm_task t (tick_list_rm t k))))
      | K_PEND_SUSPENDED \<Rightarrow> Some (mutex_task_pri_reset t
          (upd_task t (\<lambda>c. c\<lparr>task_state := K_DELETED\<rparr>) (klist_rm_task t (tick_list_rm t k))))
      | _ \<Rightarrow> None)"

text \<open>
  The return for the idle task leaves the critical section without \<open>RHINO_CRITICAL_EXIT\<close>: the
  interrupts stay masked.
\<close>

definition krhino_task_del :: "tid option \<Rightarrow> 'a kernel_scheme \<Rightarrow> kstat \<times> 'a kernel_scheme" where
  "krhino_task_del task k =
     (if g_intrpt_nested_level k > 0 then (RHINO_NOT_CALLED_BY_INTRPT, k)
      else
        let t = (case task of None \<Rightarrow> g_active_task k | Some t \<Rightarrow> t)
        in if prio_of k t = RHINO_IDLE_PRI then (RHINO_TASK_DEL_NOT_ALLOWED, k\<lparr>g_intrpt_masked := True\<rparr>)
           else if mm_alloc_flag (tasks k t) \<noteq> K_OBJ_STATIC_ALLOC then (RHINO_KOBJ_DEL_ERR, k)
           else if t = g_active_task k \<and> g_sched_lock k > 0 then (RHINO_SCHED_DISABLE, k)
           else
             let k1 = task_mutex_free t k
             in case task_leave t k1 of
                  None \<Rightarrow> (RHINO_INV_TASK_STATE, k1)
                | Some k2 \<Rightarrow> (RHINO_SUCCESS, core_sched (k2\<lparr>task_head := remove1 t (task_head k2)\<rparr>)))"

text \<open>
  \<open>g_res_sem\<close> is the semaphore of the task that frees the memory of deleted tasks; an entry \<open>t\<close> of
  \<open>g_res_list\<close> is the record in the stack of \<open>t\<close> that names its stack and its control block.
\<close>

definition g_res_sem :: oid where
  "g_res_sem = 0"

definition krhino_task_dyn_del :: "tid option \<Rightarrow> 'a kernel_scheme \<Rightarrow> kstat \<times> 'a kernel_scheme" where
  "krhino_task_dyn_del task k =
     (if g_intrpt_nested_level k > 0 then (RHINO_NOT_CALLED_BY_INTRPT, k)
      else
        let t = (case task of None \<Rightarrow> g_active_task k | Some t \<Rightarrow> t)
        in if prio_of k t = RHINO_IDLE_PRI then (RHINO_TASK_DEL_NOT_ALLOWED, k)
           else if mm_alloc_flag (tasks k t) \<noteq> K_OBJ_DYN_ALLOC then (RHINO_KOBJ_DEL_ERR, k)
           else if t = g_active_task k \<and> g_sched_lock k > 0 then (RHINO_SCHED_DISABLE, k)
           else if state_of k t = K_DELETED then (RHINO_INV_TASK_STATE, k)
           else
             let k1 = k\<lparr>g_sched_lock := g_sched_lock k + 1, g_res_list := g_res_list k @ [t]\<rparr>;
                 (ret, k2) = krhino_sem_give (Some g_res_sem) k1;
                 k3 = k2\<lparr>g_sched_lock := g_sched_lock k2 - 1\<rparr>
             in if ret \<noteq> RHINO_SUCCESS then (ret, k_err_proc RHINO_SYS_SP_ERR k3)
                else
                  let k4 = task_mutex_free t k3;
                      k5 = (case task_leave t k4 of None \<Rightarrow> k4 | Some k' \<Rightarrow> k')
                  in (RHINO_SUCCESS, core_sched (k5\<lparr>task_head := remove1 t (task_head k5)\<rparr>)))"

definition krhino_task_deathbed :: "'a kernel_scheme \<Rightarrow> 'a kernel_scheme" where
  "krhino_task_deathbed k =
     (if mm_alloc_flag (tasks k (krhino_cur_task_get k)) = K_OBJ_DYN_ALLOC then snd (krhino_task_dyn_del None k)
      else snd (krhino_task_del None k))"

section \<open>The invariant: creation\<close>

lemma not_live_idle: "idle_inv k \<Longrightarrow> \<not> live (state_of k t) \<Longrightarrow> t \<noteq> g_idle_task"
  using idle_invD(1) [of k] by auto

lemma not_live_lists:
  assumes "kernel_inv k" and "\<not> live (state_of k t)"
  shows "\<not> pending (state_of k t)" "t \<notin> set (waiters k b)" "\<not> tick_head (tasks k t)" "t \<notin> set (g_tick_head k)"
    and "t \<notin> set (task_head k)" "\<not> owns_of k t m" "t \<notin> boosters_of k v" "boosters_of k t = {}"
proof -
  note parts = kernel_invD [OF assms(1)]
  show np: "\<not> pending (state_of k t)" using assms(2) pending_live by blast
  show "t \<notin> set (waiters k b)" using parts(2) np by (auto simp: blk_inv_def blk_ok_def)
  show "\<not> tick_head (tasks k t)" "t \<notin> set (g_tick_head k)"
    using parts(3) np assms(2) sleeping_live [of "state_of k t"] by (auto simp: tick_inv_def tick_ok_def)
  show "t \<notin> set (task_head k)" using parts(10) assms(2) by (auto simp: dead_ok_def)
  show own: "\<not> owns_of k t m" for m using mtx_invD(1) [OF parts(4), of t m] assms(2) by blast
  show "t \<notin> boosters_of k v" using booster_pending [OF parts(2), of t v] np by blast
  show "boosters_of k t = {}" using own by (auto simp: boosters_of_def boosters_def)
qed

lemma task_add_inv:
  assumes inv: "kernel_inv k" and t: "\<not> live (state_of k t)" and pri: "pri < RHINO_IDLE_PRI"
    and c: "prio c = pri" "b_prio c = pri" "mutex_list c = None" "\<not> tick_head c"
      "task_state c = K_SUSPENDED \<and> suspend_count c \<noteq> 0 \<or> task_state c = K_RDY"
    and k1: "k1 = k\<lparr>tasks := (tasks k)(t := c), task_head := task_head k @ [t]\<rparr>"
    and k2: "k2 = (if task_state c = K_RDY then ready_list_add_tail t k1 else k1)"
  shows "kernel_inv k2"
proof -
  note parts = kernel_invD [OF inv] and nl = not_live_lists [OF inv t]
  note idle = not_live_idle [OF parts(6) t]
  have proj: "task_state \<circ> tasks k2 = (task_state \<circ> tasks k)(t := task_state c)" "prio \<circ> tasks k2 = (prio \<circ> tasks k)(t := pri)"
    "b_prio \<circ> tasks k2 = (b_prio \<circ> tasks k)(t := pri)" "mutex_list \<circ> tasks k2 = (mutex_list \<circ> tasks k)(t := None)"
    "tick_head \<circ> tasks k2 = (tick_head \<circ> tasks k)(t := False)" "objs k2 = objs k" "mutexes k2 = mutexes k"
    "g_tick_head k2 = g_tick_head k" "sems k2 = sems k" "mutex_head k2 = mutex_head k" "k_fault k2 = k_fault k"
    "task_head k2 = task_head k @ [t]" "g_idle_task_spawned k2 = g_idle_task_spawned k"
    using c by (auto simp: k2 k1)
  have tl: "ticks_left k2 u = ticks_left k u" if "u \<noteq> t" for u using that by (simp add: k2 k1 ticks_left_def)
  have susp: "rdy_ok (g_ready_queue k) ((task_state \<circ> tasks k)(t := K_SUSPENDED)) ((prio \<circ> tasks k)(t := pri))"
    by (rule rdy_ok_other [OF parts(1) [unfolded rdy_inv_def]]) (use t in auto)
  have "rdy_inv k2"
  proof (cases "task_state c = K_RDY")
    case True
    have "rdy_ok (rq_add_tail (g_ready_queue k) t pri) (((task_state \<circ> tasks k)(t := K_SUSPENDED))(t := K_RDY)) ((prio \<circ> tasks k)(t := pri))"
      using susp pri by (intro rdy_ok_add) auto
    then show ?thesis using True c(1) unfolding rdy_inv_def proj by (simp add: k2 k1 ready_list_add_tail_def)
  next
    case False
    then show ?thesis using susp c(5) unfolding rdy_inv_def proj by (auto simp: k2 k1)
  qed
  moreover have "blk_inv k2"
    unfolding blk_inv_def proj
    by (rule blk_ok_other [OF parts(2) [unfolded blk_inv_def]]) (use nl(1) c in \<open>auto simp: k2 k1\<close>)
  moreover have "tick_inv k2"
  proof -
    have "tick_ok (remove1 t (g_tick_head k)) (ticks_left k2) ((tick_head \<circ> tasks k)(t := False)) ((task_state \<circ> tasks k)(t := task_state c))"
      by (rule tick_ok_rm [OF parts(3) [unfolded tick_inv_def]]) (use c tl in auto)
    then show ?thesis unfolding tick_inv_def proj using nl(4) by (simp add: remove1_idem)
  qed
  moreover have "idle_inv k2" using parts(6) idle pri unfolding idle_inv_def idle_ok_def proj by auto
  moreover have "misc_inv k2"
  proof -
    have "susp_ok (task_state \<circ> tasks k2) (suspend_count \<circ> tasks k2)"
      using parts(7) c(5) by (auto simp: misc_inv_def susp_ok_def k2 k1 fun_upd_def)
    then show ?thesis using parts(7) nl(5) c(5) unfolding misc_inv_def hdr_ok_def proj by auto
  qed
  moreover have "mtx_inv k2"
    using parts(4) nl(2,6) c(5) unfolding mtx_inv_def mtx_ok_def mchain_ok_def proj by auto
  moreover have "pi_inv k2"
    unfolding pi_inv_eff
  proof (intro allI impI)
    have boost: "boosters_of k2 v = boosters_of k v" for v by (simp add: boosters_of_def proj)
    have img: "prio_of k2 ` boosters_of k v = prio_of k ` boosters_of k v" for v
      using nl(7) [of v] fun_cong [OF proj(2)] by (intro image_cong) auto
    fix v assume v: "live (state_of k2 v)"
    show "eff_of k2 v (prio_of k2 v)"
    proof (cases "v = t")
      case True
      then show ?thesis using nl(8) fun_cong [OF proj(2), of t] fun_cong [OF proj(3), of t]
        by (simp add: eff_of_def boost least_of_def)
    next
      case False
      then have "eff_of k v (prio_of k v)" using v parts(5) fun_cong [OF proj(1), of v] by (simp add: pi_inv_eff)
      then show ?thesis using False fun_cong [OF proj(2), of v] fun_cong [OF proj(3), of v]
        by (simp add: eff_of_def boost img)
    qed
  qed
  moreover have "tick_pos k2"
    using parts(9) tl fun_cong [OF proj(5)] by (auto simp: tick_pos_def split: if_splits)
  moreover have "state_of k2 u = (if u = t then task_state c else state_of k u)" for u using fun_cong [OF proj(1), of u] by simp
  then have "dead_ok k2" using parts(10) c(5) by (auto simp: dead_ok_def proj)
  ultimately show ?thesis using parts(8) proj(11) by (simp add: kernel_inv_def)
qed

lemma ktask_new_fields:
  "prio (ktask_new f nm pri n a mm) = pri" "b_prio (ktask_new f nm pri n a mm) = pri" "mutex_list (ktask_new f nm pri n a mm) = None"
  "\<not> tick_head (ktask_new f nm pri n a mm)"
  "task_state (ktask_new f nm pri n a mm) = (if a > 0 then K_RDY else K_SUSPENDED)"
  "suspend_count (ktask_new f nm pri n a mm) = (if a > 0 then 0 else 1)"
  by (simp_all add: ktask_new_def ktask_zero_def Let_def)

lemma task_create_inv:
  assumes "sys_inv k" and "g_sys_stat k = RHINO_RUNNING" and "\<And>t. task = Some t \<Longrightarrow> \<not> live (state_of k t)"
  shows "sys_inv (snd (task_create f task name pri stack_is_null stack_size entry_is_null autorun mm_alloc k))"
proof (cases "\<exists>t nm. task = Some t \<and> name = Some nm")
  case False
  then show ?thesis using assms(1) by (auto simp: task_create_def split: option.split)
next
  case True
  then obtain t nm where args: "task = Some t" "name = Some nm" by blast
  have inv: "kernel_inv k" "sched_ok k" using assms(1) by (simp_all add: sys_inv_def)
  have sp: "g_idle_task_spawned k" using kernel_invD(6) [OF inv(1)] by (simp add: idle_inv_def)
  show ?thesis
  proof (cases "entry_is_null \<or> stack_is_null \<or> stack_size = 0 \<or> pri \<ge> RHINO_CONFIG_PRI_MAX \<or> g_intrpt_nested_level k > 0 \<or> pri = RHINO_IDLE_PRI")
    case True
    then show ?thesis using args assms(1) sp by (auto simp: task_create_def)
  next
    case ok: False
    then have pri: "pri < RHINO_IDLE_PRI" by auto
    let ?c = "ktask_new f nm pri stack_size autorun mm_alloc"
    let ?k1 = "k\<lparr>tasks := (tasks k)(t := ?c), task_head := task_head k @ [t]\<rparr>"
    let ?k2 = "if task_state ?c = K_RDY then ready_list_add_tail t ?k1 else ?k1"
    have k2: "kernel_inv ?k2"
      by (rule task_add_inv [OF inv(1) assms(3) [OF args(1)] pri _ _ _ _ _ refl refl]) (simp_all add: ktask_new_fields)
    have rdy: "state_of k (g_active_task k) = K_RDY" using sched_okD(1) [OF inv(2)] ok by (simp add: word_gt_0)
    have "g_active_task k \<noteq> t" using assms(3) [OF args(1)] rdy by auto
    then have st: "state_of ?k2 (g_active_task k) = K_RDY" using rdy by simp
    show ?thesis
    proof (cases "autorun > 0")
      case True
      then have "sys_inv (core_sched (ready_list_add_tail t ?k1))"
        using k2 st by (intro sched_exit) (simp_all add: ktask_new_fields)
      then show ?thesis using True args ok assms(2) by (simp add: task_create_def)
    next
      case False
      then have "sys_inv ?k1"
        using k2 st rdy by (intro sys_inv_cong [OF _ inv(2)]) (simp_all add: ktask_new_fields)
      then show ?thesis using False args ok by (simp add: task_create_def)
    qed
  qed
qed

text \<open>A task that is created suspended, or before the system runs, does not lead to a reschedule.\<close>

lemma task_create_quiet:
  assumes "kernel_inv k" and "\<not> live (state_of k t)" and "pri < RHINO_IDLE_PRI" and "stack_size \<noteq> 0" and "g_intrpt_nested_level k = 0"
    and "autorun = 0 \<or> g_sys_stat k \<noteq> RHINO_RUNNING"
  shows "\<exists>k'. task_create f (Some t) (Some nm) pri False stack_size False autorun flag k = (RHINO_SUCCESS, k') \<and> kernel_inv k' \<and>
    tasks k' = (tasks k)(t := ktask_new f nm pri stack_size autorun flag) \<and> objs k' = objs k \<and>
    (autorun = 0 \<longrightarrow> g_ready_queue k' = g_ready_queue k) \<and> env k' = env (k\<lparr>task_head := task_head k @ [t]\<rparr>)"
proof -
  let ?c = "ktask_new f nm pri stack_size autorun flag"
  let ?k1 = "k\<lparr>tasks := (tasks k)(t := ?c), task_head := task_head k @ [t]\<rparr>"
  let ?k2 = "if task_state ?c = K_RDY then ready_list_add_tail t ?k1 else ?k1"
  have i: "kernel_inv ?k2"
    by (rule task_add_inv [OF assms(1-3) _ _ _ _ _ refl refl]) (simp_all add: ktask_new_fields)
  have "task_create f (Some t) (Some nm) pri False stack_size False autorun flag k = (RHINO_SUCCESS, ?k2)"
    using assms(3-6) by (auto simp: task_create_def Let_def ktask_new_fields word_gt_0)
  then show ?thesis using i
    by (intro exI [of _ ?k2]) (simp add: ktask_new_fields env_def ready_list_add_tail_def)
qed

lemma task_create_quiet_sys:
  assumes "sys_inv k" and "\<not> live (state_of k t)" and "pri < RHINO_IDLE_PRI" and "stack_size \<noteq> 0" and "g_intrpt_nested_level k = 0"
  shows "\<exists>k'. krhino_task_create f (Some t) (Some nm) pri False stack_size False 0 k = (RHINO_SUCCESS, k') \<and> sys_inv k' \<and>
    tasks k' = (tasks k)(t := ktask_new f nm pri stack_size 0 K_OBJ_STATIC_ALLOC) \<and> objs k' = objs k \<and> env k' = env (k\<lparr>task_head := task_head k @ [t]\<rparr>)"
proof -
  have inv: "kernel_inv k" "sched_ok k" using assms(1) by (simp_all add: sys_inv_def)
  obtain k' where k': "task_create f (Some t) (Some nm) pri False stack_size False 0 K_OBJ_STATIC_ALLOC k = (RHINO_SUCCESS, k')" "kernel_inv k'"
    "tasks k' = (tasks k)(t := ktask_new f nm pri stack_size 0 K_OBJ_STATIC_ALLOC)" "objs k' = objs k" "g_ready_queue k' = g_ready_queue k"
    "env k' = env (k\<lparr>task_head := task_head k @ [t]\<rparr>)"
    using task_create_quiet [OF inv(1) assms(2-5), of 0 f nm K_OBJ_STATIC_ALLOC] by auto
  have rdy: "state_of k (g_active_task k) = K_RDY" using sched_okD(1) [OF inv(2) assms(5)] .
  then have "g_active_task k \<noteq> t" using assms(2) by auto
  then have "sys_inv k'" using k'(2,3,5,6) rdy by (intro sys_inv_cong [OF _ inv(2)]) (simp_all add: env_def)
  then show ?thesis using k' by (auto simp: krhino_task_create_def)
qed

section \<open>The invariant: sleeping, yielding, suspending\<close>

lemma task_sleep_inv:
  assumes inv: "kernel_inv k" and t: "state_of k t = K_RDY" "t \<noteq> g_idle_task" and "ticks \<noteq> 0"
  shows "kernel_inv (ready_list_rm t (tick_list_insert t ticks (upd_task t (\<lambda>c. c\<lparr>task_state := K_SLEEP\<rparr>) k)))"
proof -
  note parts = kernel_invD [OF inv]
  let ?k2 = "tick_list_insert t ticks (upd_task t (\<lambda>c. c\<lparr>task_state := K_SLEEP\<rparr>) k)"
  have nt: "\<not> tick_head (tasks k t)" and np: "\<not> pending (state_of k t)"
    using parts(3) t(1) by (force simp: tick_inv_def tick_ok_def)+
  have proj: "task_state \<circ> tasks ?k2 = (task_state \<circ> tasks k)(t := K_SLEEP)" "prio \<circ> tasks ?k2 = prio \<circ> tasks k"
    "b_prio \<circ> tasks ?k2 = b_prio \<circ> tasks k" "suspend_count \<circ> tasks ?k2 = suspend_count \<circ> tasks k"
    "mutex_list \<circ> tasks ?k2 = mutex_list \<circ> tasks k" "blk_obj \<circ> tasks ?k2 = blk_obj \<circ> tasks k"
    "tick_head \<circ> tasks ?k2 = (tick_head \<circ> tasks k)(t := True)" "objs ?k2 = objs k" "mutexes ?k2 = mutexes k"
    "g_ready_queue ?k2 = g_ready_queue k" "k_fault ?k2 = k_fault k" "env ?k2 = env k"
    "\<And>u. u \<noteq> t \<Longrightarrow> ticks_left ?k2 u = ticks_left k u" "ticks_left ?k2 t = ticks"
    using assms(4) by (auto simp: tick_list_insert_def tick_list_pri_insert_def ticks_left_def word_gt_0 fun_eq_iff)
  note env = proj(12) [unfolded env_frame]
  have tq: "g_tick_head ?k2 = ins_before (ticks_left ?k2) (ticks_left ?k2 t) t (g_tick_head k)"
    using assms(4) by (auto simp: tick_list_insert_def tick_list_pri_insert_def ticks_left_def word_gt_0
        intro!: arg_cong [where f = "\<lambda>key. ins_before key _ _ _"])
  obtain rq where rq: "ready_list_rm t ?k2 = ?k2\<lparr>g_ready_queue := rq\<rparr>"
    "rdy_ok rq ((task_state \<circ> tasks k)(t := K_SLEEP)) (prio \<circ> tasks k)"
    by (rule ready_list_rm_rdy [OF parts(1,6) t, of K_SLEEP ?k2]) (use fun_cong [OF proj(2), of t] proj(10) in simp_all)
  let ?k3 = "?k2\<lparr>g_ready_queue := rq\<rparr>"
  have more: "tasks ?k3 = tasks ?k2" "objs ?k3 = objs k" "mutexes ?k3 = mutexes k" "ticks_left ?k3 = ticks_left ?k2"
    "g_tick_head ?k3 = g_tick_head ?k2" "k_fault ?k3 = k_fault k" "env ?k3 = env k"
    using proj by simp_all
  note env3 = more(7) [unfolded env_frame]
  have live: "live (((task_state \<circ> tasks k)(t := K_SLEEP)) u) = live (state_of k u)" for u using t(1) by simp
  have "rdy_inv ?k3" using rq(2) by (simp only: rdy_inv_def more proj) simp
  moreover have "blk_inv ?k3"
    using blk_ok_other [OF parts(2) [unfolded blk_inv_def], of t K_SLEEP "prio \<circ> tasks k" "blk_obj \<circ> tasks k"] np
    by (simp only: blk_inv_def more proj) simp
  moreover have "tick_inv ?k3"
    using tick_ok_add [OF parts(3) [unfolded tick_inv_def], of t K_SLEEP "ticks_left ?k2"] nt proj(13)
    by (simp only: tick_inv_def more tq proj(1,7)) simp
  moreover have "idle_inv ?k3"
    using parts(6) t unfolding idle_inv_def idle_ok_def more proj using env3 by simp
  moreover have "misc_inv ?k3"
    using parts(7) t unfolding misc_inv_def susp_ok_def hdr_ok_def more proj using env3 by auto
  moreover have "mtx_inv ?k3"
    using parts(4) live unfolding mtx_inv_def mtx_ok_def mchain_ok_def more proj using env3 by (simp del: fun_upd_apply)
  moreover have "pi_inv ?k3"
  proof (rule pi_inv_cong [OF parts(5)])
    show "prio \<circ> tasks ?k3 = prio \<circ> tasks k" "b_prio \<circ> tasks ?k3 = b_prio \<circ> tasks k" by (simp_all only: more proj)
    show "boosters_of ?k3 u = boosters_of k u" for u by (simp only: boosters_of_def more)
    show "live (state_of k u)" if "live (state_of ?k3 u)" for u
      using that fun_cong [OF proj(1), of u] t(1) more(1) by (simp split: if_splits)
  qed
  moreover have "tick_pos ?k3"
    using parts(9) fun_cong [OF proj(7)] proj(13,14) assms(4) unfolding tick_pos_def more
    by (auto simp: word_gt_0 split: if_splits)
  moreover have "dead_ok ?k3"
    by (rule dead_ok_cong [OF parts(10)]) (use more env3 fun_cong [OF proj(1)] live in \<open>simp_all del: fun_upd_apply\<close>)
  ultimately show ?thesis using parts(8) more(6) unfolding rq(1) by (intro kernel_invI) simp_all
qed

text \<open>A change of the state and the suspension count of one task that ends no wait.\<close>

lemma task_restate_inv:
  assumes inv: "kernel_inv k" and t: "t \<noteq> g_idle_task" "live s = live (state_of k t)"
    and wait: "pending s = pending (state_of k t)" "sleeping s = sleeping (state_of k t)"
    and n: "s \<in> {K_SUSPENDED, K_PEND_SUSPENDED, K_SLEEP_SUSPENDED} \<Longrightarrow> n \<noteq> 0"
    and rq: "rdy_ok rq ((task_state \<circ> tasks k)(t := s)) (prio \<circ> tasks k)"
  shows "kernel_inv (k\<lparr>tasks := (tasks k)(t := (tasks k t)\<lparr>suspend_count := n, task_state := s\<rparr>), g_ready_queue := rq\<rparr>)"
proof -
  note parts = kernel_invD [OF inv]
  let ?k = "k\<lparr>tasks := (tasks k)(t := (tasks k t)\<lparr>suspend_count := n, task_state := s\<rparr>), g_ready_queue := rq\<rparr>"
  have proj: "task_state \<circ> tasks ?k = (task_state \<circ> tasks k)(t := s)" "prio \<circ> tasks ?k = prio \<circ> tasks k"
    "b_prio \<circ> tasks ?k = b_prio \<circ> tasks k" "suspend_count \<circ> tasks ?k = (suspend_count \<circ> tasks k)(t := n)"
    "mutex_list \<circ> tasks ?k = mutex_list \<circ> tasks k" "blk_obj \<circ> tasks ?k = blk_obj \<circ> tasks k"
    "tick_head \<circ> tasks ?k = tick_head \<circ> tasks k" "ticks_left ?k = ticks_left k"
    by (auto simp: ticks_left_def fun_eq_iff)
  have live: "live (((task_state \<circ> tasks k)(t := s)) u) = live (state_of k u)" for u using t(2) by simp
  have "rdy_inv ?k" using rq by (simp only: rdy_inv_def proj) simp
  moreover have "blk_inv ?k"
    using blk_ok_same_pending [OF parts(2) [unfolded blk_inv_def], of s t] wait by (simp only: blk_inv_def proj) simp
  moreover have "tick_inv ?k"
    using tick_ok_same [OF parts(3) [unfolded tick_inv_def], of s t] wait by (simp only: tick_inv_def proj) simp
  moreover have "idle_inv ?k"
    using parts(6) t live unfolding idle_inv_def idle_ok_def proj by (auto simp: fun_upd_def)
  moreover have "misc_inv ?k"
    using parts(7) live n unfolding misc_inv_def susp_ok_def hdr_ok_def proj by (auto simp: fun_upd_def)
  moreover have "mtx_inv ?k"
    using parts(4) live unfolding mtx_inv_def mtx_ok_def mchain_ok_def proj by (simp del: fun_upd_apply)
  moreover have "pi_inv ?k"
    by (rule pi_inv_cong [OF parts(5) _ proj(2,3)]) (use t(2) in \<open>simp_all add: boosters_of_def split: if_splits\<close>)
  moreover have "tick_pos ?k" using parts(9) fun_cong [OF proj(7)] unfolding tick_pos_def proj by simp
  moreover have "dead_ok ?k" by (rule dead_ok_cong [OF parts(10)]) (use t(2) in auto)
  ultimately show ?thesis using parts(8) by (intro kernel_invI) simp_all
qed

lemma task_yield_inv:
  assumes "sys_inv k" and "g_intrpt_nested_level k = 0"
  shows "sys_inv (snd (krhino_task_yield k))"
proof -
  have inv: "kernel_inv k" "sched_ok k" using assms(1) by (simp_all add: sys_inv_def)
  let ?t = "g_active_task k" and ?rq = "g_ready_queue k"
  have rdy: "state_of k ?t = K_RDY" using sched_okD(1) [OF inv(2) assms(2)] .
  have mem: "\<And>t p. t \<in> set (cur_list ?rq p) \<longleftrightarrow> state_of k t = K_RDY \<and> prio_of k t = p" and wf: "rq_wf ?rq"
    using kernel_invD(1) [OF inv(1)] by (simp_all add: rdy_inv_def rdy_ok_def)
  then have ne: "cur_list ?rq (prio_of k ?t) \<noteq> []" using rdy by (metis empty_iff list.set(1))
  let ?rq' = "?rq\<lparr>cur_list := (cur_list ?rq)(prio_of k ?t := rotate1 (cur_list ?rq (prio_of k ?t)))\<rparr>"
  have y: "ready_list_head_to_tail ?t k = k\<lparr>g_ready_queue := ?rq'\<rparr>" using ne by (simp add: ready_list_head_to_tail_def Let_def)
  have "rdy_ok ?rq' (task_state \<circ> tasks k) (prio \<circ> tasks k)"
    using rq_wf_rotate [OF wf ne] mem by (auto simp: rdy_ok_def)
  moreover have "ticks_left (k\<lparr>g_ready_queue := ?rq'\<rparr>) = ticks_left k" by (auto simp: ticks_left_def fun_eq_iff)
  ultimately have "kernel_inv (k\<lparr>g_ready_queue := ?rq'\<rparr>)"
    using inv(1) unfolding kernel_inv_def inv_defs tick_pos_def dead_ok_def by simp
  then have "sys_inv (core_sched (k\<lparr>g_ready_queue := ?rq'\<rparr>))" by (rule sched_exit) (use rdy in simp)
  then show ?thesis by (simp add: krhino_task_yield_def y)
qed

lemma sleep_call_inv:
  assumes "sys_inv k" and "g_active_task k \<noteq> g_idle_task"
  shows "sys_inv (snd (krhino_task_sleep ticks k))"
proof (cases "ticks = 0 \<or> g_intrpt_nested_level k > 0 \<or> g_sched_lock k > 0")
  case True
  then show ?thesis using assms(1) by (auto simp: krhino_task_sleep_def)
next
  case False
  have inv: "kernel_inv k" "sched_ok k" using assms(1) by (simp_all add: sys_inv_def)
  have rdy: "state_of k (g_active_task k) = K_RDY" using sched_okD(1) [OF inv(2)] False by (simp add: word_gt_0)
  have "sys_inv (core_sched (ready_list_rm (g_active_task k) (tick_list_insert (g_active_task k) ticks
      (upd_task (g_active_task k) (\<lambda>c. c\<lparr>task_state := K_SLEEP\<rparr>) k))))"
    by (rule sched_exit [OF task_sleep_inv [OF inv(1) rdy assms(2)]]) (use False in simp_all)
  then show ?thesis using False by (simp add: krhino_task_sleep_def Let_def)
qed

text \<open>A reschedule after a change that leaves the running task ready while the scheduler is locked.\<close>

lemma resched_inv:
  assumes "kernel_inv k'" and "sched_ok k" and "g_active_task k' = g_active_task k" "g_sched_lock k' = g_sched_lock k"
    and "g_intrpt_nested_level k' = g_intrpt_nested_level k"
    and "state_of k (g_active_task k) = K_RDY \<Longrightarrow> g_sched_lock k > 0 \<Longrightarrow> state_of k' (g_active_task k) = K_RDY"
  shows "sys_inv (core_sched k')"
  by (rule sched_exit [OF assms(1)]) (use assms sched_ok_locked [OF assms(2)] in simp)

lemma same_queue: "kernel_inv k \<Longrightarrow> state_of k t \<noteq> K_RDY \<Longrightarrow> s \<noteq> K_RDY \<Longrightarrow>
    rdy_ok (g_ready_queue k) ((task_state \<circ> tasks k)(t := s)) (prio \<circ> tasks k)"
  by (rule rdy_ok_other [OF kernel_invD(1) [unfolded rdy_inv_def]]) auto

lemma task_suspend_inv:
  assumes "sys_inv k" and "t \<noteq> g_idle_task"
  shows "sys_inv (snd (task_suspend t k))"
proof (cases "t = g_active_task k \<and> g_sched_lock k > 0")
  case True
  then show ?thesis using assms(1) by (simp add: task_suspend_def)
next
  case False
  have inv: "kernel_inv k" "sched_ok k" using assms(1) by (simp_all add: sys_inv_def)
  note parts = kernel_invD [OF inv(1)]
  have change: "sys_inv (core_sched (k\<lparr>tasks := (tasks k)(t := (tasks k t)\<lparr>suspend_count := n, task_state := s\<rparr>)\<rparr>))"
    if "live s" "live (state_of k t)" "s \<noteq> K_RDY" "state_of k t \<noteq> K_RDY" "pending s = pending (state_of k t)"
      "sleeping s = sleeping (state_of k t)" "n \<noteq> 0" for s n
    by (rule resched_inv [OF task_restate_inv [OF inv(1) assms(2) _ that(5,6) _ same_queue [OF inv(1) that(4,3)]] inv(2), simplified])
      (use that False in auto)
  have nested: "(tasks k t)\<lparr>suspend_count := suspend_count (tasks k t) + 1\<rparr> =
      (tasks k t)\<lparr>suspend_count := suspend_count (tasks k t) + 1, task_state := state_of k t\<rparr>" by simp
  consider "state_of k t = K_RDY" | "state_of k t = K_SLEEP" | "state_of k t = K_PEND"
    | "state_of k t \<in> {K_SUSPENDED, K_PEND_SUSPENDED, K_SLEEP_SUSPENDED}" | "state_of k t \<in> {K_SEED, K_DELETED}"
    by (cases "state_of k t") auto
  then show ?thesis
  proof cases
    case 1
    let ?k1 = "upd_task t (\<lambda>c. c\<lparr>suspend_count := 1, task_state := K_SUSPENDED\<rparr>) k"
    obtain rq where rq: "ready_list_rm t ?k1 = ?k1\<lparr>g_ready_queue := rq\<rparr>"
      "rdy_ok rq ((task_state \<circ> tasks k)(t := K_SUSPENDED)) (prio \<circ> tasks k)"
      by (rule ready_list_rm_rdy [OF parts(1,6) 1 assms(2), of K_SUSPENDED ?k1]) simp_all
    have "kernel_inv (?k1\<lparr>g_ready_queue := rq\<rparr>)"
      using task_restate_inv [OF inv(1) assms(2) _ _ _ _ rq(2), of 1] 1 by simp
    then have "sys_inv (core_sched (ready_list_rm t ?k1))"
      unfolding rq(1) by (rule resched_inv [OF _ inv(2)]) (use False in auto)
    then show ?thesis using 1 False assms(1) by (auto simp: task_suspend_def)
  next
    case 2 then show ?thesis using change [of K_SLEEP_SUSPENDED 1] False by (auto simp: task_suspend_def)
  next
    case 3 then show ?thesis using change [of K_PEND_SUSPENDED 1] False by (auto simp: task_suspend_def)
  next
    case 4
    have "suspend_count (tasks k t) + 1 \<noteq> 0" if "suspend_count (tasks k t) \<noteq> - 1"
      using that by (metis eq_neg_iff_add_eq_0)
    then show ?thesis
      using 4 change [of "state_of k t" "suspend_count (tasks k t) + 1"] assms(1) False
      by (auto simp: task_suspend_def simp flip: nested)
  next
    case 5 then show ?thesis using assms(1) False by (auto simp: task_suspend_def)
  qed
qed

lemma task_resume_inv:
  assumes "sys_inv k"
  shows "sys_inv (snd (task_resume t k))"
proof -
  have inv: "kernel_inv k" "sched_ok k" using assms(1) by (simp_all add: sys_inv_def)
  note parts = kernel_invD [OF inv(1)]
  let ?n = "suspend_count (tasks k t) - 1"
  have change: "sys_inv (core_sched (k\<lparr>tasks := (tasks k)(t := (tasks k t)\<lparr>suspend_count := ?n, task_state := s\<rparr>)\<rparr>))"
    if "live s" "live (state_of k t)" "s \<noteq> K_RDY" "state_of k t \<noteq> K_RDY" "pending s = pending (state_of k t)"
      "sleeping s = sleeping (state_of k t)" "s \<in> {K_SUSPENDED, K_PEND_SUSPENDED, K_SLEEP_SUSPENDED} \<Longrightarrow> ?n \<noteq> 0" for s
  proof -
    have "t \<noteq> g_idle_task" using idle_invD(1) [OF parts(6)] that(4) by auto
    from task_restate_inv [OF inv(1) this _ that(5,6,7) same_queue [OF inv(1) that(4,3)]] that(1,2)
    show ?thesis by (intro resched_inv [OF _ inv(2)]) (use that(4) in auto)
  qed
  have nested: "(tasks k t)\<lparr>suspend_count := ?n\<rparr> = (tasks k t)\<lparr>suspend_count := ?n, task_state := state_of k t\<rparr>" by simp
  have still: "sys_inv (core_sched (k\<lparr>tasks := (tasks k)(t := (tasks k t)\<lparr>suspend_count := ?n\<rparr>)\<rparr>))"
    if "state_of k t \<in> {K_SUSPENDED, K_PEND_SUSPENDED, K_SLEEP_SUSPENDED}" "?n \<noteq> 0"
    by (subst nested, rule change) (use that in auto)
  consider "state_of k t \<in> {K_RDY, K_SLEEP, K_PEND, K_SEED, K_DELETED}" | "state_of k t = K_SUSPENDED"
    | "state_of k t = K_SLEEP_SUSPENDED" | "state_of k t = K_PEND_SUSPENDED" by (cases "state_of k t") auto
  then show ?thesis
  proof cases
    case 1 then show ?thesis using assms(1) by (auto simp: task_resume_def)
  next
    case 2
    show ?thesis
    proof (cases "?n = 0")
      case False
      then show ?thesis using 2 still by (simp add: task_resume_def)
    next
      case True
      have idle: "t \<noteq> g_idle_task" and pr: "prio_of k t < RHINO_CONFIG_PRI_MAX"
        using idle_invD(1) [OF parts(6)] live_prio [OF parts(6), of t] 2 by auto
      let ?k1 = "k\<lparr>tasks := (tasks k)(t := (tasks k t)\<lparr>suspend_count := ?n, task_state := K_RDY\<rparr>)\<rparr>"
      have rq: "g_ready_queue (ready_list_add t ?k1) = g_ready_queue (ready_list_add t k)"
        by (rule ready_list_add_rq) simp_all
      have eq: "ready_list_add t ?k1 = ?k1\<lparr>g_ready_queue := g_ready_queue (ready_list_add t k)\<rparr>"
        unfolding rq [symmetric] by (simp add: sched_defs)
      have ki: "kernel_inv (ready_list_add t ?k1)"
        unfolding eq by (rule task_restate_inv [OF inv(1) idle]) (use 2 ready_list_add_rdy(1) [OF parts(1) _ pr] in simp_all)
      have "sys_inv (core_sched (ready_list_add t ?k1))"
        by (rule resched_inv [OF ki inv(2)]) (use 2 in auto)
      then show ?thesis using 2 True by (simp add: task_resume_def)
    qed
  next
    case 3
    then show ?thesis using still change [of K_SLEEP] by (auto simp: task_resume_def Let_def)
  next
    case 4
    then show ?thesis using still change [of K_PEND] by (auto simp: task_resume_def Let_def)
  qed
qed

section \<open>The invariant: priorities\<close>

text \<open>The computed limit is the priority the task should have, and the loop that gives it to the task succeeds.\<close>

lemma pri_change_body:
  assumes inv: "kernel_inv k" and live: "live (state_of k t)" and idle: "t \<noteq> g_idle_task" and pri: "pri < RHINO_IDLE_PRI"
  obtains p k2 where "mutex_pri_limit t pri k = Some p"
    and "task_pri_change t p (upd_task t (\<lambda>c. c\<lparr>b_prio := pri\<rparr>) k) = (RHINO_SUCCESS, k2)"
    and "prio_only (upd_task t (\<lambda>c. c\<lparr>b_prio := pri\<rparr>) k) k2" and "base_inv k2" "mtx_inv k2" "pi_inv k2"
proof -
  note parts = kernel_invD [OF inv]
  obtain p where p: "mutex_pri_limit t pri k = Some p" "least_of pri (prio_of k ` boosters_of k t) p"
    by (rule mutex_pri_limit_eff [OF parts(4,2,7) live])
  let ?k1 = "upd_task t (\<lambda>c. c\<lparr>b_prio := pri\<rparr>) k"
  have tl: "ticks_left ?k1 = ticks_left k" by (auto simp: ticks_left_def fun_eq_iff)
  have base: "base_inv ?k1"
    using parts live idle pri unfolding base_inv_def inv_defs tl idle_ok_def by (simp add: g_idle_task_def)
  have mtx: "mtx_inv ?k1" using parts(4) by (simp add: mtx_inv_def)
  have boost: "boosters_of ?k1 = boosters_of k" by (simp add: boosters_of_def)
  have eff: "eff_of ?k1 u (prio_of ?k1 u)" if "live (state_of ?k1 u)" "u \<noteq> t" for u
  proof -
    have "live (state_of k u)" using that by simp
    then have "eff_of k u (prio_of k u)" using parts(5) by (simp add: pi_inv_eff)
    moreover have "prio_of ?k1 v = prio_of k v" for v by simp
    ultimately show ?thesis using that(2) by (simp add: eff_of_def boost [simplified] cong: image_cong)
  qed
  have pr1: "prio_of ?k1 ` B = prio_of k ` B" for B by (rule image_cong) auto
  have efft: "eff_of ?k1 t p" using p(2) unfolding eff_of_def boost pr1 by simp
  have live1: "live (state_of ?k1 t)" using live by simp
  obtain k2 where "task_pri_change t p ?k1 = (RHINO_SUCCESS, k2)" "base_inv k2" "mtx_inv k2" "prio_only ?k1 k2" "pi_inv k2"
    by (rule task_pri_change_eff [OF base mtx live1 idle eff efft])
  then show ?thesis using that p(1) by blast
qed

lemma task_pri_change_inv:
  assumes "sys_inv k" and "\<And>t. task = Some t \<Longrightarrow> live (state_of k t) \<or> state_of k t = K_DELETED"
  shows "sys_inv (snd (snd (krhino_task_pri_change task pri old_is_null k)))"
proof (cases task)
  case (Some t)
  have inv: "kernel_inv k" "sched_ok k" using assms(1) by (simp_all add: sys_inv_def)
  note parts = kernel_invD [OF inv(1)]
  show ?thesis
  proof (cases "old_is_null \<or> prio_of k t \<ge> RHINO_IDLE_PRI \<or> pri \<ge> RHINO_IDLE_PRI \<or> state_of k t = K_DELETED \<or> g_intrpt_nested_level k > 0")
    case True
    then show ?thesis using Some assms(1) by (auto simp: krhino_task_pri_change_def)
  next
    case False
    then have live: "live (state_of k t)" and idle: "t \<noteq> g_idle_task" and pri: "pri < RHINO_IDLE_PRI"
      using assms(2) [OF Some] idle_invD(2) [OF parts(6)] by auto
    let ?k1 = "upd_task t (\<lambda>c. c\<lparr>b_prio := pri\<rparr>) k"
    obtain p k2 where p: "mutex_pri_limit t pri k = Some p" and k2: "task_pri_change t p ?k1 = (RHINO_SUCCESS, k2)"
      "prio_only ?k1 k2" "base_inv k2" "mtx_inv k2" "pi_inv k2"
      by (rule pri_change_body [OF inv(1) live idle pri])
    note tk = prio_only_tasks [OF k2(2)] and gl = prio_only_globals [OF k2(2)]
    have wl: "set (waiters k2 b) = set (waiters k b)" and ty: "obj_type (objs k2 b) = obj_type (objs k b)" for b
      using k2(2) by (simp_all add: prio_only_def fun_eq_iff)
    have st: "state_of k2 u = state_of k u" for u using tk(1) [of u] by auto
    have "tick_pos k2"
      using parts(9) tk(5,7) gl unfolding tick_pos_def ticks_left_def by auto
    moreover have "dead_ok k2"
      by (rule dead_ok_cong [OF parts(10)]) (use wl ty st gl in \<open>auto simp: set_empty [symmetric] simp del: set_empty\<close>)
    ultimately have "kernel_inv k2" using k2 by (simp add: kernel_inv_base)
    then have "sys_inv (core_sched k2)"
      by (rule resched_inv [OF _ inv(2)]) (use gl st in simp_all)
    then show ?thesis using Some False p k2(1) by (simp add: krhino_task_pri_change_def Let_def)
  qed
qed (use assms in \<open>simp add: krhino_task_pri_change_def\<close>)

section \<open>The invariant: deletion\<close>

text \<open>
  While the mutexes of \<open>t\<close> are passed on: \<open>ms\<close> are the ones \<open>t\<close> still owns, starting at \<open>p\<close>.  Nothing
  is required of the priority and of the \<open>mutex_list\<close> field of \<open>t\<close> any more.
\<close>

definition freeing :: "tid \<Rightarrow> oid option \<Rightarrow> oid list \<Rightarrow> 'a kernel_scheme \<Rightarrow> bool" where
  "freeing t p ms k \<longleftrightarrow> base_inv k \<and> tick_pos k \<and> dead_ok k \<and> live (state_of k t) \<and>
     mutex_path (mutex_next \<circ> mutexes k) p ms \<and> distinct ms \<and> set ms = {m. owns_of k t m} \<and>
     mchain_ok (owns_of k) (mutex_next \<circ> mutexes k) (mutex_list \<circ> tasks k) ((task_state \<circ> tasks k)(t := K_DELETED)) \<and>
     (\<forall>u b. owns_of k u b \<longrightarrow> live (state_of k u) \<and> u \<notin> set (waiters k b) \<and> owner_nested (mutexes k b) \<noteq> 0) \<and>
     (\<forall>b. obj_type (objs k b) = RHINO_MUTEX_OBJ_TYPE \<longrightarrow> b \<in> set (mutex_head k)) \<and>
     (\<forall>b. obj_type (objs k b) = RHINO_MUTEX_OBJ_TYPE \<and> mutex_task (mutexes k b) = None \<longrightarrow> waiters k b = []) \<and>
     (\<forall>u. live (state_of k u) \<and> u \<noteq> t \<longrightarrow> eff_of k u (prio_of k u))"

lemma freeing_start:
  assumes "kernel_inv k" and "live (state_of k t)"
  obtains ms where "freeing t (mutex_list (tasks k t)) ms k" and "length ms \<le> length (mutex_head k)"
proof -
  note parts = kernel_invD [OF assms(1)]
  obtain ms where "mutex_path (mutex_next \<circ> mutexes k) (mutex_list (tasks k t)) ms" "distinct ms"
    "set ms = {m. owns_of k t m}" "length ms \<le> length (mutex_head k)"
    by (rule held_path [OF parts(4) assms(2)])
  moreover have "base_inv k" "tick_pos k" "dead_ok k" using assms(1) by (simp_all add: kernel_inv_base)
  moreover have "mchain_ok (owns_of k) (mutex_next \<circ> mutexes k) (mutex_list \<circ> tasks k) ((task_state \<circ> tasks k)(t := K_DELETED))"
    using parts(4) by (simp add: mtx_inv_def mtx_ok_def mchain_ok_def)
  ultimately show ?thesis
    using that parts(4,5) assms(2) by (auto simp: freeing_def mtx_inv_def mtx_ok_def pi_inv_eff)
qed

lemma freeing_free:
  assumes fr: "freeing t (Some m) (m # ms) k" and wl: "waiters k m = []"
  shows "freeing t (mutex_next (mutexes k m)) ms (upd_mutex m (\<lambda>c. c\<lparr>mutex_task := None\<rparr>) k)"
proof -
  let ?k = "upd_mutex m (\<lambda>c. c\<lparr>mutex_task := None\<rparr>) k"
  note f = fr [unfolded freeing_def]
  have own: "owns_of k t m" using f by auto
  have mt: "mutex_task \<circ> mutexes ?k = (mutex_task \<circ> mutexes k)(m := None)" "mutex_next \<circ> mutexes ?k = mutex_next \<circ> mutexes k" by simp_all
  have own': "owns_of ?k u b \<longleftrightarrow> owns_of k u b \<and> b \<noteq> m" for u b unfolding mt by (auto simp: owns_def)
  have base: "base_inv ?k"
    using f unfolding base_inv_def inv_defs ticks_left_upd idle_ok_def by (auto simp: owns_def)
  have chain: "mchain_ok (owns_of ?k) (mutex_next \<circ> mutexes ?k) (mutex_list \<circ> tasks ?k) ((task_state \<circ> tasks ?k)(t := K_DELETED))"
    unfolding mchain_ok_def mt(2)
  proof (intro allI impI)
    fix u assume u: "live (((task_state \<circ> tasks ?k)(t := K_DELETED)) u)"
    then have "u \<noteq> t" by auto
    then have "{b. owns_of ?k u b} = {b. owns_of k u b}" using own own' owns_functional [OF own, of u] by auto
    then show "\<exists>ns. mutex_path (mutex_next \<circ> mutexes k) ((mutex_list \<circ> tasks ?k) u) ns \<and> distinct ns \<and> set ns = {b. owns_of ?k u b}"
      using f u unfolding mchain_ok_def by simp
  qed
  have boost: "boosters_of ?k u = boosters_of k u" for u
    using wl unfolding boosters_of_def boosters_def own' by auto
  have set: "set ms = {b. owns_of ?k t b}" using f own' by auto
  have rest: "(\<forall>u b. owns_of ?k u b \<longrightarrow> live (state_of ?k u) \<and> u \<notin> set (waiters ?k b) \<and> owner_nested (mutexes ?k b) \<noteq> 0)"
  proof (intro allI impI)
    fix u b assume "owns_of ?k u b"
    then have "owns_of k u b" using own' by blast
    then have "live (state_of k u) \<and> u \<notin> set (waiters k b) \<and> owner_nested (mutexes k b) \<noteq> 0" using f by blast
    then show "live (state_of ?k u) \<and> u \<notin> set (waiters ?k b) \<and> owner_nested (mutexes ?k b) \<noteq> 0" by auto
  qed
  have free: "waiters ?k b = []" if "obj_type (objs ?k b) = RHINO_MUTEX_OBJ_TYPE" "mutex_task (mutexes ?k b) = None" for b
    using f that wl by (cases "b = m") auto
  have pos: "tick_pos ?k" "dead_ok ?k" using f by (simp_all add: tick_pos_def dead_ok_def)
  have path: "mutex_path (mutex_next \<circ> mutexes ?k) (mutex_next (mutexes k m)) ms" using f unfolding mt(2) by simp
  have eff: "\<forall>u. live (state_of ?k u) \<and> u \<noteq> t \<longrightarrow> eff_of ?k u (prio_of ?k u)"
    using f unfolding eff_of_def boost by simp
  show ?thesis
    unfolding freeing_def using f base pos path chain rest free set eff by auto
qed

text \<open>
  A mutex with waiters goes to the first of them; the nesting count of the old owner stays in it.
\<close>

lemma mutex_take_proj:
  "task_state \<circ> tasks (mutex_take m t k) = task_state \<circ> tasks k" "prio \<circ> tasks (mutex_take m t k) = prio \<circ> tasks k"
  "b_prio \<circ> tasks (mutex_take m t k) = b_prio \<circ> tasks k" "suspend_count \<circ> tasks (mutex_take m t k) = suspend_count \<circ> tasks k"
  "blk_obj \<circ> tasks (mutex_take m t k) = blk_obj \<circ> tasks k" "tick_head \<circ> tasks (mutex_take m t k) = tick_head \<circ> tasks k"
  "ticks_left (mutex_take m t k) = ticks_left k" "mutex_list \<circ> tasks (mutex_take m t k) = (mutex_list \<circ> tasks k)(t := Some m)"
  "mutex_next \<circ> mutexes (mutex_take m t k) = (mutex_next \<circ> mutexes k)(m := mutex_list (tasks k t))"
  "mutex_task \<circ> mutexes (mutex_take m t k) = (mutex_task \<circ> mutexes k)(m := Some t)"
  "owner_nested (mutexes (mutex_take m t k) b) = owner_nested (mutexes k b)"
  by (auto simp: mutex_take_def Let_def ticks_left_def fun_eq_iff)

lemma mutex_take_base:
  assumes "base_inv k" and "t \<noteq> g_idle_task"
  shows "base_inv (mutex_take m t k)"
proof -
  note parts = base_invD [OF assms(1)]
  have "idle_inv (mutex_take m t k)"
    using parts(4) assms(2) unfolding idle_inv_def idle_ok_def mutex_take_proj by (auto simp: owns_def)
  then show ?thesis using parts unfolding base_inv_def inv_defs mutex_take_proj by simp
qed

lemma freeing_hand:
  assumes fr: "freeing t (Some m) (m # ms) k" and wl: "waiters k m = w # ws"
  shows "freeing t (mutex_next (mutexes k m)) ms (mutex_take m w (pend_task_wakeup w k))"
proof -
  note f = fr [unfolded freeing_def]
  have inv: "base_inv k" "tick_pos k" "dead_ok k" using f by blast+
  note blk = base_invD(2) [OF inv(1)]
  have own: "owns_of k t m" using f by auto
  have w: "pending (state_of k w)" "blk_obj (tasks k w) = Some m" using waiter_pending [OF blk, of w m] wl by simp_all
  have "t \<notin> set (waiters k m)" using f own by blast
  then have ne: "w \<noteq> t" "w \<noteq> g_idle_task" using wl w idle_invD(1) [OF base_invD(4) [OF inv(1)]] by auto
  let ?k1 = "pend_task_wakeup w k" let ?k = "mutex_take m w ?k1"
  note wp = wakeup_proj [OF w(1)]
  have wl1: "waiters ?k1 b = remove1 w (waiters k b)" and ty: "obj_type (objs ?k1 b) = obj_type (objs k b)" for b
    using fun_cong [OF wp(8), of b] fun_cong [OF wp(9), of b] by simp_all
  have st: "live (state_of ?k1 u) = live (state_of k u)" and stt: "state_of ?k1 t = state_of k t" for u
    using fun_cong [OF wp(1), of u] fun_cong [OF wp(1), of t] ne by auto
  have pr: "prio_of ?k u = prio_of k u" "b_prio (tasks ?k u) = b_prio (tasks k u)" for u
    using fun_cong [OF wp(2), of u] fun_cong [OF wp(3), of u] fun_cong [OF mutex_take_proj(3), of m w ?k1 u] by simp_all
  have d: "distinct (waiters k b)" for b using blk by (simp add: blk_inv_def blk_ok_def)
  have only: "w \<in> set (waiters k b) \<longleftrightarrow> b = m" for b using waiter_pending(2) [OF blk, of w b] w(2) wl by auto
  have swl: "set (waiters ?k1 b) = (if b = m then set ws else set (waiters k b))" for b
    using only [of b] wl wl1 [of b] by (simp add: remove1_idem)
  have mty: "obj_type (objs k m) = RHINO_MUTEX_OBJ_TYPE" using own by (simp add: owns_def)
  have own': "owns_of ?k u b \<longleftrightarrow> owns_of k u b \<and> b \<noteq> m \<or> u = w \<and> b = m" for u b
    using mty fun_cong [OF wp(9), of b] unfolding mutex_take_proj wp(10) by (auto simp: owns_def)
  have base: "base_inv ?k" by (rule mutex_take_base [OF pend_task_wakeup_base [OF inv(1) w(1)] ne(2)])
  have nx: "mutex_next \<circ> mutexes ?k = (mutex_next \<circ> mutexes k)(m := mutex_list (tasks ?k1 w))"
    "mutex_list \<circ> tasks ?k = (mutex_list \<circ> tasks k)(w := Some m)"
    unfolding mutex_take_proj wp(10) wp(4) by simp_all
  have mlw: "mutex_list (tasks ?k1 w) = (mutex_list \<circ> tasks k) w" using fun_cong [OF wp(4), of w] by simp
  have chain0: "mchain_ok (\<lambda>u b. owns_of k u b \<and> b \<noteq> m) (mutex_next \<circ> mutexes k) (mutex_list \<circ> tasks k) ((task_state \<circ> tasks k)(t := K_DELETED))"
    unfolding mchain_ok_def
  proof (intro allI impI)
    fix u assume u: "live (((task_state \<circ> tasks k)(t := K_DELETED)) u)"
    then have "u \<noteq> t" by auto
    then have "{b. owns_of k u b \<and> b \<noteq> m} = {b. owns_of k u b}" using owns_functional [OF own, of u] by auto
    then show "\<exists>ns. mutex_path (mutex_next \<circ> mutexes k) ((mutex_list \<circ> tasks k) u) ns \<and> distinct ns \<and> set ns = {b. owns_of k u b \<and> b \<noteq> m}"
      using f u unfolding mchain_ok_def by simp
  qed
  have chain: "mchain_ok (owns_of ?k) (mutex_next \<circ> mutexes ?k) (mutex_list \<circ> tasks ?k) ((task_state \<circ> tasks ?k)(t := K_DELETED))"
    unfolding nx mlw
  proof (rule mchain_link [OF chain0])
    show "live (((task_state \<circ> tasks k)(t := K_DELETED)) w)" using ne w(1) pending_live by simp
    show "live (((task_state \<circ> tasks k)(t := K_DELETED)) u)" if "live (((task_state \<circ> tasks ?k)(t := K_DELETED)) u)" for u
      using that st [of u] by (simp split: if_splits)
  qed (use own' in auto)
  have rest: "live (state_of ?k u) \<and> u \<notin> set (waiters ?k b) \<and> owner_nested (mutexes ?k b) \<noteq> 0" if "owns_of ?k u b" for u b
  proof -
    have "w \<notin> set ws" using d [of m] wl by simp
    moreover have "owner_nested (mutexes k m) \<noteq> 0" using f own by blast
    moreover have "live (state_of k u) \<and> u \<notin> set (waiters k b) \<and> owner_nested (mutexes k b) \<noteq> 0" if "owns_of k u b" using f that by blast
    ultimately show ?thesis
      using that own' [of u b] st [of u] swl [of b] w(1) pending_live
      unfolding mutex_take_proj(11) wp(10) by (auto split: if_splits)
  qed
  have free: "waiters ?k b = []" if "obj_type (objs ?k b) = RHINO_MUTEX_OBJ_TYPE" "mutex_task (mutexes ?k b) = None" for b
  proof -
    have "b \<noteq> m" "mutex_task (mutexes k b) = None" using that(2) fun_cong [OF mutex_take_proj(10), of m w ?k1 b] wp(10) by (auto split: if_splits)
    then have "waiters k b = []" using f that(1) ty by simp
    then show ?thesis using wl1 by simp
  qed
  have eff: "eff_of ?k u (prio_of ?k u)" if "live (state_of ?k u)" "u \<noteq> t" for u
  proof -
    have e: "eff_of k u (prio_of k u)" using f that st [of u] by simp
    have boost: "boosters_of ?k u = {x. \<exists>b. owns_of k u b \<and> b \<noteq> m \<and> x \<in> set (waiters k b)} \<union> (if u = w then set ws else {})"
      unfolding boosters_of_def boosters_def own' by (auto simp: swl)
    have "boosters_of k u = {x. \<exists>b. owns_of k u b \<and> b \<noteq> m \<and> x \<in> set (waiters k b)}"
      using own that(2) by (auto simp: boosters_of_def boosters_def owns_def)
    moreover have "prio_of k w \<le> prio_of k x" if "x \<in> set ws" for x
      using owned_sorted [OF blk base_invD(5) [OF inv(1)] own] wl that by simp
    moreover have "prio_of ?k ` B = prio_of k ` B" for B by (rule image_cong) (simp_all only: pr)
    ultimately show ?thesis using e unfolding eff_of_def boost pr by (auto simp: least_of_def image_Un)
  qed
  have pos: "tick_pos ?k" using wakeup_pos [OF w(1) inv(2)] unfolding tick_pos_def mutex_take_proj using fun_cong [OF mutex_take_proj(6), of m w ?k1] by simp
  have dead: "dead_ok ?k" by (rule dead_ok_cong [OF inv(3)]) (use ty wl1 st in simp_all)
  have path: "mutex_path (mutex_next \<circ> mutexes ?k) (mutex_next (mutexes k m)) ms" unfolding nx using f by simp
  have set: "set ms = {b. owns_of ?k t b}" using f own' ne by auto
  have "live (state_of ?k t)" using f stt by simp
  moreover have "\<forall>b. obj_type (objs ?k b) = RHINO_MUTEX_OBJ_TYPE \<longrightarrow> b \<in> set (mutex_head ?k)" using f ty by simp
  ultimately show ?thesis
    unfolding freeing_def using base pos dead path chain rest free set eff f by simp
qed

text \<open>The loop passes every mutex on, and leaves the task that is deleted itself alone.\<close>

lemma task_mutex_free_loop_spec:
  assumes "freeing t p ms k" and "length ms \<le> n"
  shows "freeing t None [] (task_mutex_free_loop n p k) \<and> env (task_mutex_free_loop n p k) = env k \<and>
    state_of (task_mutex_free_loop n p k) t = state_of k t \<and>
    (\<forall>u. live (state_of (task_mutex_free_loop n p k) u) = live (state_of k u)) \<and>
    (\<forall>u. state_of k u = K_RDY \<longrightarrow> state_of (task_mutex_free_loop n p k) u = K_RDY)"
  using assms
proof (induction ms arbitrary: n p k)
  case Nil
  then have "p = None" by (simp add: freeing_def)
  then show ?case using Nil.prems by (cases n) auto
next
  case (Cons m ms)
  obtain n' where n: "n = Suc n'" using Cons.prems(2) by (cases n) simp_all
  have p: "p = Some m" using Cons.prems(1) by (simp add: freeing_def)
  have len: "length ms \<le> n'" using Cons.prems(2) n by simp
  show ?case
  proof (cases "waiters k m")
    case Nil
    from Cons.IH [OF freeing_free [OF Cons.prems(1) [unfolded p] Nil] len]
    show ?thesis using n p Nil by (simp add: Let_def env_def)
  next
    case wl: (Cons w ws)
    note f = Cons.prems(1) [unfolded p freeing_def]
    have w: "pending (state_of k w)" using waiter_pending(1) [OF base_invD(2), of k w m] f wl by simp
    have "owns_of k t m" using f by auto
    then have "t \<notin> set (waiters k m)" using f by blast
    then have "w \<noteq> t" using wl by auto
    have st: "state_of (pend_task_wakeup w k) u = (if u = w then woken (state_of k w) else state_of k u)" for u
      using fun_cong [OF wakeup_proj(1) [OF w], of u] by simp
    have "state_of k u = K_RDY \<longrightarrow> u \<noteq> w" for u using w by auto
    then show ?thesis
      using Cons.IH [OF freeing_hand [OF Cons.prems(1) [unfolded p] wl] len] n p wl \<open>w \<noteq> t\<close>
      by (simp add: Let_def st)
  qed
qed

lemma task_mutex_free_spec:
  assumes "kernel_inv k" and "live (state_of k t)"
  shows "freeing t None [] (task_mutex_free t k)" and "env (task_mutex_free t k) = env k"
    and "state_of (task_mutex_free t k) t = state_of k t"
    and "state_of k u = K_RDY \<Longrightarrow> state_of (task_mutex_free t k) u = K_RDY"
proof -
  obtain ms where ms: "freeing t (mutex_list (tasks k t)) ms k" "length ms \<le> length (mutex_head k)"
    by (rule freeing_start [OF assms])
  note spec = task_mutex_free_loop_spec [OF ms, folded task_mutex_free_def]
  show "freeing t None [] (task_mutex_free t k)" "env (task_mutex_free t k) = env k"
    "state_of (task_mutex_free t k) t = state_of k t"
    "state_of k u = K_RDY \<Longrightarrow> state_of (task_mutex_free t k) u = K_RDY"
    using spec by blast+
qed

text \<open>A task that is gone: off every list, its state \<open>K_DELETED\<close>.\<close>

lemma gone_base:
  assumes inv: "base_inv k" and t: "t \<noteq> g_idle_task"
    and st: "task_state \<circ> tasks k' = (task_state \<circ> tasks k)(t := K_DELETED)"
    and same: "prio \<circ> tasks k' = prio \<circ> tasks k" "b_prio \<circ> tasks k' = b_prio \<circ> tasks k"
      "suspend_count \<circ> tasks k' = suspend_count \<circ> tasks k" "blk_obj \<circ> tasks k' = blk_obj \<circ> tasks k"
    and tk: "tick_head \<circ> tasks k' = (tick_head \<circ> tasks k)(t := False)" "g_tick_head k' = remove1 t (g_tick_head k)"
      "ticks_left k' = ticks_left k"
    and wl: "blk_list \<circ> objs k' = (\<lambda>b. remove1 t (waiters k b))" "obj_type \<circ> objs k' = obj_type \<circ> objs k"
      "blk_policy \<circ> objs k' = blk_policy \<circ> objs k" "mutex_task \<circ> mutexes k' = mutex_task \<circ> mutexes k"
    and rq: "rdy_ok (g_ready_queue k') ((task_state \<circ> tasks k)(t := K_DELETED)) (prio \<circ> tasks k)"
    and glob: "env k' = env k" "k_fault k' = k_fault k"
  shows "base_inv k'"
proof -
  note parts = base_invD [OF inv] and env = glob(1) [unfolded env_frame]
  have "rdy_inv k'" using rq by (simp add: rdy_inv_def st same)
  moreover have "blk_inv k'"
    using blk_ok_rm [OF parts(2) [unfolded blk_inv_def], of K_DELETED t "prio \<circ> tasks k" "blk_obj \<circ> tasks k"]
    by (simp add: blk_inv_def st same wl)
  moreover have "tick_inv k'"
    unfolding tick_inv_def st tk by (rule tick_ok_rm [OF parts(3) [unfolded tick_inv_def]]) simp_all
  moreover have "idle_inv k'"
    using parts(4) t unfolding idle_inv_def idle_ok_def st same wl using env by auto
  moreover have "misc_inv k'"
    using parts(5) unfolding misc_inv_def susp_ok_def hdr_ok_def st same wl using env by auto
  ultimately show ?thesis using parts(6) glob(2) by (simp add: base_inv_def)
qed

text \<open>The state after the task has left its list, before the mutex it waited for is looked at.\<close>

definition left_lists :: "tid \<Rightarrow> 'a kernel_scheme \<Rightarrow> 'a kernel_scheme \<Rightarrow> bool" where
  "left_lists t k k1 \<longleftrightarrow> base_inv k1 \<and> env k1 = env k \<and> mutexes k1 = mutexes k \<and>
     task_state \<circ> tasks k1 = (task_state \<circ> tasks k)(t := K_DELETED) \<and> prio \<circ> tasks k1 = prio \<circ> tasks k \<and>
     b_prio \<circ> tasks k1 = b_prio \<circ> tasks k \<and> mutex_list \<circ> tasks k1 = mutex_list \<circ> tasks k \<and>
     blk_obj \<circ> tasks k1 = blk_obj \<circ> tasks k \<and> tick_head \<circ> tasks k1 = (tick_head \<circ> tasks k)(t := False) \<and>
     ticks_left k1 = ticks_left k \<and> obj_type \<circ> objs k1 = obj_type \<circ> objs k \<and>
     blk_list \<circ> objs k1 = (\<lambda>b. remove1 t (waiters k b))"

lemma task_leave_lists:
  assumes inv: "base_inv k" and live: "live (state_of k t)" and t: "t \<noteq> g_idle_task"
  obtains k1 where "task_leave t k = Some (if pending (state_of k t) then mutex_task_pri_reset t k1 else k1)"
    and "left_lists t k k1"
proof -
  note parts = base_invD [OF inv]
  define k0 where "k0 = (if state_of k t = K_RDY then ready_list_rm t k else k)"
  define k1 where "k1 = upd_task t (\<lambda>c. c\<lparr>task_state := K_DELETED\<rparr>) (if pending (state_of k t) then klist_rm_task t (tick_list_rm t k0)
      else if sleeping (state_of k t) then tick_list_rm t k0 else k0)"
  obtain rq where rq: "k0 = k\<lparr>g_ready_queue := rq\<rparr>" "rdy_ok rq ((task_state \<circ> tasks k)(t := K_DELETED)) (prio \<circ> tasks k)"
  proof (cases "state_of k t = K_RDY")
    case True
    show ?thesis
      by (rule ready_list_rm_rdy [OF parts(1,4) True t, of K_DELETED k]) (use that True in \<open>simp_all add: k0_def\<close>)
  next
    case False
    have "rdy_ok (g_ready_queue k) ((task_state \<circ> tasks k)(t := K_DELETED)) (prio \<circ> tasks k)"
      by (rule rdy_ok_other [OF parts(1) [unfolded rdy_inv_def]]) (use False in auto)
    then show ?thesis using that [of "g_ready_queue k"] False by (simp add: k0_def)
  qed
  have leave: "task_leave t k = Some (if pending (state_of k t) then mutex_task_pri_reset t k1 else k1)"
    using live by (cases "state_of k t") (simp_all add: task_leave_def k1_def k0_def)
  have notick: "\<not> tick_head (tasks k t)" if "\<not> pending (state_of k t)" "\<not> sleeping (state_of k t)"
    using parts(3) that by (auto simp: tick_inv_def tick_ok_def)
  have tlist: "t \<in> set (g_tick_head k) \<longleftrightarrow> tick_head (tasks k t)" using parts(3) by (simp add: tick_inv_def tick_ok_def)
  have nowait: "remove1 t (waiters k b) = waiters k b" if "\<not> pending (state_of k t)" for b
    using parts(2) that by (intro remove1_idem) (auto simp: blk_inv_def blk_ok_def)
  have proj: "task_state \<circ> tasks k1 = (task_state \<circ> tasks k)(t := K_DELETED)" "prio \<circ> tasks k1 = prio \<circ> tasks k"
    "b_prio \<circ> tasks k1 = b_prio \<circ> tasks k" "mutex_list \<circ> tasks k1 = mutex_list \<circ> tasks k"
    "blk_obj \<circ> tasks k1 = blk_obj \<circ> tasks k" "suspend_count \<circ> tasks k1 = suspend_count \<circ> tasks k"
    "ticks_left k1 = ticks_left k" "env k1 = env k" "mutexes k1 = mutexes k" "k_fault k1 = k_fault k"
    "obj_type \<circ> objs k1 = obj_type \<circ> objs k" "blk_policy \<circ> objs k1 = blk_policy \<circ> objs k" "g_ready_queue k1 = rq"
    unfolding k1_def rq(1) by (auto simp: fun_eq_iff ticks_left_def)
  have th: "tick_head \<circ> tasks k1 = (tick_head \<circ> tasks k)(t := False)"
    using notick unfolding k1_def rq(1) by (auto simp: fun_eq_iff)
  have tl: "g_tick_head k1 = remove1 t (g_tick_head k)"
    using notick tlist unfolding k1_def rq(1) by (auto simp: tick_list_rm_def remove1_idem)
  have wl: "blk_list \<circ> objs k1 = (\<lambda>b. remove1 t (waiters k b))"
    using nowait unfolding k1_def rq(1) by (auto simp: fun_eq_iff)
  have "base_inv k1"
    by (rule gone_base [OF inv t proj(1-3,6,5) th tl proj(7) wl proj(11,12)]) (use rq(2) proj in simp_all)
  then have "left_lists t k k1" unfolding left_lists_def using proj th wl by simp
  then show ?thesis using that leave by blast
qed

lemma task_leave_spec:
  assumes fr: "freeing t None [] k" and t: "t \<noteq> g_idle_task"
  obtains k2 where "task_leave t k = Some k2" and "kernel_inv (k2\<lparr>task_head := remove1 t (task_head k2)\<rparr>)"
    and "env k2 = env k" and "\<forall>u. state_of k2 u = (if u = t then K_DELETED else state_of k u)"
proof -
  note f = fr [unfolded freeing_def]
  have inv: "base_inv k" and live: "live (state_of k t)" and dead: "dead_ok k" and pos: "tick_pos k" using f by blast+
  have none: "\<not> owns_of k t b" for b using f by auto
  obtain k1 where leave: "task_leave t k = Some (if pending (state_of k t) then mutex_task_pri_reset t k1 else k1)"
    and "left_lists t k k1"
    by (rule task_leave_lists [OF inv live t])
  note ll = this(2) [unfolded left_lists_def]
  have st1: "state_of k1 u = (if u = t then K_DELETED else state_of k u)" for u using ll by (auto simp: fun_eq_iff)
  have own1: "owns_of k1 = owns_of k" using ll by simp
  have wl1: "waiters k1 b = remove1 t (waiters k b)" and ty1: "obj_type (objs k1 b) = obj_type (objs k b)" for b
    using ll by (auto simp: fun_eq_iff)
  have mtx: "mtx_inv k1"
  proof (rule mtx_invI)
    show "mchain_ok (owns_of k1) (mutex_next \<circ> mutexes k1) (mutex_list \<circ> tasks k1) (task_state \<circ> tasks k1)"
      using f ll by simp
    fix u b assume "owns_of k1 u b"
    then have o: "owns_of k u b" using own1 by metis
    then have "u \<noteq> t" using none by blast
    moreover have "live (state_of k u) \<and> u \<notin> set (waiters k b) \<and> owner_nested (mutexes k b) \<noteq> 0" using f o by blast
    ultimately show "live (state_of k1 u) \<and> u \<notin> set (waiters k1 b) \<and> owner_nested (mutexes k1 b) \<noteq> 0"
      using st1 wl1 ll by (auto dest: notin_set_remove1)
  next
    fix b assume b: "obj_type (objs k1 b) = RHINO_MUTEX_OBJ_TYPE"
    then show "b \<in> set (mutex_head k1)" using f ty1 ll by (simp add: env_def)
    show "waiters k1 b = []" if "mutex_task (mutexes k1 b) = None" using f b that ty1 wl1 ll by simp
  qed
  have old: "eff_of k v (prio_of k v)" if "live (state_of k1 v)" for v
    using f that st1 [of v] by (auto split: if_splits)
  obtain k2 where k2: "task_leave t k = Some k2" "base_inv k2" "mtx_inv k2" "prio_only k1 k2" "pi_inv k2"
  proof (cases "pending (state_of k t)")
    case False
    have nt: "t \<notin> boosters_of k v" for v using booster_pending [OF base_invD(2) [OF inv], of t v] False by blast
    have "eff_of k1 v (prio_of k1 v)" if "live (state_of k1 v)" for v
      using unwait_eff [OF base_invD(2) [OF inv], of k1 t v] old [OF that] nt ll by simp
    then show ?thesis using that [of k1] leave False mtx ll by (simp add: pi_inv_eff)
  next
    case True
    let ?k' = "upd_task t (\<lambda>c. c\<lparr>mutex_list := None\<rparr>) k"
    have "ticks_left ?k' = ticks_left k" by (auto simp: ticks_left_def fun_eq_iff)
    then have b': "base_inv ?k'" using inv unfolding base_inv_def inv_defs by simp
    have m': "mtx_inv ?k'"
    proof (rule mtx_invI)
      show "mchain_ok (owns_of ?k') (mutex_next \<circ> mutexes ?k') (mutex_list \<circ> tasks ?k') (task_state \<circ> tasks ?k')"
        unfolding mchain_ok_def
      proof (intro allI impI)
        fix u assume u: "live ((task_state \<circ> tasks ?k') u)"
        show "\<exists>ns. mutex_path (mutex_next \<circ> mutexes ?k') ((mutex_list \<circ> tasks ?k') u) ns \<and> distinct ns \<and> set ns = {b. owns_of ?k' u b}"
        proof (cases "u = t")
          case True then show ?thesis using none by (intro exI [of _ "[]"]) auto
        next
          case False then show ?thesis using f u unfolding mchain_ok_def by simp
        qed
      qed
    qed (use f in auto)
    obtain b where b: "blk_obj (tasks ?k' t) = Some b"
      and "obj_type (objs k1 b) \<noteq> RHINO_MUTEX_OBJ_TYPE \<Longrightarrow> pi_inv k1"
      and "obj_type (objs k1 b) = RHINO_MUTEX_OBJ_TYPE \<Longrightarrow> \<exists>u. mutex_task (mutexes k1 b) = Some u \<and>
        (\<forall>v. live (state_of k1 v) \<and> v \<noteq> u \<longrightarrow> eff_of k1 v (prio_of k1 v)) \<and>
        (prio_of k1 u \<noteq> prio_of k1 t \<longrightarrow> eff_of k1 u (prio_of k1 u))"
    proof (rule leave_mutex [OF b' m', of t k1])
      show "eff_of ?k' v (prio_of ?k' v)" if "live (state_of k1 v)" for v
      proof -
        have "prio_of ?k' ` B = prio_of k ` B" for B by (rule image_cong) auto
        moreover have "boosters_of ?k' = boosters_of k" by (simp add: boosters_of_def)
        ultimately show ?thesis using old [OF that] unfolding eff_of_def by auto
      qed
    qed (use True ll st1 in auto)
    moreover have "blk_obj (tasks k1 t) = Some b" using b ll by (simp add: fun_eq_iff)
    ultimately have "base_inv (mutex_task_pri_reset t k1) \<and> mtx_inv (mutex_task_pri_reset t k1) \<and>
        prio_only k1 (mutex_task_pri_reset t k1) \<and> pi_inv (mutex_task_pri_reset t k1)"
      using mutex_task_pri_reset_inv [of k1 t b] ll mtx by metis
    then show ?thesis using that [of "mutex_task_pri_reset t k1"] leave True by simp
  qed
  note tk = prio_only_tasks [OF k2(4)] and gl = prio_only_globals [OF k2(4)]
  have st2: "state_of k2 u = (if u = t then K_DELETED else state_of k u)" for u using tk(1) [of u] st1 by simp
  have env2: "env k2 = env k" using prio_only_env [OF k2(4)] ll by simp
  have th2: "task_head k2 = task_head k" using env2 by (simp add: env_def)
  let ?kf = "k2\<lparr>task_head := remove1 t (task_head k2)\<rparr>"
  have wl2: "set (waiters k2 b) \<subseteq> set (waiters k b)" and ty2: "obj_type (objs k2 b) = obj_type (objs k b)" for b
  proof -
    have "set (waiters k2 b) = set (waiters k1 b)" "obj_type (objs k2 b) = obj_type (objs k1 b)"
      using k2(4) by (simp_all add: prio_only_def fun_eq_iff)
    then show "set (waiters k2 b) \<subseteq> set (waiters k b)" "obj_type (objs k2 b) = obj_type (objs k b)"
      using wl1 ty1 set_remove1_subset by metis+
  qed
  have dist: "distinct (task_head k)" using base_invD(5) [OF inv] by (simp add: misc_inv_def hdr_ok_def)
  have "ticks_left ?kf = ticks_left k"
    using tk(7) gl ll by (auto simp: ticks_left_def fun_eq_iff)
  moreover have "ticks_left k2 = ticks_left k" using tk(7) gl ll by (auto simp: ticks_left_def fun_eq_iff)
  moreover have "tick_head (tasks k2 u) \<longrightarrow> tick_head (tasks k u)" for u
    using tk(5) [of u] ll by (auto simp: fun_eq_iff)
  ultimately have tp: "tick_pos ?kf" and tl: "ticks_left ?kf = ticks_left k2" using pos by (auto simp: tick_pos_def)
  have misc: "misc_inv ?kf"
    using base_invD(5) [OF k2(2)] st2 unfolding misc_inv_def hdr_ok_def by auto
  have "base_inv ?kf"
    using k2(2) misc unfolding base_inv_def rdy_inv_def blk_inv_def tick_inv_def idle_inv_def tl by simp
  moreover have "mtx_inv ?kf" "pi_inv ?kf" using k2(3,5) by (simp_all add: mtx_inv_def pi_inv_def)
  moreover have "dead_ok ?kf"
    unfolding dead_ok_def
  proof (intro conjI allI impI ballI)
    fix b assume "obj_type (objs ?kf b) = RHINO_OBJ_TYPE_NONE"
    then have "waiters k b = []" using dead ty2 by (simp add: dead_ok_def)
    then show "waiters ?kf b = []" using wl2 [of b] by simp
  next
    fix u assume "u \<in> set (task_head ?kf)"
    then have "u \<noteq> t" "u \<in> set (task_head k)" using dist th2 by auto
    then show "live (state_of ?kf u)" using dead st2 by (simp add: dead_ok_def)
  qed
  ultimately have "kernel_inv ?kf" using tp by (simp add: kernel_inv_base)
  then show ?thesis using that k2(1) env2 st2 by blast
qed

text \<open>Deleting a live task keeps the invariant.\<close>

lemma task_delete_inv:
  assumes "sys_inv k" and "live (state_of k t)" and "t \<noteq> g_idle_task" and "t = g_active_task k \<longrightarrow> \<not> g_sched_lock k > 0"
  obtains k2 where "task_leave t (task_mutex_free t k) = Some k2"
    and "sys_inv (core_sched (k2\<lparr>task_head := remove1 t (task_head k2)\<rparr>))"
    and "state_of k2 t = K_DELETED"
proof -
  have inv: "kernel_inv k" "sched_ok k" using assms(1) by (simp_all add: sys_inv_def)
  note free = task_mutex_free_spec [OF inv(1) assms(2)]
  obtain k2 where k2: "task_leave t (task_mutex_free t k) = Some k2" "kernel_inv (k2\<lparr>task_head := remove1 t (task_head k2)\<rparr>)"
    "env k2 = env (task_mutex_free t k)" "\<forall>u. state_of k2 u = (if u = t then K_DELETED else state_of (task_mutex_free t k) u)"
    by (rule task_leave_spec [OF free(1) assms(3)])
  have env: "g_active_task k2 = g_active_task k" "g_sched_lock k2 = g_sched_lock k" "g_intrpt_nested_level k2 = g_intrpt_nested_level k"
    using k2(3) free(2) by (simp_all add: env_def)
  have "sys_inv (core_sched (k2\<lparr>task_head := remove1 t (task_head k2)\<rparr>))"
    by (rule resched_inv [OF k2(2) inv(2)]) (use env k2(4) free(4) assms(4) in auto)
  then show ?thesis using that k2(1,4) by simp
qed

lemma task_del_inv:
  assumes "sys_inv k" and "\<And>t. task = Some t \<Longrightarrow> live (state_of k t)"
  shows "sys_inv (snd (krhino_task_del task k))"
proof (cases "g_intrpt_nested_level k > 0")
  case True
  then show ?thesis using assms(1) by (simp add: krhino_task_del_def)
next
  case nest: False
  have inv: "kernel_inv k" "sched_ok k" using assms(1) by (simp_all add: sys_inv_def)
  let ?t = "case task of None \<Rightarrow> g_active_task k | Some t \<Rightarrow> t"
  have rdy: "state_of k (g_active_task k) = K_RDY" using sched_okD(1) [OF inv(2)] nest by (simp add: word_gt_0)
  then have live: "live (state_of k ?t)" using assms(2) by (cases task) simp_all
  have masked: "sys_inv (k\<lparr>g_intrpt_masked := True\<rparr>)"
    by (rule sys_inv_cong [OF _ inv(2)]) (use inv(1) inv_view(10) [OF view_upd(11)] in \<open>blast, simp_all\<close>)
  show ?thesis
  proof (cases "prio_of k ?t = RHINO_IDLE_PRI \<or> mm_alloc_flag (tasks k ?t) \<noteq> K_OBJ_STATIC_ALLOC \<or> (?t = g_active_task k \<and> g_sched_lock k > 0)")
    case True
    then show ?thesis using nest assms(1) masked by (auto simp: krhino_task_del_def Let_def)
  next
    case False
    then have idle: "?t \<noteq> g_idle_task" using idle_invD(2) [OF kernel_invD(6) [OF inv(1)]] by auto
    have lock: "?t = g_active_task k \<longrightarrow> \<not> g_sched_lock k > 0" using False by blast
    obtain k2 where "task_leave ?t (task_mutex_free ?t k) = Some k2"
      "sys_inv (core_sched (k2\<lparr>task_head := remove1 ?t (task_head k2)\<rparr>))" "state_of k2 ?t = K_DELETED"
      by (rule task_delete_inv [OF assms(1) live idle lock])
    then show ?thesis using nest False assms(1) by (auto simp: krhino_task_del_def Let_def)
  qed
qed

text \<open>
  \<open>krhino_task_dyn_del\<close> gives the semaphore of the freeing task while the scheduler is locked, so the
  caller goes on.  The lock count is at most 200 (\<open>krhino_sched_disable\<close>), so counting up once more
  does not wrap around.
\<close>

lemma sched_lock_inv:
  assumes "sys_inv k" and "g_intrpt_nested_level k = 0" and "lock > 0"
  shows "sys_inv (k\<lparr>g_sched_lock := lock, g_res_list := rs\<rparr>)"
proof -
  have inv: "kernel_inv k" "sched_ok k" using assms(1) by (simp_all add: sys_inv_def)
  have "kernel_inv (k\<lparr>g_sched_lock := lock, g_res_list := rs\<rparr>)"
    using inv(1) inv_view(10) [OF view_upd(2)] inv_view(10) [OF view_upd(9)] by blast
  then show ?thesis
    using sched_okD(1) [OF inv(2) assms(2)] assms(3) by (auto simp: sys_inv_def sched_ok_def)
qed

lemma sem_give_error: "fst (sem_give s wake_all k) \<noteq> RHINO_SUCCESS \<Longrightarrow> snd (sem_give s wake_all k) = k"
  by (cases "obj_type (objs k s) = RHINO_SEM_OBJ_TYPE"; cases "waiters k s"; cases "sem_count (sems k s) = - 1")
    (simp_all add: sem_give_def del: upd_sem_def)

lemma sem_give_locked:
  assumes "sys_inv k" and "g_sched_lock k > 0" and "g_intrpt_nested_level k = 0"
  shows "sys_inv (snd (sem_give s False k))" "g_active_task (snd (sem_give s False k)) = g_active_task k"
    "g_sched_lock (snd (sem_give s False k)) = g_sched_lock k" "g_intrpt_nested_level (snd (sem_give s False k)) = g_intrpt_nested_level k"
    "live (state_of (snd (sem_give s False k)) t) = live (state_of k t)"
    "task_head (snd (sem_give s False k)) = task_head k" "g_res_list (snd (sem_give s False k)) = g_res_list k"
    "kernel.more (snd (sem_give s False k)) = kernel.more k"
proof -
  show "sys_inv (snd (sem_give s False k))" by (rule sem_give_inv [OF assms(1)])
  have lock: "core_sched k' = k'" if "g_sched_lock k' = g_sched_lock k" for k' :: "'a kernel_scheme"
    using that assms(2) by (simp add: core_sched_def)
  have env: "env (snd (sem_give s False k)) = env k \<or> (\<exists>f. snd (sem_give s False k) = upd_sem s f k)"
    using lock by (auto simp: sem_give_def split: list.split simp del: upd_sem_def)
  then show "g_active_task (snd (sem_give s False k)) = g_active_task k" "task_head (snd (sem_give s False k)) = task_head k"
    "g_res_list (snd (sem_give s False k)) = g_res_list k" "kernel.more (snd (sem_give s False k)) = kernel.more k"
    "g_sched_lock (snd (sem_give s False k)) = g_sched_lock k" "g_intrpt_nested_level (snd (sem_give s False k)) = g_intrpt_nested_level k"
    by (auto simp: env_def)
  have "live (state_of (pend_task_wakeup w k) t) = live (state_of k t)" if "w \<in> set (waiters k s)" for w
  proof -
    have "pending (state_of k w)" using waiter_pending(1) [of k w s] assms(1) that kernel_invD(2) by (auto simp: sys_inv_def)
    then show ?thesis using fun_cong [OF wakeup_proj(1), of k w t] by auto
  qed
  then show "live (state_of (snd (sem_give s False k)) t) = live (state_of k t)"
    using lock by (auto simp: sem_give_def split: list.split)
qed

lemma task_dyn_del_success:
  assumes "sys_inv k" and "live (state_of k t)" and "g_sched_lock k \<le> 200" and nest0: "g_intrpt_nested_level k = 0"
    and t: "t = (case task of None \<Rightarrow> g_active_task k | Some t \<Rightarrow> t)"
    and ok: "\<not> (prio_of k t = RHINO_IDLE_PRI \<or> mm_alloc_flag (tasks k t) \<noteq> K_OBJ_DYN_ALLOC \<or> (t = g_active_task k \<and> g_sched_lock k > 0))"
    and give: "fst (sem_give g_res_sem False (k\<lparr>g_sched_lock := g_sched_lock k + 1, g_res_list := g_res_list k @ [t]\<rparr>)) = RHINO_SUCCESS"
  obtains k' where "krhino_task_dyn_del task k = (RHINO_SUCCESS, k')" and "sys_inv k'" and "state_of k' t = K_DELETED"
    and "task_head k' = remove1 t (task_head k)" and "g_res_list k' = g_res_list k @ [t]" and "kernel.more k' = kernel.more k"
proof -
  have inv: "kernel_inv k" "sched_ok k" using assms(1) by (simp_all add: sys_inv_def)
  have idle: "t \<noteq> g_idle_task" using idle_invD(2) [OF kernel_invD(6) [OF inv(1)]] ok by auto
  let ?l = "g_sched_lock k + 1" let ?k1 = "k\<lparr>g_sched_lock := ?l, g_res_list := g_res_list k @ [t]\<rparr>"
  have minus: "(- 1 :: u8) = 255" by simp
  have "\<not> (- 1 :: u8) \<le> 200" unfolding minus by simp
  then have "g_sched_lock k \<noteq> - 1" using assms(3) by auto
  then have l: "?l > 0" by (metis add_eq_0_iff2 word_gt_0)
  note g = sem_give_locked [OF sched_lock_inv [OF assms(1) nest0 l, of "g_res_list k @ [t]"], of g_res_sem, simplified]
  let ?k2 = "snd (sem_give g_res_sem False ?k1)" let ?k3 = "?k2\<lparr>g_sched_lock := g_sched_lock ?k2 - 1\<rparr>"
  have act: "g_active_task ?k3 = g_active_task k" "g_sched_lock ?k3 = g_sched_lock k" "g_intrpt_nested_level ?k3 = 0"
    "task_head ?k3 = task_head k" "g_res_list ?k3 = g_res_list k @ [t]" "kernel.more ?k3 = kernel.more k"
    using g l nest0 by simp_all
  have k3: "kernel_inv ?k3" using g(1) l nest0 inv_view(10) [OF view_upd(2)] by (auto simp: sys_inv_def)
  have rdy3: "state_of ?k3 (g_active_task k) = K_RDY" using g(1,2,4) l nest0 sched_okD(1) [of ?k2] by (simp add: sys_inv_def)
  have live3: "live (state_of ?k3 t)" using g(5) l nest0 assms(2) by simp
  note free = task_mutex_free_spec [OF k3 live3]
  obtain k5 where k5: "task_leave t (task_mutex_free t ?k3) = Some k5" "kernel_inv (k5\<lparr>task_head := remove1 t (task_head k5)\<rparr>)"
    "env k5 = env (task_mutex_free t ?k3)" "\<forall>u. state_of k5 u = (if u = t then K_DELETED else state_of (task_mutex_free t ?k3) u)"
    by (rule task_leave_spec [OF free(1) idle])
  have env: "g_active_task k5 = g_active_task k" "g_sched_lock k5 = g_sched_lock k" "g_intrpt_nested_level k5 = 0"
    "task_head k5 = task_head k" "g_res_list k5 = g_res_list k @ [t]" "kernel.more k5 = kernel.more k"
    using k5(3) free(2) act by (simp_all add: env_def)
  let ?k' = "core_sched (k5\<lparr>task_head := remove1 t (task_head k5)\<rparr>)"
  have "sys_inv ?k'" by (rule sched_exit [OF k5(2)]) (use env k5(4) free(4) [OF rdy3] ok in auto)
  moreover have "krhino_task_dyn_del task k = (RHINO_SUCCESS, ?k')"
    using nest0 give ok assms(2) k5(1) by (auto simp: krhino_task_dyn_del_def krhino_sem_give_def Let_def split_beta simp flip: t)
  ultimately show ?thesis using that k5(4) env by simp
qed

lemma task_dyn_del_inv:
  assumes "sys_inv k" and "\<And>t. task = Some t \<Longrightarrow> live (state_of k t)" and "g_sched_lock k \<le> 200"
  shows "sys_inv (snd (krhino_task_dyn_del task k))"
proof (cases "g_intrpt_nested_level k > 0")
  case True
  then show ?thesis using assms(1) by (simp add: krhino_task_dyn_del_def)
next
  case nest: False
  then have nest0: "g_intrpt_nested_level k = 0" by (simp add: word_gt_0)
  have inv: "kernel_inv k" "sched_ok k" using assms(1) by (simp_all add: sys_inv_def)
  define t where "t = (case task of None \<Rightarrow> g_active_task k | Some t \<Rightarrow> t)"
  have rdy: "state_of k (g_active_task k) = K_RDY" using sched_okD(1) [OF inv(2) nest0] .
  then have live: "live (state_of k t)" using assms(2) by (cases task) (simp_all add: t_def)
  show ?thesis
  proof (cases "prio_of k t = RHINO_IDLE_PRI \<or> mm_alloc_flag (tasks k t) \<noteq> K_OBJ_DYN_ALLOC \<or> (t = g_active_task k \<and> g_sched_lock k > 0)")
    case True
    then show ?thesis using nest assms(1) live by (auto simp: krhino_task_dyn_del_def Let_def simp flip: t_def)
  next
    case ok: False
    let ?k1 = "k\<lparr>g_sched_lock := g_sched_lock k + 1, g_res_list := g_res_list k @ [t]\<rparr>"
    show ?thesis
    proof (cases "fst (sem_give g_res_sem False ?k1) = RHINO_SUCCESS")
      case False
      then have "snd (sem_give g_res_sem False ?k1) = ?k1" by (rule sem_give_error)
      moreover have "kernel_inv (k\<lparr>g_res_list := rs, g_err := e\<rparr>)" for rs e
        using inv(1) inv_view(10) [OF view_upd(8)] inv_view(10) [OF view_upd(9)] by blast
      then have "sys_inv (k\<lparr>g_res_list := rs, g_err := e\<rparr>)" for rs e
        by (rule sys_inv_cong [OF _ inv(2)]) simp_all
      ultimately show ?thesis
        using nest False ok live
        by (auto simp: krhino_task_dyn_del_def krhino_sem_give_def Let_def split_beta simp flip: t_def)
    next
      case True
      obtain k' where "krhino_task_dyn_del task k = (RHINO_SUCCESS, k')" "sys_inv k'" by (rule task_dyn_del_success [OF assms(1) live assms(3) nest0 t_def ok True])
      then show ?thesis by simp
    qed
  qed
qed

end
