(* ===== verification/Idle_State.thy ===== *)
theory Idle_State
  imports Task
begin

text \<open>
  A concrete state of a running system, in which only the idle task exists, and states reached from
  it by calls of the kernel.  They show that the invariant is satisfiable and serve as concrete inputs.
\<close>

definition obj_zero :: blk_obj_t where
  "obj_zero = \<lparr>blk_list = [], obj_name = [], blk_policy = BLK_POLICY_PRI, obj_type = RHINO_OBJ_TYPE_NONE\<rparr>"

definition idle_kernel :: kernel where
  "idle_kernel =
     \<lparr>g_sys_stat = RHINO_RUNNING, g_idle_task_spawned = True,
      g_ready_queue = \<lparr>cur_list = (\<lambda>_. [])(61 := [0]), task_bit_map = [0, 4], highest_pri = 61\<rparr>,
      g_sched_lock = 0, g_intrpt_nested_level = 0, g_preferred_ready_task = 0, g_active_task = 0,
      g_tick_count = 0, g_tick_head = [], g_sys_time_tick = 0, task_head = [0], mutex_head = [], sem_head = [],
      tasks = (\<lambda>_. ktask_zero)(0 := ktask_zero\<lparr>task_state := K_RDY, prio := 61, b_prio := 61, mm_alloc_flag := 1\<rparr>),
      objs = (\<lambda>_. obj_zero),
      sems = (\<lambda>_. \<lparr>sem_count = 0, peak_count = 0, sem_alloc_flag = 0\<rparr>),
      mutexes = (\<lambda>_. \<lparr>mutex_task = None, mutex_next = None, owner_nested = 0, mutex_alloc_flag = 0\<rparr>),
      g_res_list = [], mm_freed = [], g_err = [], k_fault = False, g_intrpt_masked = False\<rparr>"

lemma idle_bitmap: "bitmap_test [0, 4] p \<longleftrightarrow> p = 61"
proof -
  have "[0, 4 :: u32] = krhino_bitmap_set [0, 0] 61" by (simp add: krhino_bitmap_set_def BITMAP_WORD_def BITMAP_MASK_def push_bit_eq_mult)
  then have "bitmap_test [0, 4] p \<longleftrightarrow> p = 61 \<or> bitmap_test [0, 0] p" by (simp only: bitmap_test_set length_Cons list.size)
  moreover have "\<not> bitmap_test [0, 0] p" by (auto simp: bitmap_test_def nth_Cons split: nat.split)
  ultimately show ?thesis by simp
qed

lemma idle_kernel_inv: "sys_inv idle_kernel"
proof -
  have "rq_wf (g_ready_queue idle_kernel)" by (auto simp: rq_wf_def idle_kernel_def idle_bitmap)
  then have "rdy_inv idle_kernel" by (auto simp: rdy_inv_def rdy_ok_def idle_kernel_def ktask_zero_def)
  moreover have "blk_inv idle_kernel" "tick_inv idle_kernel" "mtx_inv idle_kernel" "pi_inv idle_kernel" "idle_inv idle_kernel"
    "misc_inv idle_kernel" "tick_pos idle_kernel" "dead_ok idle_kernel" "\<not> k_fault idle_kernel"
    by (auto simp: inv_defs blk_ok_def tick_ok_def mtx_ok_def mchain_ok_def owns_def pi_ok_def eff_def boosters_def least_of_def
        idle_ok_def susp_ok_def hdr_ok_def tick_pos_def dead_ok_def g_idle_task_def
        idle_kernel_def ktask_zero_def obj_zero_def split: if_splits)
  moreover have "sched_ok idle_kernel" by (simp add: sched_ok_def best_def idle_kernel_def ktask_zero_def)
  ultimately show ?thesis by (simp add: sys_inv_def kernel_inv_def)
qed

text \<open>A second task, address 1 and priority 10; it runs as soon as it has been created.\<close>

definition task_kernel :: kernel where
  "task_kernel = snd (krhino_task_create id (Some 1) (Some ''main'') 10 False 64 False 1 idle_kernel)"

lemma task_kernel_inv: "sys_inv task_kernel"
  unfolding task_kernel_def krhino_task_create_def
  by (rule task_create_inv [OF idle_kernel_inv]) (simp_all add: idle_kernel_def ktask_zero_def)

lemma task_kernel_facts [simp]:
  "g_active_task task_kernel = 1" "g_intrpt_nested_level task_kernel = 0" "g_sched_lock task_kernel = 0"
  "g_sys_stat task_kernel = RHINO_RUNNING" "state_of task_kernel 1 = K_RDY" "obj_type (objs task_kernel b) = RHINO_OBJ_TYPE_NONE"
  "prio_of task_kernel 1 = 10" "state_of task_kernel 2 = K_SEED" "waiters task_kernel b = []" "mm_alloc_flag (tasks task_kernel 1) = 1"
  by (simp_all add: task_kernel_def krhino_task_create_def task_create_def idle_kernel_def ktask_new_def ktask_zero_def obj_zero_def
      ready_list_add_tail_def rq_add_tail_def is_ready_list_empty_def ready_list_init_def core_sched_def
      preferred_cpu_ready_task_get_def Let_def)

end
