(* ===== verification/Kernel_Steps.thy ===== *)
theory Kernel_Steps
  imports Idle_State
begin

text \<open>
  The kernel as a state machine.  A step is one call of the kernel's interface by the running task or
  by an interrupt handler; critical sections make each call atomic.  \<open>call_ok\<close> is what the caller has
  to respect: objects and tasks are created at unused addresses, deleted and re-prioritised tasks
  exist, the idle task does not block, the tick runs inside an interrupt, and interrupt exits match
  interrupt entries.  Every state reachable by such steps satisfies \<open>sys_inv\<close>.
\<close>

section \<open>State machines\<close>

text \<open>The states reachable by the steps of a machine, and invariants of them.\<close>

locale machine =
  fixes start :: "'s \<Rightarrow> bool" and step :: "'s \<Rightarrow> 's \<Rightarrow> bool" and inv :: "'s \<Rightarrow> bool"
  assumes start_inv: "start s \<Longrightarrow> inv s"
    and step_inv: "inv s \<Longrightarrow> step s s' \<Longrightarrow> inv s'"
begin

lemma steps_inv: "step\<^sup>*\<^sup>* s s' \<Longrightarrow> inv s \<Longrightarrow> inv s'"
  by (induction rule: rtranclp_induct) (auto intro: step_inv)

lemma reachable_inv: "start s \<Longrightarrow> step\<^sup>*\<^sup>* s s' \<Longrightarrow> inv s'"
  using steps_inv start_inv by blast

end

section \<open>Calls\<close>

datatype kcall =
    Sem_create oid string u32 | Sem_del oid | Sem_give oid | Sem_give_all oid | Sem_take oid u32 | Sem_count_set oid u32
  | Mutex_create oid string | Mutex_del oid | Mutex_lock oid u32 | Mutex_unlock oid
  | Task_create tid string nat nat u8 | Task_sleep u32 | Task_yield | Task_suspend tid | Task_resume tid
  | Task_pri_change tid nat | Task_del "tid option" | Task_dyn_del "tid option" | Task_info_set tid nat u32
  | Sched_disable | Sched_enable | Intrpt_enter | Intrpt_exit | Tick_proc | Blk_return

fun kexec :: "(u32 list \<Rightarrow> u32 list) \<Rightarrow> kcall \<Rightarrow> 'a kernel_scheme \<Rightarrow> 'a kernel_scheme" where
  "kexec f (Sem_create s nm n) k = snd (krhino_sem_create (Some s) (Some nm) n k)"
| "kexec f (Sem_del s) k = snd (krhino_sem_del (Some s) k)"
| "kexec f (Sem_give s) k = snd (krhino_sem_give (Some s) k)"
| "kexec f (Sem_give_all s) k = snd (krhino_sem_give_all (Some s) k)"
| "kexec f (Sem_take s n) k = snd (krhino_sem_take (Some s) n k)"
| "kexec f (Sem_count_set s n) k = snd (krhino_sem_count_set (Some s) n k)"
| "kexec f (Mutex_create m nm) k = snd (krhino_mutex_create (Some m) (Some nm) k)"
| "kexec f (Mutex_del m) k = snd (krhino_mutex_del (Some m) k)"
| "kexec f (Mutex_lock m n) k = snd (krhino_mutex_lock (Some m) n k)"
| "kexec f (Mutex_unlock m) k = snd (krhino_mutex_unlock (Some m) k)"
| "kexec f (Task_create t nm pri sz run) k = snd (krhino_task_create f (Some t) (Some nm) pri False sz False run k)"
| "kexec f (Task_sleep n) k = snd (krhino_task_sleep n k)"
| "kexec f Task_yield k = snd (krhino_task_yield k)"
| "kexec f (Task_suspend t) k = snd (krhino_task_suspend (Some t) k)"
| "kexec f (Task_resume t) k = snd (krhino_task_resume (Some t) k)"
| "kexec f (Task_pri_change t p) k = snd (snd (krhino_task_pri_change (Some t) p False k))"
| "kexec f (Task_del t) k = snd (krhino_task_del t k)"
| "kexec f (Task_dyn_del t) k = snd (krhino_task_dyn_del t k)"
| "kexec f (Task_info_set t i v) k = snd (krhino_task_info_set (Some t) i v k)"
| "kexec f Sched_disable k = snd (krhino_sched_disable k)"
| "kexec f Sched_enable k = snd (krhino_sched_enable k)"
| "kexec f Intrpt_enter k = snd (krhino_intrpt_enter k)"
| "kexec f Intrpt_exit k = krhino_intrpt_exit k"
| "kexec f Tick_proc k = krhino_tick_proc k"
| "kexec f Blk_return k = snd (blk_call_return k)"

definition exists_task :: "'a kernel_scheme \<Rightarrow> tid option \<Rightarrow> bool" where
  "exists_task k task \<longleftrightarrow> (case task of None \<Rightarrow> True | Some t \<Rightarrow> live (state_of k t))"

fun call_ok :: "kcall \<Rightarrow> 'a kernel_scheme \<Rightarrow> bool" where
  "call_ok (Sem_create s nm n) k = (obj_type (objs k s) = RHINO_OBJ_TYPE_NONE)"
| "call_ok (Sem_take s n) k = (g_active_task k \<noteq> g_idle_task)"
| "call_ok (Mutex_create m nm) k = (obj_type (objs k m) = RHINO_OBJ_TYPE_NONE)"
| "call_ok (Mutex_lock m n) k = (g_active_task k \<noteq> g_idle_task)"
| "call_ok (Task_create t nm pri sz run) k = (\<not> live (state_of k t) \<and> g_sys_stat k = RHINO_RUNNING)"
| "call_ok (Task_sleep n) k = (g_active_task k \<noteq> g_idle_task)"
| "call_ok Task_yield k = (g_intrpt_nested_level k = 0)"
| "call_ok (Task_pri_change t p) k = (live (state_of k t) \<or> state_of k t = K_DELETED)"
| "call_ok (Task_del t) k = exists_task k t"
| "call_ok (Task_dyn_del t) k = (exists_task k t \<and> g_sched_lock k \<le> 200)"
| "call_ok Intrpt_exit k = (g_intrpt_nested_level k > 0)"
| "call_ok Tick_proc k = (g_intrpt_nested_level k > 0)"
| "call_ok c k = True"

inductive kstep :: "(u32 list \<Rightarrow> u32 list) \<Rightarrow> kernel \<Rightarrow> kernel \<Rightarrow> bool" for f where
  call: "call_ok c k \<Longrightarrow> kstep f k (kexec f c k)"

inductive_cases kstepE: "kstep f k k'"

section \<open>The calls keep the invariant\<close>

lemma sem_create_inv:
  assumes "sys_inv k" and "\<And>s. sem = Some s \<Longrightarrow> obj_type (objs k s) = RHINO_OBJ_TYPE_NONE"
  shows "sys_inv (snd (sem_create sem name count mm_alloc k))"
proof (cases "\<exists>s nm. sem = Some s \<and> name = Some nm")
  case True
  then obtain s nm where s: "sem = Some s" "name = Some nm" by blast
  have ty: "obj_type (objs k s) = RHINO_OBJ_TYPE_NONE" using assms(2) s(1) by simp
  note parts = kernel_invD [of k]
  let ?k = "snd (sem_create sem name count mm_alloc k)"
  have inv: "kernel_inv k" "sched_ok k" using assms(1) by (simp_all add: sys_inv_def)
  have wl: "waiters k s = []" using parts(10) [OF inv(1)] ty by (simp add: dead_ok_def)
  have own: "owns_of ?k = owns_of k" using ty s by (auto simp: sem_create_def Let_def owns_def fun_eq_iff)
  have tl: "ticks_left ?k = ticks_left k" using s by (auto simp: sem_create_def Let_def ticks_left_def fun_eq_iff)
  have wls: "blk_list \<circ> objs ?k = blk_list \<circ> objs k" using s wl by (auto simp: sem_create_def Let_def fun_eq_iff)
  have boost: "boosters_of ?k u = boosters_of k u" for u
    unfolding boosters_of_def boosters_def own wls ..
  have "blk_inv ?k"
    using parts(2) [OF inv(1)] wl s unfolding blk_inv_def wls blk_ok_def by (auto simp: sem_create_def Let_def)
  moreover have "mtx_inv ?k"
    using parts(4) [OF inv(1)] s unfolding mtx_inv_def wls mtx_ok_def own by (auto simp: sem_create_def Let_def)
  moreover have "pi_inv ?k"
    by (rule pi_inv_cong [OF parts(5) [OF inv(1)]])
      (use s boost in \<open>simp_all add: sem_create_def Let_def\<close>)
  moreover have "idle_inv ?k" using parts(6) [OF inv(1)] own s unfolding idle_inv_def idle_ok_def by (simp add: sem_create_def Let_def)
  moreover have "misc_inv ?k" using parts(7) [OF inv(1)] wl s by (auto simp: misc_inv_def hdr_ok_def sem_create_def Let_def)
  moreover have "tick_pos ?k" "dead_ok ?k" "rdy_inv ?k" "tick_inv ?k" "\<not> k_fault ?k"
    using parts(1,3,8,9,10) [OF inv(1)] s tl wl
    by (simp_all add: tick_pos_def dead_ok_def rdy_inv_def tick_inv_def sem_create_def Let_def)
  ultimately have "kernel_inv ?k" by (simp add: kernel_inv_def)
  then show ?thesis by (rule sys_inv_cong [OF _ inv(2)]) (use s in \<open>simp_all add: sem_create_def Let_def\<close>)
next
  case False
  then show ?thesis using assms(1) by (auto simp: sem_create_def split: option.split)
qed

lemma kernel_inv_upd [simp]:
  "kernel_inv (k\<lparr>g_sched_lock := n\<rparr>) = kernel_inv k" "kernel_inv (k\<lparr>g_intrpt_nested_level := n\<rparr>) = kernel_inv k"
  "kernel_inv (k\<lparr>g_err := e\<rparr>) = kernel_inv k" "kernel_inv (k\<lparr>mm_freed := ms\<rparr>) = kernel_inv k"
  "kernel_inv (k\<lparr>g_intrpt_masked := b\<rparr>) = kernel_inv k"
  by (rule inv_view(10), simp)+

lemma sched_disable_inv:
  assumes "sys_inv k"
  shows "sys_inv (snd (krhino_sched_disable k))"
proof -
  have "g_sched_lock k + 1 > 0" if "\<not> 200 \<le> g_sched_lock k"
    using that by (simp add: word_less_nat_alt word_le_nat_alt unat_word_ariths)
  then show ?thesis using assms by (auto simp: krhino_sched_disable_def sys_inv_def sched_ok_def word_gt_0)
qed

lemma sched_enable_inv:
  assumes "sys_inv k"
  shows "sys_inv (snd (krhino_sched_enable k))"
proof -
  have "sys_inv (core_sched (k\<lparr>g_sched_lock := 0\<rparr>))"
    using assms by (intro sched_exit) (simp_all add: sys_inv_def)
  then show ?thesis
    using assms by (auto simp: krhino_sched_enable_def Let_def word_gt_0 sys_inv_def sched_ok_def)
qed

lemma intrpt_enter_inv:
  assumes "sys_inv k"
  shows "sys_inv (snd (krhino_intrpt_enter k))"
proof -
  have "g_intrpt_nested_level k + 1 \<noteq> 0" if "\<not> 188 \<le> g_intrpt_nested_level k"
    using that by (simp add: word_le_nat_alt unat_word_ariths flip: unat_eq_0)
  then show ?thesis
    using assms by (auto simp: krhino_intrpt_enter_def sys_inv_def sched_ok_def best_def)
qed

text \<open>Leaving the outermost interrupt reschedules as leaving a critical section does.\<close>

lemma intrpt_exit_core_sched:
  "g_intrpt_nested_level k > 0 \<Longrightarrow>
   krhino_intrpt_exit k = core_sched (k\<lparr>g_intrpt_nested_level := g_intrpt_nested_level k - 1\<rparr>)"
  by (auto simp: krhino_intrpt_exit_def core_sched_def Let_def)

lemma intrpt_exit_inv:
  assumes "sys_inv k" and "g_intrpt_nested_level k > 0"
  shows "sys_inv (krhino_intrpt_exit k)"
  unfolding intrpt_exit_core_sched [OF assms(2)]
  by (rule sched_exit) (use assms in \<open>simp_all add: sys_inv_def sched_ok_def\<close>)

lemma tick_proc_inv:
  assumes "sys_inv k" and "g_intrpt_nested_level k > 0"
  shows "sys_inv (krhino_tick_proc k)"
proof -
  have inv: "kernel_inv k" "sched_ok k" using assms(1) by (simp_all add: sys_inv_def)
  note fr = tick_list_update_frame(1) [OF inv(1), unfolded env_def]
  have "state_of (tick_list_update k) t = K_RDY" if "state_of k t = K_RDY" for t
    using tick_list_update_task(1) [OF inv(1), of t] kernel_invD(3) [OF inv(1)] that
    by (force simp: tick_inv_def tick_ok_def)
  then show ?thesis
    using tick_list_update_spec(1) [OF inv(1)] inv(2) assms(2) fr
    by (auto simp: krhino_tick_proc_def sys_inv_def sched_ok_def)
qed

lemma sys_inv_err [simp]: "sys_inv (k\<lparr>g_err := e\<rparr>) = sys_inv k"
  by (simp add: sys_inv_def sched_ok_def best_def)

lemma sys_inv_masked [simp]: "sys_inv (k\<lparr>g_intrpt_masked := b\<rparr>) = sys_inv k"
  by (simp add: sys_inv_def sched_ok_def best_def)

lemma blk_return_inv: "sys_inv k \<Longrightarrow> sys_inv (snd (blk_call_return k))"
  by (simp add: blk_call_return_def pend_state_end_proc_def split: blk_state_t.split)

lemma task_info_inv:
  assumes "sys_inv k"
  shows "sys_inv (snd (krhino_task_info_set task i v k))"
proof -
  have "view (upd_task t (\<lambda>c. c\<lparr>user_info := x\<rparr>) k) = view k" for t x
    by (simp add: view_def ticks_left_def fun_eq_iff)
  then have "kernel_inv (upd_task t (\<lambda>c. c\<lparr>user_info := f c\<rparr>) k)" for t f
    using assms inv_view(10) [of "upd_task t (\<lambda>c. c\<lparr>user_info := f (tasks k t)\<rparr>) k" k] by (simp add: sys_inv_def)
  then have "sys_inv (upd_task t (\<lambda>c. c\<lparr>user_info := f c\<rparr>) k)" for t f
    by (rule sys_inv_cong [where k = k]) (use assms in \<open>auto simp: sys_inv_def\<close>)
  then show ?thesis using assms by (auto simp: krhino_task_info_set_def split: option.split)
qed

lemma suspend_call_inv:
  assumes "sys_inv k"
  shows "sys_inv (snd (krhino_task_suspend task k))"
proof (cases task)
  case (Some t)
  have "t \<noteq> g_idle_task" if "prio_of k t \<noteq> RHINO_IDLE_PRI"
    using that idle_invD(2) [OF kernel_invD(6), of k] assms by (auto simp: sys_inv_def)
  then show ?thesis using Some task_suspend_inv [OF assms, of t] assms by (simp add: krhino_task_suspend_def)
qed (use assms in \<open>simp add: krhino_task_suspend_def\<close>)

lemma sem_del_inv: "sys_inv k \<Longrightarrow> sys_inv (snd (krhino_sem_del (Some s) k))"
  using sem_delete_inv(1) [of k s] by (simp add: krhino_sem_del_def)

lemma mutex_del_inv: "sys_inv k \<Longrightarrow> sys_inv (snd (krhino_mutex_del (Some m) k))"
  using mutex_delete_inv(1) [of k m] by (simp add: krhino_mutex_del_def)

text \<open>Every legal call keeps the invariant.\<close>

lemma kexec_inv:
  assumes "sys_inv k" and "call_ok c k"
  shows "sys_inv (kexec f c k)"
proof (cases c)
  case (Task_create t nm pri sz run)
  then show ?thesis
    using task_create_inv [OF assms(1), of "Some t"] assms(2) by (simp add: krhino_task_create_def)
next
  case (Task_del t)
  then show ?thesis using assms(2) by (auto simp: exists_task_def intro: task_del_inv [OF assms(1)])
next
  case (Task_dyn_del t)
  then show ?thesis using assms(2) by (auto simp: exists_task_def intro: task_dyn_del_inv [OF assms(1)])
next
  case (Task_resume t)
  then show ?thesis using task_resume_inv [OF assms(1)] by (simp add: krhino_task_resume_def)
next
  case (Sem_create s nm n)
  then show ?thesis using sem_create_inv [OF assms(1), of "Some s"] assms(2) by (simp add: krhino_sem_create_def)
next
  case (Mutex_create m nm)
  then show ?thesis using mutex_create_inv [OF assms(1), of "Some m"] assms(2) by (simp add: krhino_mutex_create_def)
next
  case (Task_pri_change t p)
  then show ?thesis using task_pri_change_inv [OF assms(1), of "Some t"] assms(2) by simp
next
  case (Sem_give s)
  then show ?thesis using sem_give_inv [OF assms(1)] by (simp add: krhino_sem_give_def)
next
  case (Sem_give_all s)
  then show ?thesis using sem_give_inv [OF assms(1)] by (simp add: krhino_sem_give_all_def)
qed (use assms in \<open>simp_all add: sem_del_inv sem_take_inv sem_count_set_inv
      mutex_del_inv mutex_lock_inv mutex_unlock_inv sleep_call_inv task_yield_inv
      suspend_call_inv task_info_inv sched_disable_inv sched_enable_inv intrpt_enter_inv
      intrpt_exit_inv tick_proc_inv blk_return_inv\<close>)

interpretation rhino: machine "\<lambda>k. k = idle_kernel" "kstep f" sys_inv
  by unfold_locales (auto simp: idle_kernel_inv elim!: kstepE intro: kexec_inv)

end
