(* ===== verification/Kernel_Theorems.thy ===== *)
theory Kernel_Theorems
  imports Kernel_Steps
begin

text \<open>
  What the kernel promises to its users, for every state the machine of \<^verbatim>\<open>Kernel_Steps\<close> can reach or
  for every state that satisfies \<open>sys_inv\<close>: the most urgent ready task runs, priorities are inherited,
  mutexes are handed over in order, sleeps and timeouts last exactly as long as asked for,
  suspension nests, and calls from interrupts are refused.  The last section records the deviations that deleting tasks
  has from this picture.
\<close>

section \<open>A scenario\<close>

text \<open>
  Task 1 (priority 10) holds mutex 5 twice; task 2 (priority 5) preempts it, asks for the mutex and
  waits for it for at most seven ticks.
\<close>

definition contended_calls :: "kcall list" where
  "contended_calls = [Task_create 1 ''low'' 10 4 1, Mutex_create 5 ''m'', Sem_create 6 ''s'' 0, Mutex_lock 5 100, Mutex_lock 5 100,
     Task_create 2 ''high'' 5 4 1, Mutex_lock 5 7]"

definition contended :: kernel where
  "contended = fold (kexec id) contended_calls idle_kernel"

text \<open>Sequences of legal calls.\<close>

fun calls_ok :: "(u32 list \<Rightarrow> u32 list) \<Rightarrow> kcall list \<Rightarrow> kernel \<Rightarrow> bool" where
  "calls_ok f [] k = True"
| "calls_ok f (c # cs) k = (call_ok c k \<and> calls_ok f cs (kexec f c k))"

lemma calls_reachable: "calls_ok f cs k \<Longrightarrow> (kstep f)\<^sup>*\<^sup>* k (fold (kexec f) cs k)"
proof (induction cs arbitrary: k)
  case (Cons c cs)
  then show ?case using kstep.call [of c k f] by (auto intro: converse_rtranclp_into_rtranclp)
qed simp

lemma contended_reachable: "(kstep id)\<^sup>*\<^sup>* idle_kernel contended"
proof -
  have "calls_ok id contended_calls idle_kernel" by code_simp
  then show ?thesis unfolding contended_def by (rule calls_reachable)
qed

lemma contended_inv: "sys_inv contended"
  using rhino.reachable_inv [OF refl contended_reachable] .

lemma contended_facts:
  "g_active_task contended = 1" "mutex_task (mutexes contended 5) = Some 1" "prio_of contended 1 = 5"
  "state_of contended 1 = K_RDY" "state_of contended 2 = K_PEND" "waiters contended 5 = [2]" "g_intrpt_nested_level contended = 0"
  "g_sched_lock contended = 0" "g_sys_stat contended = RHINO_RUNNING" "obj_type (objs contended 5) = RHINO_MUTEX_OBJ_TYPE"
  "obj_type (objs contended 6) = RHINO_SEM_OBJ_TYPE" "prio_of contended 2 = 5" "owner_nested (mutexes contended 5) = 2"
  "sem_count (sems contended 6) = 0" "waiters contended 6 = []" "blk_obj (tasks contended 2) = Some 5"
  "mm_alloc_flag (tasks contended 1) = 1"
  by code_simp+

section \<open>Reachable states\<close>

text \<open>C1: Every state the system can reach by legal calls, interrupts and ticks satisfies the kernel invariant
  (ready lists, block lists, tick list, mutex lists and priorities agree with the task states), and no
  call dereferenced a null pointer, ran off the priority bitmap or looped for ever on the way.\<close>

theorem reachable_states_sound:
  assumes "(kstep f)\<^sup>*\<^sup>* idle_kernel k"
  shows "sys_inv k \<and> \<not> k_fault k"
  using rhino.reachable_inv [OF refl assms] kernel_invD(8) [of k] by (simp add: sys_inv_def)

theorem reachable_states_sound_witness: "sys_inv contended \<and> \<not> k_fault contended"
  by (rule reachable_states_sound [OF contended_reachable])

text \<open>C2: In a reachable state, outside interrupts and with the scheduler unlocked, the running task is ready and
  no ready task has a more urgent priority.\<close>

theorem most_urgent_task_runs:
  assumes "(kstep f)\<^sup>*\<^sup>* idle_kernel k" and "g_intrpt_nested_level k = 0" and "g_sched_lock k = 0"
  shows "state_of k (g_active_task k) = K_RDY \<and> (\<forall>u. state_of k u = K_RDY \<longrightarrow> prio_of k (g_active_task k) \<le> prio_of k u)"
proof -
  have inv: "kernel_inv k" "sched_ok k" using rhino.reachable_inv [OF refl assms(1)] by (simp_all add: sys_inv_def)
  then show ?thesis
    using best_ready(2) [OF kernel_invD(1,6) [OF inv(1)]] sched_okD [OF inv(2) assms(2)] assms(3) by simp
qed

theorem most_urgent_task_runs_witness: "state_of contended 1 = K_RDY \<and> prio_of contended 1 \<le> prio_of contended 0"
proof -
  have "state_of contended 0 = K_RDY" by code_simp
  then show ?thesis
    using most_urgent_task_runs [OF contended_reachable contended_facts(7,8)] contended_facts(1) by simp
qed

text \<open>C3: Priority inheritance.  In a reachable state a task that owns a mutex runs at least as urgently as every task
  that waits for it, and no more urgently than its own base priority and the tasks waiting for
  its mutexes demand.\<close>

theorem owners_inherit_priority:
  assumes "(kstep f)\<^sup>*\<^sup>* idle_kernel k" and "live (state_of k u)"
  shows "(\<forall>m w. obj_type (objs k m) = RHINO_MUTEX_OBJ_TYPE \<and> mutex_task (mutexes k m) = Some u \<and> w \<in> set (waiters k m) \<longrightarrow>
      prio_of k u \<le> prio_of k w) \<and> prio_of k u \<le> b_prio (tasks k u) \<and>
    (prio_of k u = b_prio (tasks k u) \<or>
     (\<exists>m w. obj_type (objs k m) = RHINO_MUTEX_OBJ_TYPE \<and> mutex_task (mutexes k m) = Some u \<and> w \<in> set (waiters k m) \<and>
        prio_of k u = prio_of k w))"
proof -
  have "pi_inv k" using rhino.reachable_inv [OF refl assms(1)] kernel_invD(5) by (auto simp: sys_inv_def)
  then have "least_of (b_prio (tasks k u)) (prio_of k ` boosters_of k u) (prio_of k u)"
    using assms(2) by (simp add: pi_inv_eff eff_of_def)
  then show ?thesis by (auto simp: least_of_def boosters_of_def boosters_def owns_def)
qed

theorem owners_inherit_priority_witness: "prio_of contended 1 \<le> prio_of contended 2 \<and> prio_of contended 1 = 5"
  using owners_inherit_priority [OF contended_reachable, of 1] contended_facts by auto

text \<open>C4: Mutual exclusion.  In a reachable state a task that has been granted a mutex is live, the mutex is on exactly
  its list of held mutexes, no owner waits for its own mutex, and nobody waits for a free mutex.\<close>

theorem mutex_ownership:
  assumes "(kstep f)\<^sup>*\<^sup>* idle_kernel k" and "obj_type (objs k m) = RHINO_MUTEX_OBJ_TYPE"
  shows "(mutex_task (mutexes k m) = None \<longrightarrow> waiters k m = []) \<and>
    (\<forall>u. mutex_task (mutexes k m) = Some u \<longrightarrow> live (state_of k u) \<and> u \<notin> set (waiters k m) \<and> owner_nested (mutexes k m) \<noteq> 0) \<and>
    (\<forall>u. live (state_of k u) \<longrightarrow>
      (\<exists>ms. mutex_path (mutex_next \<circ> mutexes k) (mutex_list (tasks k u)) ms \<and> distinct ms \<and>
         (m \<in> set ms \<longleftrightarrow> mutex_task (mutexes k m) = Some u)))"
proof -
  have mtx: "mtx_inv k" using rhino.reachable_inv [OF refl assms(1)] kernel_invD(4) by (auto simp: sys_inv_def)
  moreover have "\<exists>ms. mutex_path (mutex_next \<circ> mutexes k) (mutex_list (tasks k u)) ms \<and> distinct ms \<and>
      (m \<in> set ms \<longleftrightarrow> mutex_task (mutexes k m) = Some u)" if live: "live (state_of k u)" for u
  proof -
    obtain ms where "mutex_path (mutex_next \<circ> mutexes k) (mutex_list (tasks k u)) ms" "distinct ms" "set ms = {m. owns_of k u m}"
      using mtx live unfolding mtx_inv_def mtx_ok_def mchain_ok_def by auto
    then show ?thesis using assms(2) by (intro exI [of _ ms]) (simp add: owns_def)
  qed
  ultimately show ?thesis using assms(2) by (auto simp: mtx_inv_def mtx_ok_def owns_def)
qed

theorem mutex_ownership_witness: "live (state_of contended 1) \<and> 1 \<notin> set (waiters contended 5)"
  using mutex_ownership [OF contended_reachable contended_facts(10)] contended_facts(2) by blast

section \<open>Time\<close>



lemma sleep_enters:
  assumes "sys_inv k" and "g_active_task k \<noteq> g_idle_task" and "g_intrpt_nested_level k = 0" "g_sched_lock k = 0" "n \<noteq> 0"
  shows "fst (krhino_task_sleep n k) = None" and "kernel_inv (snd (krhino_task_sleep n k))"
    and "state_of (snd (krhino_task_sleep n k)) (g_active_task k) = K_SLEEP"
    and "tick_head (tasks (snd (krhino_task_sleep n k)) (g_active_task k))"
    and "ticks_left (snd (krhino_task_sleep n k)) (g_active_task k) = n"
proof -
  show "kernel_inv (snd (krhino_task_sleep n k))" using sleep_call_inv [OF assms(1,2)] by (simp add: sys_inv_def)
qed (use assms in \<open>simp_all add: krhino_task_sleep_def Let_def tick_list_insert_def tick_list_pri_insert_def ticks_left_def word_gt_0\<close>)

text \<open>C9: A task that calls \<open>krhino_task_sleep\<close> for \<open>n\<close> ticks sleeps through the next \<open>n - 1\<close> ticks and is ready after the
  \<open>n\<close>-th, whatever the value of the tick counter.\<close>

theorem sleep_lasts_exactly:
  assumes "sys_inv k" and "g_active_task k \<noteq> g_idle_task" and "g_intrpt_nested_level k = 0" "g_sched_lock k = 0" "n \<noteq> 0"
  shows "(\<forall>m < unat n. state_of ((krhino_tick_proc ^^ m) (snd (krhino_task_sleep n k))) (g_active_task k) = K_SLEEP) \<and>
    state_of ((krhino_tick_proc ^^ unat n) (snd (krhino_task_sleep n k))) (g_active_task k) = K_RDY"
proof -
  have tick: "krhino_tick_proc = (tick_list_update :: 'a kernel_scheme \<Rightarrow> _)" by (rule ext) (simp add: krhino_tick_proc_def)
  note s = sleep_enters [OF assms]
  show ?thesis
    unfolding tick using ticks_countdown [OF s(2,4)] ticks_expire [OF s(2,4) refl] by (simp add: s(3,5))
qed

theorem sleep_lasts_exactly_witness:
  "state_of ((krhino_tick_proc ^^ 2) (snd (krhino_task_sleep 3 contended))) 1 = K_SLEEP \<and>
   state_of ((krhino_tick_proc ^^ 3) (snd (krhino_task_sleep 3 contended))) 1 = K_RDY"
  using sleep_lasts_exactly [of contended 3] contended_inv contended_facts by (simp add: g_idle_task_def)

lemma sem_wait_enters:
  assumes "sys_inv k" and "g_active_task k \<noteq> g_idle_task" and "g_intrpt_nested_level k = 0" "g_sched_lock k = 0" "timed n"
    and "obj_type (objs k s) = RHINO_SEM_OBJ_TYPE" "sem_count (sems k s) = 0"
  shows "fst (krhino_sem_take (Some s) n k) = None" and "kernel_inv (snd (krhino_sem_take (Some s) n k))"
    and "state_of (snd (krhino_sem_take (Some s) n k)) (g_active_task k) = K_PEND"
    and "tick_head (tasks (snd (krhino_sem_take (Some s) n k)) (g_active_task k))"
    and "ticks_left (snd (krhino_sem_take (Some s) n k)) (g_active_task k) = n"
proof -
  have take: "krhino_sem_take (Some s) n k = (None, core_sched (pend_to_blk_obj s (g_active_task k) n k))"
    using assms by (simp add: krhino_sem_take_def timed_def word_gt_0)
  show "kernel_inv (snd (krhino_sem_take (Some s) n k))" using sem_take_inv [OF assms(1,2)] by (simp add: sys_inv_def)
  show "fst (krhino_sem_take (Some s) n k) = None" using take by simp
  show "state_of (snd (krhino_sem_take (Some s) n k)) (g_active_task k) = K_PEND"
    using take fun_cong [OF pend_to_blk_obj_proj(1), of s "g_active_task k" n k "g_active_task k"] by simp
  show "tick_head (tasks (snd (krhino_sem_take (Some s) n k)) (g_active_task k))"
    using take assms(5) pend_to_blk_obj_ticks(1) [of s "g_active_task k" n k "g_active_task k"] by simp
  show "ticks_left (snd (krhino_sem_take (Some s) n k)) (g_active_task k) = n"
    using take pend_to_blk_obj_ticks(3) [OF assms(5), of s "g_active_task k" k] by (simp add: ticks_left_def)
qed

text \<open>C10: A task that takes an empty semaphore with a timeout of \<open>n\<close> ticks and is given nothing waits for exactly \<open>n\<close> ticks,
  is then ready, and its call returns \<open>RHINO_BLK_TIMEOUT\<close>.\<close>

theorem sem_take_times_out:
  assumes "sys_inv k" and "g_active_task k \<noteq> g_idle_task" and "g_intrpt_nested_level k = 0" "g_sched_lock k = 0"
    and "n \<noteq> RHINO_NO_WAIT" "n \<noteq> RHINO_WAIT_FOREVER" and "obj_type (objs k s) = RHINO_SEM_OBJ_TYPE" "sem_count (sems k s) = 0"
  defines "k' \<equiv> \<lambda>m. (krhino_tick_proc ^^ m) (snd (krhino_sem_take (Some s) n k))"
  shows "(\<forall>m < unat n. state_of (k' m) (g_active_task k) = K_PEND) \<and> state_of (k' (unat n)) (g_active_task k) = K_RDY \<and>
    fst (pend_state_end_proc (g_active_task k) (k' (unat n))) = RHINO_BLK_TIMEOUT"
proof -
  have tick: "krhino_tick_proc = (tick_list_update :: 'a kernel_scheme \<Rightarrow> _)" by (rule ext) (simp add: krhino_tick_proc_def)
  have "timed n" using assms(5,6) by (simp add: timed_def word_gt_0)
  note s = sem_wait_enters [OF assms(1-4) this assms(7,8)]
  show ?thesis
    unfolding k'_def tick using ticks_countdown [OF s(2,4)] ticks_expire [OF s(2,4) refl]
    by (simp add: s(3,5) pend_state_end_proc_def)
qed

theorem sem_take_times_out_witness:
  "fst (pend_state_end_proc 1 ((krhino_tick_proc ^^ 4) (snd (krhino_sem_take (Some 6) 4 contended)))) = RHINO_BLK_TIMEOUT"
  using sem_take_times_out [OF contended_inv _ contended_facts(7,8) _ _ contended_facts(11,14), of 4] contended_facts(1)
  by (simp add: g_idle_task_def)

section \<open>Semaphores\<close>

text \<open>C11: Giving a semaphore either wakes its first waiter (the most urgent one under the priority policy) and leaves the
  count alone, or counts up when nobody waits; at the largest count it is refused and nothing changes.\<close>

theorem sem_give_effect:
  assumes "sys_inv k" and "obj_type (objs k s) = RHINO_SEM_OBJ_TYPE"
  shows "(waiters k s = [] \<and> sem_count (sems k s) = 0xFFFFFFFF \<longrightarrow> krhino_sem_give (Some s) k = (RHINO_SEM_OVF, k)) \<and>
    (waiters k s = [] \<and> sem_count (sems k s) \<noteq> 0xFFFFFFFF \<longrightarrow> fst (krhino_sem_give (Some s) k) = RHINO_SUCCESS \<and>
      unat (sem_count (sems (snd (krhino_sem_give (Some s) k)) s)) = unat (sem_count (sems k s)) + 1 \<and>
      tasks (snd (krhino_sem_give (Some s) k)) = tasks k) \<and>
    (\<forall>t ts. waiters k s = t # ts \<longrightarrow> fst (krhino_sem_give (Some s) k) = RHINO_SUCCESS \<and>
      sems (snd (krhino_sem_give (Some s) k)) = sems k \<and> waiters (snd (krhino_sem_give (Some s) k)) s = ts \<and>
      (\<forall>u. state_of (snd (krhino_sem_give (Some s) k)) u = (if u = t then woken (state_of k t) else state_of k u)) \<and>
      (blk_policy (objs k s) = BLK_POLICY_PRI \<longrightarrow> (\<forall>u \<in> set ts. prio_of k t \<le> prio_of k u)))"
proof (intro conjI impI allI)
  have inv: "kernel_inv k" using assms(1) by (simp add: sys_inv_def)
  have max: "(- 1 :: u32) = 0xFFFFFFFF" by simp
  have give: "krhino_sem_give (Some s) k = sem_give s False k" by (simp add: krhino_sem_give_def)
  { assume "waiters k s = [] \<and> sem_count (sems k s) = 0xFFFFFFFF"
    then show "krhino_sem_give (Some s) k = (RHINO_SEM_OVF, k)" using assms(2) by (simp add: give sem_give_def) }
  { assume "waiters k s = [] \<and> sem_count (sems k s) \<noteq> 0xFFFFFFFF"
    then have e: "waiters k s = []" "sem_count (sems k s) \<noteq> - 1" unfolding max by blast+
    then show "fst (krhino_sem_give (Some s) k) = RHINO_SUCCESS" "tasks (snd (krhino_sem_give (Some s) k)) = tasks k"
      using assms(2) by (simp_all add: give sem_give_def)
    have "sem_count (sems (snd (krhino_sem_give (Some s) k)) s) = sem_count (sems k s) + 1"
      using assms(2) e by (simp add: give sem_give_def Let_def)
    then show "unat (sem_count (sems (snd (krhino_sem_give (Some s) k)) s)) = unat (sem_count (sems k s)) + 1"
      using e(2) unatSuc [of "sem_count (sems k s)"] by (simp add: add.commute eq_neg_iff_add_eq_0) }
  fix t ts assume wl: "waiters k s = t # ts"
  have t: "pending (state_of k t)" using waiter_pending(1) [OF kernel_invD(2) [OF inv], of t s] wl by simp
  have g: "krhino_sem_give (Some s) k = (RHINO_SUCCESS, core_sched (pend_task_wakeup t k))"
    using wl assms(2) by (simp add: give sem_give_def)
  show "fst (krhino_sem_give (Some s) k) = RHINO_SUCCESS" "sems (snd (krhino_sem_give (Some s) k)) = sems k"
    by (simp_all add: g)
  show "waiters (snd (krhino_sem_give (Some s) k)) s = ts"
    using fun_cong [OF wakeup_proj(8) [OF t], of s] wl by (simp add: g)
  show "state_of (snd (krhino_sem_give (Some s) k)) u = (if u = t then woken (state_of k t) else state_of k u)" for u
    using fun_cong [OF wakeup_proj(1) [OF t], of u] by (simp add: g)
  assume "blk_policy (objs k s) = BLK_POLICY_PRI"
  then have "sorted (map (prio_of k) (t # ts))" using kernel_invD(2) [OF inv] wl by (auto simp: blk_inv_def blk_ok_def comp_def)
  then show "\<forall>u \<in> set ts. prio_of k t \<le> prio_of k u" by simp
qed

theorem sem_give_effect_witness: "unat (sem_count (sems (snd (krhino_sem_give (Some 6) contended)) 6)) = 1"
  using sem_give_effect [OF contended_inv contended_facts(11)] contended_facts(14,15) by simp

text \<open>C12: Deleting a semaphore ends the wait of every task that waits for it: none is left on its list, each is ready
  (or suspended, when it had been suspended while waiting) and its call returns \<open>RHINO_BLK_DEL\<close>; no other task changes state.\<close>

theorem sem_del_releases_waiters:
  assumes "sys_inv k" and "g_intrpt_nested_level k = 0" and "obj_type (objs k s) = RHINO_SEM_OBJ_TYPE"
    and "sem_alloc_flag (sems k s) = K_OBJ_STATIC_ALLOC"
  shows "fst (krhino_sem_del (Some s) k) = RHINO_SUCCESS \<and> waiters (snd (krhino_sem_del (Some s) k)) s = [] \<and>
    (\<forall>u. state_of (snd (krhino_sem_del (Some s) k)) u = (if u \<in> set (waiters k s) then woken (state_of k u) else state_of k u)) \<and>
    (\<forall>u \<in> set (waiters k s). fst (pend_state_end_proc u (snd (krhino_sem_del (Some s) k))) = RHINO_BLK_DEL)"
proof -
  have del: "krhino_sem_del (Some s) k = (RHINO_SUCCESS, sem_delete s k)" using assms by (simp add: krhino_sem_del_def)
  show ?thesis
    using sem_delete_inv [OF assms(1,3)] by (simp add: del pend_state_end_proc_def)
qed

theorem sem_del_releases_waiters_witness:
  "fst (pend_state_end_proc 1 (snd (krhino_sem_del (Some 6) (snd (krhino_sem_take (Some 6) 4 contended))))) = RHINO_BLK_DEL"
proof -
  let ?k = "snd (krhino_sem_take (Some 6) 4 contended)"
  have "g_intrpt_nested_level ?k = 0 \<and> obj_type (objs ?k 6) = RHINO_SEM_OBJ_TYPE \<and> sem_alloc_flag (sems ?k 6) = 1 \<and> waiters ?k 6 = [1]"
    by code_simp
  moreover have "sys_inv ?k" using sem_take_inv [OF contended_inv] contended_facts(1) by (simp add: g_idle_task_def)
  ultimately show ?thesis using sem_del_releases_waiters [of ?k 6] by simp
qed

section \<open>Mutexes\<close>

text \<open>Asking for a mutex that another task holds takes the caller off the processor and puts it on the waiting list; the
  owner then runs at least as urgently as the caller, and nobody's priority got worse.\<close>

theorem lock_contended:
  assumes "sys_inv k" and "g_active_task k \<noteq> g_idle_task" and "g_sys_stat k = RHINO_RUNNING"
    and "g_intrpt_nested_level k = 0" "g_sched_lock k = 0" and "obj_type (objs k m) = RHINO_MUTEX_OBJ_TYPE"
    and "mutex_task (mutexes k m) = Some u" "u \<noteq> g_active_task k" and "ticks \<noteq> RHINO_NO_WAIT"
  shows "\<exists>k'. krhino_mutex_lock (Some m) ticks k = (None, k') \<and> sys_inv k' \<and> state_of k' (g_active_task k) = K_PEND \<and>
    g_active_task k \<in> set (waiters k' m) \<and> mutex_task (mutexes k' m) = Some u \<and> prio_of k' u \<le> prio_of k (g_active_task k) \<and>
    (\<forall>v. prio_of k' v \<le> prio_of k v)"
proof -
  let ?t = "g_active_task k"
  define k1 where "k1 = (if prio_of k ?t < prio_of k u then snd (task_pri_change u (prio_of k ?t) k) else k)"
  let ?k2 = "pend_to_blk_obj m ?t ticks k1"
  have inv: "kernel_inv k" "base_inv k" "mtx_inv k" "pi_inv k" using assms(1) by (simp_all add: sys_inv_def kernel_inv_base)
  have u: "live (state_of k u)" "u \<noteq> g_idle_task"
    using mtx_invD(1) [OF inv(3), of u m] assms(6,7) kernel_invD(6) [OF inv(1)] by (auto simp: owns_def idle_inv_def idle_ok_def)
  have k1: "mutexes k1 = mutexes k \<and> prio_of k1 u \<le> prio_of k ?t \<and> (\<forall>v. prio_of k1 v \<le> prio_of k v)"
  proof (cases "prio_of k ?t < prio_of k u")
    case True
    obtain k' where "task_pri_change u (prio_of k ?t) k = (RHINO_SUCCESS, k')" "base_inv k'" "mtx_inv k'" "prio_only k k'"
      "\<forall>v. live (state_of k v) \<and> v \<noteq> u \<longrightarrow> eff_of k' v (prio_of k' v)" "prio_of k' u = prio_of k ?t"
      "\<forall>v. prio_of k' v = prio_of k v \<or> prio_of k' v = prio_of k ?t \<and> prio_of k ?t < prio_of k v"
      by (rule task_pri_change_boost [OF inv(2,3) u inv(4) True])
    moreover from this have "mutexes k' = mutexes k" by (simp add: prio_only_def)
    ultimately show ?thesis using True unfolding k1_def by (auto simp: order_le_less)
  qed (simp add: k1_def)
  have lock: "krhino_mutex_lock (Some m) ticks k = (None, core_sched ?k2)"
    using assms by (simp add: krhino_mutex_lock_def k1_def)
  have "sys_inv (core_sched ?k2)" using mutex_lock_inv [OF assms(1,2), of "Some m" ticks] lock by simp
  moreover have "prio_of ?k2 v = prio_of k1 v" for v using fun_cong [OF pend_to_blk_obj_proj(2), of m ?t ticks k1 v] by simp
  moreover have "state_of ?k2 ?t = K_PEND" using fun_cong [OF pend_to_blk_obj_proj(1), of m ?t ticks k1 ?t] by simp
  ultimately show ?thesis
    using lock k1 assms(7) pend_to_blk_obj_waiters [of m ?t ticks k1 m] pend_to_blk_obj_proj(6) [of m ?t ticks k1] by simp
qed

theorem lock_contended_witness:
  "\<exists>k'. krhino_mutex_lock (Some 5) 7 (fold (kexec id) (butlast contended_calls) idle_kernel) = (None, k') \<and> prio_of k' 1 \<le> 5"
proof -
  let ?k = "fold (kexec id) (butlast contended_calls) idle_kernel"
  have "calls_ok id (butlast contended_calls) idle_kernel" by code_simp
  then have "sys_inv ?k" using rhino.reachable_inv [OF refl calls_reachable] by blast
  moreover have "g_active_task ?k = 2" "g_sys_stat ?k = RHINO_RUNNING" "g_intrpt_nested_level ?k = 0" "g_sched_lock ?k = 0"
    "obj_type (objs ?k 5) = RHINO_MUTEX_OBJ_TYPE" "mutex_task (mutexes ?k 5) = Some 1" "prio_of ?k 2 = 5" by code_simp+
  ultimately show ?thesis using lock_contended [of ?k 5 1 7] by (auto simp: g_idle_task_def)
qed

text \<open>C13: Giving back the last nesting level of a mutex others wait for hands it to the first waiter, one of the most urgent:
  that task owns the mutex at nesting level one and is no longer waiting, and the releasing task keeps only
  the priority that its other mutexes require.\<close>

theorem unlock_hands_over:
  assumes "sys_inv k" and "g_sys_stat k = RHINO_RUNNING" and "g_intrpt_nested_level k = 0" and "obj_type (objs k m) = RHINO_MUTEX_OBJ_TYPE"
    and "mutex_task (mutexes k m) = Some (g_active_task k)" and "owner_nested (mutexes k m) = 1" and "waiters k m = w # ws"
  shows "\<exists>k'. krhino_mutex_unlock (Some m) k = (RHINO_SUCCESS, k') \<and> sys_inv k' \<and> mutex_task (mutexes k' m) = Some w \<and>
    owner_nested (mutexes k' m) = 1 \<and> waiters k' m = ws \<and> (\<forall>v \<in> set ws. prio_of k w \<le> prio_of k v) \<and>
    (\<forall>v. state_of k' v = (if v = w then woken (state_of k w) else state_of k v)) \<and>
    least_of (b_prio (tasks k (g_active_task k)))
      (prio_of k ` {x. \<exists>b. owns_of k (g_active_task k) b \<and> b \<noteq> m \<and> x \<in> set (waiters k b)}) (prio_of k' (g_active_task k))"
proof -
  let ?t = "g_active_task k"
  have inv: "kernel_inv k" "sched_ok k" using assms(1) by (simp_all add: sys_inv_def)
  have rdy: "state_of k ?t = K_RDY" using sched_okD(1) [OF inv(2) assms(3)] .
  let ?k2 = "mutex_release ?t (Some m) (upd_mutex m (\<lambda>c. c\<lparr>owner_nested := 0\<rparr>) k)"
  have lg: "let_go ?t m k ?k2" using mutex_release_active [OF inv(1) rdy] assms(4,5) by (simp add: owns_def)
  let ?k' = "core_sched (mutex_give m w (pend_task_wakeup w ?k2))"
  have w: "pending (state_of ?k2 w)" "waiters ?k2 b = waiters k b" "state_of ?k2 v = state_of k v" for b v
    using lg waiter_pending(1) [OF kernel_invD(2) [OF inv(1)], of w m] assms(7) by (auto simp: let_go_def fun_eq_iff)
  note wp = wakeup_proj(1,2,8) [OF w(1), THEN fun_cong]
  have un: "krhino_mutex_unlock (Some m) k = (RHINO_SUCCESS, ?k')"
    using assms w(2) by (simp add: krhino_mutex_unlock_def mutex_give_def Let_def)
  have "sys_inv ?k'" using mutex_unlock_inv [OF assms(1), of "Some m"] un by simp
  moreover have "mutex_task (mutexes ?k' m) = Some w" "owner_nested (mutexes ?k' m) = 1"
    using fun_cong [OF mutex_give_proj(11), of m w _ m] fun_cong [OF mutex_give_proj(12), of m w _ m] by auto
  moreover have "waiters ?k' m = ws" using wp(3) [of m] w(2) [of m] assms(7) by simp
  moreover have "sorted (map (prio_of k) (w # ws))"
    using kernel_invD(2,7) [OF inv(1)] assms(4,7) by (auto simp: blk_inv_def blk_ok_def misc_inv_def hdr_ok_def comp_def)
  moreover have "state_of ?k' v = (if v = w then woken (state_of k w) else state_of k v)" for v using wp(1) [of v] w(3) by simp
  moreover have "prio_of ?k' ?t = prio_of ?k2 ?t" using wp(2) [of ?t] by simp
  ultimately show ?thesis using un lg by (auto simp: let_go_def)
qed

theorem unlock_hands_over_witness:
  "\<exists>k'. krhino_mutex_unlock (Some 5) (snd (krhino_mutex_unlock (Some 5) contended)) = (RHINO_SUCCESS, k') \<and>
     mutex_task (mutexes k' 5) = Some 2 \<and> state_of k' 2 = K_RDY"
proof -
  let ?k = "snd (krhino_mutex_unlock (Some 5) contended)"
  have "sys_inv ?k" by (rule mutex_unlock_inv [OF contended_inv])
  moreover have "g_active_task ?k = 1" "g_sys_stat ?k = RHINO_RUNNING" "g_intrpt_nested_level ?k = 0" "waiters ?k 5 = [2]"
    "obj_type (objs ?k 5) = RHINO_MUTEX_OBJ_TYPE" "mutex_task (mutexes ?k 5) = Some 1" "owner_nested (mutexes ?k 5) = 1"
    "state_of ?k 2 = K_PEND" by code_simp+
  ultimately show ?thesis using unlock_hands_over [of ?k 5 2 "[]"] by auto
qed

section \<open>Tasks\<close>

text \<open>The state of a task that has been suspended at least once.\<close>

fun suspended :: "task_stat_t \<Rightarrow> task_stat_t" where
  "suspended K_RDY = K_SUSPENDED" | "suspended K_SLEEP = K_SLEEP_SUSPENDED" | "suspended K_PEND = K_PEND_SUSPENDED"
| "suspended s = s"

lemma suspend_first:
  assumes "state_of k t \<in> {K_RDY, K_SLEEP, K_PEND}" and "t = g_active_task k \<Longrightarrow> g_sched_lock k = 0"
  shows "fst (task_suspend t k) = RHINO_SUCCESS" and "state_of (snd (task_suspend t k)) t = suspended (state_of k t)"
    and "suspend_count (tasks (snd (task_suspend t k)) t) = 1" and "g_sched_lock (snd (task_suspend t k)) = g_sched_lock k"
  using assms by (auto simp: task_suspend_def)

lemma suspend_again:
  assumes "state_of k t \<in> {K_SUSPENDED, K_SLEEP_SUSPENDED, K_PEND_SUSPENDED}" and "g_sched_lock k = 0 \<or> t \<noteq> g_active_task k"
    and "suspend_count (tasks k t) \<noteq> - 1"
  shows "state_of (snd (task_suspend t k)) t = state_of k t"
    and "suspend_count (tasks (snd (task_suspend t k)) t) = suspend_count (tasks k t) + 1"
  using assms by (auto simp: task_suspend_def)

lemma resume_once:
  assumes "suspended s = state_of k t" and "s \<in> {K_RDY, K_SLEEP, K_PEND}"
  shows "fst (task_resume t k) = RHINO_SUCCESS"
    and "state_of (snd (task_resume t k)) t = (if suspend_count (tasks k t) = 1 then s else state_of k t)"
    and "suspend_count (tasks (snd (task_resume t k)) t) = suspend_count (tasks k t) - 1"
  using assms by (auto simp: task_resume_def Let_def)

lemma task_state_local:
  assumes "u \<noteq> t"
  shows "tasks (snd (task_suspend t k)) u = tasks k u" and "tasks (snd (task_resume t k)) u = tasks k u"
  using assms by (simp_all add: task_suspend_def task_resume_def Let_def split: task_stat_t.split)

lemma suspend_times:
  assumes "state_of k t \<in> {K_RDY, K_SLEEP, K_PEND}" and "g_sched_lock k = 0" and "i < 255"
  shows "state_of (((\<lambda>k. snd (task_suspend t k)) ^^ Suc i) k) t = suspended (state_of k t) \<and>
    suspend_count (tasks (((\<lambda>k. snd (task_suspend t k)) ^^ Suc i) k) t) = of_nat (Suc i) \<and>
    g_sched_lock (((\<lambda>k. snd (task_suspend t k)) ^^ Suc i) k) = 0"
  using assms(3)
proof (induction i)
  case 0
  then show ?case using suspend_first [OF assms(1)] assms(2) by simp
next
  case (Suc i)
  let ?k = "((\<lambda>k. snd (task_suspend t k)) ^^ Suc i) k"
  have ih: "state_of ?k t = suspended (state_of k t)" "suspend_count (tasks ?k t) = of_nat (Suc i)" "g_sched_lock ?k = 0"
    using Suc by simp_all
  have sus: "suspended (state_of k t) \<in> {K_SUSPENDED, K_SLEEP_SUSPENDED, K_PEND_SUSPENDED}" using assms(1) by auto
  have lock: "g_sched_lock (snd (task_suspend t ?k)) = g_sched_lock ?k"
    by (simp add: task_suspend_def split: task_stat_t.split)
  have "(of_nat (Suc i) :: u8) \<noteq> - 1"
  proof
    assume "(of_nat (Suc i) :: u8) = - 1"
    then have "unat (of_nat (Suc i) :: u8) = unat (- 1 :: u8)" by (rule arg_cong)
    moreover have "unat (- 1 :: u8) = 255" by code_simp
    ultimately show False using Suc.prems by (simp add: unat_of_nat del: of_nat_Suc)
  qed
  then show ?case using suspend_again [of ?k t] ih sus lock by (simp add: add.commute)
qed

lemma resume_times:
  assumes "s \<in> {K_RDY, K_SLEEP, K_PEND}" and "state_of k t = suspended s" "suspend_count (tasks k t) = of_nat n"
    and "0 < n" "n \<le> 255" "i \<le> n"
  shows "state_of (((\<lambda>k. snd (task_resume t k)) ^^ i) k) t = (if i = n then s else suspended s) \<and>
    suspend_count (tasks (((\<lambda>k. snd (task_resume t k)) ^^ i) k) t) = of_nat (n - i)"
  using assms(6)
proof (induction i)
  case 0
  then show ?case using assms(2-4) by simp
next
  case (Suc i)
  let ?k = "((\<lambda>k. snd (task_resume t k)) ^^ i) k"
  have ih: "state_of ?k t = suspended s" "suspend_count (tasks ?k t) = of_nat (n - i)" using Suc by auto
  have unat: "unat (of_nat (n - i) :: u8) = n - i" using assms(5) by (subst unat_of_nat) simp
  have "(of_nat (n - i) :: u8) = 1 \<longleftrightarrow> Suc i = n"
    using Suc.prems unfolding word_unat_eq_iff unat by auto
  moreover have "(of_nat (n - i) :: u8) - 1 = of_nat (n - Suc i)" using Suc.prems by (simp add: of_nat_diff)
  ultimately show ?case using resume_once(2,3) [OF ih(1) [symmetric] assms(1)] ih by simp
qed

text \<open>C14: Suspension nests.  Suspending a task \<open>n\<close> times (up to 255, the range of the counter) leaves it suspended with that
  count, and \<open>n\<close> resumptions restore the state it had, whether it was ready, asleep or waiting; no other task is touched.\<close>

theorem suspend_resume_roundtrip:
  assumes "state_of k t \<in> {K_RDY, K_SLEEP, K_PEND}" and "g_sched_lock k = 0" and "0 < n" "n \<le> 255"
  defines "s \<equiv> ((\<lambda>k. snd (task_suspend t k)) ^^ n) k"
  shows "state_of s t = suspended (state_of k t) \<and> unat (suspend_count (tasks s t)) = n \<and>
    state_of (((\<lambda>k. snd (task_resume t k)) ^^ n) s) t = state_of k t \<and>
    (\<forall>u. u \<noteq> t \<longrightarrow> tasks (((\<lambda>k. snd (task_resume t k)) ^^ n) s) u = tasks k u)"
proof -
  have n: "state_of s t = suspended (state_of k t)" "suspend_count (tasks s t) = of_nat n"
    using suspend_times [OF assms(1,2), of "n - 1"] assms(3,4) unfolding s_def by simp_all
  have frame: "tasks (((\<lambda>k. snd (task_suspend t k)) ^^ i) j) u = tasks j u" "tasks (((\<lambda>k. snd (task_resume t k)) ^^ i) j) u = tasks j u"
    if "u \<noteq> t" for i u and j :: "'a kernel_scheme"
    using that by (induction i) (simp_all add: task_state_local)
  show ?thesis
    using n resume_times [OF assms(1) n assms(3,4), of n] frame assms(4) by (simp add: s_def unat_of_nat)
qed

theorem suspend_resume_roundtrip_witness:
  "state_of (((\<lambda>k. snd (task_resume 2 k)) ^^ 3) (((\<lambda>k. snd (task_suspend 2 k)) ^^ 3) contended)) 2 = K_PEND"
  using suspend_resume_roundtrip [of contended 2 3] contended_facts(5,8) by simp

text \<open>C15: Changing the base priority of a task ends, reports success and the old priority, sets the base priority and
  leaves every task at the priority inheritance requires, however long the chain of owners and
  waiters that has to be followed is.\<close>

theorem pri_change_succeeds:
  assumes "sys_inv k" and "live (state_of k t)" and "t \<noteq> g_idle_task" and "pri < RHINO_IDLE_PRI" and "g_intrpt_nested_level k = 0"
  shows "\<exists>k'. krhino_task_pri_change (Some t) pri False k = (RHINO_SUCCESS, Some (prio_of k t), k') \<and> sys_inv k' \<and>
    b_prio (tasks k' t) = pri \<and> (\<forall>u. live (state_of k u) \<longrightarrow> eff_of k' u (prio_of k' u)) \<and> (\<forall>u. state_of k' u = state_of k u)"
proof -
  have inv: "kernel_inv k" using assms(1) by (simp add: sys_inv_def)
  have pr: "prio_of k t < RHINO_IDLE_PRI"
    using kernel_invD(6) [OF inv] assms(2,3) by (simp add: idle_inv_def idle_ok_def)
  obtain p k2 where k2: "mutex_pri_limit t pri k = Some p"
      "task_pri_change t p (upd_task t (\<lambda>c. c\<lparr>b_prio := pri\<rparr>) k) = (RHINO_SUCCESS, k2)"
      "prio_only (upd_task t (\<lambda>c. c\<lparr>b_prio := pri\<rparr>) k) k2"
    by (rule pri_change_body [OF inv assms(2,3,4)])
  have eq: "krhino_task_pri_change (Some t) pri False k = (RHINO_SUCCESS, Some (prio_of k t), core_sched k2)"
    using k2(1,2) pr assms(2,4,5) by (auto simp: krhino_task_pri_change_def Let_def)
  have sys: "sys_inv (core_sched k2)"
    using task_pri_change_inv [OF assms(1), of "Some t" pri False] assms(2) eq by simp
  then have "pi_inv (core_sched k2)" using kernel_invD(5) by (auto simp: sys_inv_def)
  moreover have "state_of (core_sched k2) u = state_of k u" for u using prio_only_tasks(1) [OF k2(3), of u] by auto
  moreover have "b_prio (tasks k2 t) = pri" using prio_only_tasks [OF k2(3), of t] by auto
  ultimately show ?thesis using eq sys by (simp add: pi_inv_eff)
qed

theorem pri_change_succeeds_witness: "\<exists>k'. krhino_task_pri_change (Some 1) 20 False contended = (RHINO_SUCCESS, Some 5, k') \<and> b_prio (tasks k' 1) = 20"
  using pri_change_succeeds [OF contended_inv, of 1 20] contended_facts(3,4,7) by (auto simp: g_idle_task_def)

text \<open>C16: Deleting a task ends its part in the system: afterwards it is in no ready, block or tick list, owns no mutex and is
  not on the list of all tasks; the mutexes it held have been passed on, and the tasks that waited for it inherit correctly.\<close>

theorem task_del_leaves_nothing:
  assumes "sys_inv k" and "live (state_of k t)" and "t \<noteq> g_idle_task" and "g_intrpt_nested_level k = 0"
    and "mm_alloc_flag (tasks k t) = K_OBJ_STATIC_ALLOC" and "t = g_active_task k \<Longrightarrow> g_sched_lock k = 0"
  shows "\<exists>k'. krhino_task_del (Some t) k = (RHINO_SUCCESS, k') \<and> sys_inv k' \<and> state_of k' t = K_DELETED \<and>
    (\<forall>p. t \<notin> set (cur_list (g_ready_queue k') p)) \<and> (\<forall>b. t \<notin> set (waiters k' b)) \<and> t \<notin> set (g_tick_head k') \<and>
    t \<notin> set (task_head k') \<and>
    (\<forall>m. obj_type (objs k' m) = RHINO_MUTEX_OBJ_TYPE \<longrightarrow> mutex_task (mutexes k' m) \<noteq> Some t)"
proof -
  have inv: "kernel_inv k" using assms(1) by (simp add: sys_inv_def)
  have pr: "prio_of k t \<noteq> RHINO_IDLE_PRI"
    using kernel_invD(6) [OF inv] assms(2,3) by (auto simp: idle_inv_def idle_ok_def)
  have lock: "t = g_active_task k \<longrightarrow> \<not> g_sched_lock k > 0" using assms(6) by auto
  obtain k2 where k2: "task_leave t (task_mutex_free t k) = Some k2"
    "sys_inv (core_sched (k2\<lparr>task_head := remove1 t (task_head k2)\<rparr>))" "state_of k2 t = K_DELETED"
    by (rule task_delete_inv [OF assms(1-3) lock])
  let ?k = "core_sched (k2\<lparr>task_head := remove1 t (task_head k2)\<rparr>)"
  have del: "krhino_task_del (Some t) k = (RHINO_SUCCESS, ?k)"
    using assms(4,5) pr lock k2(1) by (auto simp: krhino_task_del_def Let_def)
  have ki: "kernel_inv ?k" and dead: "\<not> live (state_of ?k t)" using k2(2,3) by (simp_all add: sys_inv_def)
  note gone = not_live_lists [OF this]
  have "t \<notin> set (cur_list (g_ready_queue ?k) p)" for p
    using kernel_invD(1) [OF ki] dead by (auto simp: rdy_inv_def rdy_ok_def)
  then show ?thesis using del k2(2,3) gone by (auto simp: owns_def)
qed

theorem task_del_leaves_nothing_witness:
  "\<exists>k'. krhino_task_del (Some 1) contended = (RHINO_SUCCESS, k') \<and> mutex_task (mutexes k' 5) \<noteq> Some 1 \<and> 1 \<notin> set (task_head k')"
proof -
  obtain k' where k': "krhino_task_del (Some 1) contended = (RHINO_SUCCESS, k')" "1 \<notin> set (task_head k')"
    "\<forall>m. obj_type (objs k' m) = RHINO_MUTEX_OBJ_TYPE \<longrightarrow> mutex_task (mutexes k' m) \<noteq> Some 1"
    using task_del_leaves_nothing [OF contended_inv, of 1] contended_facts by (auto simp: g_idle_task_def)
  moreover have "obj_type (objs (snd (krhino_task_del (Some 1) contended)) 5) = RHINO_MUTEX_OBJ_TYPE" by code_simp
  ultimately show ?thesis by auto
qed



section \<open>Deviations\<close>

text \<open>Asking to delete the idle task is refused, but the call returns from inside its critical section: the interrupts stay
  masked and so the tick stops.  The dynamic variant of the call leaves them enabled.\<close>

theorem del_idle_masks_interrupts:
  "krhino_task_del (Some 0) contended = (RHINO_TASK_DEL_NOT_ALLOWED, contended\<lparr>g_intrpt_masked := True\<rparr>) \<and>
   krhino_task_dyn_del (Some 0) contended = (RHINO_TASK_DEL_NOT_ALLOWED, contended) \<and> \<not> g_intrpt_masked contended"
proof -
  have "prio_of contended 0 = 61" "\<not> g_intrpt_masked contended" by code_simp+
  then show ?thesis by (simp add: krhino_task_del_def krhino_task_dyn_del_def contended_facts)
qed


text \<open>Deleting a task a second time reports \<open>RHINO_INV_TASK_STATE\<close>, but not before the mutexes still on its stale list have been
  taken away from their present owner.\<close>

theorem second_del_steals_mutex:
  "let k = snd (krhino_task_del (Some 1) contended)
   in mutex_task (mutexes k 5) = Some 2 \<and> fst (krhino_task_del (Some 1) k) = RHINO_INV_TASK_STATE \<and>
      mutex_task (mutexes (snd (krhino_task_del (Some 1) k)) 5) = None"
  by code_simp

end
