(* ===== verification/Ktime.thy ===== *)
theory Ktime
  imports Tick
begin

text \<open>
  Conversions between ticks and milliseconds, \<^verbatim>\<open>kernel/rhino/core/k_time.c\<close>, at 100 ticks per second:
  \<open>sys_time_t\<close> has 64 bits, \<open>tick_t\<close> 32, and every operation is done at the width the C program uses.
  The theorems: a span of milliseconds is rounded up to ticks, the two conversions are inverse on
  whole ticks, and the conversion to milliseconds wraps around after about 49.7 days.
\<close>

type_synonym u16 = "16 word"

definition krhino_sys_time_get :: "'a kernel_scheme \<Rightarrow> u64" where
  "krhino_sys_time_get k = krhino_sys_tick_get k * 1000 div 100"

definition krhino_ms_to_ticks :: "u64 \<Rightarrow> u32" where
  "krhino_ms_to_ticks ms =
     (let surplus = (ucast (ms mod 1000) :: u16);
          ticks = (ucast (ms div 1000 * 100) :: u32);
          padding = (1000 div 100 :: u16);
          padding = (if padding > 0 then padding - 1 else 0)
      in ticks + of_nat ((unat surplus + unat padding) * 100 div 1000))"

definition krhino_ticks_to_ms :: "u32 \<Rightarrow> u64" where
  "krhino_ticks_to_ms ticks =
     (let surplus = ticks mod 100;
          time = (ucast (ticks div 100 * 1000) :: u64);
          padding = (100 div 1000 :: u32);
          padding = (if padding > 0 then padding - 1 else 0)
      in time + ucast ((surplus + padding) * 1000 div 100))"

lemma ceil_tenth: "n div 1000 * 100 + (n mod 1000 + 9) * 100 div 1000 = (n + 9) div (10 :: nat)"
proof -
  have "(n mod 1000 + 9) * 100 div 1000 = (n mod 1000 + 9) div 10" using div_mult_mult2 [of 100 "n mod 1000 + 9" 10] by simp
  moreover have "n + 9 = (n mod 1000 + 9) + n div 1000 * 100 * 10" using div_mult_mod_eq [of n 1000] by linarith
  then have "(n + 9) div 10 = n div 1000 * 100 + (n mod 1000 + 9) div 10"
    using div_mult_self1 [of 10 "n mod 1000 + 9" "n div 1000 * 100"] by simp
  ultimately show ?thesis by simp
qed

lemma unat_ms_to_ticks:
  assumes "unat ms \<le> 10 * (2 ^ 32 - 1)"
  shows "unat (krhino_ms_to_ticks ms) = (unat ms + 9) div 10"
proof -
  have s: "unat (ucast (ms mod 1000) :: u16) = unat ms mod 1000"
    by (simp add: unsigned_ucast_eq unat_mod take_bit_eq_mod)
  have "unat (ms div 1000 * 100) = unat ms div 1000 * 100"
    using assms by (simp add: unat_word_ariths unat_div)
  then have t: "unat (ucast (ms div 1000 * 100) :: u32) = unat ms div 1000 * 100"
    using assms by (simp add: unsigned_ucast_eq take_bit_eq_mod)
  have eq: "unat ms div 1000 * 100 + (unat ms mod 1000 + 9) * 100 div 1000 = (unat ms + 9) div 10" by (rule ceil_tenth)
  have "(unat ms + 9) div 10 < 2 ^ 32" using assms by simp
  moreover have "unat (krhino_ms_to_ticks ms) = (unat ms div 1000 * 100 + (unat ms mod 1000 + 9) * 100 div 1000) mod 2 ^ 32"
    by (simp add: krhino_ms_to_ticks_def Let_def unat_word_ariths s t unat_of_nat mod_add_right_eq)
  ultimately show ?thesis unfolding eq by simp
qed

lemma unat_ticks_to_ms:
  assumes "unat ticks < 429496700"
  shows "unat (krhino_ticks_to_ms ticks) = unat ticks * 10"
proof -
  have "unat (ticks div 100 * 1000) = unat ticks div 100 * 1000" using assms by (simp add: unat_word_ariths unat_div)
  moreover have "unat ((ticks mod 100) * 1000 div 100) = unat ticks mod 100 * 10" by (simp add: unat_word_ariths unat_div unat_mod)
  moreover have "unat ticks div 100 * 1000 + unat ticks mod 100 * 10 = unat ticks * 10"
    using div_mult_mod_eq [of "unat ticks" 100] by linarith
  moreover have "unat ticks * 10 < 2 ^ 64" using assms by simp
  ultimately show ?thesis
    by (simp add: krhino_ticks_to_ms_def Let_def unat_word_ariths unsigned_ucast_eq take_bit_eq_mod)
qed

text \<open>A delay given in milliseconds is rounded up to ticks of ten milliseconds, never down, as long as the result fits in 32 bits.\<close>

theorem ms_to_ticks_rounds_up:
  assumes "unat ms \<le> 10 * (2 ^ 32 - 1)"
  shows "unat ms \<le> 10 * unat (krhino_ms_to_ticks ms) \<and> 10 * unat (krhino_ms_to_ticks ms) < unat ms + 10"
  unfolding unat_ms_to_ticks [OF assms] by presburger

theorem ms_to_ticks_rounds_up_witness: "unat (1501 :: u64) \<le> 10 * unat (krhino_ms_to_ticks 1501) \<and> 10 * unat (krhino_ms_to_ticks 1501) < 1511"
  using ms_to_ticks_rounds_up [of 1501] by simp

text \<open>Converting ticks to milliseconds and back gives the same number of ticks, below the point where the 32 bit product in the conversion wraps around; there,
  one more tick takes the result from more than 49 days back to a few milliseconds.\<close>

theorem ticks_ms_roundtrip:
  assumes "unat ticks < 429496700"
  shows "krhino_ms_to_ticks (krhino_ticks_to_ms ticks) = ticks \<and> krhino_ticks_to_ms 429496799 = 4294967990 \<and> krhino_ticks_to_ms 429496800 = 704"
proof -
  have "unat (krhino_ms_to_ticks (krhino_ticks_to_ms ticks)) = unat ticks"
    using unat_ms_to_ticks [of "krhino_ticks_to_ms ticks"] unat_ticks_to_ms [OF assms] assms by simp
  then show ?thesis by (simp add: word_unat_eq_iff krhino_ticks_to_ms_def Let_def)
qed

theorem ticks_ms_roundtrip_witness: "krhino_ms_to_ticks (krhino_ticks_to_ms 12345) = 12345"
  using ticks_ms_roundtrip [of 12345] by simp

end
