(* ===== verification/Ring.thy ===== *)
theory Ring
  imports Rhino_Prelude
begin

text \<open>
  Byte buffers that are used as rings, shared by \<^verbatim>\<open>k_fifo.c\<close> and \<^verbatim>\<open>k_ringbuf.c\<close>: reading and writing a
  piece of memory (\<open>memcpy\<close>), and the abstract contents of a ring, the \<open>n\<close> elements from a position
  on with wrap-around.  The locale \<open>byte_queue\<close> is the contract of a queue of bytes that both buffers
  implement.
\<close>

section \<open>Memory\<close>

definition mem_write :: "nat \<Rightarrow> 'a list \<Rightarrow> 'a list \<Rightarrow> 'a list" where
  "mem_write off xs mem = take off mem @ xs @ drop (off + length xs) mem"

definition mem_read :: "nat \<Rightarrow> nat \<Rightarrow> 'a list \<Rightarrow> 'a list" where
  "mem_read off n mem = take n (drop off mem)"

lemma length_mem_write [simp]: "off + length xs \<le> length mem \<Longrightarrow> length (mem_write off xs mem) = length mem"
  by (simp add: mem_write_def)

lemma mem_write_Nil [simp]: "mem_write off [] mem = mem"
  by (simp add: mem_write_def)

lemma nth_mem_write:
  "off + length xs \<le> length mem \<Longrightarrow> i < length mem \<Longrightarrow>
   mem_write off xs mem ! i = (if off \<le> i \<and> i < off + length xs then xs ! (i - off) else mem ! i)"
  by (auto simp: mem_write_def nth_append min_def)

lemma length_mem_read [simp]: "off + n \<le> length mem \<Longrightarrow> length (mem_read off n mem) = n"
  by (simp add: mem_read_def)

section \<open>Ring contents\<close>

definition ring :: "'a list \<Rightarrow> nat \<Rightarrow> nat \<Rightarrow> 'a list" where
  "ring mem p n = map (\<lambda>i. mem ! ((p + i) mod length mem)) [0..<n]"

lemma length_ring [simp]: "length (ring mem p n) = n"
  by (simp add: ring_def)

lemma ring_0 [simp]: "ring mem p 0 = []"
  by (simp add: ring_def)

lemma nth_ring: "i < n \<Longrightarrow> ring mem p n ! i = mem ! ((p + i) mod length mem)"
  by (simp add: ring_def)

lemma ring_cong: "p mod length mem = q mod length mem \<Longrightarrow> ring mem p n = ring mem q n"
  unfolding ring_def by (metis mod_add_left_eq)

lemma ring_add: "ring mem p (m + n) = ring mem p m @ ring mem (p + m) n"
  by (rule nth_equalityI) (auto simp: nth_ring nth_append algebra_simps)

lemma ring_read:
  assumes "p + n \<le> length mem"
  shows "ring mem p n = mem_read p n mem"
  by (rule nth_equalityI) (use assms in \<open>auto simp: nth_ring mem_read_def\<close>)

lemma take_ring: "k \<le> n \<Longrightarrow> take k (ring mem p n) = ring mem p k"
  by (rule nth_equalityI) (auto simp: nth_ring)

lemma drop_ring: "k \<le> n \<Longrightarrow> drop k (ring mem p n) = ring mem (p + k) (n - k)"
  by (rule nth_equalityI) (auto simp: nth_ring algebra_simps)

lemma mod_shift_inj:
  fixes a :: nat
  assumes "(a + i) mod n = (a + j) mod n" and "i < n" and "j < n"
  shows "i = j"
proof -
  have "(int a + int i) mod int n = (int a + int j) mod int n"
    using assms(1) by (metis of_nat_add zmod_int)
  then have "int i mod int n = int j mod int n"
    by (metis add_diff_cancel_left' mod_diff_left_eq)
  then show ?thesis using assms(2,3) by simp
qed

text \<open>Writing one contiguous piece behind the contents of a ring appends it.\<close>

lemma ring_write:
  assumes off: "off = (p + n) mod length mem" and xs: "off + length xs \<le> length mem" and fit: "n + length xs \<le> length mem"
  shows "ring (mem_write off xs mem) p (n + length xs) = ring mem p n @ xs"
proof (rule nth_equalityI)
  fix i assume i: "i < length (ring (mem_write off xs mem) p (n + length xs))"
  then have less: "i < length mem" using fit by simp
  let ?q = "(p + i) mod length mem"
  have bound: "?q < length mem" by (rule mod_less_divisor) (use less in linarith)
  have l: "ring (mem_write off xs mem) p (n + length xs) ! i = mem_write off xs mem ! ?q"
    using i xs by (simp add: nth_ring)
  have old: "\<not> (off \<le> ?q \<and> ?q < off + length xs)" if "i < n"
  proof
    assume q: "off \<le> ?q \<and> ?q < off + length xs"
    then obtain j where j: "?q = off + j" "j < length xs" by (metis add_less_cancel_left le_Suc_ex)
    have "(p + i) mod length mem = (p + (n + j)) mod length mem"
    proof -
      have "(p + (n + j)) mod length mem = (off + j) mod length mem"
        unfolding off by (metis add.assoc mod_add_left_eq)
      moreover have "(off + j) mod length mem = off + j" using j(1) by (metis mod_mod_trivial)
      ultimately show ?thesis using j(1) by simp
    qed
    then have "i = n + j" by (rule mod_shift_inj) (use less j(2) fit in simp_all)
    then show False using that by simp
  qed
  have new: "?q = off + (i - n)" if "\<not> i < n"
  proof -
    have "(p + i) mod length mem = (off + (i - n)) mod length mem"
      unfolding off using that by (metis add.assoc le_add_diff_inverse mod_add_left_eq not_less)
    moreover have "off + (i - n) < length mem" using i xs that by simp
    ultimately show ?thesis by simp
  qed
  show "ring (mem_write off xs mem) p (n + length xs) ! i = (ring mem p n @ xs) ! i"
  proof (cases "i < n")
    case True
    then show ?thesis using l old nth_mem_write [OF xs bound] by (simp add: nth_append nth_ring)
  next
    case False
    then obtain j where j: "i = n + j" by (metis le_add_diff_inverse not_less)
    then show ?thesis using l new nth_mem_write [OF xs bound] i xs by (simp add: nth_append)
  qed
qed simp

text \<open>Writing one contiguous piece in front of the contents of a ring.\<close>

lemma ring_write_front:
  assumes xs: "off + length xs \<le> length mem" and fit: "length xs + n \<le> length mem"
  shows "ring (mem_write off xs mem) off (length xs + n) = xs @ ring mem (off + length xs) n"
proof (rule nth_equalityI)
  fix i assume i: "i < length (ring (mem_write off xs mem) off (length xs + n))"
  then have less: "i < length mem" using fit by simp
  let ?q = "(off + i) mod length mem"
  have bound: "?q < length mem" by (rule mod_less_divisor) (use less in linarith)
  have l: "ring (mem_write off xs mem) off (length xs + n) ! i = mem_write off xs mem ! ?q" using i xs by (simp add: nth_ring)
  show "ring (mem_write off xs mem) off (length xs + n) ! i = (xs @ ring mem (off + length xs) n) ! i"
  proof (cases "i < length xs")
    case True
    then have "?q = off + i" using xs by simp
    then show ?thesis using True l nth_mem_write [OF xs bound] by (simp add: nth_append)
  next
    case False
    have "\<not> (off \<le> ?q \<and> ?q < off + length xs)"
    proof
      assume q: "off \<le> ?q \<and> ?q < off + length xs"
      then obtain j where j: "?q = off + j" "j < length xs" by (metis add_less_cancel_left le_Suc_ex)
      have "(off + i) mod length mem = (off + j) mod length mem" using j(1) by (metis mod_mod_trivial)
      then have "i = j" by (rule mod_shift_inj) (use less j(2) fit in simp_all)
      then show False using False j(2) by simp
    qed
    moreover have "off + length xs + (i - length xs) = off + i" using False by simp
    ultimately show ?thesis using False i l nth_mem_write [OF xs bound] by (auto simp: nth_append nth_ring)
  qed
qed (use fit in simp)

section \<open>Queues of bytes\<close>

text \<open>
  \<open>bytes\<close> are the contents of a buffer, \<open>room\<close> how many more it takes.  \<open>put\<close> appends as much as there
  is room for, \<open>get n\<close> removes up to \<open>n\<close> bytes from the front.
\<close>

locale byte_queue =
  fixes ok :: "'q \<Rightarrow> bool" and bytes :: "'q \<Rightarrow> 'b list" and room :: "'q \<Rightarrow> nat"
    and put :: "'b list \<Rightarrow> 'q \<Rightarrow> 'q" and get :: "nat \<Rightarrow> 'q \<Rightarrow> 'b list \<times> 'q"
  assumes put_ok: "ok q \<Longrightarrow> ok (put xs q)"
    and put_bytes: "ok q \<Longrightarrow> bytes (put xs q) = bytes q @ take (room q) xs"
    and put_room: "ok q \<Longrightarrow> room (put xs q) = room q - length xs"
    and get_ok: "ok q \<Longrightarrow> ok (snd (get n q))"
    and get_eq: "ok q \<Longrightarrow> fst (get n q) = take n (bytes q) \<and> bytes (snd (get n q)) = drop n (bytes q)"
    and get_room: "ok q \<Longrightarrow> room (snd (get n q)) = room q + min n (length (bytes q))"
begin

lemma capacity: "ok q \<Longrightarrow> room (put xs q) + length (bytes (put xs q)) = room q + length (bytes q)"
  by (simp add: put_bytes put_room)

text \<open>What fits goes in and comes out unchanged and in order.\<close>

lemma put_get:
  assumes "ok q" and "length xs \<le> room q"
  shows "fst (get (length (bytes q) + length xs) (put xs q)) = bytes q @ xs"
  using assms by (simp add: put_bytes put_ok get_eq)

lemma puts_bytes:
  assumes "ok q" and "length (concat xss) \<le> room q"
  shows "ok (fold put xss q) \<and> bytes (fold put xss q) = bytes q @ concat xss"
  using assms
proof (induction xss arbitrary: q)
  case (Cons xs xss)
  have "length (concat xss) \<le> room (put xs q)" using Cons.prems by (simp add: put_room)
  then show ?case using Cons.IH [OF put_ok [OF Cons.prems(1)]] Cons.prems by (simp add: put_bytes)
qed simp

end

end
