(* ===== verification/Fifo.thy ===== *)
theory Fifo
  imports Ring
begin

text \<open>
  The byte FIFO of \<^verbatim>\<open>kernel/rhino/core/k_fifo.c\<close>: a buffer whose size is a power of two, with free-running
  32 bit indices \<open>in\<close> and \<open>out\<close>.  \<open>fifo_ok\<close> is its invariant and \<open>fifo_bytes\<close> its contents; the calls
  implement a bounded queue of bytes, also when the indices wrap around.  A buffer argument is the
  list of the bytes behind the pointer.
\<close>

section \<open>Operations\<close>

record k_fifo =
  fifo_in_idx :: u32
  fifo_out_idx :: u32
  fifo_mask :: u32
  fifo_data :: "u8 list"
  fifo_free_bytes :: u32
  fifo_size :: u32

definition fifo_unused :: "k_fifo \<Rightarrow> u32" where
  "fifo_unused f = (fifo_mask f + 1) - (fifo_in_idx f - fifo_out_idx f)"

definition is_power_of_2 :: "u32 \<Rightarrow> bool" where
  "is_power_of_2 n \<longleftrightarrow> n \<noteq> 0 \<and> (n AND (n - 1)) = 0"

definition fifo_init :: "k_fifo \<Rightarrow> u8 list \<Rightarrow> u32 \<Rightarrow> u8 \<times> k_fifo" where
  "fifo_init f buffer sz =
     (if \<not> is_power_of_2 sz then (1, f)
      else
        let f1 = f\<lparr>fifo_in_idx := 0, fifo_out_idx := 0, fifo_data := buffer\<rparr>
        in if sz < 2 then (1, f1\<lparr>fifo_mask := 0\<rparr>)
           else (0, f1\<lparr>fifo_mask := sz - 1, fifo_free_bytes := sz, fifo_size := sz\<rparr>))"

definition fifo_min :: "u32 \<Rightarrow> u32 \<Rightarrow> u32" where
  "fifo_min x y = (if x > y then y else x)"

definition fifo_copy_in :: "k_fifo \<Rightarrow> u8 list \<Rightarrow> u32 \<Rightarrow> u32 \<Rightarrow> k_fifo" where
  "fifo_copy_in f src len off =
     (let sz = fifo_mask f + 1;
          off = off AND fifo_mask f;
          l = fifo_min len (sz - off);
          d1 = mem_write (unat off) (take (unat l) src) (fifo_data f);
          d2 = mem_write 0 (take (unat (len - l)) (drop (unat l) src)) d1
      in f\<lparr>fifo_data := d2\<rparr>)"

definition fifo_in :: "k_fifo \<Rightarrow> u8 list \<Rightarrow> u32 \<Rightarrow> u32 \<times> k_fifo" where
  "fifo_in f buf len =
     (let l = fifo_unused f;
          len = (if len > l then l else len);
          f1 = fifo_copy_in f buf len (fifo_in_idx f)
      in (len, f1\<lparr>fifo_in_idx := fifo_in_idx f1 + len, fifo_free_bytes := fifo_free_bytes f1 - len\<rparr>))"

text \<open>The bytes written to \<open>dst\<close>.\<close>

definition kfifo_copy_out :: "k_fifo \<Rightarrow> u32 \<Rightarrow> u32 \<Rightarrow> u8 list" where
  "kfifo_copy_out f len off =
     (let sz = fifo_mask f + 1;
          off = off AND fifo_mask f;
          l = fifo_min len (sz - off)
      in mem_read (unat off) (unat l) (fifo_data f) @ mem_read 0 (unat (len - l)) (fifo_data f))"

definition internal_fifo_out_peek :: "k_fifo \<Rightarrow> u32 \<Rightarrow> u32 \<times> u8 list" where
  "internal_fifo_out_peek f len =
     (let l = fifo_in_idx f - fifo_out_idx f;
          len = (if len > l then l else len)
      in (len, kfifo_copy_out f len (fifo_out_idx f)))"

definition fifo_out_peek :: "k_fifo \<Rightarrow> u32 \<Rightarrow> u32 \<times> u8 list" where
  "fifo_out_peek f len = internal_fifo_out_peek f len"

definition fifo_out :: "k_fifo \<Rightarrow> u32 \<Rightarrow> u32 \<times> u8 list \<times> k_fifo" where
  "fifo_out f len =
     (let (len, buf) = internal_fifo_out_peek f len
      in (len, buf, f\<lparr>fifo_out_idx := fifo_out_idx f + len, fifo_free_bytes := fifo_free_bytes f + len\<rparr>))"

definition fifo_out_all :: "k_fifo \<Rightarrow> u32 \<times> u8 list \<times> k_fifo" where
  "fifo_out_all f =
     (let len = fifo_size f - fifo_free_bytes f
      in if len = 0 then (0, [], f)
         else
           let (len, buf) = internal_fifo_out_peek f len
           in (len, buf, f\<lparr>fifo_out_idx := fifo_out_idx f + len, fifo_free_bytes := fifo_free_bytes f + len\<rparr>))"

section \<open>Invariant and contents\<close>

definition fifo_count :: "k_fifo \<Rightarrow> nat" where
  "fifo_count f = unat (fifo_in_idx f - fifo_out_idx f)"

definition fifo_ok :: "k_fifo \<Rightarrow> bool" where
  "fifo_ok f \<longleftrightarrow> (\<exists>e. 0 < e \<and> e < 32 \<and> length (fifo_data f) = 2 ^ e \<and> fifo_size f = 2 ^ e) \<and>
     fifo_mask f = fifo_size f - 1 \<and> fifo_count f \<le> length (fifo_data f) \<and>
     fifo_free_bytes f = fifo_size f - (fifo_in_idx f - fifo_out_idx f)"

definition fifo_bytes :: "k_fifo \<Rightarrow> u8 list" where
  "fifo_bytes f = ring (fifo_data f) (unat (fifo_out_idx f)) (fifo_count f)"

definition fifo_room :: "k_fifo \<Rightarrow> nat" where
  "fifo_room f = length (fifo_data f) - fifo_count f"

lemma length_fifo_bytes [simp]: "length (fifo_bytes f) = fifo_count f"
  by (simp add: fifo_bytes_def)

lemma unat_exp: "e < 32 \<Longrightarrow> unat (2 ^ e :: u32) = 2 ^ e"
proof -
  assume "e < 32"
  then have "(2 :: nat) ^ e < 2 ^ 32" by (rule power_strict_increasing) simp
  then show ?thesis using unat_of_nat [of "2 ^ e", where 'a = 32] by simp
qed

lemma unat_and_mask: "unat (x AND mask e :: u32) = unat x mod 2 ^ e"
  unfolding take_bit_eq_mask [symmetric] by (simp only: unsigned_take_bit_eq take_bit_eq_mod [where 'a = nat])

lemma unat_add_mod:
  assumes "e < 32"
  shows "unat (x + y :: u32) mod 2 ^ e = (unat x + unat y) mod 2 ^ e"
proof -
  have "(2 :: nat) ^ e dvd 2 ^ 32" using assms by (intro le_imp_power_dvd) simp
  then show ?thesis by (simp add: unat_word_ariths mod_mod_cancel)
qed

lemma copy_in_fields [simp]:
  "fifo_in_idx (fifo_copy_in f b n x) = fifo_in_idx f" "fifo_out_idx (fifo_copy_in f b n x) = fifo_out_idx f"
  "fifo_mask (fifo_copy_in f b n x) = fifo_mask f" "fifo_free_bytes (fifo_copy_in f b n x) = fifo_free_bytes f"
  "fifo_size (fifo_copy_in f b n x) = fifo_size f"
  by (simp_all add: fifo_copy_in_def Let_def)

lemma fifo_okE:
  assumes "fifo_ok f"
  obtains e where "0 < e" "e < 32" "length (fifo_data f) = 2 ^ e" "fifo_mask f = mask e" "fifo_mask f + 1 = 2 ^ e"
    "unat (fifo_mask f + 1) = length (fifo_data f)" "fifo_count f \<le> length (fifo_data f)" "fifo_size f = 2 ^ e"
proof -
  obtain e where e: "0 < e" "e < 32" "length (fifo_data f) = 2 ^ e" "fifo_size f = 2 ^ e"
    "fifo_mask f = fifo_size f - 1" "fifo_count f \<le> length (fifo_data f)"
    using assms by (auto simp: fifo_ok_def)
  then show ?thesis using that [of e] unat_exp [OF e(2)] by (simp add: mask_eq_exp_minus_1)
qed

text \<open>The write position is the end of the contents.\<close>

lemma in_position:
  assumes "fifo_ok f"
  shows "unat (fifo_in_idx f) mod length (fifo_data f) = (unat (fifo_out_idx f) + fifo_count f) mod length (fifo_data f)"
proof -
  obtain e where e: "e < 32" "length (fifo_data f) = 2 ^ e" using assms by (auto simp: fifo_ok_def)
  show ?thesis
    using unat_add_mod [OF e(1), of "fifo_out_idx f" "fifo_in_idx f - fifo_out_idx f"] by (simp add: e(2) fifo_count_def)
qed

lemma fifo_unused_room:
  assumes "fifo_ok f"
  shows "unat (fifo_unused f) = fifo_room f"
proof (rule fifo_okE [OF assms])
  fix e
  assume e: "unat (fifo_mask f + 1) = length (fifo_data f)" "fifo_count f \<le> length (fifo_data f)"
  then have "fifo_in_idx f - fifo_out_idx f \<le> fifo_mask f + 1" by (simp add: word_le_nat_alt fifo_count_def)
  then show ?thesis using e(1) by (simp add: fifo_unused_def fifo_room_def fifo_count_def unat_sub)
qed

text \<open>The two copies cover a piece that wraps around the end of the buffer.\<close>

lemma copy_split:
  fixes x :: u32
  assumes "fifo_ok f" and "unat len \<le> length (fifo_data f)"
  defines "off \<equiv> unat x mod length (fifo_data f)"
  defines "l \<equiv> min (unat len) (length (fifo_data f) - off)"
  shows "unat (x AND fifo_mask f) = off" and "unat (fifo_min len (fifo_mask f + 1 - (x AND fifo_mask f))) = l"
    and "unat (len - fifo_min len (fifo_mask f + 1 - (x AND fifo_mask f))) = unat len - l" and "off < length (fifo_data f)"
proof -
  obtain e where e: "length (fifo_data f) = 2 ^ e" "fifo_mask f = mask e" "unat (fifo_mask f + 1) = length (fifo_data f)"
    by (rule fifo_okE [OF assms(1)]) blast
  show off: "unat (x AND fifo_mask f) = off" using unat_and_mask [of x e] by (simp add: off_def e(1,2))
  show less: "off < length (fifo_data f)" by (simp add: off_def e(1))
  then have "x AND fifo_mask f \<le> fifo_mask f + 1" using off e(3) by (simp add: word_le_nat_alt)
  then have sub: "unat (fifo_mask f + 1 - (x AND fifo_mask f)) = length (fifo_data f) - off" using off e(3) by (simp add: unat_sub)
  then show l: "unat (fifo_min len (fifo_mask f + 1 - (x AND fifo_mask f))) = l"
    by (auto simp: fifo_min_def l_def word_less_nat_alt)
  then have "fifo_min len (fifo_mask f + 1 - (x AND fifo_mask f)) \<le> len" by (simp add: word_le_nat_alt l_def)
  then show "unat (len - fifo_min len (fifo_mask f + 1 - (x AND fifo_mask f))) = unat len - l" using l by (simp add: unat_sub)
qed

lemma copy_in_bytes:
  assumes "fifo_ok f" and "unat len \<le> fifo_room f" and "unat len \<le> length buf"
  shows "length (fifo_data (fifo_copy_in f buf len (fifo_in_idx f))) = length (fifo_data f)"
    and "ring (fifo_data (fifo_copy_in f buf len (fifo_in_idx f))) (unat (fifo_out_idx f)) (fifo_count f + unat len) =
      fifo_bytes f @ take (unat len) buf"
proof -
  define d off n p where defs: "d = fifo_data f" "off = unat (fifo_in_idx f) mod length (fifo_data f)" "n = unat len" "p = unat (fifo_out_idx f)"
  define l where "l = min n (length d - off)"
  have fit: "fifo_count f + n \<le> length d" "n \<le> length d" using assms(1,2) by (auto simp: fifo_room_def defs fifo_ok_def)
  have off: "off = (p + fifo_count f) mod length d" using in_position [OF assms(1)] by (simp add: defs)
  have split: "unat (fifo_in_idx f AND fifo_mask f) = off" "unat (fifo_min len (fifo_mask f + 1 - (fifo_in_idx f AND fifo_mask f))) = l"
    "unat (len - fifo_min len (fifo_mask f + 1 - (fifo_in_idx f AND fifo_mask f))) = n - l" "off < length d"
    using copy_split [OF assms(1), of len "fifo_in_idx f"] fit(2) by (simp_all add: defs l_def)
  define d1 where "d1 = mem_write off (take l buf) d"
  define d2 where "d2 = mem_write 0 (take (n - l) (drop l buf)) d1"
  have data: "fifo_data (fifo_copy_in f buf len (fifo_in_idx f)) = d2"
    by (simp add: fifo_copy_in_def Let_def split d2_def d1_def defs(1))
  have ln: "length (take l buf) = l" "length (take (n - l) (drop l buf)) = n - l" "l \<le> n" using assms(3) by (auto simp: l_def defs)
  have room: "off + l \<le> length d" "fifo_count f + l \<le> length d" using fit(1) ln(3) split(4) by (simp_all add: l_def)
  have l1: "length d1 = length d" using ln(1) room by (simp add: d1_def)
  have r1: "ring d1 p (fifo_count f + l) = ring d p (fifo_count f) @ take l buf"
    using ring_write [OF off, of "take l buf"] ln(1) room by (simp add: d1_def)
  have r2: "ring d2 p (fifo_count f + n) = ring d p (fifo_count f) @ take n buf"
  proof (cases "n = l")
    case True
    then show ?thesis using r1 by (simp add: d2_def)
  next
    case False
    then have l: "l = length d - off" "l < n" by (auto simp: l_def)
    have "(p + (fifo_count f + l)) mod length d = (off + l) mod length d" unfolding off by (metis add.assoc mod_add_left_eq)
    then have "0 = (p + (fifo_count f + l)) mod length d1" using l split(4) l1 by simp
    from ring_write [OF this, of "take (n - l) (drop l buf)"] have "ring d2 p (fifo_count f + l + (n - l)) = ring d1 p (fifo_count f + l) @ take (n - l) (drop l buf)"
      using ln fit l1 by (simp add: d2_def)
    moreover have "take l buf @ take (n - l) (drop l buf) = take n buf" using l(2) by (metis le_add_diff_inverse less_imp_le take_add)
    ultimately show ?thesis using r1 l(2) by simp
  qed
  show "length (fifo_data (fifo_copy_in f buf len (fifo_in_idx f))) = length (fifo_data f)"
    using data l1 ln fit by (simp add: d2_def defs(1))
  show "ring (fifo_data (fifo_copy_in f buf len (fifo_in_idx f))) (unat (fifo_out_idx f)) (fifo_count f + unat len) = fifo_bytes f @ take (unat len) buf"
    using r2 by (simp add: data fifo_bytes_def defs)
qed

lemma fifo_in_effect:
  assumes "fifo_ok f" and "unat len \<le> length buf"
  shows "unat (fst (fifo_in f buf len)) = min (unat len) (fifo_room f)" and "fifo_ok (snd (fifo_in f buf len))"
    and "fifo_bytes (snd (fifo_in f buf len)) = fifo_bytes f @ take (min (unat len) (fifo_room f)) buf"
    and "fifo_count (snd (fifo_in f buf len)) = fifo_count f + min (unat len) (fifo_room f)"
    and "length (fifo_data (snd (fifo_in f buf len))) = length (fifo_data f)"
proof -
  define n where "n = (if len > fifo_unused f then fifo_unused f else len)"
  have n: "unat n = min (unat len) (fifo_room f)"
    using fifo_unused_room [OF assms(1)] by (auto simp: n_def word_less_nat_alt)
  let ?g = "fifo_copy_in f buf n (fifo_in_idx f)"
  note cp = copy_in_bytes [OF assms(1), of n buf]
  have in_eq: "fifo_in f buf len = (n, ?g\<lparr>fifo_in_idx := fifo_in_idx f + n, fifo_free_bytes := fifo_free_bytes f - n\<rparr>)"
    by (simp add: fifo_in_def Let_def n_def)
  let ?f = "snd (fifo_in f buf len)"
  have room: "fifo_count f + unat n \<le> length (fifo_data f)" using n assms(1) by (auto simp: fifo_room_def fifo_ok_def)
  obtain e where e: "e < 32" "length (fifo_data f) = 2 ^ e" using assms(1) by (auto simp: fifo_ok_def)
  have small: "length (fifo_data f) < 2 ^ 32" unfolding e(2) by (rule power_strict_increasing [OF e(1)]) simp
  have "unat (fifo_in_idx f + n - fifo_out_idx f) = unat ((fifo_in_idx f - fifo_out_idx f) + n)" by (simp add: algebra_simps)
  also have "\<dots> = fifo_count f + unat n" using room small by (simp add: fifo_count_def unat_word_ariths)
  finally have cnt: "fifo_count ?f = fifo_count f + unat n" by (simp add: in_eq fifo_count_def)
  show "unat (fst (fifo_in f buf len)) = min (unat len) (fifo_room f)" using n by (simp add: in_eq)
  show "fifo_count ?f = fifo_count f + min (unat len) (fifo_room f)" using cnt n by simp
  show len: "length (fifo_data ?f) = length (fifo_data f)" using cp(1) n assms(2) by (simp add: in_eq)
  show "fifo_bytes ?f = fifo_bytes f @ take (min (unat len) (fifo_room f)) buf"
    using cp(2) n assms(2) cnt by (simp add: fifo_bytes_def in_eq)
  show "fifo_ok ?f"
    using assms(1) cnt room len unfolding fifo_ok_def by (simp add: in_eq algebra_simps)
qed

lemma copy_out_bytes:
  assumes "fifo_ok f" and "unat len \<le> fifo_count f"
  shows "kfifo_copy_out f len (fifo_out_idx f) = take (unat len) (fifo_bytes f)"
proof -
  define d off n where defs: "d = fifo_data f" "off = unat (fifo_out_idx f) mod length (fifo_data f)" "n = unat len"
  define l where "l = min n (length d - off)"
  have fit: "n \<le> length d" using assms by (simp add: fifo_ok_def defs)
  have split: "unat (fifo_out_idx f AND fifo_mask f) = off" "unat (fifo_min len (fifo_mask f + 1 - (fifo_out_idx f AND fifo_mask f))) = l"
    "unat (len - fifo_min len (fifo_mask f + 1 - (fifo_out_idx f AND fifo_mask f))) = n - l" "off < length d"
    using copy_split [OF assms(1), of len "fifo_out_idx f"] fit by (simp_all add: defs l_def)
  have out: "kfifo_copy_out f len (fifo_out_idx f) = ring d off l @ ring d 0 (n - l)"
    using split fit by (simp add: kfifo_copy_out_def Let_def ring_read l_def flip: defs(1))
  have "ring d 0 (n - l) = ring d (off + l) (n - l)"
  proof (cases "n = l")
    case False
    then have "off + l = length d" using split(4) by (simp add: l_def)
    then show ?thesis by (intro ring_cong) simp
  qed simp
  then have "kfifo_copy_out f len (fifo_out_idx f) = ring d off n"
    using out ring_add [of d off l "n - l"] by (simp add: l_def)
  also have "\<dots> = ring d (unat (fifo_out_idx f)) n" by (rule ring_cong) (simp add: defs)
  finally show ?thesis using assms(2) by (simp add: fifo_bytes_def take_ring defs)
qed

lemma fifo_peek_effect:
  assumes "fifo_ok f"
  shows "unat (fst (internal_fifo_out_peek f len)) = min (unat len) (fifo_count f)"
    and "snd (internal_fifo_out_peek f len) = take (unat len) (fifo_bytes f)"
proof -
  define n where "n = (if len > fifo_in_idx f - fifo_out_idx f then fifo_in_idx f - fifo_out_idx f else len)"
  have n: "unat n = min (unat len) (fifo_count f)" by (auto simp: n_def fifo_count_def word_less_nat_alt)
  have eq: "internal_fifo_out_peek f len = (n, kfifo_copy_out f n (fifo_out_idx f))"
    by (simp add: internal_fifo_out_peek_def Let_def n_def)
  show "unat (fst (internal_fifo_out_peek f len)) = min (unat len) (fifo_count f)" using eq n by simp
  show "snd (internal_fifo_out_peek f len) = take (unat len) (fifo_bytes f)"
    using eq n copy_out_bytes [OF assms, of n] by (cases "unat len \<le> fifo_count f") simp_all
qed

lemma fifo_out_effect:
  assumes "fifo_ok f"
  shows "unat (fst (fifo_out f len)) = min (unat len) (fifo_count f)" and "fst (snd (fifo_out f len)) = take (unat len) (fifo_bytes f)"
    and "fifo_ok (snd (snd (fifo_out f len)))" and "fifo_bytes (snd (snd (fifo_out f len))) = drop (unat len) (fifo_bytes f)"
    and "fifo_count (snd (snd (fifo_out f len))) = fifo_count f - unat len" "fifo_data (snd (snd (fifo_out f len))) = fifo_data f"
proof -
  obtain n b where p: "internal_fifo_out_peek f len = (n, b)" by fastforce
  have n: "unat n = min (unat len) (fifo_count f)" and b: "b = take (unat len) (fifo_bytes f)"
    using fifo_peek_effect [OF assms, of len] p by simp_all
  let ?f = "f\<lparr>fifo_out_idx := fifo_out_idx f + n, fifo_free_bytes := fifo_free_bytes f + n\<rparr>"
  have out: "fifo_out f len = (n, b, ?f)" by (simp add: fifo_out_def p)
  have "n \<le> fifo_in_idx f - fifo_out_idx f" using n by (simp add: word_le_nat_alt fifo_count_def)
  then have cnt: "fifo_count ?f = fifo_count f - unat n"
    by (simp add: fifo_count_def unat_sub diff_diff_eq [symmetric])
  obtain e where e: "e < 32" "length (fifo_data f) = 2 ^ e" using assms by (auto simp: fifo_ok_def)
  have pos: "unat (fifo_out_idx f + n) mod length (fifo_data f) = (unat (fifo_out_idx f) + unat n) mod length (fifo_data f)"
    using unat_add_mod [OF e(1)] e(2) by simp
  have "fifo_bytes ?f = ring (fifo_data f) (unat (fifo_out_idx f) + unat n) (fifo_count f - unat n)"
    unfolding fifo_bytes_def cnt using ring_cong [OF pos] by simp
  also have "\<dots> = drop (unat n) (fifo_bytes f)" using n by (simp add: fifo_bytes_def drop_ring)
  also have "\<dots> = drop (unat len) (fifo_bytes f)" using n by (auto simp: min_def)
  finally show "fifo_bytes (snd (snd (fifo_out f len))) = drop (unat len) (fifo_bytes f)" by (simp add: out)
  have "fifo_count f - unat n \<le> length (fifo_data f)" using assms by (auto simp: fifo_ok_def intro: order_trans [OF diff_le_self])
  then show "fifo_ok (snd (snd (fifo_out f len)))"
    using assms cnt unfolding fifo_ok_def by (simp add: out algebra_simps)
  show "fifo_count (snd (snd (fifo_out f len))) = fifo_count f - unat len" using out cnt n by (simp add: min_def)
  show "unat (fst (fifo_out f len)) = min (unat len) (fifo_count f)" "fst (snd (fifo_out f len)) = take (unat len) (fifo_bytes f)"
    "fifo_data (snd (snd (fifo_out f len))) = fifo_data f" using n b by (simp_all add: out)
qed

section \<open>Initialisation\<close>

text \<open>The bit trick recognises the powers of two.\<close>

lemma is_power_of_2_iff: "is_power_of_2 n \<longleftrightarrow> (\<exists>e < 32. n = 2 ^ e)"
proof
  assume p: "is_power_of_2 n"
  then have "1 \<le> unat n" by (simp add: is_power_of_2_def unat_gt_0 Suc_le_eq)
  then obtain e where e: "2 ^ e \<le> unat n" "unat n < 2 ^ (e + 1)" using ex_power_ivl1 [of 2 "unat n"] by auto
  have "(2 :: nat) ^ e < 2 ^ 32" using order_le_less_trans [OF e(1) unsigned_less [of n]] by simp
  then have e32: "e < 32" by (rule power_less_imp_less_exp [rotated]) simp
  have "n = 2 ^ e"
  proof (rule ccontr)
    assume "n \<noteq> 2 ^ e"
    then have "unat n \<noteq> 2 ^ e" using unat_exp [OF e32] by (metis word_unat_eq_iff)
    moreover have "unat (n - 1) = unat n - 1" using \<open>1 \<le> unat n\<close> by (simp add: unat_sub word_le_nat_alt)
    ultimately have m: "2 ^ e \<le> unat (n - 1)" "unat (n - 1) < 2 ^ (e + 1)" using e by simp_all
    have "odd (m div 2 ^ e)" if "2 ^ e \<le> m" "m < 2 ^ (e + 1)" for m :: nat
    proof -
      have "m div 2 ^ e < 2" using that(2) by (simp add: less_mult_imp_div_less)
      moreover have "m div 2 ^ e \<noteq> 0" using that(1) by (simp add: div_eq_0_iff)
      ultimately show ?thesis by (simp add: odd_iff_mod_2_eq_one)
    qed
    then have "bit (unat n) e" "bit (unat (n - 1)) e" using e m by (simp_all add: bit_iff_odd)
    then have "bit (n AND (n - 1)) e" by (simp add: bit_and_iff bit_unsigned_iff)
    then show False using p by (simp add: is_power_of_2_def)
  qed
  then show "\<exists>e < 32. n = 2 ^ e" using e32 by blast
next
  assume "\<exists>e < 32. n = 2 ^ e"
  then obtain e where e: "e < 32" "n = 2 ^ e" by blast
  have "(2 :: u32) ^ e AND mask e = 0"
    by (rule bit_word_eqI) (auto simp: bit_and_iff bit_exp_iff bit_mask_iff)
  moreover have "(2 :: u32) ^ e \<noteq> 0" using unat_exp [OF e(1)] by (metis unat_0 power_not_zero zero_neq_numeral)
  ultimately show "is_power_of_2 n" using e(2) by (simp add: is_power_of_2_def mask_eq_exp_minus_1)
qed

lemma fifo_init_effect:
  assumes "length buffer = unat sz"
  shows "fst (fifo_init f buffer sz) = 0 \<longleftrightarrow> (\<exists>e. 0 < e \<and> e < 32 \<and> sz = 2 ^ e)"
    and "fst (fifo_init f buffer sz) = 0 \<Longrightarrow> fifo_ok (snd (fifo_init f buffer sz)) \<and> fifo_bytes (snd (fifo_init f buffer sz)) = [] \<and>
      fifo_room (snd (fifo_init f buffer sz)) = unat sz"
proof -
  have two: "(2 :: u32) ^ e < 2 \<longleftrightarrow> e = 0" if "e < 32" for e
    using unat_exp [OF that] by (cases e) (simp_all add: word_less_nat_alt)
  show iff: "fst (fifo_init f buffer sz) = 0 \<longleftrightarrow> (\<exists>e. 0 < e \<and> e < 32 \<and> sz = 2 ^ e)"
    using two by (auto simp: fifo_init_def is_power_of_2_iff Let_def)
  assume z: "fst (fifo_init f buffer sz) = 0"
  then obtain e where e: "0 < e" "e < 32" "sz = 2 ^ e" using iff by blast
  then have eq: "snd (fifo_init f buffer sz) = f\<lparr>fifo_in_idx := 0, fifo_out_idx := 0, fifo_data := buffer, fifo_mask := sz - 1, fifo_free_bytes := sz, fifo_size := sz\<rparr>"
    using z by (simp add: fifo_init_def Let_def split: if_splits)
  show "fifo_ok (snd (fifo_init f buffer sz)) \<and> fifo_bytes (snd (fifo_init f buffer sz)) = [] \<and> fifo_room (snd (fifo_init f buffer sz)) = unat sz"
    using e unat_exp [OF e(2)] assms unfolding eq fifo_ok_def fifo_bytes_def fifo_count_def fifo_room_def by auto
qed

section \<open>The FIFO as a queue of bytes\<close>

text \<open>A client's view: buffers longer than the 32 bit length argument are cut.\<close>

definition fifo_put :: "u8 list \<Rightarrow> k_fifo \<Rightarrow> k_fifo" where
  "fifo_put xs f = snd (fifo_in f xs (of_nat (min (length xs) (2 ^ 32 - 1))))"

definition fifo_get :: "nat \<Rightarrow> k_fifo \<Rightarrow> u8 list \<times> k_fifo" where
  "fifo_get n f = snd (fifo_out f (of_nat (min n (2 ^ 32 - 1))))"

lemma fifo_small:
  assumes "fifo_ok f"
  shows "length (fifo_data f) \<le> 2 ^ 31"
proof -
  obtain e where e: "e < 32" "length (fifo_data f) = 2 ^ e" using assms by (auto simp: fifo_ok_def)
  show ?thesis unfolding e(2) by (rule power_increasing) (use e(1) in simp_all)
qed

interpretation fifo: byte_queue fifo_ok fifo_bytes fifo_room fifo_put fifo_get
proof (unfold_locales, goal_cases)
  case (1 q xs)
  then show ?case using fifo_in_effect(2) [OF 1] by (simp add: fifo_put_def unat_of_nat)
next
  case (2 q xs)
  have "fifo_room q \<le> 2 ^ 31" using fifo_small [OF 2] by (simp add: fifo_room_def)
  then show ?case using fifo_in_effect(3) [OF 2, of _ xs] by (auto simp: fifo_put_def unat_of_nat min_def)
next
  case (3 q xs)
  let ?n = "of_nat (min (length xs) (2 ^ 32 - 1)) :: u32"
  have "fifo_room q \<le> 2 ^ 31" using fifo_small [OF 3] by (simp add: fifo_room_def)
  moreover have "unat ?n = min (length xs) (2 ^ 32 - 1)" by (simp add: unat_of_nat)
  ultimately show ?case
    using fifo_in_effect(4,5) [OF 3, of ?n xs] unfolding fifo_put_def fifo_room_def by (simp add: min_def split: if_splits)
next
  case (4 q n)
  then show ?case using fifo_out_effect(3) [OF 4] by (simp add: fifo_get_def)
next
  case (5 q n)
  have "length (fifo_bytes q) \<le> 2 ^ 31" using fifo_small [OF 5] 5 by (simp add: fifo_ok_def)
  then show ?case
    using fifo_out_effect(2,4) [OF 5, of "of_nat (min n (2 ^ 32 - 1))"] by (simp add: fifo_get_def unat_of_nat min_def split: if_splits)
next
  case (6 q n)
  have "fifo_count q \<le> 2 ^ 31" "fifo_count q \<le> length (fifo_data q)" using fifo_small [OF 6] 6 by (simp_all add: fifo_ok_def)
  then show ?case
    using fifo_out_effect(5,6) [OF 6, of "of_nat (min n (2 ^ 32 - 1))"]
    by (simp add: fifo_get_def fifo_room_def unat_of_nat min_def split: if_splits)
qed

section \<open>Theorems\<close>

text \<open>A FIFO of four bytes whose indices are about to wrap around.\<close>

definition fifo_example :: k_fifo where
  "fifo_example = \<lparr>fifo_in_idx = 0xFFFFFFFF, fifo_out_idx = 0xFFFFFFFE, fifo_mask = 3, fifo_data = [10, 11, 12, 13],
     fifo_free_bytes = 3, fifo_size = 4\<rparr>"

lemma fifo_example_ok: "fifo_ok fifo_example"
  unfolding fifo_ok_def fifo_count_def by (simp add: fifo_example_def, rule exI [of _ 2], simp)

lemma fifo_out_all_effect:
  assumes "fifo_ok f"
  shows "fst (snd (fifo_out_all f)) = fifo_bytes f" and "fifo_bytes (snd (snd (fifo_out_all f))) = []"
    and "fifo_ok (snd (snd (fifo_out_all f)))"
proof -
  have len: "fifo_size f - fifo_free_bytes f = fifo_in_idx f - fifo_out_idx f" using assms by (simp add: fifo_ok_def)
  have "fifo_bytes f = []" if "fifo_in_idx f - fifo_out_idx f = 0" using that by (simp add: fifo_bytes_def fifo_count_def)
  moreover have "fifo_out_all f = fifo_out f (fifo_in_idx f - fifo_out_idx f)" if "fifo_in_idx f - fifo_out_idx f \<noteq> 0"
    using that unfolding fifo_out_all_def fifo_out_def len by simp
  ultimately show "fst (snd (fifo_out_all f)) = fifo_bytes f" "fifo_bytes (snd (snd (fifo_out_all f))) = []" "fifo_ok (snd (snd (fifo_out_all f)))"
    using fifo_out_effect(2-4) [OF assms, of "fifo_in_idx f - fifo_out_idx f"] assms
    by (cases "fifo_in_idx f - fifo_out_idx f = 0"; simp add: fifo_out_all_def len fifo_count_def)+
qed

text \<open>C28: The FIFO refines a bounded queue of bytes.  Writing appends the longest prefix there is room for and reports its
  length, reading removes and returns the oldest bytes, peeking returns them without removing; the
  invariant is kept.  The indices run freely modulo \<open>2\<^sup>3\<^sup>2\<close>.\<close>

theorem fifo_refines_queue:
  assumes "fifo_ok f" and "unat len \<le> length buf"
  shows "fifo_ok (snd (fifo_in f buf len)) \<and> unat (fst (fifo_in f buf len)) = min (unat len) (fifo_room f) \<and>
    fifo_bytes (snd (fifo_in f buf len)) = fifo_bytes f @ take (min (unat len) (fifo_room f)) buf \<and>
    fifo_ok (snd (snd (fifo_out f n))) \<and> fst (snd (fifo_out f n)) = take (unat n) (fifo_bytes f) \<and>
    fifo_bytes (snd (snd (fifo_out f n))) = drop (unat n) (fifo_bytes f) \<and> snd (fifo_out_peek f n) = take (unat n) (fifo_bytes f)"
  using fifo_in_effect [OF assms] fifo_out_effect [OF assms(1)] fifo_peek_effect [OF assms(1)] by (simp add: fifo_out_peek_def)

theorem fifo_refines_queue_witness: "fifo_bytes (snd (fifo_in fifo_example [1, 2] 2)) = fifo_bytes fifo_example @ [1, 2]"
proof -
  have "fifo_room fifo_example = 3" by (simp add: fifo_room_def fifo_count_def fifo_example_def)
  then show ?thesis using fifo_refines_queue [OF fifo_example_ok, of 2 "[1, 2]" 0] by simp
qed

text \<open>Round trip.  Pieces that fit are read back by \<open>fifo_out_all\<close> concatenated, in the order in which they were written,
  behind what was in the FIFO before; afterwards it is empty.\<close>

theorem fifo_roundtrip:
  assumes "fifo_ok f" and "length (concat xss) \<le> fifo_room f"
  shows "fst (snd (fifo_out_all (fold fifo_put xss f))) = fifo_bytes f @ concat xss \<and>
    fifo_bytes (snd (snd (fifo_out_all (fold fifo_put xss f)))) = []"
  using fifo.puts_bytes [OF assms] fifo_out_all_effect [of "fold fifo_put xss f"] by simp

theorem fifo_roundtrip_witness: "fst (snd (fifo_out_all (fold fifo_put [[1, 2], [3]] fifo_example))) = [12, 1, 2, 3]"
proof -
  have "length (fifo_data fifo_example) = 4" "fifo_data fifo_example ! 2 = 12" "fifo_room fifo_example = 3"
    "unat (fifo_out_idx fifo_example) = 4294967294" "fifo_count fifo_example = 1"
    by (simp_all add: fifo_room_def fifo_count_def fifo_example_def)
  moreover from this have "fifo_bytes fifo_example = [12]" by (simp add: fifo_bytes_def ring_def)
  ultimately show ?thesis using fifo_roundtrip [OF fifo_example_ok, of "[[1, 2], [3]]"] by simp
qed

text \<open>\<open>fifo_init\<close> succeeds exactly for the sizes 2, 4, 8, \<dots>, \<open>2\<^sup>3\<^sup>1\<close>, and then gives an empty FIFO that holds that many bytes.\<close>

theorem fifo_init_accepts:
  assumes "length buffer = unat sz"
  shows "(fst (fifo_init f buffer sz) = 0 \<longleftrightarrow> (\<exists>e. 0 < e \<and> e < 32 \<and> sz = 2 ^ e)) \<and>
    (fst (fifo_init f buffer sz) = 0 \<longrightarrow> fifo_ok (snd (fifo_init f buffer sz)) \<and> fifo_bytes (snd (fifo_init f buffer sz)) = [] \<and>
      fifo_room (snd (fifo_init f buffer sz)) = unat sz)"
  using fifo_init_effect [OF assms] by blast

theorem fifo_init_accepts_witness: "fifo_ok (snd (fifo_init fifo_example [0, 0, 0, 0] 4))"
proof -
  have "fst (fifo_init fifo_example [0, 0, 0, 0] 4) = 0" by (simp add: fifo_init_def is_power_of_2_def Let_def)
  then show ?thesis using fifo_init_accepts [of "[0, 0, 0, 0]" 4 fifo_example] by simp
qed

end
