(* ===== verification/Ringbuf.thy ===== *)
theory Ringbuf
  imports Ring
begin

text \<open>
  The ring buffer of messages of \<^verbatim>\<open>kernel/rhino/core/k_ringbuf.c\<close>, the storage of queues and buffer queues.
  A buffer of the fixed type holds blocks of one size, one of the dynamic type holds messages of
  varying size, each behind its length in one to three bytes.  Pointers into the buffer are offsets
  from \<open>buf\<close>; \<open>rb_fault\<close> records a \<open>memcpy\<close> beyond the end of the buffer.  The theorems: both types
  are FIFO queues of messages (\<open>msg_queue\<close>), no copy leaves the buffer, and two deviations:
  \<open>krhino_ringbuf_is_full\<close> tests for emptiness, and \<open>ringbuf_head_push\<close> of the dynamic type garbles a
  message it has to split.
\<close>

section \<open>Operations\<close>

datatype (plugins only: code size) ringbuf_type = RINGBUF_TYPE_FIX | RINGBUF_TYPE_DYN

record k_ringbuf_t =
  rb_mem :: "u8 list"
  rb_head :: nat
  rb_tail :: nat
  rb_freesize :: nat
  rb_type :: ringbuf_type
  rb_blk_size :: nat
  rb_fault :: bool

abbreviation rb_end :: "k_ringbuf_t \<Rightarrow> nat" where
  "rb_end rb \<equiv> length (rb_mem rb)"

definition ringbuf_reset :: "k_ringbuf_t \<Rightarrow> kstat \<times> k_ringbuf_t" where
  "ringbuf_reset rb = (RHINO_SUCCESS, rb\<lparr>rb_head := 0, rb_tail := 0, rb_freesize := rb_end rb\<rparr>)"

definition ringbuf_init :: "k_ringbuf_t \<Rightarrow> u8 list \<Rightarrow> ringbuf_type \<Rightarrow> nat \<Rightarrow> kstat \<times> k_ringbuf_t" where
  "ringbuf_init rb buf type block_size =
     (let rb1 = rb\<lparr>rb_type := type, rb_mem := buf, rb_blk_size := block_size\<rparr>
      in (RHINO_SUCCESS, snd (ringbuf_reset rb1)))"

definition ringbuf_is_full :: "k_ringbuf_t \<Rightarrow> bool" where
  "ringbuf_is_full rb \<longleftrightarrow>
     rb_type rb = RINGBUF_TYPE_DYN \<and> rb_freesize rb < 2 \<or>
     rb_type rb = RINGBUF_TYPE_FIX \<and> rb_freesize rb < rb_blk_size rb"

definition ringbuf_is_empty :: "k_ringbuf_t \<Rightarrow> bool" where
  "ringbuf_is_empty rb \<longleftrightarrow> rb_freesize rb = rb_end rb"

text \<open>
  \<open>COMPRESS_LEN\<close> and \<open>ringbuf_headlen_compress\<close>: \<open>krhino_ntohl\<close> makes \<open>p_len\<close> the bytes of the length from
  the most significant one on.  A longer length has no code (\<open>None\<close>).
\<close>

definition COMPRESS_LEN :: "u32 \<Rightarrow> nat option" where
  "COMPRESS_LEN x = (if x \<le> 0x7f then Some 1 else if x \<le> 0x3fff then Some 2 else if x \<le> 0x3fffff then Some 3 else None)"

definition be_bytes :: "u32 \<Rightarrow> u8 list" where
  "be_bytes x = [ucast (drop_bit 24 x), ucast (drop_bit 16 x), ucast (drop_bit 8 x), ucast x]"

definition be_word :: "u8 list \<Rightarrow> u32" where
  "be_word bs = foldl (\<lambda>w b. push_bit 8 w OR ucast b) 0 bs"

definition ringbuf_headlen_compress :: "u32 \<Rightarrow> u8 list option" where
  "ringbuf_headlen_compress head_len =
     (let p_len = be_bytes head_len
      in case COMPRESS_LEN head_len of
           None \<Rightarrow> None
         | Some n \<Rightarrow>
             if n = 1 then Some [0x7f AND p_len ! 3]
             else if n = 2 then Some [0x80 OR p_len ! 2, p_len ! 3]
             else Some [0xC0 OR p_len ! 1, p_len ! 2, p_len ! 3])"

definition ringbuf_headlen_decompress :: "u8 list \<Rightarrow> u32" where
  "ringbuf_headlen_decompress cmp_buf =
     (let len_buf = replicate (4 - length cmp_buf) 0 @ cmp_buf;
          len_buf = (if length cmp_buf > 1
                     then len_buf[4 - length cmp_buf := len_buf ! (4 - length cmp_buf) AND 0x3f] else len_buf)
      in be_word len_buf)"

text \<open>
  \<open>memcpy(tail, xs, n); tail += n; freesize -= n\<close>, the same at the other end, and reading from the head.
\<close>

definition rb_write :: "nat \<Rightarrow> u8 list \<Rightarrow> k_ringbuf_t \<Rightarrow> k_ringbuf_t" where
  "rb_write off xs rb =
     (if off + length xs \<le> rb_end rb then rb\<lparr>rb_mem := mem_write off xs (rb_mem rb)\<rparr> else rb\<lparr>rb_fault := True\<rparr>)"

definition tail_copy :: "u8 list \<Rightarrow> k_ringbuf_t \<Rightarrow> k_ringbuf_t" where
  "tail_copy xs rb =
     (let rb1 = rb_write (rb_tail rb) xs rb
      in rb1\<lparr>rb_tail := rb_tail rb1 + length xs, rb_freesize := rb_freesize rb1 - length xs\<rparr>)"

definition head_copy :: "u8 list \<Rightarrow> k_ringbuf_t \<Rightarrow> k_ringbuf_t" where
  "head_copy xs rb =
     (if length xs > rb_head rb then rb\<lparr>rb_fault := True\<rparr>
      else
        let rb1 = rb\<lparr>rb_head := rb_head rb - length xs\<rparr>;
            rb2 = rb_write (rb_head rb1) xs rb1
        in rb2\<lparr>rb_freesize := rb_freesize rb2 - length xs\<rparr>)"

definition head_read :: "nat \<Rightarrow> k_ringbuf_t \<Rightarrow> u8 list \<times> k_ringbuf_t" where
  "head_read n rb =
     (mem_read (rb_head rb) n (rb_mem rb),
      rb\<lparr>rb_fault := (rb_fault rb \<or> rb_head rb + n > rb_end rb), rb_head := rb_head rb + n, rb_freesize := rb_freesize rb + n\<rparr>)"

text \<open>Reading a piece that goes over the end of the buffer.\<close>

definition head_read_split :: "nat \<Rightarrow> k_ringbuf_t \<Rightarrow> u8 list \<times> k_ringbuf_t" where
  "head_read_split n rb =
     (let split_len = rb_end rb - rb_head rb;
          (d1, rb1) = head_read split_len rb;
          (d2, rb2) = head_read (n - split_len) (rb1\<lparr>rb_head := 0\<rparr>)
      in (d1 @ d2, rb2))"

definition tail_wrap :: "k_ringbuf_t \<Rightarrow> k_ringbuf_t" where
  "tail_wrap rb = (if rb_tail rb = rb_end rb then rb\<lparr>rb_tail := 0\<rparr> else rb)"

definition head_wrap :: "k_ringbuf_t \<Rightarrow> k_ringbuf_t" where
  "head_wrap rb = (if rb_head rb = rb_end rb then rb\<lparr>rb_head := 0\<rparr> else rb)"

text \<open>Copying a piece to the tail, split at the end of the buffer if necessary.\<close>

definition tail_put :: "u8 list \<Rightarrow> k_ringbuf_t \<Rightarrow> k_ringbuf_t" where
  "tail_put xs rb =
     (let split_len = rb_end rb - rb_tail rb
      in if rb_tail rb \<ge> rb_head rb \<and> split_len < length xs \<and> split_len > 0
         then tail_copy (drop split_len xs) ((tail_copy (take split_len xs) rb)\<lparr>rb_tail := 0\<rparr>)
         else tail_copy xs rb)"

definition ringbuf_push :: "u8 list \<Rightarrow> k_ringbuf_t \<Rightarrow> kstat \<times> k_ringbuf_t" where
  "ringbuf_push data rb =
     (if ringbuf_is_full rb then (RHINO_RINGBUF_FULL, rb)
      else case rb_type rb of
        RINGBUF_TYPE_FIX \<Rightarrow> (RHINO_SUCCESS, tail_copy data (tail_wrap rb))
      | RINGBUF_TYPE_DYN \<Rightarrow>
          (case ringbuf_headlen_compress (of_nat (length data)) of
             None \<Rightarrow> (RHINO_INV_PARAM, rb)
           | Some c_len \<Rightarrow>
               if rb_freesize rb < length c_len + length data then (RHINO_RINGBUF_FULL, rb)
               else (RHINO_SUCCESS, tail_put data (tail_wrap (tail_put c_len (tail_wrap rb))))))"

text \<open>\<open>head_push\<close>: the data first, then the length in front of it.\<close>

definition head_start :: "k_ringbuf_t \<Rightarrow> k_ringbuf_t" where
  "head_start rb = (if rb_head rb = 0 then rb\<lparr>rb_head := rb_end rb\<rparr> else rb)"

definition ringbuf_head_push :: "u8 list \<Rightarrow> k_ringbuf_t \<Rightarrow> kstat \<times> k_ringbuf_t" where
  "ringbuf_head_push data rb =
     (if ringbuf_is_full rb then (RHINO_RINGBUF_FULL, rb)
      else case rb_type rb of
        RINGBUF_TYPE_FIX \<Rightarrow> (RHINO_SUCCESS, head_copy data (head_start rb))
      | RINGBUF_TYPE_DYN \<Rightarrow>
          (case ringbuf_headlen_compress (of_nat (length data)) of
             None \<Rightarrow> (RHINO_INV_PARAM, rb)
           | Some c_len \<Rightarrow>
               if rb_freesize rb < length c_len + length data then (RHINO_RINGBUF_FULL, rb)
               else
                 let rb1 = head_start rb;
                     split1 = rb_head rb1;
                     rb2 = (if rb_head rb1 \<le> rb_tail rb1 \<and> split1 < length data \<and> split1 > 0
                            then let r = rb_write 0 (take split1 data) rb1;
                                     r = r\<lparr>rb_head := rb_end r, rb_freesize := rb_freesize r - split1\<rparr>
                                 in head_copy (drop split1 data) r
                            else head_copy data rb1);
                     rb3 = head_start rb2;
                     split2 = rb_head rb3;
                     len_bytes = length c_len
                 in (RHINO_SUCCESS,
                     if rb_head rb3 \<le> rb_tail rb3 \<and> split2 < len_bytes \<and> split2 > 0
                     then let r = rb_write 0 (drop (len_bytes - split2) c_len) rb3;
                              r = r\<lparr>rb_head := rb_end r, rb_freesize := rb_freesize r - split2\<rparr>
                          in head_copy (take (len_bytes - split2) c_len) r
                     else head_copy c_len rb3)))"

text \<open>The second component is what is written to \<open>pdata\<close>, its length to \<open>*plen\<close>.\<close>

definition len_bytes_of :: "u8 \<Rightarrow> nat option" where
  "len_bytes_of b =
     (if b AND 0x80 = 0 then Some 1 else if b AND 0xC0 = 0x80 then Some 2 else if b AND 0xC0 = 0xC0 then Some 3 else None)"

definition pop_len :: "nat \<Rightarrow> k_ringbuf_t \<Rightarrow> u8 list \<times> k_ringbuf_t" where
  "pop_len len_bytes rb =
     (let split_len = rb_end rb - rb_head rb
      in if split_len < len_bytes \<and> split_len > 0 then head_read_split len_bytes rb else head_read len_bytes rb)"

definition pop_data :: "nat \<Rightarrow> k_ringbuf_t \<Rightarrow> u8 list \<times> k_ringbuf_t" where
  "pop_data len rb =
     (if rb_head rb > rb_tail rb \<and> rb_end rb - rb_head rb < len then head_read_split len rb else head_read len rb)"

definition ringbuf_pop :: "k_ringbuf_t \<Rightarrow> kstat \<times> u8 list option \<times> k_ringbuf_t" where
  "ringbuf_pop rb =
     (if ringbuf_is_empty rb then (RHINO_RINGBUF_EMPTY, None, rb)
      else
        let rb1 = head_wrap rb
        in case rb_type rb of
             RINGBUF_TYPE_FIX \<Rightarrow>
               (let (data, rb2) = head_read (rb_blk_size rb1) rb1 in (RHINO_SUCCESS, Some data, rb2))
           | RINGBUF_TYPE_DYN \<Rightarrow>
               (case len_bytes_of (rb_mem rb1 ! rb_head rb1) of
                  None \<Rightarrow> (RHINO_INV_PARAM, None, rb1)
                | Some len_bytes \<Rightarrow>
                    (let (c_len, rb2) = pop_len len_bytes rb1;
                         len = unat (ringbuf_headlen_decompress c_len);
                         (data, rb3) = pop_data len (head_wrap rb2)
                     in (RHINO_SUCCESS, Some data, rb3))))"

subsection \<open>The exported calls\<close>

text \<open>A pointer parameter is an \<open>option\<close> or a flag that says whether it is null.\<close>

definition krhino_ringbuf_reset :: "k_ringbuf_t option \<Rightarrow> kstat \<times> k_ringbuf_t option" where
  "krhino_ringbuf_reset p = (case p of None \<Rightarrow> (RHINO_NULL_PTR, None) | Some rb \<Rightarrow> map_prod id Some (ringbuf_reset rb))"

definition krhino_ringbuf_init :: "k_ringbuf_t option \<Rightarrow> u8 list option \<Rightarrow> nat \<Rightarrow> ringbuf_type \<Rightarrow> nat \<Rightarrow> kstat \<times> k_ringbuf_t option" where
  "krhino_ringbuf_init p buf len type block_size =
     (case (p, buf) of
        (Some rb, Some b) \<Rightarrow>
          if len = 0 then (RHINO_INV_PARAM, p)
          else if type = RINGBUF_TYPE_FIX \<and> (len = 0 \<or> block_size = 0 \<or> len mod block_size \<noteq> 0) then (RHINO_INV_PARAM, p)
          else map_prod id Some (ringbuf_init rb (take len b) type block_size)
      | _ \<Rightarrow> (RHINO_NULL_PTR, p))"

definition push_len_ok :: "k_ringbuf_t \<Rightarrow> nat \<Rightarrow> bool" where
  "push_len_ok rb len \<longleftrightarrow> \<not> (len \<le> 0 \<or> len > 0x3fffff \<or> (rb_type rb = RINGBUF_TYPE_FIX \<and> len \<noteq> rb_blk_size rb))"

definition krhino_ringbuf_push :: "k_ringbuf_t option \<Rightarrow> u8 list option \<Rightarrow> kstat \<times> k_ringbuf_t option" where
  "krhino_ringbuf_push p data =
     (case (p, data) of
        (Some rb, Some xs) \<Rightarrow> if push_len_ok rb (length xs) then map_prod id Some (ringbuf_push xs rb) else (RHINO_INV_PARAM, p)
      | _ \<Rightarrow> (RHINO_NULL_PTR, p))"

definition krhino_ringbuf_head_push :: "k_ringbuf_t option \<Rightarrow> u8 list option \<Rightarrow> kstat \<times> k_ringbuf_t option" where
  "krhino_ringbuf_head_push p data =
     (case (p, data) of
        (Some rb, Some xs) \<Rightarrow> if push_len_ok rb (length xs) then map_prod id Some (ringbuf_head_push xs rb) else (RHINO_INV_PARAM, p)
      | _ \<Rightarrow> (RHINO_NULL_PTR, p))"

definition krhino_ringbuf_pop :: "k_ringbuf_t option \<Rightarrow> bool \<Rightarrow> bool \<Rightarrow> kstat \<times> u8 list option \<times> k_ringbuf_t option" where
  "krhino_ringbuf_pop p pdata_is_null plen_is_null =
     (case p of
        None \<Rightarrow> (RHINO_NULL_PTR, None, p)
      | Some rb \<Rightarrow>
          if pdata_is_null then (RHINO_NULL_PTR, None, p)
          else if rb_type rb = RINGBUF_TYPE_DYN \<and> plen_is_null then (RHINO_INV_PARAM, None, p)
          else map_prod id (map_prod id Some) (ringbuf_pop rb))"

text \<open>The null check of the two tests returns the code \<open>RHINO_NULL_PTR\<close> in a byte (\<open>Inl\<close>).\<close>

definition krhino_ringbuf_is_empty :: "k_ringbuf_t option \<Rightarrow> kstat + bool" where
  "krhino_ringbuf_is_empty p = (case p of None \<Rightarrow> Inl RHINO_NULL_PTR | Some rb \<Rightarrow> Inr (ringbuf_is_empty rb))"

definition krhino_ringbuf_is_full :: "k_ringbuf_t option \<Rightarrow> kstat + bool" where
  "krhino_ringbuf_is_full p = (case p of None \<Rightarrow> Inl RHINO_NULL_PTR | Some rb \<Rightarrow> Inr (ringbuf_is_empty rb))"

section \<open>Coding of lengths\<close>

lemma bit_less:
  assumes "unat x < 2 ^ n" and "bit (x :: 'a::len word) i"
  shows "i < n"
proof (rule ccontr)
  assume "\<not> i < n"
  then have "unat x < 2 ^ i" using assms(1) by (meson less_le_trans not_less one_le_numeral power_increasing)
  moreover have "bit (unat x) i" using assms(2) by (simp add: bit_unsigned_iff)
  ultimately show False by (simp add: bit_iff_odd)
qed

lemma len_masks [simp]:
  "bit (0x7f ::int) j \<longleftrightarrow> j < 7" "bit (0x80 ::int) j \<longleftrightarrow> j = 7" "bit (0xC0 ::int) j \<longleftrightarrow> j = 6 \<or> j = 7" "bit (0x3f ::int) j \<longleftrightarrow> j < 6"
proof -
  have "(0x7f :: int) = mask 7" "(0x80 :: int) = 2 ^ 7" "(0xC0 :: int) = 2 ^ 6 OR 2 ^ 7" "(0x3f :: int) = mask 6" by (simp_all add: mask_eq_exp_minus_1)
  then show "bit (0x7f ::int) j \<longleftrightarrow> j < 7" "bit (0x80 ::int) j \<longleftrightarrow> j = 7" "bit (0xC0 ::int) j \<longleftrightarrow> j = 6 \<or> j = 7" "bit (0x3f ::int) j \<longleftrightarrow> j < 6"
    by (auto simp only: bit_mask_iff bit_exp_iff bit_or_iff) (auto simp: possible_bit_def)
qed

lemma be_word_4: "be_word [a, b, c, d] = push_bit 24 (ucast a) OR push_bit 16 (ucast b) OR push_bit 8 (ucast c) OR ucast d"
  by (rule bit_word_eqI) (auto simp: be_word_def bit_simps)

lemmas bit_rules = bit_and_iff bit_or_iff bit_push_bit_iff bit_unsigned_iff bit_drop_bit_eq comp_def

lemma decompress_1:
  fixes x :: u32
  shows "x \<le> 0x7f \<Longrightarrow> be_word [0, 0, 0, 0x7f AND ucast x] = x"
proof -
  assume "x \<le> 0x7f"
  then have "unat x < 2 ^ 7" by (simp add: word_le_nat_alt)
  note b = bit_less [OF this]
  show ?thesis unfolding be_word_4 by (rule bit_word_eqI) (use b in \<open>force simp: bit_rules\<close>)
qed

lemma decompress_2:
  fixes x :: u32
  shows "x \<le> 0x3fff \<Longrightarrow> be_word [0, 0, (0x80 OR ucast (drop_bit 8 x)) AND 0x3f, ucast x] = x"
proof -
  assume "x \<le> 0x3fff"
  then have "unat x < 2 ^ 14" by (simp add: word_le_nat_alt)
  note b = bit_less [OF this]
  show ?thesis unfolding be_word_4
  proof (rule bit_word_eqI)
    fix i
    show "bit (push_bit 24 (ucast (0 :: u8)) OR push_bit 16 (ucast (0 :: u8)) OR push_bit 8 (ucast ((0x80 OR ucast (drop_bit 8 x)) AND (0x3f :: u8))) OR ucast (ucast x :: u8) :: u32) i = bit x i"
      using b [of i] by (cases "i < 8") (auto simp: bit_rules)
  qed
qed

lemma decompress_3:
  fixes x :: u32
  shows "x \<le> 0x3fffff \<Longrightarrow> be_word [0, (0xC0 OR ucast (drop_bit 16 x)) AND 0x3f, ucast (drop_bit 8 x), ucast x] = x"
proof -
  assume "x \<le> 0x3fffff"
  then have "unat x < 2 ^ 22" by (simp add: word_le_nat_alt)
  note b = bit_less [OF this]
  show ?thesis unfolding be_word_4
  proof (rule bit_word_eqI)
    fix i
    show "bit (push_bit 24 (ucast (0 :: u8)) OR push_bit 16 (ucast ((0xC0 OR ucast (drop_bit 16 x)) AND (0x3f :: u8))) OR push_bit 8 (ucast (ucast (drop_bit 8 x) :: u8)) OR ucast (ucast x :: u8) :: u32) i = bit x i"
      using b [of i] by (cases "i < 8"; cases "i < 16") (auto simp: bit_rules)
  qed
qed

lemma len_bytes_of_1:
  fixes x :: u32
  shows "len_bytes_of (0x7f AND ucast x) = Some 1"
proof -
  have "(0x7f AND ucast x) AND (0x80 :: u8) = 0" by (rule bit_word_eqI) (auto simp: bit_rules)
  then show ?thesis by (simp add: len_bytes_of_def)
qed

lemma len_bytes_of_23:
  fixes y :: u8
  assumes "unat y < 2 ^ 6"
  shows "len_bytes_of (0x80 OR y) = Some 2" "len_bytes_of (0xC0 OR y) = Some 3"
proof -
  note b = bit_less [OF assms]
  have "(0x80 OR y) AND 0x80 = 0x80" "(0x80 OR y) AND 0xC0 = 0x80" "(0xC0 OR y) AND 0x80 = 0x80" "(0xC0 OR y) AND 0xC0 = 0xC0" 
     by (rule bit_word_eqI; use b in \<open>force simp: bit_rules\<close>)+
  then show "len_bytes_of (0x80 OR y) = Some 2" "len_bytes_of (0xC0 OR y) = Some 3" by (simp_all add: len_bytes_of_def)
qed

text \<open>Lengths up to \<open>0x3fffff\<close> survive the coding, whose size the first byte tells.\<close>

lemma headlen_roundtrip:
  assumes "n \<le> 0x3fffff"
  obtains c where "ringbuf_headlen_compress (of_nat n) = Some c" "c \<noteq> []" "length c \<le> 3" "len_bytes_of (c ! 0) = Some (length c)"
    "unat (ringbuf_headlen_decompress c) = n"
proof -
  define x where "x = (of_nat n :: u32)"
  have x: "unat x = n" using assms by (simp add: x_def unat_of_nat)
  note simps = ringbuf_headlen_compress_def COMPRESS_LEN_def be_bytes_def ringbuf_headlen_decompress_def Let_def
  have hi: "unat (ucast (drop_bit 8 x) :: u8) < 2 ^ 6" if "x \<le> 0x3fff"
    using that by (simp add: word_le_nat_alt unsigned_ucast_eq drop_bit_eq_div take_bit_eq_mod unat_div)
  have hi3: "unat (ucast (drop_bit 16 x) :: u8) < 2 ^ 6" if "x \<le> 0x3fffff"
    using that by (simp add: word_le_nat_alt unsigned_ucast_eq drop_bit_eq_div take_bit_eq_mod unat_div)
  consider "x \<le> 0x7f" | "\<not> x \<le> 0x7f" "x \<le> 0x3fff" | "\<not> x \<le> 0x7f" "\<not> x \<le> 0x3fff" by blast
  then show ?thesis
  proof cases
    case 1
    show ?thesis
      by (rule that [of "[0x7f AND ucast x]"]) (use 1 decompress_1 [OF 1] len_bytes_of_1 [of x] x in \<open>simp_all add: simps x_def numeral_3_eq_3\<close>)
  next
    case 2
    show ?thesis
      by (rule that [of "[0x80 OR ucast (drop_bit 8 x), ucast x]"])
        (use 2 decompress_2 [OF 2(2)] len_bytes_of_23(1) [OF hi [OF 2(2)]] x in \<open>simp_all add: simps x_def numeral_3_eq_3 numeral_2_eq_2\<close>)
  next
    case 3
    have le: "x \<le> 0x3fffff" using x assms by (simp add: word_le_nat_alt)
    show ?thesis
      by (rule that [of "[0xC0 OR ucast (drop_bit 16 x), ucast (drop_bit 8 x), ucast x]"])
        (use 3 le decompress_3 [OF le] len_bytes_of_23(2) [OF hi3 [OF le]] x in \<open>simp_all add: simps x_def numeral_3_eq_3 numeral_2_eq_2\<close>)
  qed
qed

section \<open>The ring\<close>

definition rb_used :: "k_ringbuf_t \<Rightarrow> nat" where
  "rb_used rb = rb_end rb - rb_freesize rb"

definition ring_ok :: "k_ringbuf_t \<Rightarrow> bool" where
  "ring_ok rb \<longleftrightarrow> 0 < rb_end rb \<and> rb_head rb \<le> rb_end rb \<and> rb_tail rb \<le> rb_end rb \<and> rb_freesize rb \<le> rb_end rb \<and>
     (rb_head rb + rb_used rb) mod rb_end rb = rb_tail rb mod rb_end rb \<and> \<not> rb_fault rb"

definition rb_bytes :: "k_ringbuf_t \<Rightarrow> u8 list" where
  "rb_bytes rb = ring (rb_mem rb) (rb_head rb) (rb_used rb)"

text \<open>The part of a buffer that reading and writing leave alone.\<close>

definition rb_frame :: "k_ringbuf_t \<Rightarrow> nat \<times> ringbuf_type \<times> nat" where
  "rb_frame rb = (rb_end rb, rb_type rb, rb_blk_size rb)"

lemma length_rb_bytes [simp]: "length (rb_bytes rb) = rb_used rb"
  by (simp add: rb_bytes_def)

lemma ring_okD:
  assumes "ring_ok rb"
  shows "0 < rb_end rb" "rb_head rb \<le> rb_end rb" "rb_tail rb \<le> rb_end rb" "rb_freesize rb \<le> rb_end rb"
    "(rb_head rb + rb_used rb) mod rb_end rb = rb_tail rb mod rb_end rb" "\<not> rb_fault rb" "rb_used rb + rb_freesize rb = rb_end rb"
  using assms by (auto simp: ring_ok_def rb_used_def)

text \<open>Free space between the tail and a head behind it is contiguous, and so is data between the head and a tail behind it.\<close>

lemma free_gap:
  assumes "ring_ok rb" and "rb_tail rb < rb_head rb"
  shows "rb_tail rb + rb_freesize rb \<le> rb_head rb"
proof -
  note ok = ring_okD [OF assms(1)]
  have "(rb_head rb + rb_used rb) mod rb_end rb = rb_tail rb" using ok(2,5) assms(2) by simp
  then have eq: "rb_head rb + rb_used rb = (rb_head rb + rb_used rb) div rb_end rb * rb_end rb + rb_tail rb" by (metis div_mult_mod_eq)
  then have "(rb_head rb + rb_used rb) div rb_end rb \<noteq> 0" using assms(2) by (intro notI) simp
  then have "rb_end rb \<le> (rb_head rb + rb_used rb) div rb_end rb * rb_end rb" by simp
  then show ?thesis using eq ok(7) by linarith
qed

lemma data_gap:
  assumes "ring_ok rb" and "rb_head rb \<le> rb_tail rb" and "rb_head rb < rb_end rb" and "rb_used rb < rb_end rb"
  shows "rb_head rb + rb_used rb \<le> rb_end rb"
proof (rule ccontr)
  assume over: "\<not> rb_head rb + rb_used rb \<le> rb_end rb"
  note ok = ring_okD [OF assms(1)]
  have "(rb_head rb + rb_used rb) mod rb_end rb = rb_head rb + rb_used rb - rb_end rb"
    using over assms(3,4) by (simp add: mod_if)
  then have t: "rb_tail rb mod rb_end rb = rb_head rb + rb_used rb - rb_end rb" using ok(5) by simp
  then have "rb_tail rb \<noteq> rb_end rb" using over by auto
  then have "rb_tail rb = rb_head rb + rb_used rb - rb_end rb" using t ok(3) by simp
  then show False using assms(2,4) over by linarith
qed

lemma tail_wrap_ok:
  assumes "ring_ok rb"
  shows "ring_ok (tail_wrap rb)" "rb_bytes (tail_wrap rb) = rb_bytes rb" "rb_tail (tail_wrap rb) < rb_end rb"
    "rb_frame (tail_wrap rb) = rb_frame rb" "rb_freesize (tail_wrap rb) = rb_freesize rb" "rb_end (tail_wrap rb) = rb_end rb"
  using ring_okD [OF assms] by (auto simp: tail_wrap_def ring_ok_def rb_bytes_def rb_used_def rb_frame_def)

lemma head_wrap_ok:
  assumes "ring_ok rb"
  shows "ring_ok (head_wrap rb)" "rb_bytes (head_wrap rb) = rb_bytes rb" "rb_head (head_wrap rb) < rb_end rb"
    "rb_frame (head_wrap rb) = rb_frame rb" "rb_freesize (head_wrap rb) = rb_freesize rb" "rb_used (head_wrap rb) = rb_used rb"
    "rb_end (head_wrap rb) = rb_end rb" "rb_mem (head_wrap rb) = rb_mem rb"
proof -
  note ok = ring_okD [OF assms]
  have "ring (rb_mem rb) 0 n = ring (rb_mem rb) (rb_end rb) n" for n by (rule ring_cong) simp
  then show "rb_bytes (head_wrap rb) = rb_bytes rb" "rb_head (head_wrap rb) < rb_end rb"
    "rb_frame (head_wrap rb) = rb_frame rb" "rb_freesize (head_wrap rb) = rb_freesize rb"
    "rb_end (head_wrap rb) = rb_end rb" "rb_mem (head_wrap rb) = rb_mem rb"
    using ok by (auto simp: head_wrap_def rb_bytes_def rb_used_def rb_frame_def)
  show used: "rb_used (head_wrap rb) = rb_used rb" by (simp add: head_wrap_def rb_used_def)
  show "ring_ok (head_wrap rb)"
  proof (cases "rb_head rb = rb_end rb")
    case True
    then have "rb_used rb mod rb_end rb = rb_tail rb mod rb_end rb" using ok(5) by simp
    then show ?thesis using ok used True unfolding ring_ok_def by (simp add: head_wrap_def)
  qed (use assms in \<open>simp add: head_wrap_def\<close>)
qed

lemma tail_copy_ok:
  assumes "ring_ok rb" and "rb_tail rb < rb_end rb" and "rb_tail rb + length xs \<le> rb_end rb" and "length xs \<le> rb_freesize rb"
  shows "ring_ok (tail_copy xs rb)" "rb_bytes (tail_copy xs rb) = rb_bytes rb @ xs" "rb_frame (tail_copy xs rb) = rb_frame rb"
    "rb_freesize (tail_copy xs rb) = rb_freesize rb - length xs" "rb_tail (tail_copy xs rb) = rb_tail rb + length xs"
    "rb_head (tail_copy xs rb) = rb_head rb" "rb_end (tail_copy xs rb) = rb_end rb"
proof -
  note ok = ring_okD [OF assms(1)]
  let ?rb = "tail_copy xs rb"
  have eq: "?rb = rb\<lparr>rb_mem := mem_write (rb_tail rb) xs (rb_mem rb), rb_tail := rb_tail rb + length xs, rb_freesize := rb_freesize rb - length xs\<rparr>"
    using assms(3) by (simp add: tail_copy_def rb_write_def Let_def)
  show len: "rb_end ?rb = rb_end rb" using assms(3) by (simp add: eq)
  then show "rb_frame ?rb = rb_frame rb" by (simp add: rb_frame_def eq)
  show "rb_freesize ?rb = rb_freesize rb - length xs" "rb_tail ?rb = rb_tail rb + length xs" "rb_head ?rb = rb_head rb" by (simp_all add: eq)
  have used: "rb_used ?rb = rb_used rb + length xs" using len assms(4) ok(4) by (simp add: rb_used_def eq)
  have pos: "rb_tail rb = (rb_head rb + rb_used rb) mod rb_end rb" using ok(5) assms(2) by simp
  show "rb_bytes ?rb = rb_bytes rb @ xs"
    using ring_write [OF pos assms(3)] assms(4) ok(7) by (simp add: rb_bytes_def used) (simp add: eq)
  have "(rb_head rb + (rb_used rb + length xs)) mod rb_end rb = (rb_tail rb + length xs) mod rb_end rb"
    unfolding pos by (metis add.assoc mod_add_left_eq)
  then show "ring_ok ?rb" using ok assms(3) used len unfolding ring_ok_def by (simp add: eq)
qed

lemma tail_put_ok:
  assumes "ring_ok rb" and "rb_tail rb < rb_end rb" and "length xs \<le> rb_freesize rb"
  shows "ring_ok (tail_put xs rb)" "rb_bytes (tail_put xs rb) = rb_bytes rb @ xs" "rb_frame (tail_put xs rb) = rb_frame rb"
    "rb_freesize (tail_put xs rb) = rb_freesize rb - length xs"
proof -
  note ok = ring_okD [OF assms(1)]
  let ?n = "rb_end rb - rb_tail rb"
  have "ring_ok (tail_put xs rb) \<and> rb_bytes (tail_put xs rb) = rb_bytes rb @ xs \<and> rb_frame (tail_put xs rb) = rb_frame rb \<and>
    rb_freesize (tail_put xs rb) = rb_freesize rb - length xs"
  proof (cases "rb_tail rb \<ge> rb_head rb \<and> ?n < length xs")
    case True
    let ?r1 = "tail_copy (take ?n xs) rb"
    have n: "length (take ?n xs) = ?n" using True by simp
    note c1 = tail_copy_ok [OF assms(1,2), of "take ?n xs"]
    have r1: "ring_ok ?r1" "rb_bytes ?r1 = rb_bytes rb @ take ?n xs" "rb_tail ?r1 = rb_end ?r1" "rb_end ?r1 = rb_end rb"
      "rb_freesize ?r1 = rb_freesize rb - ?n" "rb_frame ?r1 = rb_frame rb"
      using c1 n assms(2,3) True by simp_all
    let ?r2 = "?r1\<lparr>rb_tail := 0\<rparr>"
    have "?r2 = tail_wrap ?r1" using r1(3) by (simp add: tail_wrap_def)
    then have r2: "ring_ok ?r2" "rb_bytes ?r2 = rb_bytes ?r1" "rb_frame ?r2 = rb_frame ?r1" "rb_freesize ?r2 = rb_freesize ?r1"
      using tail_wrap_ok [OF r1(1)] by simp_all
    have "rb_tail ?r2 < rb_end ?r2" "rb_tail ?r2 + length (drop ?n xs) \<le> rb_end ?r2" "length (drop ?n xs) \<le> rb_freesize ?r2"
      using assms(3) r1(4,5) ok(1,4) by simp_all
    note c2 = tail_copy_ok(1-4) [OF r2(1) this]
    have put: "tail_put xs rb = tail_copy (drop ?n xs) ?r2" using True assms(2) by (simp add: tail_put_def Let_def)
    show ?thesis unfolding put using c2 r1(2,5,6) r2(2,3,4) n True by simp
  next
    case False
    then have "rb_tail rb + length xs \<le> rb_end rb" using free_gap [OF assms(1)] assms(2,3) ok(2) by (cases "rb_tail rb < rb_head rb") simp_all
    moreover have "tail_put xs rb = tail_copy xs rb" using False assms(2) by (auto simp: tail_put_def Let_def)
    ultimately show ?thesis using tail_copy_ok [OF assms(1,2)] assms(3) by simp
  qed
  then show "ring_ok (tail_put xs rb)" "rb_bytes (tail_put xs rb) = rb_bytes rb @ xs" "rb_frame (tail_put xs rb) = rb_frame rb"
    "rb_freesize (tail_put xs rb) = rb_freesize rb - length xs" by simp_all
qed

lemma head_read_ok:
  assumes "ring_ok rb" and "rb_head rb + n \<le> rb_end rb" and "n \<le> rb_used rb"
  shows "fst (head_read n rb) = take n (rb_bytes rb)" "ring_ok (snd (head_read n rb))"
    "rb_bytes (snd (head_read n rb)) = drop n (rb_bytes rb)" "rb_frame (snd (head_read n rb)) = rb_frame rb"
    "rb_used (snd (head_read n rb)) = rb_used rb - n" "rb_tail (snd (head_read n rb)) = rb_tail rb"
    "rb_head (snd (head_read n rb)) = rb_head rb + n" "rb_end (snd (head_read n rb)) = rb_end rb"
proof -
  note ok = ring_okD [OF assms(1)]
  let ?rb = "snd (head_read n rb)"
  have eq: "?rb = rb\<lparr>rb_head := rb_head rb + n, rb_freesize := rb_freesize rb + n\<rparr>" using assms(2) ok(6) by (simp add: head_read_def)
  show "fst (head_read n rb) = take n (rb_bytes rb)"
    using assms(2,3) by (simp add: head_read_def rb_bytes_def take_ring flip: ring_read)
  show used: "rb_used ?rb = rb_used rb - n" using ok(7) assms(3) by (simp add: eq rb_used_def)
  show "rb_bytes ?rb = drop n (rb_bytes rb)" using assms(3) by (simp add: rb_bytes_def used drop_ring) (simp add: eq)
  show "rb_frame ?rb = rb_frame rb" "rb_tail ?rb = rb_tail rb" "rb_head ?rb = rb_head rb + n" "rb_end ?rb = rb_end rb"
    by (simp_all add: eq rb_frame_def)
  show "ring_ok ?rb" using ok assms(2,3) used unfolding ring_ok_def by (simp add: eq)
qed

lemma head_read_split_ok:
  assumes "ring_ok rb" and "rb_end rb - rb_head rb < n" and "n \<le> rb_used rb"
  shows "fst (head_read_split n rb) = take n (rb_bytes rb)" "ring_ok (snd (head_read_split n rb))"
    "rb_bytes (snd (head_read_split n rb)) = drop n (rb_bytes rb)" "rb_frame (snd (head_read_split n rb)) = rb_frame rb"
    "rb_used (snd (head_read_split n rb)) = rb_used rb - n"
proof -
  note ok = ring_okD [OF assms(1)]
  let ?k = "rb_end rb - rb_head rb"
  define r1 where "r1 = snd (head_read ?k rb)"
  note c1 = head_read_ok [OF assms(1), of ?k, folded r1_def]
  have r1: "fst (head_read ?k rb) = take ?k (rb_bytes rb)" "ring_ok r1" "rb_bytes r1 = drop ?k (rb_bytes rb)" "rb_frame r1 = rb_frame rb"
    "rb_used r1 = rb_used rb - ?k" "rb_head r1 = rb_end r1" "rb_end r1 = rb_end rb"
    using c1 ok(2) assms(2,3) by simp_all
  define r2 where "r2 = r1\<lparr>rb_head := 0\<rparr>"
  have "r2 = head_wrap r1" using r1(6) by (simp add: head_wrap_def r2_def)
  then have r2: "ring_ok r2" "rb_bytes r2 = rb_bytes r1" "rb_frame r2 = rb_frame r1" "rb_used r2 = rb_used r1" "rb_end r2 = rb_end r1"
    using head_wrap_ok [OF r1(2)] by simp_all
  have h2: "rb_head r2 = 0" by (simp add: r2_def)
  have "n - ?k \<le> rb_used r2" "0 + (n - ?k) \<le> rb_end r2" using assms(3) r1 r2 ok(7) by simp_all
  note c2 = head_read_ok [OF r2(1), of "n - ?k", unfolded h2, OF this(2,1)]
  have split: "head_read_split n rb = (fst (head_read ?k rb) @ fst (head_read (n - ?k) r2), snd (head_read (n - ?k) r2))"
    by (simp add: head_read_split_def Let_def split_beta r1_def r2_def)
  have "take ?k (rb_bytes rb) @ take (n - ?k) (drop ?k (rb_bytes rb)) = take n (rb_bytes rb)"
    using assms(2) by (metis le_add_diff_inverse less_imp_le take_add)
  then show "fst (head_read_split n rb) = take n (rb_bytes rb)" using c2(1) r1 r2 by (simp add: split)
  show "ring_ok (snd (head_read_split n rb))" "rb_frame (snd (head_read_split n rb)) = rb_frame rb"
    using c2(2,4) r1(4) r2(3) by (simp_all add: split)
  show "rb_bytes (snd (head_read_split n rb)) = drop n (rb_bytes rb)" "rb_used (snd (head_read_split n rb)) = rb_used rb - n"
    using c2(3,5) r1(3,5) r2(2,4) assms(2) by (simp_all add: split)
qed

section \<open>Queues of messages\<close>

text \<open>
  The contract of a buffer of messages: \<open>holds q ms\<close> says that \<open>q\<close> contains the messages \<open>ms\<close>, oldest
  first; \<open>push\<close> appends a message that fits and refuses others, \<open>pop\<close> removes the oldest.
\<close>

fun pops :: "('q \<Rightarrow> kstat \<times> 'm option \<times> 'q) \<Rightarrow> nat \<Rightarrow> 'q \<Rightarrow> 'm list \<times> 'q" where
  "pops pop 0 q = ([], q)"
| "pops pop (Suc n) q =
     (let (_, m, q1) = pop q; (ms, q2) = pops pop n q1 in (the m # ms, q2))"

locale msg_queue =
  fixes holds :: "'q \<Rightarrow> 'm list \<Rightarrow> bool" and valid :: "'m \<Rightarrow> bool" and fits :: "'m \<Rightarrow> 'q \<Rightarrow> bool"
    and push :: "'m \<Rightarrow> 'q \<Rightarrow> kstat \<times> 'q" and pop :: "'q \<Rightarrow> kstat \<times> 'm option \<times> 'q"
  assumes push_fits: "holds q ms \<Longrightarrow> valid m \<Longrightarrow> fits m q \<Longrightarrow> fst (push m q) = RHINO_SUCCESS \<and> holds (snd (push m q)) (ms @ [m])"
    and push_full: "holds q ms \<Longrightarrow> valid m \<Longrightarrow> \<not> fits m q \<Longrightarrow> push m q = (RHINO_RINGBUF_FULL, q)"
    and pop_msg: "holds q (m # ms) \<Longrightarrow> fst (pop q) = RHINO_SUCCESS \<and> fst (snd (pop q)) = Some m \<and> holds (snd (snd (pop q))) ms"
    and pop_empty: "holds q [] \<Longrightarrow> pop q = (RHINO_RINGBUF_EMPTY, None, q)"
begin

text \<open>Popping returns the messages in the order in which they were pushed.\<close>

lemma pops_in_order: "holds q (ms @ ns) \<Longrightarrow> fst (pops pop (length ms) q) = ms \<and> holds (snd (pops pop (length ms) q)) ns"
proof (induction ms arbitrary: q)
  case (Cons m ms)
  have p: "fst (snd (pop q)) = Some m" "holds (snd (snd (pop q))) (ms @ ns)" using pop_msg [of q m "ms @ ns"] Cons.prems by simp_all
  show ?case using Cons.IH [OF p(2)] p(1) by (simp add: split_beta)
qed simp

text \<open>Every operation leaves a buffer that holds some messages.\<close>

lemma push_holds: "holds q ms \<Longrightarrow> valid m \<Longrightarrow> \<exists>ms'. holds (snd (push m q)) ms'"
  using push_fits push_full by (cases "fits m q") force+

lemma pop_holds: "holds q ms \<Longrightarrow> \<exists>ms'. holds (snd (snd (pop q))) ms'"
  using pop_msg pop_empty by (cases ms) force+

end

subsection \<open>Messages of varying size\<close>

definition rb_frame_of :: "u8 list \<Rightarrow> u8 list" where
  "rb_frame_of m = the (ringbuf_headlen_compress (of_nat (length m))) @ m"

definition dyn_valid :: "u8 list \<Rightarrow> bool" where
  "dyn_valid m \<longleftrightarrow> length m \<le> 0x3fffff"

definition dyn_holds :: "k_ringbuf_t \<Rightarrow> u8 list list \<Rightarrow> bool" where
  "dyn_holds rb ms \<longleftrightarrow> ring_ok rb \<and> rb_type rb = RINGBUF_TYPE_DYN \<and> rb_bytes rb = concat (map rb_frame_of ms) \<and> list_all dyn_valid ms"

definition dyn_fits :: "u8 list \<Rightarrow> k_ringbuf_t \<Rightarrow> bool" where
  "dyn_fits m rb \<longleftrightarrow> 2 \<le> rb_freesize rb \<and> length (rb_frame_of m) \<le> rb_freesize rb"

lemma dyn_push:
  assumes "dyn_holds rb ms" and "dyn_valid m"
  shows "dyn_fits m rb \<Longrightarrow> fst (ringbuf_push m rb) = RHINO_SUCCESS \<and> dyn_holds (snd (ringbuf_push m rb)) (ms @ [m])"
    and "\<not> dyn_fits m rb \<Longrightarrow> ringbuf_push m rb = (RHINO_RINGBUF_FULL, rb)"
proof -
  have ok: "ring_ok rb" "rb_type rb = RINGBUF_TYPE_DYN" using assms(1) by (simp_all add: dyn_holds_def)
  have len: "length m \<le> 0x3fffff" using assms(2) by (simp add: dyn_valid_def)
  obtain c where c: "ringbuf_headlen_compress (of_nat (length m)) = Some c" "c \<noteq> []" "length c \<le> 3"
    "len_bytes_of (c ! 0) = Some (length c)" "unat (ringbuf_headlen_decompress c) = length m" by (rule headlen_roundtrip [OF len])
  have fr: "rb_frame_of m = c @ m" by (simp add: rb_frame_of_def c(1))
  show "ringbuf_push m rb = (RHINO_RINGBUF_FULL, rb)" if "\<not> dyn_fits m rb"
    using that ok(2) c(1) fr by (auto simp: ringbuf_push_def ringbuf_is_full_def dyn_fits_def)
  assume fits: "dyn_fits m rb"
  let ?r1 = "tail_wrap rb"
  let ?r2 = "tail_put c ?r1"
  let ?r3 = "tail_wrap ?r2"
  let ?r4 = "tail_put m ?r3"
  note w1 = tail_wrap_ok [OF ok(1)]
  have r2: "ring_ok ?r2" "rb_bytes ?r2 = rb_bytes rb @ c" "rb_frame ?r2 = rb_frame rb" "rb_freesize ?r2 = rb_freesize rb - length c"
    using tail_put_ok [OF w1(1), of c] w1 fits fr by (simp_all add: dyn_fits_def)
  note w3 = tail_wrap_ok [OF r2(1)]
  have "length m \<le> rb_freesize ?r3" using w3(5) r2(4) fits fr by (auto simp: dyn_fits_def)
  then have "ring_ok ?r4" "rb_bytes ?r4 = rb_bytes rb @ c @ m" "rb_frame ?r4 = rb_frame rb"
    using tail_put_ok [OF w3(1), of m] w3 r2 by simp_all
  moreover have "ringbuf_push m rb = (RHINO_SUCCESS, ?r4)"
    using ok(2) c(1) fits fr by (auto simp: ringbuf_push_def ringbuf_is_full_def dyn_fits_def)
  ultimately show "fst (ringbuf_push m rb) = RHINO_SUCCESS \<and> dyn_holds (snd (ringbuf_push m rb)) (ms @ [m])"
    using assms fr ok(2) by (simp add: dyn_holds_def rb_frame_def)
qed

lemma first_byte:
  assumes "ring_ok rb" and "rb_head rb < rb_end rb" and "rb_bytes rb = b # bs"
  shows "rb_mem rb ! rb_head rb = b"
proof -
  have "0 < rb_used rb" using assms(3) by (metis length_rb_bytes length_Cons zero_less_Suc)
  then have "rb_bytes rb ! 0 = rb_mem rb ! (rb_head rb mod rb_end rb)" by (simp add: rb_bytes_def nth_ring)
  then show ?thesis using assms(2,3) by simp
qed

lemma pop_len_ok:
  assumes "ring_ok rb" and "rb_head rb < rb_end rb" and "n \<le> rb_used rb"
  shows "fst (pop_len n rb) = take n (rb_bytes rb)" "ring_ok (snd (pop_len n rb))" "rb_bytes (snd (pop_len n rb)) = drop n (rb_bytes rb)"
    "rb_frame (snd (pop_len n rb)) = rb_frame rb" "rb_used (snd (pop_len n rb)) = rb_used rb - n"
  using head_read_split_ok [OF assms(1) _ assms(3)] head_read_ok [OF assms(1) _ assms(3)] assms(2)
  by (auto simp: pop_len_def Let_def)

lemma pop_data_ok:
  assumes "ring_ok rb" and "rb_head rb < rb_end rb" and "n \<le> rb_used rb" and "rb_used rb < rb_end rb"
  shows "fst (pop_data n rb) = take n (rb_bytes rb)" "ring_ok (snd (pop_data n rb))" "rb_bytes (snd (pop_data n rb)) = drop n (rb_bytes rb)"
    "rb_frame (snd (pop_data n rb)) = rb_frame rb"
proof -
  have "rb_head rb + n \<le> rb_end rb" if "\<not> (rb_head rb > rb_tail rb \<and> rb_end rb - rb_head rb < n)"
    using data_gap [OF assms(1) _ assms(2,4)] that assms(2,3) by (cases "rb_head rb \<le> rb_tail rb") auto
  then show "fst (pop_data n rb) = take n (rb_bytes rb)" "ring_ok (snd (pop_data n rb))" "rb_bytes (snd (pop_data n rb)) = drop n (rb_bytes rb)"
    "rb_frame (snd (pop_data n rb)) = rb_frame rb"
    using head_read_split_ok [OF assms(1) _ assms(3)] head_read_ok [OF assms(1) _ assms(3)] by (simp_all add: pop_data_def)
qed

lemma dyn_pop:
  assumes "dyn_holds rb (m # ms)"
  shows "fst (ringbuf_pop rb) = RHINO_SUCCESS \<and> fst (snd (ringbuf_pop rb)) = Some m \<and> dyn_holds (snd (snd (ringbuf_pop rb))) ms"
proof -
  let ?rest = "concat (map rb_frame_of ms)"
  have ok: "ring_ok rb" "rb_type rb = RINGBUF_TYPE_DYN" "rb_bytes rb = rb_frame_of m @ ?rest" "length m \<le> 0x3fffff" "list_all dyn_valid ms"
    using assms by (simp_all add: dyn_holds_def dyn_valid_def)
  obtain c where c: "ringbuf_headlen_compress (of_nat (length m)) = Some c" "c \<noteq> []" "length c \<le> 3"
    "len_bytes_of (c ! 0) = Some (length c)" "unat (ringbuf_headlen_decompress c) = length m" by (rule headlen_roundtrip [OF ok(4)])
  have bytes: "rb_bytes rb = c @ m @ ?rest" using ok(3) by (simp add: rb_frame_of_def c(1))
  have used: "rb_used rb = length c + (length m + length ?rest)" using arg_cong [OF bytes, of length] by simp
  define r1 where "r1 = head_wrap rb"
  have r1: "ring_ok r1" "rb_bytes r1 = c @ m @ ?rest" "rb_head r1 < rb_end r1" "rb_frame r1 = rb_frame rb" "rb_used r1 = rb_used rb"
    using head_wrap_ok [OF ok(1)] bytes by (simp_all add: r1_def)
  obtain b c' where bc: "c = b # c'" using c(2) by (cases c) auto
  have first: "rb_mem r1 ! rb_head r1 = c ! 0" using first_byte [OF r1(1,3)] r1(2) bc by simp
  obtain c2 r2 where p2: "pop_len (length c) r1 = (c2, r2)" by fastforce
  have r2: "c2 = c" "ring_ok r2" "rb_bytes r2 = m @ ?rest" "rb_frame r2 = rb_frame rb" "rb_used r2 = rb_used rb - length c"
    using pop_len_ok [OF r1(1,3), of "length c"] r1(2,4,5) used p2 by simp_all
  define r3 where "r3 = head_wrap r2"
  have r3: "ring_ok r3" "rb_bytes r3 = m @ ?rest" "rb_head r3 < rb_end r3" "rb_frame r3 = rb_frame rb" "rb_used r3 = rb_used r2"
    using head_wrap_ok [OF r2(2)] r2 by (simp_all add: r3_def)
  have "rb_end r3 = rb_end rb" "0 < length c" using r3(4) c(2) by (simp_all add: rb_frame_def)
  then have "rb_used r3 < rb_end r3" "length m \<le> rb_used r3"
    using ring_okD(7) [OF ok(1)] used r3(5) r2(5) by linarith+
  then have r4: "fst (pop_data (length m) r3) = m" "ring_ok (snd (pop_data (length m) r3))" "rb_bytes (snd (pop_data (length m) r3)) = ?rest"
    "rb_frame (snd (pop_data (length m) r3)) = rb_frame rb"
    using pop_data_ok [OF r3(1,3), of "length m"] r3(2,4) by simp_all
  have "\<not> ringbuf_is_empty rb" using used c(2) by (auto simp: ringbuf_is_empty_def rb_used_def)
  then have "ringbuf_pop rb = (RHINO_SUCCESS, Some (fst (pop_data (length m) r3)), snd (pop_data (length m) r3))"
    using ok(2) first c(4,5) p2 r2(1) by (simp add: ringbuf_pop_def Let_def split_beta flip: r1_def r3_def)
  then show ?thesis using r4 ok(2,5) by (simp add: dyn_holds_def rb_frame_def)
qed

interpretation dynq: msg_queue dyn_holds dyn_valid dyn_fits ringbuf_push ringbuf_pop
proof (unfold_locales, goal_cases)
  case (4 q)
  then show ?case by (auto simp: dyn_holds_def ringbuf_pop_def ringbuf_is_empty_def rb_used_def ring_ok_def dest: arg_cong [of _ _ length])
qed (simp_all add: dyn_push dyn_pop)

subsection \<open>Blocks of one size\<close>

definition fix_valid :: "nat \<Rightarrow> u8 list \<Rightarrow> bool" where
  "fix_valid b m \<longleftrightarrow> length m = b"

text \<open>Head and tail are at block boundaries, so no block crosses the end of the buffer.\<close>

definition fix_holds :: "nat \<Rightarrow> k_ringbuf_t \<Rightarrow> u8 list list \<Rightarrow> bool" where
  "fix_holds b rb ms \<longleftrightarrow> ring_ok rb \<and> rb_type rb = RINGBUF_TYPE_FIX \<and> rb_blk_size rb = b \<and> 0 < b \<and> b dvd rb_end rb \<and>
     b dvd rb_head rb \<and> b dvd rb_tail rb \<and> rb_bytes rb = concat ms \<and> list_all (fix_valid b) ms"

definition fix_fits :: "nat \<Rightarrow> u8 list \<Rightarrow> k_ringbuf_t \<Rightarrow> bool" where
  "fix_fits b m rb \<longleftrightarrow> b \<le> rb_freesize rb"

lemma dvd_less_add: "b dvd x \<Longrightarrow> b dvd y \<Longrightarrow> x < y \<Longrightarrow> x + b \<le> (y :: nat)"
  by (metis add.commute dvd_diff_nat dvd_imp_le le_diff_conv2 less_imp_le zero_less_diff)

lemma fix_push:
  assumes "fix_holds b rb ms" and "fix_valid b m" and "fix_fits b m rb"
  shows "fst (ringbuf_push m rb) = RHINO_SUCCESS \<and> fix_holds b (snd (ringbuf_push m rb)) (ms @ [m])"
proof -
  have ok: "ring_ok rb" "rb_type rb = RINGBUF_TYPE_FIX" "rb_blk_size rb = b" "0 < b" "b dvd rb_end rb" "b dvd rb_head rb" "b dvd rb_tail rb"
    using assms(1) by (simp_all add: fix_holds_def)
  define r where "r = tail_wrap rb"
  have r: "ring_ok r" "rb_bytes r = rb_bytes rb" "rb_tail r < rb_end r" "rb_frame r = rb_frame rb" "rb_freesize r = rb_freesize rb"
    "rb_end r = rb_end rb" using tail_wrap_ok [OF ok(1)] by (simp_all add: r_def)
  have t: "b dvd rb_tail r" "rb_head r = rb_head rb" using ok(7) by (simp_all add: r_def tail_wrap_def)
  have "rb_tail r + length m \<le> rb_end r" "length m \<le> rb_freesize r"
    using dvd_less_add [OF t(1) _ r(3)] ok(5) r(5,6) assms(2,3) by (simp_all add: fix_valid_def fix_fits_def)
  note c = tail_copy_ok [OF r(1,3) this]
  have push: "ringbuf_push m rb = (RHINO_SUCCESS, tail_copy m r)"
    using ok(2,3) assms(3) by (simp add: ringbuf_push_def ringbuf_is_full_def fix_fits_def r_def)
  have "rb_type (tail_copy m r) = RINGBUF_TYPE_FIX" "rb_blk_size (tail_copy m r) = b" using c(3) r(4) ok(2,3) by (simp_all add: rb_frame_def)
  then show ?thesis
    using assms(1,2) c(1,2,5,6,7) r(2,6) t ok(4-6) by (simp add: push fix_holds_def fix_valid_def)
qed

lemma fix_pop:
  assumes "fix_holds b rb (m # ms)"
  shows "fst (ringbuf_pop rb) = RHINO_SUCCESS \<and> fst (snd (ringbuf_pop rb)) = Some m \<and> fix_holds b (snd (snd (ringbuf_pop rb))) ms"
proof -
  have ok: "ring_ok rb" "rb_type rb = RINGBUF_TYPE_FIX" "rb_blk_size rb = b" "0 < b" "b dvd rb_end rb" "b dvd rb_head rb" "b dvd rb_tail rb"
    "rb_bytes rb = m @ concat ms" "length m = b" "list_all (fix_valid b) ms" using assms by (simp_all add: fix_holds_def fix_valid_def)
  have used: "b \<le> rb_used rb" using arg_cong [OF ok(8), of length] ok(9) by simp
  define r where "r = head_wrap rb"
  have r: "ring_ok r" "rb_bytes r = rb_bytes rb" "rb_head r < rb_end r" "rb_frame r = rb_frame rb" "rb_used r = rb_used rb" "rb_end r = rb_end rb"
    using head_wrap_ok [OF ok(1)] by (simp_all add: r_def)
  have h: "b dvd rb_head r" "rb_tail r = rb_tail rb" using ok(6) by (simp_all add: r_def head_wrap_def)
  have "rb_head r + b \<le> rb_end r" "b \<le> rb_used r" using dvd_less_add [OF h(1) _ r(3)] ok(5) r(5,6) used by simp_all
  note c = head_read_ok [OF r(1) this]
  have bs: "rb_blk_size r = b" "rb_type r = RINGBUF_TYPE_FIX" using r(4) ok(2,3) by (simp_all add: rb_frame_def)
  have "\<not> ringbuf_is_empty rb" using used ok(4) by (auto simp: ringbuf_is_empty_def rb_used_def)
  then have pop: "ringbuf_pop rb = (RHINO_SUCCESS, Some (fst (head_read b r)), snd (head_read b r))"
    using ok(2) bs(1) by (simp add: ringbuf_pop_def Let_def split_beta flip: r_def)
  have "rb_type (snd (head_read b r)) = RINGBUF_TYPE_FIX" "rb_blk_size (snd (head_read b r)) = b" using c(4) bs by (simp_all add: rb_frame_def)
  then show ?thesis
    using c(1,2,3,6,7,8) r(2,6) h ok by (simp add: pop fix_holds_def)
qed

interpretation fixq: msg_queue "fix_holds b" "fix_valid b" "fix_fits b" ringbuf_push ringbuf_pop for b
proof (unfold_locales, goal_cases)
  case (2 q ms m)
  then show ?case by (simp add: fix_holds_def fix_fits_def ringbuf_push_def ringbuf_is_full_def)
next
  case (4 q)
  then show ?case by (auto simp: fix_holds_def ringbuf_pop_def ringbuf_is_empty_def rb_used_def ring_ok_def dest: arg_cong [of _ _ length])
qed (simp_all add: fix_push fix_pop)

lemma head_copy_ok:
  assumes "ring_ok rb" and "length xs \<le> rb_head rb" and "length xs \<le> rb_freesize rb"
  shows "ring_ok (head_copy xs rb)" "rb_bytes (head_copy xs rb) = xs @ rb_bytes rb" "rb_frame (head_copy xs rb) = rb_frame rb"
    "rb_freesize (head_copy xs rb) = rb_freesize rb - length xs" "rb_tail (head_copy xs rb) = rb_tail rb"
    "rb_head (head_copy xs rb) = rb_head rb - length xs" "rb_end (head_copy xs rb) = rb_end rb"
proof -
  note ok = ring_okD [OF assms(1)]
  let ?rb = "head_copy xs rb" and ?h = "rb_head rb - length xs"
  have eq: "?rb = rb\<lparr>rb_mem := mem_write ?h xs (rb_mem rb), rb_head := ?h, rb_freesize := rb_freesize rb - length xs\<rparr>"
    using assms(2) ok(2) by (simp add: head_copy_def rb_write_def Let_def)
  show len: "rb_end ?rb = rb_end rb" using assms(2) ok(2) by (simp add: eq)
  then show "rb_frame ?rb = rb_frame rb" by (simp add: rb_frame_def eq)
  show "rb_freesize ?rb = rb_freesize rb - length xs" "rb_tail ?rb = rb_tail rb" "rb_head ?rb = ?h" by (simp_all add: eq)
  have used: "rb_used ?rb = length xs + rb_used rb" using len assms(3) ok(4) by (simp add: rb_used_def eq)
  have "?h + length xs \<le> rb_end rb" "length xs + rb_used rb \<le> rb_end rb" using assms(2,3) ok(2,7) by simp_all
  from ring_write_front [OF this] show "rb_bytes ?rb = xs @ rb_bytes rb"
    using assms(2) by (simp add: rb_bytes_def used) (simp add: eq)
  show "ring_ok ?rb" using ok assms(2) used len unfolding ring_ok_def by (auto simp: eq)
qed

lemma head_start_ok:
  assumes "ring_ok rb"
  shows "ring_ok (head_start rb)" "rb_bytes (head_start rb) = rb_bytes rb" "0 < rb_head (head_start rb)"
    "rb_frame (head_start rb) = rb_frame rb" "rb_freesize (head_start rb) = rb_freesize rb" "rb_tail (head_start rb) = rb_tail rb"
    "rb_end (head_start rb) = rb_end rb"
proof -
  note ok = ring_okD [OF assms]
  have "ring (rb_mem rb) (rb_end rb) n = ring (rb_mem rb) 0 n" for n by (rule ring_cong) simp
  then show "rb_bytes (head_start rb) = rb_bytes rb" "0 < rb_head (head_start rb)" "rb_frame (head_start rb) = rb_frame rb"
    "rb_freesize (head_start rb) = rb_freesize rb" "rb_tail (head_start rb) = rb_tail rb" "rb_end (head_start rb) = rb_end rb"
    using ok by (auto simp: head_start_def rb_bytes_def rb_used_def rb_frame_def)
  have used: "rb_used (head_start rb) = rb_used rb" by (simp add: head_start_def rb_used_def)
  show "ring_ok (head_start rb)"
  proof (cases "rb_head rb = 0")
    case True
    then have "(rb_end rb + rb_used rb) mod rb_end rb = rb_tail rb mod rb_end rb" using ok(5) by simp
    then show ?thesis using ok used True unfolding ring_ok_def by (simp add: head_start_def)
  qed (use assms in \<open>simp add: head_start_def\<close>)
qed

lemma fix_head_push:
  assumes "fix_holds b rb ms" and "fix_valid b m" and "fix_fits b m rb"
  shows "fst (ringbuf_head_push m rb) = RHINO_SUCCESS \<and> fix_holds b (snd (ringbuf_head_push m rb)) (m # ms)"
proof -
  have ok: "ring_ok rb" "rb_type rb = RINGBUF_TYPE_FIX" "rb_blk_size rb = b" "0 < b" "b dvd rb_end rb" "b dvd rb_head rb" "b dvd rb_tail rb"
    using assms(1) by (simp_all add: fix_holds_def)
  define r where "r = head_start rb"
  have r: "ring_ok r" "rb_bytes r = rb_bytes rb" "0 < rb_head r" "rb_frame r = rb_frame rb" "rb_freesize r = rb_freesize rb"
    "rb_tail r = rb_tail rb" "rb_end r = rb_end rb" using head_start_ok [OF ok(1)] by (simp_all add: r_def)
  have h: "b dvd rb_head r" using ok(5,6) by (simp add: r_def head_start_def)
  have "length m \<le> rb_head r" "length m \<le> rb_freesize r"
    using dvd_imp_le [OF h r(3)] r(5) assms(2,3) by (simp_all add: fix_valid_def fix_fits_def)
  note c = head_copy_ok [OF r(1) this]
  have push: "ringbuf_head_push m rb = (RHINO_SUCCESS, head_copy m r)"
    using ok(2,3) assms(3) by (simp add: ringbuf_head_push_def ringbuf_is_full_def fix_fits_def r_def)
  have "rb_type (head_copy m r) = RINGBUF_TYPE_FIX" "rb_blk_size (head_copy m r) = b" using c(3) r(4) ok(2,3) by (simp_all add: rb_frame_def)
  moreover have "b dvd rb_head r - length m" using h assms(2) by (simp add: fix_valid_def)
  ultimately show ?thesis
    using assms(1,2) c(1,2,5,6,7) r(2,6,7) ok(4,5,7) by (simp add: push fix_holds_def fix_valid_def)
qed

lemma fix_push_room:
  assumes "fix_holds b q os" and "fix_valid b m" and "fix_fits b m q"
  shows "rb_freesize (snd (ringbuf_push m q)) = rb_freesize q - b"
  using assms by (auto simp: fix_holds_def fix_fits_def fix_valid_def ringbuf_push_def ringbuf_is_full_def tail_copy_def rb_write_def
      tail_wrap_def Let_def)

lemma fix_pushes:
  assumes "fix_holds b q os" and "list_all (fix_valid b) ms" and "length ms * b \<le> rb_freesize q"
  shows "fix_holds b (fold (\<lambda>m q. snd (ringbuf_push m q)) ms q) (os @ ms)"
  using assms
proof (induction ms arbitrary: q os)
  case (Cons m ms)
  have fits: "fix_fits b m q" using Cons.prems(3) by (simp add: fix_fits_def)
  have p: "fix_holds b (snd (ringbuf_push m q)) (os @ [m])" "rb_freesize (snd (ringbuf_push m q)) = rb_freesize q - b"
    using fix_push [OF Cons.prems(1) _ fits] fix_push_room [OF Cons.prems(1) _ fits] Cons.prems(2) by simp_all
  show ?case using Cons.IH [OF p(1)] Cons.prems(2,3) p(2) by simp
qed simp

text \<open>A new buffer is empty.\<close>

lemma ringbuf_init_holds:
  assumes "buf \<noteq> []" and "\<not> rb_fault rb"
  shows "dyn_holds (snd (ringbuf_init rb buf RINGBUF_TYPE_DYN b)) []"
    and "0 < b \<Longrightarrow> b dvd length buf \<Longrightarrow> fix_holds b (snd (ringbuf_init rb buf RINGBUF_TYPE_FIX b)) []"
  using assms by (simp_all add: ringbuf_init_def ringbuf_reset_def Let_def dyn_holds_def fix_holds_def ring_ok_def rb_used_def rb_bytes_def)

section \<open>Theorems\<close>

text \<open>A buffer of eight bytes that holds two messages, the second of which goes over the end of the buffer.\<close>

definition ringbuf_example :: k_ringbuf_t where
  "ringbuf_example =
     (let rb = \<lparr>rb_mem = [], rb_head = 0, rb_tail = 0, rb_freesize = 0, rb_type = RINGBUF_TYPE_DYN, rb_blk_size = 0, rb_fault = False\<rparr>;
          rb1 = snd (ringbuf_init rb (replicate 8 0) RINGBUF_TYPE_DYN 0);
          rb2 = snd (ringbuf_push [1, 2, 3, 4] rb1);
          rb3 = snd (snd (ringbuf_pop rb2));
          rb4 = snd (ringbuf_push [7] rb3)
      in snd (ringbuf_push [8, 9, 10] rb4))"

lemma ringbuf_example_holds: "dyn_holds ringbuf_example [[7], [8, 9, 10]]"
proof -
  have "ring_ok ringbuf_example \<and> rb_type ringbuf_example = RINGBUF_TYPE_DYN \<and> rb_bytes ringbuf_example = [1, 7, 3, 8, 9, 10]" by code_simp
  moreover have "rb_frame_of [7] = [1, 7]" "rb_frame_of [8, 9, 10] = [3, 8, 9, 10]" by code_simp+
  ultimately show ?thesis by (simp add: dyn_holds_def dyn_valid_def)
qed

text \<open>C27: The dynamic ring buffer refines a FIFO queue of messages.  A push appends the message exactly when its length code and its bytes fit
  in the free space and is refused with \<open>RHINO_RINGBUF_FULL\<close> otherwise, a pop returns the oldest message unchanged,
  also when it is stored in two pieces, and no copy leaves the buffer.\<close>

theorem ringbuf_dyn_refines_queue:
  assumes "dyn_holds rb ms" and "length m \<le> 0x3fffff"
  shows "(dyn_fits m rb \<longrightarrow> fst (ringbuf_push m rb) = RHINO_SUCCESS \<and> dyn_holds (snd (ringbuf_push m rb)) (ms @ [m])) \<and>
    (\<not> dyn_fits m rb \<longrightarrow> ringbuf_push m rb = (RHINO_RINGBUF_FULL, rb)) \<and>
    (ms = [] \<longrightarrow> ringbuf_pop rb = (RHINO_RINGBUF_EMPTY, None, rb)) \<and>
    (\<forall>n ns. ms = n # ns \<longrightarrow> fst (ringbuf_pop rb) = RHINO_SUCCESS \<and> fst (snd (ringbuf_pop rb)) = Some n \<and>
       dyn_holds (snd (snd (ringbuf_pop rb))) ns)"
  using dynq.push_fits [OF assms(1)] dynq.push_full [OF assms(1)] dynq.pop_empty [of rb] dynq.pop_msg [of rb] assms
  by (auto simp: dyn_valid_def)

theorem ringbuf_dyn_refines_queue_witness: "fst (snd (ringbuf_pop ringbuf_example)) = Some [7]"
  using ringbuf_dyn_refines_queue [OF ringbuf_example_holds, of "[]"] by simp

text \<open>Round trip of the fixed-size ring buffer, the storage of the kernel's queues: blocks pushed to a new buffer that has room for them are
  popped in the same order.\<close>

theorem ringbuf_fix_roundtrip:
  assumes "0 < b" and "b dvd length buf" and "buf \<noteq> []" and "\<not> rb_fault rb" and "list_all (fix_valid b) ms" and "length ms * b \<le> length buf"
  shows "fst (pops ringbuf_pop (length ms) (fold (\<lambda>m q. snd (ringbuf_push m q)) ms (snd (ringbuf_init rb buf RINGBUF_TYPE_FIX b)))) = ms"
proof -
  let ?q = "snd (ringbuf_init rb buf RINGBUF_TYPE_FIX b)"
  have "fix_holds b (fold (\<lambda>m q. snd (ringbuf_push m q)) ms ?q) ms"
    using fix_pushes [OF ringbuf_init_holds(2) [OF assms(3,4,1,2)] assms(5)] assms(6) by (simp add: ringbuf_init_def ringbuf_reset_def Let_def)
  then show ?thesis using fixq.pops_in_order [of b _ ms "[]"] by simp
qed

theorem ringbuf_fix_roundtrip_witness:
  "fst (pops ringbuf_pop (length [[1, 2], [3, 4 :: u8]]) (fold (\<lambda>m q. snd (ringbuf_push m q)) [[1, 2], [3, 4]]
     (snd (ringbuf_init ringbuf_example [0, 0, 0, 0] RINGBUF_TYPE_FIX 2)))) = [[1, 2], [3, 4]]"
proof -
  have "\<not> rb_fault ringbuf_example" by code_simp
  then show ?thesis by (intro ringbuf_fix_roundtrip) (simp_all add: fix_valid_def)
qed

text \<open>The length code in front of a message round-trips for every length up to \<open>0x3fffff\<close>, takes one to three bytes, and its first byte tells how many; longer
  lengths are refused.\<close>

theorem headlen_code:
  "(\<forall>n \<le> 0x3fffff. \<exists>c. ringbuf_headlen_compress (of_nat n) = Some c \<and> length c \<in> {1, 2, 3} \<and>
      len_bytes_of (c ! 0) = Some (length c) \<and> unat (ringbuf_headlen_decompress c) = n) \<and>
   (\<forall>x > 0x3fffff. ringbuf_headlen_compress x = None)"
proof (intro conjI allI impI)
  fix n :: nat assume "n \<le> 0x3fffff"
  then obtain c where c: "ringbuf_headlen_compress (of_nat n) = Some c" "c \<noteq> []" "length c \<le> 3" "len_bytes_of (c ! 0) = Some (length c)"
    "unat (ringbuf_headlen_decompress c) = n" by (rule headlen_roundtrip)
  then have "length c \<in> {1, 2, 3}" by (cases "length c"; fastforce simp: numeral_2_eq_2 numeral_3_eq_3 le_Suc_eq)
  then show "\<exists>c. ringbuf_headlen_compress (of_nat n) = Some c \<and> length c \<in> {1, 2, 3} \<and>
      len_bytes_of (c ! 0) = Some (length c) \<and> unat (ringbuf_headlen_decompress c) = n" using c by blast
next
  fix x :: u32 assume "x > 0x3fffff"
  then have "\<not> x \<le> 0x7f" "\<not> x \<le> 0x3fff" "\<not> x \<le> 0x3fffff" by (simp_all add: word_le_nat_alt word_less_nat_alt)
  then show "ringbuf_headlen_compress x = None" by (simp add: ringbuf_headlen_compress_def COMPRESS_LEN_def)
qed

theorem headlen_code_witness: "\<exists>c. ringbuf_headlen_compress (of_nat 300) = Some c \<and> unat (ringbuf_headlen_decompress c) = 300"
proof -
  have "(300 :: nat) \<le> 0x3fffff" by simp
  with headlen_code show ?thesis by blast
qed

text \<open>The exported test for a full ring buffer answers whether the buffer is empty: a full buffer is reported as not full, an empty one as full.\<close>

theorem ringbuf_is_full_inverted:
  "krhino_ringbuf_is_full (Some rb) = Inr (rb_freesize rb = rb_end rb) \<and>
   (let rb = snd (ringbuf_init ringbuf_example [0, 0] RINGBUF_TYPE_FIX 1); full = snd (ringbuf_push [2] (snd (ringbuf_push [1] rb)))
    in krhino_ringbuf_is_full (Some rb) = Inr True \<and> ringbuf_is_full full \<and> krhino_ringbuf_is_full (Some full) = Inr False)"
proof
  show "let rb = snd (ringbuf_init ringbuf_example [0, 0] RINGBUF_TYPE_FIX 1); full = snd (ringbuf_push [2] (snd (ringbuf_push [1] rb)))
    in krhino_ringbuf_is_full (Some rb) = Inr True \<and> ringbuf_is_full full \<and> krhino_ringbuf_is_full (Some full) = Inr False" by code_simp
qed (simp add: krhino_ringbuf_is_full_def ringbuf_is_empty_def)

text \<open>Pushing to the head of a dynamic ring buffer garbles a message that has to be split at the start of the buffer: it is popped with its two
  parts exchanged.\<close>

theorem ringbuf_head_push_garbles:
  "let rb = snd (ringbuf_init ringbuf_example (replicate 8 0) RINGBUF_TYPE_DYN 0);
       rb = snd (snd (ringbuf_pop (snd (ringbuf_push [5] rb))));
       (r, rb) = ringbuf_head_push [1, 2, 3, 4] rb
   in r = RHINO_SUCCESS \<and> fst (snd (ringbuf_pop rb)) = Some [3, 4, 1, 2]"
  by code_simp

end
