(* ===== verification/Mblk.thy ===== *)
theory Mblk
  imports Rhino_Prelude
begin

text \<open>
  Pools of memory blocks of one size, \<^verbatim>\<open>kernel/rhino/core/k_mm_blk.c\<close>.  The free blocks of a pool are
  linked through their first word; \<open>mem\<close> is that word of every block, and address 0 is the null
  pointer.  The theorems: a new pool links all whole blocks of its memory, allocation hands out a
  block that is free and never one twice, freeing undoes it, and with a block size of zero the
  initialisation does not end.
\<close>

section \<open>Operations\<close>

record mblk_pool_t =
  mb_is_pool :: bool
  mb_name :: string
  mb_blk_size :: nat
  mb_blk_avail :: nat
  mb_blk_whole :: nat
  mb_avail_list :: nat

type_synonym mblk_mem = "nat \<Rightarrow> nat"

text \<open>The loop that links the blocks; \<open>None\<close> when it does not end.\<close>

partial_function (option) mblk_link :: "nat \<Rightarrow> nat \<Rightarrow> nat \<Rightarrow> nat \<Rightarrow> nat \<Rightarrow> mblk_mem \<Rightarrow> (nat \<times> nat \<times> nat \<times> mblk_mem) option" where
  "mblk_link blk_size pool_end blks blk_cur blk_next mem =
     (if blk_next < pool_end
      then mblk_link blk_size pool_end (blks + 1) blk_next (blk_next + blk_size) (mem(blk_cur := blk_next))
      else Some (blks, blk_cur, blk_next, mem))"

declare mblk_link.simps [code]

definition krhino_mblk_pool_init :: "mblk_pool_t option \<Rightarrow> string option \<Rightarrow> nat \<Rightarrow> u32 \<Rightarrow> u32 \<Rightarrow> mblk_mem \<Rightarrow>
    (kstat \<times> mblk_pool_t option \<times> mblk_mem) option" where
  "krhino_mblk_pool_init pool name pool_start blk_size pool_size mem =
     (case (pool, name) of
        (Some p, Some nm) \<Rightarrow>
          if pool_start = 0 then Some (RHINO_NULL_PTR, pool, mem)
          else if pool_size < push_bit 1 blk_size then Some (RHINO_BLK_POOL_SIZE_ERR, pool, mem)
          else if pool_start mod 4 > 0 then Some (RHINO_INV_ALIGN, pool, mem)
          else if blk_size AND 3 > 0 then Some (RHINO_INV_ALIGN, pool, mem)
          else if pool_size AND 3 > 0 then Some (RHINO_INV_ALIGN, pool, mem)
          else
            let pool_end = pool_start + unat pool_size
            in map_option
                 (\<lambda>(blks, blk_cur, blk_next, mem).
                    let blks = (if blk_next = pool_end then blks + 1 else blks)
                    in (RHINO_SUCCESS,
                        Some (p\<lparr>mb_name := nm, mb_blk_whole := blks, mb_blk_avail := blks, mb_blk_size := unat blk_size,
                                mb_avail_list := pool_start, mb_is_pool := True\<rparr>),
                        mem(blk_cur := 0)))
                 (mblk_link (unat blk_size) pool_end 0 pool_start (pool_start + unat blk_size) mem)
      | _ \<Rightarrow> Some (RHINO_NULL_PTR, pool, mem))"

text \<open>The second component is what is stored through \<open>blk\<close>.\<close>

definition krhino_mblk_alloc :: "mblk_pool_t option \<Rightarrow> bool \<Rightarrow> mblk_mem \<Rightarrow> kstat \<times> nat option \<times> mblk_pool_t option" where
  "krhino_mblk_alloc pool blk_is_null mem =
     (case pool of
        None \<Rightarrow> (RHINO_NULL_PTR, None, pool)
      | Some p \<Rightarrow>
          if blk_is_null then (RHINO_NULL_PTR, None, pool)
          else if \<not> mb_is_pool p then (RHINO_KOBJ_TYPE_ERR, None, pool)
          else if mb_blk_avail p > 0
            then (RHINO_SUCCESS, Some (mb_avail_list p),
                  Some (p\<lparr>mb_avail_list := mem (mb_avail_list p), mb_blk_avail := mb_blk_avail p - 1\<rparr>))
          else (RHINO_NO_MEM, Some 0, pool))"

definition krhino_mblk_free :: "mblk_pool_t option \<Rightarrow> nat \<Rightarrow> mblk_mem \<Rightarrow> kstat \<times> mblk_pool_t option \<times> mblk_mem" where
  "krhino_mblk_free pool blk mem =
     (case pool of
        None \<Rightarrow> (RHINO_NULL_PTR, pool, mem)
      | Some p \<Rightarrow>
          if blk = 0 then (RHINO_NULL_PTR, pool, mem)
          else if \<not> mb_is_pool p then (RHINO_KOBJ_TYPE_ERR, pool, mem)
          else (RHINO_SUCCESS, Some (p\<lparr>mb_avail_list := blk, mb_blk_avail := mb_blk_avail p + 1\<rparr>), mem(blk := mb_avail_list p)))"

section \<open>The free list\<close>

fun mblk_path :: "mblk_mem \<Rightarrow> nat \<Rightarrow> nat list \<Rightarrow> bool" where
  "mblk_path mem p [] = (p = 0)"
| "mblk_path mem p (b # bs) = (p = b \<and> b \<noteq> 0 \<and> mblk_path mem (mem b) bs)"

lemma mblk_path_upd [simp]: "b \<notin> set bs \<Longrightarrow> mblk_path (mem(b := q)) p bs = mblk_path mem p bs"
  by (induction bs arbitrary: p) auto

text \<open>
  The pool has the free blocks \<open>free\<close>, in this order; \<open>rest\<close> is linked behind them but not counted (the
  remainder of a pool whose size is not a multiple of the block size).
\<close>

definition mblk_ok :: "mblk_pool_t \<Rightarrow> mblk_mem \<Rightarrow> nat list \<Rightarrow> nat list \<Rightarrow> bool" where
  "mblk_ok p mem free rest \<longleftrightarrow> mb_is_pool p \<and> mblk_path mem (mb_avail_list p) (free @ rest) \<and> distinct (free @ rest) \<and>
     mb_blk_avail p = length free"

definition blocks :: "nat \<Rightarrow> nat \<Rightarrow> nat \<Rightarrow> nat list" where
  "blocks start sz n = map (\<lambda>i. start + i * sz) [0..<n]"

lemma blocks_simps: "blocks start sz 0 = []" "blocks start sz (Suc n) = start # blocks (start + sz) sz n"
  by (simp_all add: blocks_def map_upt_Suc del: upt_Suc)

lemma blocks_distinct: "0 < sz \<Longrightarrow> distinct (blocks start sz n)"
  by (simp add: blocks_def distinct_map inj_on_def)

lemma in_blocks: "b \<in> set (blocks start sz n) \<longleftrightarrow> (\<exists>i < n. b = start + i * sz)"
  by (auto simp: blocks_def)

text \<open>
  The loop ends when the block size is positive; it has then linked the \<open>n\<close> blocks that lie completely
  in front of the last one reached.
\<close>

lemma mblk_link_spec:
  assumes "0 < sz" and "0 < cur"
  shows "\<exists>n mem'. mblk_link sz pool_end blks cur (cur + sz) mem = Some (blks + n, cur + n * sz, cur + Suc n * sz, mem') \<and>
    mblk_path (mem'(cur + n * sz := 0)) cur (blocks cur sz (Suc n)) \<and> pool_end \<le> cur + Suc n * sz \<and>
    (0 < n \<longrightarrow> cur + n * sz < pool_end) \<and> (\<forall>b. b < cur \<longrightarrow> mem' b = mem b)"
  using assms(2)
proof (induction "pool_end - cur" arbitrary: cur blks mem rule: less_induct)
  case less
  show ?case
  proof (cases "cur + sz < pool_end")
    case False
    then show ?thesis
      using less.prems by (intro exI [of _ 0] exI [of _ mem]) (simp add: mblk_link.simps blocks_simps)
  next
    case True
    have dec: "pool_end - (cur + sz) < pool_end - cur" and pos: "0 < cur + sz" using True assms(1) by simp_all
    obtain n mem' where n: "mblk_link sz pool_end (blks + 1) (cur + sz) (cur + sz + sz) (mem(cur := cur + sz)) =
        Some (blks + 1 + n, cur + sz + n * sz, cur + sz + Suc n * sz, mem')"
      "mblk_path (mem'(cur + sz + n * sz := 0)) (cur + sz) (blocks (cur + sz) sz (Suc n))" "pool_end \<le> cur + sz + Suc n * sz"
      "0 < n \<longrightarrow> cur + sz + n * sz < pool_end" "\<forall>b. b < cur + sz \<longrightarrow> mem' b = (mem(cur := cur + sz)) b"
      using less.hyps [OF dec pos, of "blks + 1" "mem(cur := cur + sz)"] by blast
    have next_cur: "(mem'(cur + sz + n * sz := 0)) cur = cur + sz" using n(5) assms(1) by simp
    show ?thesis
    proof (intro exI [of _ "Suc n"] exI [of _ mem'] conjI)
      show "mblk_link sz pool_end blks cur (cur + sz) mem = Some (blks + Suc n, cur + Suc n * sz, cur + Suc (Suc n) * sz, mem')"
        using n(1) True by (subst mblk_link.simps) (simp add: algebra_simps)
      show "mblk_path (mem'(cur + Suc n * sz := 0)) cur (blocks cur sz (Suc (Suc n)))"
        using n(2) next_cur less.prems by (subst blocks_simps) (simp add: algebra_simps)
      show "\<forall>b. b < cur \<longrightarrow> mem' b = mem b" using n(5) assms(1) by auto
    qed (use n True in \<open>auto simp: algebra_simps\<close>)
  qed
qed

text \<open>With a block size of zero nothing is ever returned.\<close>

lemma mblk_link_zero:
  assumes "nxt < pool_end"
  shows "mblk_link 0 pool_end blks cur nxt mem = None"
proof -
  have "sz = 0 \<longrightarrow> \<not> nxt < pool_end" if "mblk_link sz pool_end blks cur nxt mem = Some r" for sz r
    by (rule mblk_link.raw_induct [where P = "\<lambda>sz pool_end blks cur nxt mem r. sz = 0 \<longrightarrow> \<not> nxt < pool_end", OF _ that])
      (force split: if_splits)
  then show ?thesis using assms by (metis not_Some_eq)
qed

section \<open>Theorems\<close>

definition new_pool :: mblk_pool_t where
  "new_pool = \<lparr>mb_is_pool = False, mb_name = [], mb_blk_size = 0, mb_blk_avail = 0, mb_blk_whole = 0, mb_avail_list = 0\<rparr>"

text \<open>The number of blocks the initialisation counts.\<close>

lemma block_count:
  assumes "0 < sz" and "pool_end \<le> start + Suc n * sz" and "0 < n \<longrightarrow> start + n * sz < pool_end" and "pool_end = start + len" and "2 * sz \<le> len"
  shows "(if start + Suc n * sz = pool_end then n + 1 else n) = len div sz"
proof -
  have n: "0 < n" using assms(2,4,5) assms(1) by (cases n) auto
  have "n * sz < len" "len \<le> Suc n * sz" using assms(2-4) n by simp_all
  then show ?thesis
  proof (cases "len = Suc n * sz")
    case True
    then show ?thesis using assms(1,4) by simp
  next
    case False
    then have "len div sz = n" using \<open>n * sz < len\<close> \<open>len \<le> Suc n * sz\<close> by (intro div_nat_eqI) (simp_all add: algebra_simps)
    then show ?thesis using False assms(4) by simp
  qed
qed

lemma mblk_pool_init_ok:
  assumes "0 < start" "start mod 4 = 0" and "0 < blk_size" "blk_size AND 3 = 0" "pool_size AND 3 = 0"
    and "2 * unat blk_size \<le> unat pool_size"
  shows "\<exists>p' mem' rest. krhino_mblk_pool_init (Some p) (Some nm) start blk_size pool_size mem = Some (RHINO_SUCCESS, Some p', mem') \<and>
    mblk_ok p' mem' (blocks start (unat blk_size) (unat pool_size div unat blk_size)) rest \<and>
    mb_blk_avail p' = unat pool_size div unat blk_size"
proof -
  let ?sz = "unat blk_size" and ?fin = "start + unat pool_size"
  have sz: "0 < ?sz" using assms(3) by (simp add: word_less_nat_alt)
  have "unat (push_bit 1 blk_size) = 2 * ?sz"
    using assms(6) unsigned_less [of pool_size, where 'a = nat] by (simp add: push_bit_eq_mult unat_word_ariths)
  then have fit: "\<not> pool_size < push_bit 1 blk_size" using assms(6) by (simp add: word_less_nat_alt)
  obtain n mem' where n: "mblk_link ?sz ?fin 0 start (start + ?sz) mem = Some (0 + n, start + n * ?sz, start + Suc n * ?sz, mem')"
    "mblk_path (mem'(start + n * ?sz := 0)) start (blocks start ?sz (Suc n))" "?fin \<le> start + Suc n * ?sz"
    "0 < n \<longrightarrow> start + n * ?sz < ?fin"
    using mblk_link_spec [OF sz assms(1), of ?fin 0 mem] by blast
  define w where "w = unat pool_size div ?sz"
  have cnt: "(if start + Suc n * ?sz = ?fin then n + 1 else n) = w" using block_count [OF sz n(3,4) refl assms(6)] by (simp add: w_def)
  have split: "blocks start ?sz (Suc n) = blocks start ?sz w @ drop w (blocks start ?sz (Suc n))"
    using cnt append_take_drop_id [of w "blocks start ?sz (Suc n)"] by (auto simp: blocks_def take_map split: if_splits)
  let ?p = "p\<lparr>mb_name := nm, mb_blk_whole := w, mb_blk_avail := w, mb_blk_size := ?sz, mb_avail_list := start, mb_is_pool := True\<rparr>"
  have "krhino_mblk_pool_init (Some p) (Some nm) start blk_size pool_size mem = Some (RHINO_SUCCESS, Some ?p, mem'(start + n * ?sz := 0))"
    using n(1) cnt fit assms(1-5) by (simp add: krhino_mblk_pool_init_def Let_def)
  moreover have "mblk_ok ?p (mem'(start + n * ?sz := 0)) (blocks start ?sz w) (drop w (blocks start ?sz (Suc n)))"
    using n(2) blocks_distinct [OF sz, of start "Suc n"] unfolding mblk_ok_def split [symmetric]
    by (simp del: upt_Suc) (simp add: blocks_def)
  ultimately show ?thesis unfolding w_def [symmetric] by fastforce
qed



text \<open>C30: Allocation hands out the first free block and takes it off the list, so it is not handed out again while it is in use; with no free block it reports
  \<open>RHINO_NO_MEM\<close>.  Freeing a block that is in use makes it the first free one, and the next allocation returns it.\<close>

theorem mblk_alloc_free:
  assumes "mblk_ok p mem free rest" and "b \<noteq> 0" "b \<notin> set (free @ rest)"
  shows "(\<forall>f fs. free = f # fs \<longrightarrow> (\<exists>p'. krhino_mblk_alloc (Some p) False mem = (RHINO_SUCCESS, Some f, Some p') \<and> mblk_ok p' mem fs rest)) \<and>
    (free = [] \<longrightarrow> krhino_mblk_alloc (Some p) False mem = (RHINO_NO_MEM, Some 0, Some p)) \<and>
    (\<exists>p' mem'. krhino_mblk_free (Some p) b mem = (RHINO_SUCCESS, Some p', mem') \<and> mblk_ok p' mem' (b # free) rest \<and>
      fst (snd (krhino_mblk_alloc (Some p') False mem')) = Some b)"
  using assms by (auto simp: mblk_ok_def krhino_mblk_alloc_def krhino_mblk_free_def)

theorem mblk_alloc_free_witness:
  "\<exists>p' mem'. krhino_mblk_free (Some (new_pool\<lparr>mb_is_pool := True\<rparr>)) 64 (\<lambda>_. 0) = (RHINO_SUCCESS, Some p', mem') \<and>
     fst (snd (krhino_mblk_alloc (Some p') False mem')) = Some 64"
proof -
  have "mblk_ok (new_pool\<lparr>mb_is_pool := True\<rparr>) (\<lambda>_. 0) [] []" by (simp add: mblk_ok_def new_pool_def)
  then show ?thesis using mblk_alloc_free [of "new_pool\<lparr>mb_is_pool := True\<rparr>" "\<lambda>_. 0" "[]" "[]" 64] by auto
qed

text \<open>A block size of zero passes all parameter checks, and the initialisation of a non-empty pool then never ends.\<close>

theorem mblk_pool_init_zero_hangs:
  assumes "0 < start" "start mod 4 = 0" and "0 < pool_size" "pool_size AND 3 = 0"
  shows "krhino_mblk_pool_init (Some p) (Some nm) start 0 pool_size mem = None"
proof -
  have "start < start + unat pool_size" using assms(3) by (simp add: word_less_nat_alt)
  then show ?thesis using assms mblk_link_zero [of start "start + unat pool_size"] by (simp add: krhino_mblk_pool_init_def Let_def)
qed

theorem mblk_pool_init_zero_hangs_witness: "krhino_mblk_pool_init (Some new_pool) (Some ''p'') 256 0 64 (\<lambda>_. 0) = None"
  by (rule mblk_pool_init_zero_hangs) simp_all

end
