(* ===== verification/Waiting.thy ===== *)
theory Waiting
  imports Kernel_Steps
begin

text \<open>
  Creating, waiting for, signalling and deleting an object other than a mutex: what queues, buffer
  queues, event groups and semaphores have in common.  Every lemma keeps \<open>sys_inv\<close> and says what
  happens to the tasks; \<open>signal_step\<close> is the contract of the routine that hands something to the
  first waiting task, instantiated by each kind of object.
\<close>

lemma emptying_view:
  assumes "view k' = view k"
  shows "emptying b k' = emptying b k"
proof -
  have "state_of k' t = state_of k t" "obj_type (objs k' c) = obj_type (objs k c)" "waiters k' c = waiters k c" "task_head k' = task_head k" for t c
    using assms by (simp_all add: view_def fun_eq_iff)
  then show ?thesis using inv_view [OF assms] base_inv_view [OF assms] by (simp add: emptying_def)
qed

text \<open>A new object.\<close>

lemma object_create_inv:
  assumes "sys_inv k" and "obj_type (objs k b) = RHINO_OBJ_TYPE_NONE" and "ty \<noteq> RHINO_MUTEX_OBJ_TYPE" "ty \<noteq> RHINO_SEM_OBJ_TYPE"
  shows "sys_inv (upd_obj b (\<lambda>h. h\<lparr>blk_list := [], obj_name := nm, blk_policy := BLK_POLICY_PRI, obj_type := ty\<rparr>) k)"
proof -
  let ?k = "upd_obj b (\<lambda>h. h\<lparr>blk_list := [], obj_name := nm, blk_policy := BLK_POLICY_PRI, obj_type := ty\<rparr>) k"
  note parts = kernel_invD [of k]
  have inv: "kernel_inv k" "sched_ok k" using assms(1) by (simp_all add: sys_inv_def)
  have wl: "waiters k b = []" using parts(10) [OF inv(1)] assms(2) by (simp add: dead_ok_def)
  have own: "owns_of ?k = owns_of k" using assms(2,3) by (auto simp: owns_def fun_eq_iff)
  have tl: "ticks_left ?k = ticks_left k" by (auto simp: ticks_left_def fun_eq_iff)
  have wls: "blk_list \<circ> objs ?k = blk_list \<circ> objs k" using wl by (auto simp: fun_eq_iff)
  have boost: "boosters_of ?k u = boosters_of k u" for u unfolding boosters_of_def boosters_def own wls ..
  have "blk_inv ?k" using parts(2) [OF inv(1)] wl unfolding blk_inv_def wls blk_ok_def by auto
  moreover have "mtx_inv ?k" using parts(4) [OF inv(1)] assms(3) unfolding mtx_inv_def wls mtx_ok_def own by auto
  moreover have "pi_inv ?k" by (rule pi_inv_cong [OF parts(5) [OF inv(1)]]) (use boost in simp_all)
  moreover have "idle_inv ?k" using parts(6) [OF inv(1)] own unfolding idle_inv_def idle_ok_def by simp
  moreover have "misc_inv ?k" using parts(7) [OF inv(1)] wl assms(3,4) by (auto simp: misc_inv_def hdr_ok_def)
  moreover have "tick_pos ?k" "dead_ok ?k" "rdy_inv ?k" "tick_inv ?k" "\<not> k_fault ?k"
    using parts(1,3,8,9,10) [OF inv(1)] tl wl by (simp_all add: tick_pos_def dead_ok_def rdy_inv_def tick_inv_def)
  ultimately have "kernel_inv ?k" by (simp add: kernel_inv_def)
  then show ?thesis by (rule sys_inv_cong [OF _ inv(2)]) simp_all
qed

text \<open>Blocking the running task on an object.\<close>

definition block_on :: "oid \<Rightarrow> u32 \<Rightarrow> 'a kernel_scheme \<Rightarrow> 'a kernel_scheme" where
  "block_on b ticks k = core_sched (pend_to_blk_obj b (g_active_task k) ticks k)"

lemma block_on_inv:
  assumes "sys_inv k" and "g_active_task k \<noteq> g_idle_task" and "g_intrpt_nested_level k = 0" "g_sched_lock k = 0"
    and "obj_type (objs k b) \<notin> {RHINO_OBJ_TYPE_NONE, RHINO_MUTEX_OBJ_TYPE, RHINO_SEM_OBJ_TYPE}"
  shows "sys_inv (block_on b ticks k)" and "state_of (block_on b ticks k) (g_active_task k) = K_PEND"
    and "set (waiters (block_on b ticks k) b) = insert (g_active_task k) (set (waiters k b))"
    and "u \<noteq> g_active_task k \<Longrightarrow> tasks (block_on b ticks k) u = tasks k u"
    and "c \<noteq> b \<Longrightarrow> waiters (block_on b ticks k) c = waiters k c" and "obj_type (objs (block_on b ticks k) c) = obj_type (objs k c)"
proof -
  have inv: "kernel_inv k" "sched_ok k" using assms(1) by (simp_all add: sys_inv_def)
  have "state_of k (g_active_task k) = K_RDY" using sched_okD(1) [OF inv(2)] assms(3) by simp
  then have "kernel_inv (pend_to_blk_obj b (g_active_task k) ticks k)"
    using assms(5) by (intro pend_to_blk_obj_inv [OF inv(1) _ assms(2)]) auto
  then show "sys_inv (block_on b ticks k)" unfolding block_on_def by (rule sched_exit) (simp add: assms(4))
  show "state_of (block_on b ticks k) (g_active_task k) = K_PEND"
    using fun_cong [OF pend_to_blk_obj_proj(1) [of b "g_active_task k" ticks k], of "g_active_task k"] by (simp add: block_on_def)
  show "set (waiters (block_on b ticks k) b) = insert (g_active_task k) (set (waiters k b))"
    using pend_to_blk_obj_waiters [of b "g_active_task k" ticks k b] by (simp add: block_on_def)
  show "tasks (block_on b ticks k) u = tasks k u" if "u \<noteq> g_active_task k"
    using that by (simp add: block_on_def pend_to_blk_obj_def Let_def pend_list_add_def tick_list_insert_def tick_list_pri_insert_def)
  show "waiters (block_on b ticks k) c = waiters k c" if "c \<noteq> b"
    using that by (simp add: block_on_def pend_to_blk_obj_def Let_def pend_list_add_def tick_list_insert_def tick_list_pri_insert_def)
  show "obj_type (objs (block_on b ticks k) c) = obj_type (objs k c)"
    using fun_cong [OF pend_to_blk_obj_proj(5) [of b "g_active_task k" ticks k], of c] by (simp add: block_on_def)
qed

lemma block_on_more [simp]: "kernel.more (block_on b ticks k) = kernel.more k"
  by (simp add: block_on_def pend_to_blk_obj_def Let_def pend_list_add_def tick_list_insert_def tick_list_pri_insert_def)

text \<open>
  Signalling an object: a routine that takes the first waiting task off the list and readies it, after
  writing something to its control block that the invariant does not depend on.
\<close>

locale signal_step =
  fixes sig :: "tid \<Rightarrow> 'a kernel_scheme \<Rightarrow> 'a kernel_scheme" and hand :: "ktask \<Rightarrow> ktask"
  assumes sig_def: "sig t k = pend_task_wakeup t (upd_task t hand k)"
    and hand_view: "view (upd_task t hand k) = view (k :: 'a kernel_scheme)"
begin

lemma hand_state: "task_state (hand (tasks k t)) = state_of k t" for k :: "'a kernel_scheme"
proof -
  have "(task_state \<circ> tasks (upd_task t hand k)) t = (task_state \<circ> tasks k) t"
    using hand_view [of t k] unfolding view_def prod.inject by metis
  then show ?thesis by simp
qed

lemma sig_eq:
  assumes "emptying b k" and "waiters k b = t # ts"
  shows "emptying b (sig t k)" and "waiters (sig t k) b = ts" and "env (sig t k) = env k"
    and "state_of (sig t k) u = (if u = t then woken (state_of k t) else state_of k u)"
    and "blk_state (tasks (sig t k) u) = (if u = t then BLK_FINISH else blk_state (tasks k u))"
proof -
  let ?k = "upd_task t hand k"
  have st: "state_of ?k u = state_of k u" for u using hand_state by simp
  have em: "emptying b ?k" "waiters ?k b = t # ts" using emptying_view [OF hand_view] assms by simp_all
  show "emptying b (sig t k)" "waiters (sig t k) b = ts" using emptying_wakeup [OF em] by (simp_all add: sig_def)
  show "env (sig t k) = env k" by (simp add: sig_def)
  show "state_of (sig t k) u = (if u = t then woken (state_of k t) else state_of k u)"
    using wake.step_state [OF em, of u] st unfolding sig_def by metis
  show "blk_state (tasks (sig t k) u) = (if u = t then BLK_FINISH else blk_state (tasks k u))"
    using wake.step_result [OF em, of u] by (simp add: sig_def split: if_splits)
qed

lemma sig_type: "obj_type (objs (sig t k) c) = obj_type (objs k c)"
  by (simp add: sig_def pend_task_wakeup_def pend_leave_def split: task_stat_t.split)

lemma while_sig_type: "obj_type (objs (while_waiters sig b n k) c) = obj_type (objs k c)"
  by (induction n arbitrary: k) (simp_all add: sig_type split: list.split)

lemma for_sig_type: "obj_type (objs (for_waiters sig b k) c) = obj_type (objs k c)"
  by (simp add: for_waiters_def while_sig_type)

sublocale steps: emptying_step sig emptying BLK_FINISH
proof (unfold_locales, goal_cases)
  case (1 b k t ts) then show ?case by (rule sig_eq)
next
  case (2 b k t ts) then show ?case by (rule sig_eq)
next
  case (3 b k t ts u) then show ?case by (rule sig_eq)
next
  case (4 b k t ts u) then show ?case by (rule sig_eq)
next
  case (5 t k) then show ?case by (simp add: sig_def)
next
  case (6 b k) then show ?case by (rule wake.distinct_waiters)
qed

text \<open>Signalling the first waiter, or all of them, and rescheduling.\<close>

lemma wake_exit:
  assumes "sys_inv k" and "obj_type (objs k b) \<noteq> RHINO_MUTEX_OBJ_TYPE" and "waiters k b = t # ts" and "k' = sig t k \<or> k' = for_waiters sig b k"
  shows "sys_inv (core_sched k')"
proof -
  have inv: "kernel_inv k" "sched_ok k" using assms(1) by (simp_all add: sys_inv_def)
  have em: "emptying b k" using emptying_kernel(1) [OF inv(1) assms(2)] .
  have blk: "blk_inv k" using kernel_invD(2) [OF inv(1)] .
  have one: "emptying b (sig t k)" "env (sig t k) = env k" using sig_eq [OF em assms(3)] by simp_all
  have dead: "waiters (sig t k) c = []" if "obj_type (objs (sig t k) c) = RHINO_OBJ_TYPE_NONE" for c
  proof (cases "c = b")
    case True
    then show ?thesis using that kernel_invD(10) [OF inv(1)] assms(3) by (simp add: dead_ok_def sig_type)
  qed (use one(1) that in \<open>simp add: emptying_def\<close>)
  have ki: "kernel_inv k'"
    using assms(4) one(1) dead emptying_kernel(2) [OF steps.for_waiters_spec(1,2) [OF em]]
    by (auto simp: emptying_def kernel_inv_base dead_ok_def)
  have env: "env k' = env k" using assms(4) one(2) steps.for_waiters_spec(3) [OF em] by auto
  show ?thesis
  proof (rule sched_exit [OF ki])
    assume "g_sched_lock k' > 0"
    then have act: "g_active_task k' = g_active_task k" "g_sched_lock k > 0" using env by (simp_all add: env_def)
    then have rdy: "state_of k (g_active_task k) = K_RDY" using sched_ok_locked [OF inv(2)] by simp
    then have "g_active_task k \<notin> set (waiters k b)" using waiter_pending(1) [OF blk, of "g_active_task k" b] by auto
    then show "state_of k' (g_active_task k') = K_RDY"
      using assms(3,4) rdy act sig_eq(4) [OF em assms(3), of "g_active_task k"] steps.for_waiters_spec(4) [OF em, of "g_active_task k"]
      by auto
  qed
qed

end

text \<open>Deleting an object releases everybody who waits for it.\<close>

definition retire :: "oid \<Rightarrow> 'a kernel_scheme \<Rightarrow> 'a kernel_scheme" where
  "retire b k = for_waiters pend_task_rm b (upd_obj b (\<lambda>h. h\<lparr>obj_type := RHINO_OBJ_TYPE_NONE\<rparr>) k)"

lemma retire_inv:
  assumes "sys_inv k" and "obj_type (objs k b) \<noteq> RHINO_MUTEX_OBJ_TYPE"
  shows "kernel_inv (retire b k)" and "env (retire b k) = env k" and "waiters (retire b k) b = []"
    and "state_of (retire b k) u = (if u \<in> set (waiters k b) then woken (state_of k u) else state_of k u)"
    and "u \<in> set (waiters k b) \<Longrightarrow> blk_state (tasks (retire b k) u) = BLK_DEL"
    and "view k' = view (retire b k) \<Longrightarrow> g_sched_lock k' = g_sched_lock k \<Longrightarrow> g_active_task k' = g_active_task k \<Longrightarrow> sys_inv (core_sched k')"
proof -
  have inv: "kernel_inv k" "sched_ok k" using assms(1) by (simp_all add: sys_inv_def)
  let ?k = "upd_obj b (\<lambda>h. h\<lparr>obj_type := RHINO_OBJ_TYPE_NONE\<rparr>) k"
  have own: "owns_of ?k = owns_of k" using assms(2) by (auto simp: owns_def fun_eq_iff)
  have "ticks_left ?k = ticks_left k" by (auto simp: ticks_left_def fun_eq_iff)
  then have base: "base_inv ?k"
    using inv(1) own assms(2) unfolding kernel_inv_def base_inv_def inv_defs hdr_ok_def idle_ok_def by simp
  have mtx: "mtx_inv ?k"
    using kernel_invD(4) [OF inv(1)] own assms(2) unfolding mtx_inv_def mtx_ok_def by simp
  have pi: "pi_inv ?k"
    using kernel_invD(5) [OF inv(1)] own unfolding pi_inv_eff eff_of_def boosters_of_def boosters_def by simp
  have "emptying b ?k"
    using base mtx pi kernel_invD(9,10) [OF inv(1)] unfolding emptying_def
    by (auto simp: tick_pos_def ticks_left_def dead_ok_def)
  note em = del.for_waiters_spec [OF this]
  show ki: "kernel_inv (retire b k)" using emptying_kernel(2) [OF em(1,2)] by (simp add: retire_def)
  show env: "env (retire b k) = env k" using em(3) by (simp add: retire_def)
  show "waiters (retire b k) b = []" using em(2) by (simp add: retire_def)
  show st: "state_of (retire b k) u = (if u \<in> set (waiters k b) then woken (state_of k u) else state_of k u)" for u
    using em(4) [of u] by (simp add: retire_def)
  show "u \<in> set (waiters k b) \<Longrightarrow> blk_state (tasks (retire b k) u) = BLK_DEL" using em(5) [of u] by (simp add: retire_def)
  assume k': "view k' = view (retire b k)" "g_sched_lock k' = g_sched_lock k" "g_active_task k' = g_active_task k"
  have "state_of k' u = state_of (retire b k) u" for u using k'(1) by (simp add: view_def fun_eq_iff)
  moreover have "g_active_task k \<notin> set (waiters k b)" if "state_of k (g_active_task k) = K_RDY"
    using that waiter_pending(1) [OF kernel_invD(2) [OF inv(1)], of "g_active_task k" b] by auto
  ultimately show "sys_inv (core_sched k')"
    using inv_view(10) [OF k'(1)] ki k'(2,3) st sched_ok_locked [OF inv(2)] by (intro sched_exit) simp_all
qed

lemma retire_type:
  assumes "sys_inv k" and "obj_type (objs k b) \<noteq> RHINO_MUTEX_OBJ_TYPE"
  shows "obj_type (objs (retire b k) c) = (if c = b then RHINO_OBJ_TYPE_NONE else obj_type (objs k c))"
  unfolding retire_def by (subst for_waiters_type) simp_all

text \<open>Fields behind the kernel record are what the components that extend it keep; the kernel's invariant does not read them.\<close>

lemma sys_inv_view:
  assumes "view k' = view k" and "g_active_task k' = g_active_task k" "g_sched_lock k' = g_sched_lock k"
    "g_intrpt_nested_level k' = g_intrpt_nested_level k"
  shows "sys_inv k' = sys_inv k"
proof -
  have "state_of k' u = state_of k u" "g_ready_queue k' = g_ready_queue k" for u using assms(1) by (simp_all add: view_def fun_eq_iff)
  then show ?thesis using assms inv_view(10) [OF assms(1)] by (simp add: sys_inv_def sched_ok_def best_def)
qed

lemma for_waiters_more:
  assumes "\<And>t k. kernel.more (f t k) = kernel.more k"
  shows "kernel.more (for_waiters f b k) = kernel.more k"
proof -
  have "kernel.more (while_waiters f b n k) = kernel.more k" for n by (induction n arbitrary: k) (simp_all add: assms split: list.split)
  then show ?thesis by (simp add: for_waiters_def)
qed

text \<open>A state of the kernel with further components behind it.\<close>

lemma sys_inv_extend: "sys_inv (kernel.extend k x) = sys_inv k"
proof -
  have "view (kernel.extend k x) = view k" by (simp add: kernel.defs view_def ticks_left_def fun_eq_iff)
  then show ?thesis by (rule sys_inv_view) (simp_all add: kernel.defs)
qed

end
