(* ===== verification/Queue.thy ===== *)
theory Queue
  imports Waiting Ringbuf
begin

text \<open>
  Message queues, \<^verbatim>\<open>kernel/rhino/core/k_queue.c\<close>: a bounded queue of pointers kept in a ring buffer of the
  fixed type, with the tasks waiting for a message on the object's block list.  The kernel state is
  extended with the queues; \<open>queue_inv\<close> relates a queue to the list of the messages in it.  The
  theorems: every call keeps the kernel's invariant; a queue is FIFO for \<open>back_send\<close> and LIFO for
  \<open>front_send\<close>; a message is stored or handed to a waiting task, never both; a full queue refuses.
\<close>

section \<open>Operations\<close>

record kqueue_t =
  q_ringbuf :: k_ringbuf_t
  q_start :: nat
  q_size :: u32
  q_cur_num :: u32
  q_peak_num :: u32
  q_alloc_flag :: u8

record qkernel = kernel +
  queue_head :: "oid list"
  queues :: "oid \<Rightarrow> kqueue_t"

definition upd_queue :: "oid \<Rightarrow> (kqueue_t \<Rightarrow> kqueue_t) \<Rightarrow> 'a qkernel_scheme \<Rightarrow> 'a qkernel_scheme" where
  "upd_queue q f k = k\<lparr>queues := (queues k)(q := f (queues k q))\<rparr>"

text \<open>The bytes of a pointer in the memory of a little-endian machine.\<close>

definition ptr_bytes :: "u32 \<Rightarrow> u8 list" where
  "ptr_bytes p = rev (be_bytes p)"

definition bytes_ptr :: "u8 list \<Rightarrow> u32" where
  "bytes_ptr bs = be_word (rev bs)"

definition task_msg_recv :: "u32 \<Rightarrow> tid \<Rightarrow> 'a kernel_scheme \<Rightarrow> 'a kernel_scheme" where
  "task_msg_recv m t k = pend_task_wakeup t (upd_task t (\<lambda>c. c\<lparr>msg := m\<rparr>) k)"

text \<open>
  \<open>start\<close> is the address of the memory the caller provides and the bytes found there; the size of the
  ring buffer is a product of 32 bit numbers.
\<close>

definition queue_create :: "oid option \<Rightarrow> string option \<Rightarrow> (nat \<times> u8 list) option \<Rightarrow> u32 \<Rightarrow> u8 \<Rightarrow> 'a qkernel_scheme \<Rightarrow>
    kstat \<times> 'a qkernel_scheme" where
  "queue_create queue name start msg_num mm_alloc k =
     (case (queue, start, name) of
        (Some q, Some (addr, buf), Some nm) \<Rightarrow>
          if msg_num = 0 then (RHINO_INV_PARAM, k)
          else
            let k1 = upd_obj q (\<lambda>h. h\<lparr>blk_list := [], obj_name := nm, blk_policy := BLK_POLICY_PRI\<rparr>) k;
                k2 = upd_queue q (\<lambda>c. c\<lparr>q_start := addr,
                       q_ringbuf := snd (ringbuf_init (q_ringbuf c) (take (unat (msg_num * 4)) buf) RINGBUF_TYPE_FIX 4),
                       q_size := msg_num, q_cur_num := 0, q_peak_num := 0, q_alloc_flag := mm_alloc\<rparr>) k1;
                k3 = k2\<lparr>queue_head := queue_head k2 @ [q]\<rparr>
            in (RHINO_SUCCESS, upd_obj q (\<lambda>h. h\<lparr>obj_type := RHINO_QUEUE_OBJ_TYPE\<rparr>) k3)
      | _ \<Rightarrow> (RHINO_NULL_PTR, k))"

definition krhino_queue_create :: "oid option \<Rightarrow> string option \<Rightarrow> (nat \<times> u8 list) option \<Rightarrow> u32 \<Rightarrow> 'a qkernel_scheme \<Rightarrow>
    kstat \<times> 'a qkernel_scheme" where
  "krhino_queue_create queue name start msg_num k = queue_create queue name start msg_num K_OBJ_STATIC_ALLOC k"

text \<open>The part of the two delete calls after the parameter checks.\<close>

definition queue_delete :: "oid \<Rightarrow> 'a qkernel_scheme \<Rightarrow> 'a qkernel_scheme" where
  "queue_delete q k =
     (let k1 = upd_obj q (\<lambda>h. h\<lparr>obj_type := RHINO_OBJ_TYPE_NONE\<rparr>) k;
          k2 = for_waiters pend_task_rm q k1;
          k3 = k2\<lparr>queue_head := remove1 q (queue_head k2)\<rparr>;
          k4 = upd_queue q (\<lambda>c. c\<lparr>q_ringbuf := snd (ringbuf_reset (q_ringbuf c))\<rparr>) k3
      in core_sched k4)"

definition krhino_queue_del :: "oid option \<Rightarrow> 'a qkernel_scheme \<Rightarrow> kstat \<times> 'a qkernel_scheme" where
  "krhino_queue_del queue k =
     (case queue of
        None \<Rightarrow> (RHINO_NULL_PTR, k)
      | Some q \<Rightarrow>
          if g_intrpt_nested_level k > 0 then (RHINO_NOT_CALLED_BY_INTRPT, k)
          else if obj_type (objs k q) \<noteq> RHINO_QUEUE_OBJ_TYPE then (RHINO_KOBJ_TYPE_ERR, k)
          else if q_alloc_flag (queues k q) \<noteq> K_OBJ_STATIC_ALLOC then (RHINO_KOBJ_DEL_ERR, k)
          else (RHINO_SUCCESS, queue_delete q k))"

text \<open>\<open>mem\<close> and \<open>msg_start\<close> are what the two calls of \<open>krhino_mm_alloc\<close> return.\<close>

definition krhino_queue_dyn_create :: "bool \<Rightarrow> oid option \<Rightarrow> (nat \<times> u8 list) option \<Rightarrow> string option \<Rightarrow> u32 \<Rightarrow> 'a qkernel_scheme \<Rightarrow>
    kstat \<times> oid option \<times> 'a qkernel_scheme" where
  "krhino_queue_dyn_create queue_is_null mem msg_start name msg_num k =
     (if queue_is_null then (RHINO_NULL_PTR, None, k)
      else case mem of
        None \<Rightarrow> (RHINO_NO_MEM, None, k)
      | Some queue_obj \<Rightarrow>
          (case msg_start of
             None \<Rightarrow> (RHINO_NO_MEM, None, k\<lparr>mm_freed := mm_freed k @ [queue_obj]\<rparr>)
           | Some (addr, buf) \<Rightarrow>
               (let (stat, k1) = queue_create (Some queue_obj) name (Some (addr, buf)) msg_num K_OBJ_DYN_ALLOC k
                in if stat \<noteq> RHINO_SUCCESS then (stat, None, k1\<lparr>mm_freed := mm_freed k1 @ [addr, queue_obj]\<rparr>)
                   else (stat, Some queue_obj, k1))))"

definition krhino_queue_dyn_del :: "oid option \<Rightarrow> 'a qkernel_scheme \<Rightarrow> kstat \<times> 'a qkernel_scheme" where
  "krhino_queue_dyn_del queue k =
     (case queue of
        None \<Rightarrow> (RHINO_NULL_PTR, k)
      | Some q \<Rightarrow>
          if g_intrpt_nested_level k > 0 then (RHINO_NOT_CALLED_BY_INTRPT, k)
          else if obj_type (objs k q) \<noteq> RHINO_QUEUE_OBJ_TYPE then (RHINO_KOBJ_TYPE_ERR, k)
          else if q_alloc_flag (queues k q) \<noteq> K_OBJ_DYN_ALLOC then (RHINO_KOBJ_DEL_ERR, k)
          else let k1 = queue_delete q k in (RHINO_SUCCESS, k1\<lparr>mm_freed := mm_freed k1 @ [q_start (queues k1 q), q]\<rparr>))"

abbreviation (input) QMSG_SEND_TO_FRONT :: u8 where "QMSG_SEND_TO_FRONT \<equiv> 3"
abbreviation (input) QMSG_SEND_TO_END :: u8 where "QMSG_SEND_TO_END \<equiv> 4"

text \<open>Storing a message; the results of the ring buffer calls are ignored as in the C code.\<close>

definition queue_put :: "u32 \<Rightarrow> u8 \<Rightarrow> kqueue_t \<Rightarrow> kqueue_t" where
  "queue_put p_void opt_send_method c =
     (let c1 = c\<lparr>q_cur_num := q_cur_num c + 1\<rparr>;
          c2 = (if q_cur_num c1 > q_peak_num c1 then c1\<lparr>q_peak_num := q_cur_num c1\<rparr> else c1)
      in if opt_send_method = QMSG_SEND_TO_END
         then c2\<lparr>q_ringbuf := snd (ringbuf_push (ptr_bytes p_void) (q_ringbuf c2))\<rparr>
         else c2\<lparr>q_ringbuf := snd (ringbuf_head_push (ptr_bytes p_void) (q_ringbuf c2))\<rparr>)"

definition msg_send :: "oid option \<Rightarrow> u32 \<Rightarrow> u8 \<Rightarrow> bool \<Rightarrow> 'a qkernel_scheme \<Rightarrow> kstat \<times> 'a qkernel_scheme" where
  "msg_send p_q p_void opt_send_method opt_wake_all k =
     (case p_q of
        None \<Rightarrow> (RHINO_NULL_PTR, k)
      | Some q \<Rightarrow>
          if obj_type (objs k q) \<noteq> RHINO_QUEUE_OBJ_TYPE then (RHINO_KOBJ_TYPE_ERR, k)
          else if q_cur_num (queues k q) \<ge> q_size (queues k q) then (RHINO_QUEUE_FULL, k)
          else
            (case waiters k q of
               [] \<Rightarrow> (RHINO_SUCCESS, upd_queue q (queue_put p_void opt_send_method) k)
             | t # _ \<Rightarrow>
                 (RHINO_SUCCESS,
                  core_sched (if opt_wake_all then for_waiters (task_msg_recv p_void) q k else task_msg_recv p_void t k))))"

definition krhino_queue_front_send :: "oid option \<Rightarrow> u32 \<Rightarrow> 'a qkernel_scheme \<Rightarrow> kstat \<times> 'a qkernel_scheme" where
  "krhino_queue_front_send queue m k = msg_send queue m QMSG_SEND_TO_FRONT False k"

definition krhino_queue_back_send :: "oid option \<Rightarrow> u32 \<Rightarrow> 'a qkernel_scheme \<Rightarrow> kstat \<times> 'a qkernel_scheme" where
  "krhino_queue_back_send queue m k = msg_send queue m QMSG_SEND_TO_END False k"

definition krhino_queue_all_send :: "oid option \<Rightarrow> u32 \<Rightarrow> u8 \<Rightarrow> 'a qkernel_scheme \<Rightarrow> kstat \<times> 'a qkernel_scheme" where
  "krhino_queue_all_send queue m opt k = msg_send queue m opt True k"

text \<open>
  Receiving: the status (\<open>None\<close> when the caller has been taken off the processor), what is written to
  \<open>*msg\<close> (0 is the null pointer) and the state.  \<open>queue_recv_return\<close> is what a blocked call does when
  its task runs again.
\<close>

definition krhino_queue_recv :: "oid option \<Rightarrow> u32 \<Rightarrow> bool \<Rightarrow> 'a qkernel_scheme \<Rightarrow>
    kstat option \<times> u32 option \<times> 'a qkernel_scheme" where
  "krhino_queue_recv queue ticks msg_is_null k =
     (case queue of
        None \<Rightarrow> (Some RHINO_NULL_PTR, None, k)
      | Some q \<Rightarrow>
          if msg_is_null then (Some RHINO_NULL_PTR, None, k)
          else if g_intrpt_nested_level k > 0 \<and> ticks \<noteq> RHINO_NO_WAIT then (Some RHINO_NOT_CALLED_BY_INTRPT, None, k)
          else if obj_type (objs k q) \<noteq> RHINO_QUEUE_OBJ_TYPE then (Some RHINO_KOBJ_TYPE_ERR, None, k)
          else if q_cur_num (queues k q) > 0 then
            (let (_, data, rb) = ringbuf_pop (q_ringbuf (queues k q))
             in (Some RHINO_SUCCESS, map_option bytes_ptr data,
                 upd_queue q (\<lambda>c. c\<lparr>q_ringbuf := rb, q_cur_num := q_cur_num c - 1\<rparr>) k))
          else if ticks = RHINO_NO_WAIT then (Some RHINO_NO_PEND_WAIT, Some 0, k)
          else if g_sched_lock k > 0 then (Some RHINO_SCHED_DISABLE, Some 0, k)
          else (None, None, core_sched (pend_to_blk_obj q (g_active_task k) ticks k)))"

definition queue_recv_return :: "'a qkernel_scheme \<Rightarrow> kstat \<times> u32 \<times> 'a qkernel_scheme" where
  "queue_recv_return k =
     (let (ret, k1) = pend_state_end_proc (g_active_task k) k
      in (ret, if ret = RHINO_SUCCESS then msg (tasks k1 (g_active_task k1)) else 0, k1))"

definition krhino_queue_is_full :: "oid option \<Rightarrow> 'a qkernel_scheme \<Rightarrow> kstat" where
  "krhino_queue_is_full queue k =
     (case queue of
        None \<Rightarrow> RHINO_NULL_PTR
      | Some q \<Rightarrow>
          if obj_type (objs k q) \<noteq> RHINO_QUEUE_OBJ_TYPE then RHINO_KOBJ_TYPE_ERR
          else if q_cur_num (queues k q) \<ge> q_size (queues k q) then RHINO_QUEUE_FULL else RHINO_QUEUE_NOT_FULL)"

definition krhino_queue_flush :: "oid option \<Rightarrow> 'a qkernel_scheme \<Rightarrow> kstat \<times> 'a qkernel_scheme" where
  "krhino_queue_flush queue k =
     (case queue of
        None \<Rightarrow> (RHINO_NULL_PTR, k)
      | Some q \<Rightarrow>
          if g_intrpt_nested_level k > 0 then (RHINO_NOT_CALLED_BY_INTRPT, k)
          else if obj_type (objs k q) \<noteq> RHINO_QUEUE_OBJ_TYPE then (RHINO_KOBJ_TYPE_ERR, k)
          else (RHINO_SUCCESS, upd_queue q (\<lambda>c. c\<lparr>q_cur_num := 0, q_ringbuf := snd (ringbuf_reset (q_ringbuf c))\<rparr>) k))"

text \<open>\<open>pend_entry\<close> is \<open>None\<close> when it points to the list head itself.\<close>

record msg_info_t =
  info_peak_num :: u32
  info_cur_num :: u32
  info_queue_start :: nat
  info_size :: u32
  pend_entry :: "tid option"

definition krhino_queue_info_get :: "oid option \<Rightarrow> bool \<Rightarrow> 'a qkernel_scheme \<Rightarrow> kstat \<times> msg_info_t option" where
  "krhino_queue_info_get queue info_is_null k =
     (case queue of
        None \<Rightarrow> (RHINO_NULL_PTR, None)
      | Some q \<Rightarrow>
          if info_is_null then (RHINO_NULL_PTR, None)
          else if obj_type (objs k q) \<noteq> RHINO_QUEUE_OBJ_TYPE then (RHINO_KOBJ_TYPE_ERR, None)
          else
            let c = queues k q
            in (RHINO_SUCCESS,
                Some \<lparr>info_peak_num = q_peak_num c, info_cur_num = q_cur_num c, info_queue_start = q_start c,
                      info_size = q_size c, pend_entry = (case waiters k q of [] \<Rightarrow> None | t # _ \<Rightarrow> Some t)\<rparr>))"

section \<open>Frames\<close>

lemma queue_more:
  assumes "kernel.more k' = kernel.more k"
  shows "queues k' = queues k" "queue_head k' = queue_head k"
  using assms by (cases k; cases k'; simp)+

lemma upd_queue_frame [simp]:
  "tasks (upd_queue q f k) = tasks k" "objs (upd_queue q f k) = objs k" "g_active_task (upd_queue q f k) = g_active_task k"
  "queues (upd_queue q f k) = (queues k)(q := f (queues k q))" "g_sched_lock (upd_queue q f k) = g_sched_lock k"
  "g_intrpt_nested_level (upd_queue q f k) = g_intrpt_nested_level k"
  by (simp_all add: upd_queue_def)

lemma view_queue [simp]: "view (upd_queue q f k) = view k" "view (k\<lparr>queue_head := h\<rparr>) = view k"
  by (simp_all add: upd_queue_def view_def ticks_left_def fun_eq_iff)

lemma sys_inv_queue [simp]: "sys_inv (upd_queue q f k) = sys_inv k" "sys_inv (k\<lparr>queue_head := h\<rparr>) = sys_inv k"
  by (rule sys_inv_view; simp)+

interpretation qsend: signal_step "task_msg_recv m" "\<lambda>c. c\<lparr>msg := m\<rparr>" for m
  by unfold_locales (simp_all add: task_msg_recv_def)

lemma msg_recv_msg:
  assumes "emptying b k" and "waiters k b = t # ts"
  shows "msg (tasks (task_msg_recv m t k) u) = (if u = t then m else msg (tasks k u))"
proof -
  have "msg (tasks (pend_task_wakeup t j) u) = msg (tasks j u)" for j :: "'a kernel_scheme"
    by (simp add: pend_task_wakeup_def pend_leave_def tick_list_rm_def split: task_stat_t.split)
  then show ?thesis by (simp add: task_msg_recv_def)
qed

lemma fold_msg_recv:
  "emptying b k \<Longrightarrow> waiters k b = ts \<Longrightarrow> u \<in> set ts \<Longrightarrow> msg (tasks (fold (task_msg_recv m) ts k) u) = m"
  for k :: "'a kernel_scheme"
proof (induction ts arbitrary: k)
  case (Cons t ts)
  have other: "msg (tasks (fold (task_msg_recv m) us j) u) = m" if "msg (tasks j u) = m" for us and j :: "'a kernel_scheme"
    using that
    by (induction us arbitrary: j)
      (simp_all add: task_msg_recv_def pend_task_wakeup_def pend_leave_def tick_list_rm_def split: task_stat_t.split)
  show ?case
  proof (cases "u \<in> set ts")
    case True
    then show ?thesis using Cons.IH [OF qsend.sig_eq(1,2) [OF Cons.prems(1,2)]] by simp
  next
    case False
    then show ?thesis using Cons.prems msg_recv_msg [OF Cons.prems(1,2), of m u] other by simp
  qed
qed simp

section \<open>The contents of a queue\<close>

lemma bytes_ptr_ptr_bytes [simp]: "bytes_ptr (ptr_bytes p) = p"
  for p :: u32
proof -
  have "push_bit 24 (ucast (ucast (drop_bit 24 p) :: u8)) OR push_bit 16 (ucast (ucast (drop_bit 16 p) :: u8)) OR
      push_bit 8 (ucast (ucast (drop_bit 8 p) :: u8)) OR ucast (ucast p :: u8) = (p :: u32)" (is "?w = p")
  proof (rule bit_word_eqI)
    fix i :: nat
    consider "i < 8" | "8 \<le> i" "i < 16" | "16 \<le> i" "i < 24" | "24 \<le> i" by linarith
    then show "bit ?w i = bit p i"
      by cases (auto simp: bit_rules dest: bit_imp_le_length)
  qed
  then show ?thesis by (simp add: bytes_ptr_def ptr_bytes_def be_bytes_def be_word_4)
qed

lemma length_ptr_bytes [simp]: "length (ptr_bytes p) = 4"
  by (simp add: ptr_bytes_def be_bytes_def)

definition queue_holds :: "kqueue_t \<Rightarrow> u32 list \<Rightarrow> bool" where
  "queue_holds c ms \<longleftrightarrow> fix_holds 4 (q_ringbuf c) (map ptr_bytes ms) \<and> unat (q_cur_num c) = length ms \<and>
     rb_end (q_ringbuf c) = 4 * unat (q_size c)"

definition queue_inv :: "'a qkernel_scheme \<Rightarrow> oid \<Rightarrow> u32 list \<Rightarrow> bool" where
  "queue_inv k q ms \<longleftrightarrow> obj_type (objs k q) = RHINO_QUEUE_OBJ_TYPE \<and> queue_holds (queues k q) ms \<and>
     (waiters k q \<noteq> [] \<longrightarrow> ms = [])"

lemma queue_holds_room:
  assumes "queue_holds c ms"
  shows "fix_fits 4 m (q_ringbuf c) \<longleftrightarrow> length ms < unat (q_size c)" and "length ms \<le> unat (q_size c)"
proof -
  have ok: "ring_ok (q_ringbuf c)" "rb_bytes (q_ringbuf c) = concat (map ptr_bytes ms)" "rb_end (q_ringbuf c) = 4 * unat (q_size c)"
    using assms by (simp_all add: queue_holds_def fix_holds_def)
  have "length (concat (map ptr_bytes ms)) = 4 * length ms" by (induction ms) simp_all
  then have "rb_used (q_ringbuf c) = 4 * length ms" using arg_cong [OF ok(2), of length] by simp
  then show "fix_fits 4 m (q_ringbuf c) \<longleftrightarrow> length ms < unat (q_size c)" "length ms \<le> unat (q_size c)"
    using ring_okD [OF ok(1)] ok(3) by (auto simp: fix_fits_def rb_used_def)
qed

text \<open>The ring buffer calls leave the size of the buffer alone.\<close>

lemma fix_end:
  assumes "fix_holds b rb ms" and "fix_valid b m" and "fix_fits b m rb"
  shows "rb_end (snd (ringbuf_push m rb)) = rb_end rb" and "rb_end (snd (ringbuf_head_push m rb)) = rb_end rb"
  using assms
  by (auto simp: fix_holds_def ringbuf_push_def ringbuf_head_push_def ringbuf_is_full_def fix_fits_def tail_copy_def rb_write_def
      tail_wrap_def head_copy_def head_start_def Let_def)

lemma pop_end: "rb_type rb = RINGBUF_TYPE_FIX \<Longrightarrow> rb_end (snd (snd (ringbuf_pop rb))) = rb_end rb"
  by (simp add: ringbuf_pop_def head_read_def head_wrap_def Let_def)

text \<open>Storing and fetching a message.\<close>

lemma queue_put_holds:
  assumes "queue_holds c ms" and "length ms < unat (q_size c)"
  shows "queue_holds (queue_put m opt c) (if opt = QMSG_SEND_TO_END then ms @ [m] else m # ms)"
proof -
  have h: "fix_holds 4 (q_ringbuf c) (map ptr_bytes ms)" "unat (q_cur_num c) = length ms" using assms(1) by (simp_all add: queue_holds_def)
  have v: "fix_valid 4 (ptr_bytes m)" "fix_fits 4 (ptr_bytes m) (q_ringbuf c)"
    using queue_holds_room [OF assms(1)] assms(2) by (simp_all add: fix_valid_def)
  have "unat (q_cur_num c + 1) = Suc (length ms)"
    using h(2) assms(2) unsigned_less [of "q_size c", where 'a = nat] by (simp add: unat_word_ariths)
  then show ?thesis
    using assms(1) fix_push [OF h(1) v] fix_head_push [OF h(1) v] fix_end [OF h(1) v]
    by (auto simp: queue_put_def queue_holds_def Let_def)
qed

lemma queue_pop_holds:
  assumes "queue_holds c (m # ms)"
  shows "fst (snd (ringbuf_pop (q_ringbuf c))) = Some (ptr_bytes m)" and "q_cur_num c > 0"
    and "queue_holds (c\<lparr>q_ringbuf := snd (snd (ringbuf_pop (q_ringbuf c))), q_cur_num := q_cur_num c - 1\<rparr>) ms"
proof -
  have h: "fix_holds 4 (q_ringbuf c) (ptr_bytes m # map ptr_bytes ms)" "unat (q_cur_num c) = Suc (length ms)" "rb_type (q_ringbuf c) = RINGBUF_TYPE_FIX"
    using assms by (simp_all add: queue_holds_def fix_holds_def)
  then have "q_cur_num c \<noteq> 0" by auto
  then show pos: "q_cur_num c > 0" by (simp add: word_gt_0)
  show "fst (snd (ringbuf_pop (q_ringbuf c))) = Some (ptr_bytes m)" using fix_pop [OF h(1)] by simp
  show "queue_holds (c\<lparr>q_ringbuf := snd (snd (ringbuf_pop (q_ringbuf c))), q_cur_num := q_cur_num c - 1\<rparr>) ms"
    using assms fix_pop [OF h(1)] pop_end [OF h(3)] h(2) pos by (simp add: queue_holds_def unat_minus_one)
qed

section \<open>What the calls do\<close>

lemma msg_send_full:
  assumes "queue_inv k q ms" and "length ms = unat (q_size (queues k q))"
  shows "msg_send (Some q) m opt all k = (RHINO_QUEUE_FULL, k)"
proof -
  have "unat (q_cur_num (queues k q)) = length ms" using assms(1) by (simp add: queue_inv_def queue_holds_def)
  then show ?thesis using assms by (simp add: msg_send_def queue_inv_def word_le_nat_alt)
qed

lemma msg_send_store:
  assumes "queue_inv k q ms" and "length ms < unat (q_size (queues k q))" and "waiters k q = []"
  shows "\<exists>k'. msg_send (Some q) m opt all k = (RHINO_SUCCESS, k') \<and> sys_inv k' = sys_inv k \<and> tasks k' = tasks k \<and> objs k' = objs k \<and>
    queue_inv k' q (if opt = QMSG_SEND_TO_END then ms @ [m] else m # ms)"
proof -
  have c: "queue_holds (queues k q) ms" "obj_type (objs k q) = RHINO_QUEUE_OBJ_TYPE" using assms(1) by (simp_all add: queue_inv_def)
  have "unat (q_cur_num (queues k q)) = length ms" using c(1) by (simp add: queue_holds_def)
  then have "msg_send (Some q) m opt all k = (RHINO_SUCCESS, upd_queue q (queue_put m opt) k)"
    using c(2) assms(2,3) by (simp add: msg_send_def word_le_nat_alt)
  then show ?thesis using queue_put_holds [OF c(1) assms(2)] c(2) assms(3) by (simp add: queue_inv_def)
qed

lemma msg_send_hand:
  assumes "sys_inv k" and "queue_inv k q ms" and "0 < q_size (queues k q)" and "waiters k q = t # ts"
  shows "\<exists>k'. msg_send (Some q) m opt all k = (RHINO_SUCCESS, k') \<and> sys_inv k' \<and> queue_inv k' q [] \<and> waiters k' q = (if all then [] else ts) \<and>
    (\<forall>u. state_of k' u = (if u = t \<or> all \<and> u \<in> set ts then woken (state_of k u) else state_of k u)) \<and>
    (\<forall>u. u = t \<or> all \<and> u \<in> set ts \<longrightarrow> blk_state (tasks k' u) = BLK_FINISH \<and> msg (tasks k' u) = m)"
proof -
  let ?k = "if all then for_waiters (task_msg_recv m) q k else task_msg_recv m t k"
  have c: "queue_holds (queues k q) []" "obj_type (objs k q) = RHINO_QUEUE_OBJ_TYPE" using assms(2,4) by (auto simp: queue_inv_def)
  have "q_cur_num (queues k q) = 0" using c(1) by (simp add: queue_holds_def unat_eq_0)
  then have send: "msg_send (Some q) m opt all k = (RHINO_SUCCESS, core_sched ?k)"
    using c(2) assms(3,4) by (simp add: msg_send_def)
  have inv: "kernel_inv k" using assms(1) by (simp add: sys_inv_def)
  have em: "emptying q k" by (rule emptying_kernel(1) [OF inv]) (simp add: c(2))
  have sys: "sys_inv (core_sched ?k)" by (rule qsend.wake_exit [OF assms(1) _ assms(4), of _ m]) (simp_all add: c(2))
  have env: "env ?k = env k" using qsend.steps.for_waiters_spec(3) [OF em] qsend.sig_eq(3) [OF em assms(4)] by simp
  then have qs: "queues ?k = queues k" by (intro queue_more) (simp add: env_def)
  have wl: "waiters ?k q = (if all then [] else ts)" using qsend.steps.for_waiters_spec(2) [OF em] qsend.sig_eq(2) [OF em assms(4)] by simp
  have ty: "obj_type (objs ?k q) = RHINO_QUEUE_OBJ_TYPE"
    using c(2) qsend.for_sig_type [of m q k q] qsend.sig_type [of m t k q] by simp
  have st: "state_of ?k u = (if u = t \<or> all \<and> u \<in> set ts then woken (state_of k u) else state_of k u)" for u
    using qsend.steps.for_waiters_spec(4) [OF em, of m u] qsend.sig_eq(4) [OF em assms(4), of m u] assms(4) by auto
  have fw: "for_waiters (task_msg_recv m) q k = fold (task_msg_recv m) (t # ts) k"
    using qsend.steps.while_waiters_fold [OF em assms(4), of m] assms(4) by (simp add: for_waiters_def)
  have "blk_state (tasks ?k u) = BLK_FINISH \<and> msg (tasks ?k u) = m" if "u = t \<or> all \<and> u \<in> set ts" for u
    using that qsend.steps.for_waiters_spec(5) [OF em, of m u] qsend.sig_eq(5) [OF em assms(4), of m u] assms(4)
      msg_recv_msg [OF em assms(4), of m u] fold_msg_recv [OF em assms(4), of u m] fw by auto
  then show ?thesis using send sys c(1) qs wl ty st queue_more(1) [of "core_sched ?k" ?k] by (auto simp: queue_inv_def)
qed

lemma queue_recv_pop:
  assumes "queue_inv k q (m # ms)" and "g_intrpt_nested_level k = 0 \<or> ticks = RHINO_NO_WAIT"
  shows "\<exists>k'. krhino_queue_recv (Some q) ticks False k = (Some RHINO_SUCCESS, Some m, k') \<and> sys_inv k' = sys_inv k \<and> tasks k' = tasks k \<and>
    objs k' = objs k \<and> queue_inv k' q ms"
proof -
  have c: "queue_holds (queues k q) (m # ms)" "obj_type (objs k q) = RHINO_QUEUE_OBJ_TYPE" "waiters k q = []"
    using assms(1) by (auto simp: queue_inv_def)
  note pop = queue_pop_holds [OF c(1)]
  let ?k = "upd_queue q (\<lambda>c. c\<lparr>q_ringbuf := snd (snd (ringbuf_pop (q_ringbuf (queues k q)))), q_cur_num := q_cur_num c - 1\<rparr>) k"
  have "krhino_queue_recv (Some q) ticks False k = (Some RHINO_SUCCESS, Some m, ?k)"
    using assms(2) c(2) pop(1,2) by (auto simp: krhino_queue_recv_def split_beta)
  then show ?thesis using pop(3) c(2,3) by (simp add: queue_inv_def)
qed

lemma queue_recv_empty:
  assumes "queue_inv k q []"
  shows "krhino_queue_recv (Some q) RHINO_NO_WAIT False k = (Some RHINO_NO_PEND_WAIT, Some 0, k)"
    and "ticks \<noteq> RHINO_NO_WAIT \<Longrightarrow> g_intrpt_nested_level k = 0 \<Longrightarrow> g_sched_lock k = 0 \<Longrightarrow>
      krhino_queue_recv (Some q) ticks False k = (None, None, block_on q ticks k)"
    and "ticks \<noteq> RHINO_NO_WAIT \<Longrightarrow> g_intrpt_nested_level k = 0 \<Longrightarrow> g_sched_lock k > 0 \<Longrightarrow>
      krhino_queue_recv (Some q) ticks False k = (Some RHINO_SCHED_DISABLE, Some 0, k)"
proof -
  have c: "obj_type (objs k q) = RHINO_QUEUE_OBJ_TYPE" "q_cur_num (queues k q) = 0"
    using assms by (simp_all add: queue_inv_def queue_holds_def unat_eq_0)
  then show "krhino_queue_recv (Some q) RHINO_NO_WAIT False k = (Some RHINO_NO_PEND_WAIT, Some 0, k)"
    and "ticks \<noteq> RHINO_NO_WAIT \<Longrightarrow> g_intrpt_nested_level k = 0 \<Longrightarrow> g_sched_lock k = 0 \<Longrightarrow>
      krhino_queue_recv (Some q) ticks False k = (None, None, block_on q ticks k)"
    and "ticks \<noteq> RHINO_NO_WAIT \<Longrightarrow> g_intrpt_nested_level k = 0 \<Longrightarrow> g_sched_lock k > 0 \<Longrightarrow>
      krhino_queue_recv (Some q) ticks False k = (Some RHINO_SCHED_DISABLE, Some 0, k)"
    by (simp_all add: krhino_queue_recv_def block_on_def)
qed

lemma queue_recv_blocks:
  assumes "sys_inv k" and "queue_inv k q []" and "g_active_task k \<noteq> g_idle_task" and "g_intrpt_nested_level k = 0" "g_sched_lock k = 0"
  shows "sys_inv (block_on q ticks k)" and "queue_inv (block_on q ticks k) q []"
    and "state_of (block_on q ticks k) (g_active_task k) = K_PEND" and "g_active_task k \<in> set (waiters (block_on q ticks k) q)"
proof -
  have "obj_type (objs k q) \<notin> {RHINO_OBJ_TYPE_NONE, RHINO_MUTEX_OBJ_TYPE, RHINO_SEM_OBJ_TYPE}"
    using assms(2) by (simp add: queue_inv_def)
  note b = block_on_inv [OF assms(1,3,4,5) this]
  show "sys_inv (block_on q ticks k)" "state_of (block_on q ticks k) (g_active_task k) = K_PEND"
    "g_active_task k \<in> set (waiters (block_on q ticks k) q)" using b by simp_all
  show "queue_inv (block_on q ticks k) q []"
    using assms(2) b(6) [of ticks q] queue_more(1) [of "block_on q ticks k" k] by (simp add: queue_inv_def)
qed

text \<open>Creating, deleting and emptying a queue.\<close>

lemma queue_create_inv:
  assumes "sys_inv k" and "obj_type (objs k q) = RHINO_OBJ_TYPE_NONE" and "msg_num \<noteq> 0" and "unat msg_num * 4 < 2 ^ 32"
    and "unat msg_num * 4 \<le> length buf" and "\<not> rb_fault (q_ringbuf (queues k q))"
  shows "\<exists>k'. queue_create (Some q) (Some nm) (Some (addr, buf)) msg_num flag k = (RHINO_SUCCESS, k') \<and> sys_inv k' \<and> queue_inv k' q [] \<and>
    q_size (queues k' q) = msg_num \<and> tasks k' = tasks k"
proof -
  have wl: "waiters k q = []" using kernel_invD(10) [of k] assms(1,2) by (simp add: sys_inv_def dead_ok_def)
  have len: "unat (msg_num * 4) = unat msg_num * 4" using assms(4) by (simp add: unat_word_ariths)
  let ?buf = "take (unat msg_num * 4) buf"
  have buf: "length ?buf = unat msg_num * 4" "?buf \<noteq> []" using assms(3,5) by (auto simp: unat_eq_0)
  have "fix_holds 4 (snd (ringbuf_init (q_ringbuf (queues k q)) ?buf RINGBUF_TYPE_FIX 4)) []"
    by (rule ringbuf_init_holds(2) [OF buf(2) assms(6)]) (simp_all only: buf(1), simp_all)
  moreover have "sys_inv (upd_obj q (\<lambda>h. h\<lparr>blk_list := [], obj_name := nm, blk_policy := BLK_POLICY_PRI, obj_type := RHINO_QUEUE_OBJ_TYPE\<rparr>) k)"
    by (rule object_create_inv [OF assms(1,2)]) simp_all
  moreover have "snd (queue_create (Some q) (Some nm) (Some (addr, buf)) msg_num flag k) =
      upd_queue q (\<lambda>c. c\<lparr>q_start := addr, q_ringbuf := snd (ringbuf_init (q_ringbuf c) ?buf RINGBUF_TYPE_FIX 4),
        q_size := msg_num, q_cur_num := 0, q_peak_num := 0, q_alloc_flag := flag\<rparr>)
       ((upd_obj q (\<lambda>h. h\<lparr>blk_list := [], obj_name := nm, blk_policy := BLK_POLICY_PRI, obj_type := RHINO_QUEUE_OBJ_TYPE\<rparr>) k)
         \<lparr>queue_head := queue_head k @ [q]\<rparr>)"
    using assms(3) len by (simp add: queue_create_def upd_queue_def Let_def)
  moreover have "fst (queue_create (Some q) (Some nm) (Some (addr, buf)) msg_num flag k) = RHINO_SUCCESS"
    using assms(3) by (simp add: queue_create_def Let_def)
  ultimately show ?thesis
    using buf(1) by (intro exI [of _ "snd (queue_create (Some q) (Some nm) (Some (addr, buf)) msg_num flag k)"])
      (simp add: queue_inv_def queue_holds_def ringbuf_init_def ringbuf_reset_def Let_def prod_eq_iff)
qed

lemma queue_delete_inv:
  assumes "sys_inv k" and "obj_type (objs k q) = RHINO_QUEUE_OBJ_TYPE"
  shows "sys_inv (queue_delete q k)" and "obj_type (objs (queue_delete q k) q) = RHINO_OBJ_TYPE_NONE"
    and "u \<in> set (waiters k q) \<Longrightarrow> state_of (queue_delete q k) u = woken (state_of k u) \<and> blk_state (tasks (queue_delete q k) u) = BLK_DEL"
    and "u \<notin> set (waiters k q) \<Longrightarrow> state_of (queue_delete q k) u = state_of k u"
proof -
  have ty: "obj_type (objs k q) \<noteq> RHINO_MUTEX_OBJ_TYPE" using assms(2) by simp
  note r = retire_inv [OF assms(1) ty]
  let ?k = "upd_queue q (\<lambda>c. c\<lparr>q_ringbuf := snd (ringbuf_reset (q_ringbuf c))\<rparr>) ((retire q k)\<lparr>queue_head := remove1 q (queue_head (retire q k))\<rparr>)"
  have eq: "queue_delete q k = core_sched ?k" by (simp add: queue_delete_def retire_def Let_def)
  have "view ?k = view (retire q k)" by simp
  then show "sys_inv (queue_delete q k)" unfolding eq by (rule r(6)) (use r(2) in \<open>simp_all add: env_def\<close>)
  show "obj_type (objs (queue_delete q k) q) = RHINO_OBJ_TYPE_NONE" using retire_type [OF assms(1) ty, of q] by (simp add: eq)
  show "u \<in> set (waiters k q) \<Longrightarrow> state_of (queue_delete q k) u = woken (state_of k u) \<and> blk_state (tasks (queue_delete q k) u) = BLK_DEL"
    and "u \<notin> set (waiters k q) \<Longrightarrow> state_of (queue_delete q k) u = state_of k u" using r(4,5) by (simp_all add: eq)
qed

lemma queue_flush_holds:
  assumes "queue_inv k q ms" and "g_intrpt_nested_level k = 0"
  shows "\<exists>k'. krhino_queue_flush (Some q) k = (RHINO_SUCCESS, k') \<and> sys_inv k' = sys_inv k \<and> queue_inv k' q [] \<and> tasks k' = tasks k"
proof -
  have h: "fix_holds 4 (q_ringbuf (queues k q)) (map ptr_bytes ms)" "obj_type (objs k q) = RHINO_QUEUE_OBJ_TYPE"
    "rb_end (q_ringbuf (queues k q)) = 4 * unat (q_size (queues k q))"
    using assms(1) by (simp_all add: queue_inv_def queue_holds_def)
  then have "fix_holds 4 (snd (ringbuf_reset (q_ringbuf (queues k q)))) []"
    by (auto simp: fix_holds_def ringbuf_reset_def ring_ok_def rb_used_def rb_bytes_def)
  then show ?thesis using h(2,3) assms(2) by (simp add: krhino_queue_flush_def queue_inv_def queue_holds_def ringbuf_reset_def)
qed

section \<open>Theorems\<close>

text \<open>A queue for two messages, object 7, in a system where task 1 runs.\<close>

definition queue_zero :: kqueue_t where
  "queue_zero = \<lparr>q_ringbuf = \<lparr>rb_mem = [], rb_head = 0, rb_tail = 0, rb_freesize = 0, rb_type = RINGBUF_TYPE_FIX, rb_blk_size = 0, rb_fault = False\<rparr>,
     q_start = 0, q_size = 0, q_cur_num = 0, q_peak_num = 0, q_alloc_flag = 0\<rparr>"

definition no_queues :: qkernel where
  "no_queues = kernel.extend task_kernel (qkernel.fields [] (\<lambda>_. queue_zero))"

definition queue_example :: qkernel where
  "queue_example = snd (krhino_queue_create (Some 7) (Some ''q'') (Some (4096, replicate 8 0)) 2 no_queues)"

lemma queue_example_inv:
  "sys_inv queue_example" "queue_inv queue_example 7 []" "unat (q_size (queues queue_example 7)) = 2" "tasks queue_example = tasks no_queues"
proof -
  have k: "sys_inv no_queues" "obj_type (objs no_queues 7) = RHINO_OBJ_TYPE_NONE" "\<not> rb_fault (q_ringbuf (queues no_queues 7))"
    using sys_inv_extend [of task_kernel] task_kernel_inv by (simp_all add: no_queues_def kernel.defs qkernel.defs queue_zero_def)
  obtain k' where "queue_create (Some 7) (Some ''q'') (Some (4096, replicate 8 0)) 2 K_OBJ_STATIC_ALLOC no_queues = (RHINO_SUCCESS, k')"
    "sys_inv k'" "queue_inv k' 7 []" "q_size (queues k' 7) = 2" "tasks k' = tasks no_queues"
    using queue_create_inv [OF k(1,2), of 2 "replicate 8 0" "''q''" 4096 K_OBJ_STATIC_ALLOC] k(3) by auto
  then show "sys_inv queue_example" "queue_inv queue_example 7 []" "unat (q_size (queues queue_example 7)) = 2" "tasks queue_example = tasks no_queues"
    by (simp_all add: queue_example_def krhino_queue_create_def)
qed

lemma queue_example_facts:
  "g_active_task queue_example = 1" "g_intrpt_nested_level queue_example = 0" "g_sched_lock queue_example = 0" "waiters queue_example 7 = []"
  by (simp_all add: queue_example_def krhino_queue_create_def queue_create_def upd_queue_def no_queues_def kernel.defs qkernel.defs Let_def)

text \<open>C24: A queue refines a bounded list of messages.  With nobody waiting, sending to the back appends the message, sending to the front
  puts it first, and both are refused with \<open>RHINO_QUEUE_FULL\<close> exactly when the queue holds as many messages as it was created
  for; receiving returns and removes the first message.  Nothing of the rest of the kernel changes.\<close>

theorem queue_refines_list:
  assumes "sys_inv k" and "queue_inv k q ms" and "waiters k q = []"
  shows "(length ms = unat (q_size (queues k q)) \<longrightarrow> krhino_queue_back_send (Some q) m k = (RHINO_QUEUE_FULL, k) \<and>
      krhino_queue_front_send (Some q) m k = (RHINO_QUEUE_FULL, k)) \<and> length ms \<le> unat (q_size (queues k q)) \<and>
    (length ms < unat (q_size (queues k q)) \<longrightarrow>
      (\<exists>k'. krhino_queue_back_send (Some q) m k = (RHINO_SUCCESS, k') \<and> sys_inv k' \<and> tasks k' = tasks k \<and> queue_inv k' q (ms @ [m])) \<and>
      (\<exists>k'. krhino_queue_front_send (Some q) m k = (RHINO_SUCCESS, k') \<and> sys_inv k' \<and> tasks k' = tasks k \<and> queue_inv k' q (m # ms))) \<and>
    (ms \<noteq> [] \<longrightarrow> (\<exists>k'. krhino_queue_recv (Some q) RHINO_NO_WAIT False k = (Some RHINO_SUCCESS, Some (hd ms), k') \<and> sys_inv k' \<and>
      tasks k' = tasks k \<and> queue_inv k' q (tl ms))) \<and>
    (ms = [] \<longrightarrow> krhino_queue_recv (Some q) RHINO_NO_WAIT False k = (Some RHINO_NO_PEND_WAIT, Some 0, k))"
proof (intro conjI impI)
  assume "length ms < unat (q_size (queues k q))"
  note st = msg_send_store [OF assms(2) this assms(3)]
  show "\<exists>k'. krhino_queue_back_send (Some q) m k = (RHINO_SUCCESS, k') \<and> sys_inv k' \<and> tasks k' = tasks k \<and> queue_inv k' q (ms @ [m])"
    using st [of m QMSG_SEND_TO_END False] assms(1) by (auto simp: krhino_queue_back_send_def)
  show "\<exists>k'. krhino_queue_front_send (Some q) m k = (RHINO_SUCCESS, k') \<and> sys_inv k' \<and> tasks k' = tasks k \<and> queue_inv k' q (m # ms)"
    using st [of m QMSG_SEND_TO_FRONT False] assms(1) by (auto simp: krhino_queue_front_send_def)
next
  assume "ms \<noteq> []"
  then have "queue_inv k q (hd ms # tl ms)" using assms(2) by simp
  then show "\<exists>k'. krhino_queue_recv (Some q) RHINO_NO_WAIT False k = (Some RHINO_SUCCESS, Some (hd ms), k') \<and> sys_inv k' \<and>
      tasks k' = tasks k \<and> queue_inv k' q (tl ms)" using queue_recv_pop [of k q "hd ms" "tl ms" RHINO_NO_WAIT] assms(1) by auto
qed (use assms(2) msg_send_full [OF assms(2)] queue_recv_empty(1) [of k q] queue_holds_room(2) [of _ ms] in
    \<open>auto simp: krhino_queue_back_send_def krhino_queue_front_send_def queue_inv_def\<close>)

theorem queue_refines_list_witness:
  "\<exists>k'. krhino_queue_back_send (Some 7) 99 queue_example = (RHINO_SUCCESS, k') \<and> sys_inv k' \<and> queue_inv k' 7 [99]"
  using queue_refines_list [OF queue_example_inv(1,2) queue_example_facts(4), of 99] queue_example_inv(3) by auto

text \<open>C25: Receiving from an empty queue takes the caller off the processor; the next message is handed to the first waiting task without
  passing through the queue: that task becomes ready, its call returns success and the message when it runs again, and the
  other waiting tasks keep waiting.  Sending to all gives every waiting task the message.\<close>

theorem queue_hands_over:
  assumes "sys_inv k" and "queue_inv k q ms" and "waiters k q = t # ts" and "0 < q_size (queues k q)"
  shows "(\<exists>k'. krhino_queue_back_send (Some q) m k = (RHINO_SUCCESS, k') \<and> sys_inv k' \<and> queue_inv k' q [] \<and> waiters k' q = ts \<and>
      state_of k' t = woken (state_of k t) \<and> (\<forall>u. u \<noteq> t \<longrightarrow> state_of k' u = state_of k u) \<and>
      queue_recv_return (k'\<lparr>g_active_task := t\<rparr>) = (RHINO_SUCCESS, m, k'\<lparr>g_active_task := t\<rparr>)) \<and>
    (\<exists>k'. krhino_queue_all_send (Some q) m opt k = (RHINO_SUCCESS, k') \<and> sys_inv k' \<and> queue_inv k' q [] \<and> waiters k' q = [] \<and>
      (\<forall>u \<in> set (t # ts). state_of k' u = woken (state_of k u) \<and>
        queue_recv_return (k'\<lparr>g_active_task := u\<rparr>) = (RHINO_SUCCESS, m, k'\<lparr>g_active_task := u\<rparr>)))"
proof -
  have ret: "queue_recv_return (k'\<lparr>g_active_task := u\<rparr>) = (RHINO_SUCCESS, m, k'\<lparr>g_active_task := u\<rparr>)"
    if "blk_state (tasks k' u) = BLK_FINISH" "msg (tasks k' u) = m" for k' :: "'a qkernel_scheme" and u
    using that by (simp add: queue_recv_return_def pend_state_end_proc_def)
  show ?thesis
  proof
    obtain k' where k': "msg_send (Some q) m QMSG_SEND_TO_END False k = (RHINO_SUCCESS, k')" "sys_inv k'" "queue_inv k' q []" "waiters k' q = ts"
      "\<And>u. state_of k' u = (if u = t then woken (state_of k u) else state_of k u)" "blk_state (tasks k' t) = BLK_FINISH" "msg (tasks k' t) = m"
      using msg_send_hand [OF assms(1,2,4,3), of m QMSG_SEND_TO_END False] by auto
    then show "\<exists>k'. krhino_queue_back_send (Some q) m k = (RHINO_SUCCESS, k') \<and> sys_inv k' \<and> queue_inv k' q [] \<and> waiters k' q = ts \<and>
        state_of k' t = woken (state_of k t) \<and> (\<forall>u. u \<noteq> t \<longrightarrow> state_of k' u = state_of k u) \<and>
        queue_recv_return (k'\<lparr>g_active_task := t\<rparr>) = (RHINO_SUCCESS, m, k'\<lparr>g_active_task := t\<rparr>)"
      using ret [OF k'(6,7)] by (auto simp: krhino_queue_back_send_def)
    obtain k' where k': "msg_send (Some q) m opt True k = (RHINO_SUCCESS, k')" "sys_inv k'" "queue_inv k' q []" "waiters k' q = []"
      "\<forall>u. state_of k' u = (if u = t \<or> True \<and> u \<in> set ts then woken (state_of k u) else state_of k u)"
      "\<forall>u. u = t \<or> True \<and> u \<in> set ts \<longrightarrow> blk_state (tasks k' u) = BLK_FINISH \<and> msg (tasks k' u) = m"
      using msg_send_hand [OF assms(1,2,4,3), of m opt True] by auto
    then show "\<exists>k'. krhino_queue_all_send (Some q) m opt k = (RHINO_SUCCESS, k') \<and> sys_inv k' \<and> queue_inv k' q [] \<and> waiters k' q = [] \<and>
        (\<forall>u \<in> set (t # ts). state_of k' u = woken (state_of k u) \<and>
          queue_recv_return (k'\<lparr>g_active_task := u\<rparr>) = (RHINO_SUCCESS, m, k'\<lparr>g_active_task := u\<rparr>))"
      using ret [of k'] by (simp add: krhino_queue_all_send_def)
  qed
qed

theorem queue_hands_over_witness:
  "\<exists>k'. krhino_queue_back_send (Some 7) 99 (block_on 7 5 queue_example) = (RHINO_SUCCESS, k') \<and> waiters k' 7 = [] \<and>
     queue_recv_return (k'\<lparr>g_active_task := 1\<rparr>) = (RHINO_SUCCESS, 99, k'\<lparr>g_active_task := 1\<rparr>)"
proof -
  note b = queue_recv_blocks [OF queue_example_inv(1,2) _ queue_example_facts(2,3), of 5]
  have wl: "waiters (block_on 7 5 queue_example) 7 = [1]"
    by (simp add: block_on_def pend_to_blk_obj_def pend_list_add_def tick_list_insert_def tick_list_pri_insert_def
        queue_example_facts Let_def)
  have "q_size (queues (block_on 7 5 queue_example) 7) > 0"
    using queue_example_inv(3) queue_more(1) [of "block_on 7 5 queue_example" queue_example] by (auto simp: word_gt_0)
  then show ?thesis using queue_hands_over [OF b(1,2) wl, of 99] by (auto simp: queue_example_facts g_idle_task_def)
qed

text \<open>Deleting a queue keeps the kernel's invariant, releases every task that waits for a message, whose call then reports that the object has
  been deleted, and changes the state of no other task.\<close>

theorem queue_del_releases_waiters:
  assumes "sys_inv k" and "obj_type (objs k q) = RHINO_QUEUE_OBJ_TYPE" and "g_intrpt_nested_level k = 0"
    and "q_alloc_flag (queues k q) = K_OBJ_STATIC_ALLOC"
  shows "\<exists>k'. krhino_queue_del (Some q) k = (RHINO_SUCCESS, k') \<and> sys_inv k' \<and> obj_type (objs k' q) = RHINO_OBJ_TYPE_NONE \<and>
    (\<forall>u \<in> set (waiters k q). state_of k' u = woken (state_of k u) \<and>
      queue_recv_return (k'\<lparr>g_active_task := u\<rparr>) = (RHINO_BLK_DEL, 0, k'\<lparr>g_active_task := u\<rparr>)) \<and>
    (\<forall>u. u \<notin> set (waiters k q) \<longrightarrow> state_of k' u = state_of k u)"
  using queue_delete_inv [OF assms(1,2)] assms(2-4)
  by (auto simp: krhino_queue_del_def queue_recv_return_def pend_state_end_proc_def)

theorem queue_del_releases_waiters_witness:
  "\<exists>k'. krhino_queue_del (Some 7) queue_example = (RHINO_SUCCESS, k') \<and> sys_inv k'"
proof -
  have "q_alloc_flag (queues queue_example 7) = K_OBJ_STATIC_ALLOC" "obj_type (objs queue_example 7) = RHINO_QUEUE_OBJ_TYPE"
    by (simp_all add: queue_example_def krhino_queue_create_def queue_create_def upd_queue_def Let_def)
  then show ?thesis using queue_del_releases_waiters [OF queue_example_inv(1) _ queue_example_facts(2), of 7] by auto
qed

text \<open>The size of the message area is computed in 32 bits.  A queue for \<open>0x40000001\<close> messages gets an area of one message: the second message
  is accepted and lost.\<close>

theorem queue_size_wraps:
  "let k = snd (krhino_queue_create (Some 7) (Some ''q'') (Some (4096, replicate 4 0)) 0x40000001 no_queues);
       k1 = snd (krhino_queue_back_send (Some 7) 11 k); (r, k2) = krhino_queue_back_send (Some 7) 22 k1;
       (r1, m1, k3) = krhino_queue_recv (Some 7) 0 False k2; (r2, m2, k4) = krhino_queue_recv (Some 7) 0 False k3
   in r = RHINO_SUCCESS \<and> r1 = Some RHINO_SUCCESS \<and> m1 = Some 11 \<and> r2 = Some RHINO_SUCCESS \<and> m2 = None"
  by code_simp

end
