(* ===== verification/Buf_Queue.thy ===== *)
theory Buf_Queue
  imports Queue
begin

text \<open>
  Buffer queues, \<^verbatim>\<open>kernel/rhino/core/k_buf_queue.c\<close>: queues of messages of varying size, kept in a ring
  buffer of the dynamic type.  A message is copied, into the buffer or straight into the memory of a
  waiting task (\<open>bq_msg\<close>, whose length is \<open>bq_msg_size\<close>).  The theorems: a buffer queue is a FIFO of
  messages that accepts a message exactly when it has room for it and its length code; a waiting task
  gets the next message; sending to the front garbles messages.
\<close>

section \<open>Operations\<close>

record kbuf_queue_t =
  bq_buf :: nat
  bq_ringbuf :: k_ringbuf_t
  max_msg_size :: u32
  bq_cur_num :: u32
  bq_peak_num :: u32
  min_free_buf_size :: nat
  bq_alloc_flag :: u8

record bqkernel = qkernel +
  buf_queue_head :: "oid list"
  buf_queues :: "oid \<Rightarrow> kbuf_queue_t"

definition upd_bq :: "oid \<Rightarrow> (kbuf_queue_t \<Rightarrow> kbuf_queue_t) \<Rightarrow> 'a bqkernel_scheme \<Rightarrow> 'a bqkernel_scheme" where
  "upd_bq q f k = k\<lparr>buf_queues := (buf_queues k)(q := f (buf_queues k q))\<rparr>"

text \<open>\<open>buf\<close> is the address of the caller's memory and the bytes found there.\<close>

definition buf_queue_create :: "oid option \<Rightarrow> string option \<Rightarrow> (nat \<times> u8 list) option \<Rightarrow> u32 \<Rightarrow> u32 \<Rightarrow> u8 \<Rightarrow> 'a bqkernel_scheme \<Rightarrow>
    kstat \<times> 'a bqkernel_scheme" where
  "buf_queue_create queue name buf sz max_msg mm_alloc k =
     (case (queue, buf, name) of
        (Some q, Some (addr, bytes), Some nm) \<Rightarrow>
          if max_msg = 0 then (RHINO_INV_PARAM, k)
          else if sz = 0 then (RHINO_BUF_QUEUE_SIZE_ZERO, k)
          else
            let k1 = upd_bq q (\<lambda>c. c\<lparr>bq_buf := addr, bq_cur_num := 0, bq_peak_num := 0, max_msg_size := max_msg, bq_alloc_flag := mm_alloc\<rparr>)
                       (upd_obj q (\<lambda>h. h\<lparr>blk_list := [], obj_name := nm, blk_policy := BLK_POLICY_PRI\<rparr>) k);
                k2 = k1\<lparr>buf_queue_head := buf_queue_head k1 @ [q]\<rparr>;
                k3 = upd_obj q (\<lambda>h. h\<lparr>obj_type := RHINO_BUF_QUEUE_OBJ_TYPE\<rparr>) k2;
                k4 = upd_bq q (\<lambda>c. c\<lparr>bq_ringbuf := snd (ringbuf_init (bq_ringbuf c) (take (unat sz) bytes) RINGBUF_TYPE_DYN 0)\<rparr>) k3
            in (RHINO_SUCCESS, upd_bq q (\<lambda>c. c\<lparr>min_free_buf_size := rb_freesize (bq_ringbuf c)\<rparr>) k4)
      | _ \<Rightarrow> (RHINO_NULL_PTR, k))"

definition krhino_buf_queue_create :: "oid option \<Rightarrow> string option \<Rightarrow> (nat \<times> u8 list) option \<Rightarrow> u32 \<Rightarrow> u32 \<Rightarrow> 'a bqkernel_scheme \<Rightarrow>
    kstat \<times> 'a bqkernel_scheme" where
  "krhino_buf_queue_create queue name buf sz max_msg k = buf_queue_create queue name buf sz max_msg K_OBJ_STATIC_ALLOC k"

text \<open>The part of the two delete calls after the parameter checks.\<close>

definition buf_queue_delete :: "oid \<Rightarrow> 'a bqkernel_scheme \<Rightarrow> 'a bqkernel_scheme" where
  "buf_queue_delete q k =
     (let k1 = upd_obj q (\<lambda>h. h\<lparr>obj_type := RHINO_OBJ_TYPE_NONE\<rparr>) k;
          k2 = for_waiters pend_task_rm q k1;
          k3 = k2\<lparr>buf_queue_head := remove1 q (buf_queue_head k2)\<rparr>;
          k4 = upd_bq q (\<lambda>c. c\<lparr>bq_ringbuf := snd (ringbuf_reset (bq_ringbuf c))\<rparr>) k3
      in core_sched k4)"

definition krhino_buf_queue_del :: "oid option \<Rightarrow> 'a bqkernel_scheme \<Rightarrow> kstat \<times> 'a bqkernel_scheme" where
  "krhino_buf_queue_del queue k =
     (case queue of
        None \<Rightarrow> (RHINO_NULL_PTR, k)
      | Some q \<Rightarrow>
          if g_intrpt_nested_level k > 0 then (RHINO_NOT_CALLED_BY_INTRPT, k)
          else if obj_type (objs k q) \<noteq> RHINO_BUF_QUEUE_OBJ_TYPE then (RHINO_KOBJ_TYPE_ERR, k)
          else if bq_alloc_flag (buf_queues k q) \<noteq> K_OBJ_STATIC_ALLOC then (RHINO_KOBJ_DEL_ERR, k)
          else (RHINO_SUCCESS, buf_queue_delete q k))"

text \<open>\<open>mem\<close> and \<open>buf\<close> are what the two calls of \<open>krhino_mm_alloc\<close> return.\<close>

definition krhino_buf_queue_dyn_create :: "bool \<Rightarrow> oid option \<Rightarrow> (nat \<times> u8 list) option \<Rightarrow> string option \<Rightarrow> u32 \<Rightarrow> u32 \<Rightarrow> 'a bqkernel_scheme \<Rightarrow>
    kstat \<times> oid option \<times> 'a bqkernel_scheme" where
  "krhino_buf_queue_dyn_create queue_is_null mem buf name sz max_msg k =
     (if queue_is_null then (RHINO_NULL_PTR, None, k)
      else if sz = 0 then (RHINO_BUF_QUEUE_SIZE_ZERO, None, k)
      else case mem of
        None \<Rightarrow> (RHINO_NO_MEM, None, k)
      | Some queue_obj \<Rightarrow>
          (case buf of
             None \<Rightarrow> (RHINO_NO_MEM, None, (upd_bq queue_obj (\<lambda>c. c\<lparr>bq_buf := 0\<rparr>) k)\<lparr>mm_freed := mm_freed k @ [queue_obj]\<rparr>)
           | Some (addr, bytes) \<Rightarrow>
               (let (stat, k1) = buf_queue_create (Some queue_obj) name (Some (addr, bytes)) sz max_msg K_OBJ_DYN_ALLOC
                                   (upd_bq queue_obj (\<lambda>c. c\<lparr>bq_buf := addr\<rparr>) k)
                in if stat \<noteq> RHINO_SUCCESS
                   then (stat, None, k1\<lparr>mm_freed := mm_freed k1 @ [bq_buf (buf_queues k1 queue_obj), queue_obj]\<rparr>)
                   else (RHINO_SUCCESS, Some queue_obj, k1))))"

definition krhino_buf_queue_dyn_del :: "oid option \<Rightarrow> 'a bqkernel_scheme \<Rightarrow> kstat \<times> 'a bqkernel_scheme" where
  "krhino_buf_queue_dyn_del queue k =
     (case queue of
        None \<Rightarrow> (RHINO_NULL_PTR, k)
      | Some q \<Rightarrow>
          if g_intrpt_nested_level k > 0 then (RHINO_NOT_CALLED_BY_INTRPT, k)
          else if obj_type (objs k q) \<noteq> RHINO_BUF_QUEUE_OBJ_TYPE then (RHINO_KOBJ_TYPE_ERR, k)
          else if bq_alloc_flag (buf_queues k q) \<noteq> K_OBJ_DYN_ALLOC then (RHINO_KOBJ_DEL_ERR, k)
          else let k1 = buf_queue_delete q k in (RHINO_SUCCESS, k1\<lparr>mm_freed := mm_freed k1 @ [bq_buf (buf_queues k1 q), q]\<rparr>))"

text \<open>\<open>memcpy(task->msg, msg, msg_size)\<close>, \<open>task->bq_msg_size = msg_size\<close> and the wake-up.\<close>

definition task_bq_recv :: "u8 list \<Rightarrow> tid \<Rightarrow> 'a kernel_scheme \<Rightarrow> 'a kernel_scheme" where
  "task_bq_recv bytes t k = pend_task_wakeup t (upd_task t (\<lambda>c. c\<lparr>bq_msg := bytes\<rparr>) k)"

text \<open>The bookkeeping after a message has been stored.\<close>

definition bq_stored :: "k_ringbuf_t \<Rightarrow> kbuf_queue_t \<Rightarrow> kbuf_queue_t" where
  "bq_stored rb c =
     (let c1 = c\<lparr>bq_ringbuf := rb, bq_cur_num := bq_cur_num c + 1\<rparr>;
          c2 = (if bq_peak_num c1 < bq_cur_num c1 then c1\<lparr>bq_peak_num := bq_cur_num c1\<rparr> else c1)
      in if min_free_buf_size c2 > rb_freesize (bq_ringbuf c2) then c2\<lparr>min_free_buf_size := rb_freesize (bq_ringbuf c2)\<rparr> else c2)"

text \<open>\<open>m\<close> is the list of the \<open>msg_size\<close> bytes of the message.\<close>

definition buf_queue_send :: "oid \<Rightarrow> u8 list \<Rightarrow> bool \<Rightarrow> 'a bqkernel_scheme \<Rightarrow> kstat \<times> 'a bqkernel_scheme" where
  "buf_queue_send q m front k =
     (if obj_type (objs k q) \<noteq> RHINO_BUF_QUEUE_OBJ_TYPE then (RHINO_KOBJ_TYPE_ERR, k)
      else if length m > unat (max_msg_size (buf_queues k q)) then (RHINO_BUF_QUEUE_MSG_SIZE_OVERFLOW, k)
      else if length m = 0 then (RHINO_INV_PARAM, k)
      else
        (case waiters k q of
           [] \<Rightarrow>
             (let (err, rb) = (if front then ringbuf_head_push m (bq_ringbuf (buf_queues k q)) else ringbuf_push m (bq_ringbuf (buf_queues k q)))
              in if err \<noteq> RHINO_SUCCESS
                 then (if err = RHINO_RINGBUF_FULL then RHINO_BUF_QUEUE_FULL else err, upd_bq q (\<lambda>c. c\<lparr>bq_ringbuf := rb\<rparr>) k)
                 else (RHINO_SUCCESS, upd_bq q (bq_stored rb) k))
         | t # _ \<Rightarrow> (RHINO_SUCCESS, core_sched (task_bq_recv m t k))))"

definition krhino_buf_queue_send :: "oid option \<Rightarrow> u8 list option \<Rightarrow> 'a bqkernel_scheme \<Rightarrow> kstat \<times> 'a bqkernel_scheme" where
  "krhino_buf_queue_send queue m k =
     (case (queue, m) of (Some q, Some bytes) \<Rightarrow> buf_queue_send q bytes False k | _ \<Rightarrow> (RHINO_NULL_PTR, k))"

definition krhino_buf_queue_send_front :: "oid option \<Rightarrow> u8 list option \<Rightarrow> 'a bqkernel_scheme \<Rightarrow> kstat \<times> 'a bqkernel_scheme" where
  "krhino_buf_queue_send_front queue m k =
     (case (queue, m) of (Some q, Some bytes) \<Rightarrow> buf_queue_send q bytes True k | _ \<Rightarrow> (RHINO_NULL_PTR, k))"

text \<open>
  Receiving: the status (\<open>None\<close> when the caller has been taken off the processor), what is written to the
  caller's memory at address \<open>msg\<close>, whose length is stored in \<open>*size\<close>, and the state.
\<close>

definition krhino_buf_queue_recv :: "oid option \<Rightarrow> u32 \<Rightarrow> u32 option \<Rightarrow> bool \<Rightarrow> 'a bqkernel_scheme \<Rightarrow>
    kstat option \<times> u8 list option \<times> 'a bqkernel_scheme" where
  "krhino_buf_queue_recv queue ticks buf size_is_null k =
     (case (queue, buf) of
        (Some q, Some addr) \<Rightarrow>
          if size_is_null then (Some RHINO_NULL_PTR, None, k)
          else if g_intrpt_nested_level k > 0 \<and> ticks \<noteq> RHINO_NO_WAIT then (Some RHINO_NOT_CALLED_BY_INTRPT, None, k)
          else if obj_type (objs k q) \<noteq> RHINO_BUF_QUEUE_OBJ_TYPE then (Some RHINO_KOBJ_TYPE_ERR, None, k)
          else if \<not> ringbuf_is_empty (bq_ringbuf (buf_queues k q)) then
            (let (_, data, rb) = ringbuf_pop (bq_ringbuf (buf_queues k q))
             in (Some RHINO_SUCCESS, data, upd_bq q (\<lambda>c. c\<lparr>bq_ringbuf := rb, bq_cur_num := bq_cur_num c - 1\<rparr>) k))
          else if ticks = RHINO_NO_WAIT then (Some RHINO_NO_PEND_WAIT, Some [], k)
          else if g_sched_lock k > 0 then (Some RHINO_SCHED_DISABLE, Some [], k)
          else
            let k1 = upd_task (g_active_task k) (\<lambda>c. c\<lparr>msg := addr\<rparr>) k
            in (None, None, core_sched (pend_to_blk_obj q (g_active_task k1) ticks k1))
      | _ \<Rightarrow> (Some RHINO_NULL_PTR, None, k))"

text \<open>What a blocked call does when its task runs again.\<close>

definition buf_queue_recv_return :: "'a bqkernel_scheme \<Rightarrow> kstat \<times> u8 list \<times> 'a bqkernel_scheme" where
  "buf_queue_recv_return k =
     (let (ret, k1) = pend_state_end_proc (g_active_task k) k
      in (ret, if ret = RHINO_SUCCESS then bq_msg (tasks k1 (g_active_task k1)) else [], k1))"

definition krhino_buf_queue_flush :: "oid option \<Rightarrow> 'a bqkernel_scheme \<Rightarrow> kstat \<times> 'a bqkernel_scheme" where
  "krhino_buf_queue_flush queue k =
     (case queue of
        None \<Rightarrow> (RHINO_NULL_PTR, k)
      | Some q \<Rightarrow>
          if g_intrpt_nested_level k > 0 then (RHINO_NOT_CALLED_BY_INTRPT, k)
          else if obj_type (objs k q) \<noteq> RHINO_BUF_QUEUE_OBJ_TYPE then (RHINO_KOBJ_TYPE_ERR, k)
          else (RHINO_SUCCESS,
                upd_bq q (\<lambda>c. let rb = snd (ringbuf_reset (bq_ringbuf c))
                              in c\<lparr>bq_ringbuf := rb, bq_cur_num := 0, bq_peak_num := 0, min_free_buf_size := rb_freesize rb\<rparr>) k))"

record kbuf_queue_info_t =
  bqi_buf_size :: nat
  bqi_max_msg_size :: u32
  bqi_cur_num :: u32
  bqi_peak_num :: u32
  bqi_free_buf_size :: nat
  bqi_min_free_buf_size :: nat

definition krhino_buf_queue_info_get :: "oid option \<Rightarrow> bool \<Rightarrow> 'a bqkernel_scheme \<Rightarrow> kstat \<times> kbuf_queue_info_t option" where
  "krhino_buf_queue_info_get queue info_is_null k =
     (case queue of
        None \<Rightarrow> (RHINO_NULL_PTR, None)
      | Some q \<Rightarrow>
          if info_is_null then (RHINO_NULL_PTR, None)
          else if obj_type (objs k q) \<noteq> RHINO_BUF_QUEUE_OBJ_TYPE then (RHINO_KOBJ_TYPE_ERR, None)
          else
            let c = buf_queues k q
            in (RHINO_SUCCESS,
                Some \<lparr>bqi_buf_size = rb_end (bq_ringbuf c), bqi_max_msg_size = max_msg_size c, bqi_cur_num = bq_cur_num c,
                      bqi_peak_num = bq_peak_num c, bqi_free_buf_size = rb_freesize (bq_ringbuf c),
                      bqi_min_free_buf_size = min_free_buf_size c\<rparr>))"

definition krhino_buf_queue_is_valid :: "oid option \<Rightarrow> 'a bqkernel_scheme \<Rightarrow> kstat" where
  "krhino_buf_queue_is_valid queue k =
     (case queue of
        None \<Rightarrow> RHINO_NULL_PTR
      | Some q \<Rightarrow> if obj_type (objs k q) \<noteq> RHINO_BUF_QUEUE_OBJ_TYPE then RHINO_KOBJ_TYPE_ERR else RHINO_SUCCESS)"

section \<open>Frames\<close>

lemma bq_more:
  assumes "kernel.more k' = kernel.more k"
  shows "buf_queues k' = buf_queues k" "buf_queue_head k' = buf_queue_head k"
  using assms by (cases k; cases k'; simp)+

lemma upd_bq_frame [simp]:
  "tasks (upd_bq q f k) = tasks k" "objs (upd_bq q f k) = objs k" "g_active_task (upd_bq q f k) = g_active_task k"
  "buf_queues (upd_bq q f k) = (buf_queues k)(q := f (buf_queues k q))" "g_sched_lock (upd_bq q f k) = g_sched_lock k"
  "g_intrpt_nested_level (upd_bq q f k) = g_intrpt_nested_level k"
  by (simp_all add: upd_bq_def)

lemma view_bq [simp]: "view (upd_bq q f k) = view k" "view (k\<lparr>buf_queue_head := h\<rparr>) = view k"
  by (simp_all add: upd_bq_def view_def ticks_left_def fun_eq_iff)

lemma sys_inv_bq [simp]: "sys_inv (upd_bq q f k) = sys_inv k" "sys_inv (k\<lparr>buf_queue_head := h\<rparr>) = sys_inv k"
  by (rule sys_inv_view; simp)+

interpretation bqsend: signal_step "task_bq_recv m" "\<lambda>c. c\<lparr>bq_msg := m\<rparr>" for m
  by unfold_locales (simp_all add: task_bq_recv_def)

section \<open>The contents of a buffer queue\<close>

definition bq_holds :: "kbuf_queue_t \<Rightarrow> u8 list list \<Rightarrow> bool" where
  "bq_holds c ms \<longleftrightarrow> dyn_holds (bq_ringbuf c) ms \<and> unat (bq_cur_num c) = length ms \<and> [] \<notin> set ms \<and> rb_end (bq_ringbuf c) < 2 ^ 32"

definition bq_inv :: "'a bqkernel_scheme \<Rightarrow> oid \<Rightarrow> u8 list list \<Rightarrow> bool" where
  "bq_inv k q ms \<longleftrightarrow> obj_type (objs k q) = RHINO_BUF_QUEUE_OBJ_TYPE \<and> bq_holds (buf_queues k q) ms \<and> (waiters k q \<noteq> [] \<longrightarrow> ms = [])"

text \<open>A message takes at least one byte of code and one byte of data.\<close>

lemma frames_length: "[] \<notin> set ms \<Longrightarrow> list_all dyn_valid ms \<Longrightarrow> 2 * length ms \<le> length (concat (map rb_frame_of ms))"
proof (induction ms)
  case (Cons m ms)
  have "length m \<le> 0x3fffff" using Cons.prems(2) by (simp add: dyn_valid_def)
  then obtain c where "ringbuf_headlen_compress (of_nat (length m)) = Some c" "c \<noteq> []" by (metis headlen_roundtrip)
  then have "1 \<le> length c" "1 \<le> length m" "length (rb_frame_of m) = length c + length m"
    using Cons.prems(1) by (auto simp: rb_frame_of_def Suc_le_eq)
  then have "2 \<le> length (rb_frame_of m)" by linarith
  then show ?case using Cons by simp
qed simp

lemma bq_count:
  assumes "bq_holds c ms"
  shows "2 * length ms \<le> rb_used (bq_ringbuf c)" and "2 * length ms < 2 ^ 32"
proof -
  have h: "rb_bytes (bq_ringbuf c) = concat (map rb_frame_of ms)" "ring_ok (bq_ringbuf c)" "list_all dyn_valid ms" "[] \<notin> set ms" "rb_end (bq_ringbuf c) < 2 ^ 32"
    using assms by (simp_all add: bq_holds_def dyn_holds_def)
  show "2 * length ms \<le> rb_used (bq_ringbuf c)" using frames_length [OF h(4,3)] arg_cong [OF h(1), of length] by simp
  then show "2 * length ms < 2 ^ 32" using ring_okD(7) [OF h(2)] h(5) by linarith
qed

lemma bq_empty:
  assumes "bq_holds c ms"
  shows "ringbuf_is_empty (bq_ringbuf c) \<longleftrightarrow> ms = []"
proof -
  have h: "rb_bytes (bq_ringbuf c) = concat (map rb_frame_of ms)" "ring_ok (bq_ringbuf c)" using assms by (simp_all add: bq_holds_def dyn_holds_def)
  have "ringbuf_is_empty (bq_ringbuf c) \<longleftrightarrow> rb_used (bq_ringbuf c) = 0"
    using ring_okD [OF h(2)] by (auto simp: ringbuf_is_empty_def rb_used_def)
  moreover have "rb_used (bq_ringbuf c) = 0" if "ms = []" using that arg_cong [OF h(1), of length] by simp
  moreover have "rb_used (bq_ringbuf c) > 0" if "ms \<noteq> []" using that bq_count(1) [OF assms] by (cases ms) simp_all
  ultimately show ?thesis by fastforce
qed

lemma dyn_end:
  assumes "dyn_holds rb ms" and "dyn_valid m" and "dyn_fits m rb"
  shows "rb_end (snd (ringbuf_push m rb)) = rb_end rb"
proof -
  have r: "rb_end (rb_write off xs r) = rb_end r" for off xs r by (simp add: rb_write_def)
  have t: "rb_end (tail_copy xs r) = rb_end r" for xs r by (simp add: tail_copy_def Let_def r)
  have w: "rb_end (tail_wrap r) = rb_end r" for r by (simp add: tail_wrap_def)
  have p: "rb_end (tail_put xs r) = rb_end r" for xs r by (simp add: tail_put_def Let_def t)
  show ?thesis by (simp add: ringbuf_push_def p w t split: ringbuf_type.split option.split)
qed

lemma dyn_pop_end: "rb_end (snd (snd (ringbuf_pop rb))) = rb_end rb"
proof -
  have r: "rb_end (snd (head_read n r)) = rb_end r" for n r by (simp add: head_read_def)
  have s: "rb_end (snd (head_read_split n r)) = rb_end r" for n r using r by (simp add: head_read_split_def Let_def split_beta head_read_def)
  have w: "rb_end (head_wrap r) = rb_end r" for r by (simp add: head_wrap_def)
  have p: "rb_end (snd (pop_len n r)) = rb_end r" "rb_end (snd (pop_data n r)) = rb_end r" for n r by (simp_all add: pop_len_def pop_data_def Let_def r s)
  show ?thesis by (simp add: ringbuf_pop_def Let_def split_beta p w r split: ringbuf_type.split option.split)
qed

section \<open>What the calls do\<close>

lemma bq_send_store:
  assumes "bq_inv k q ms" and "waiters k q = []" and "m \<noteq> []" and "length m \<le> unat (max_msg_size (buf_queues k q))" and "dyn_valid m"
    and "dyn_fits m (bq_ringbuf (buf_queues k q))"
  shows "\<exists>k'. buf_queue_send q m False k = (RHINO_SUCCESS, k') \<and> sys_inv k' = sys_inv k \<and> tasks k' = tasks k \<and> bq_inv k' q (ms @ [m])"
proof -
  let ?c = "buf_queues k q"
  have c: "bq_holds ?c ms" "obj_type (objs k q) = RHINO_BUF_QUEUE_OBJ_TYPE" using assms(1) by (simp_all add: bq_inv_def)
  have d: "dyn_holds (bq_ringbuf ?c) ms" "unat (bq_cur_num ?c) = length ms" using c(1) by (simp_all add: bq_holds_def)
  note p = dynq.push_fits [OF d(1) assms(5,6)]
  have "unat (bq_cur_num ?c + 1) = Suc (length ms)" using d(2) bq_count(2) [OF c(1)] by (simp add: unat_word_ariths)
  then have "bq_holds (bq_stored (snd (ringbuf_push m (bq_ringbuf ?c))) ?c) (ms @ [m])"
    using c(1) p assms(3) dyn_end [OF d(1) assms(5,6)] by (simp add: bq_holds_def bq_stored_def Let_def)
  moreover have "buf_queue_send q m False k = (RHINO_SUCCESS, upd_bq q (bq_stored (snd (ringbuf_push m (bq_ringbuf ?c)))) k)"
    using c(2) assms(2-4) p by (simp add: buf_queue_send_def split_beta)
  ultimately show ?thesis using c(2) assms(2) by (simp add: bq_inv_def)
qed

lemma upd_bq_same: "buf_queues k q = c \<Longrightarrow> upd_bq q (\<lambda>_. c) k = k"
  by (auto simp: upd_bq_def)

lemma bq_send_full:
  assumes "bq_inv k q ms" and "waiters k q = []" and "m \<noteq> []" and "length m \<le> unat (max_msg_size (buf_queues k q))" and "dyn_valid m"
    and "\<not> dyn_fits m (bq_ringbuf (buf_queues k q))"
  shows "buf_queue_send q m False k = (RHINO_BUF_QUEUE_FULL, k)"
proof -
  have c: "dyn_holds (bq_ringbuf (buf_queues k q)) ms" "obj_type (objs k q) = RHINO_BUF_QUEUE_OBJ_TYPE"
    using assms(1) by (simp_all add: bq_inv_def bq_holds_def)
  show ?thesis using c(2) assms(2-4) dynq.push_full [OF c(1) assms(5,6)] by (simp add: buf_queue_send_def upd_bq_def)
qed

lemma bq_send_hand:
  assumes "sys_inv k" and "bq_inv k q ms" and "waiters k q = t # ts" and "m \<noteq> []" and "length m \<le> unat (max_msg_size (buf_queues k q))"
  shows "\<exists>k'. buf_queue_send q m front k = (RHINO_SUCCESS, k') \<and> sys_inv k' \<and> bq_inv k' q [] \<and> waiters k' q = ts \<and>
    state_of k' t = woken (state_of k t) \<and> (\<forall>u. u \<noteq> t \<longrightarrow> state_of k' u = state_of k u) \<and>
    blk_state (tasks k' t) = BLK_FINISH \<and> bq_msg (tasks k' t) = m"
proof -
  let ?k = "task_bq_recv m t k"
  have c: "bq_holds (buf_queues k q) []" "obj_type (objs k q) = RHINO_BUF_QUEUE_OBJ_TYPE" using assms(2,3) by (auto simp: bq_inv_def)
  have em: "emptying q k" by (rule emptying_kernel(1)) (use assms(1) c(2) in \<open>simp_all add: sys_inv_def\<close>)
  note s = bqsend.sig_eq [OF em assms(3), of m]
  have send: "buf_queue_send q m front k = (RHINO_SUCCESS, core_sched ?k)" using c(2) assms(3-5) by (simp add: buf_queue_send_def)
  have sys: "sys_inv (core_sched ?k)" by (rule bqsend.wake_exit [OF assms(1) _ assms(3), of _ m]) (simp_all add: c(2))
  have "kernel.more ?k = kernel.more k" using s(3) by (simp add: env_def)
  then have qs: "buf_queues (core_sched ?k) = buf_queues k" by (intro bq_more) simp
  have "bq_msg (tasks (pend_task_wakeup t j) t) = bq_msg (tasks j t)" for j :: "'a bqkernel_scheme"
    by (simp add: pend_task_wakeup_def pend_leave_def tick_list_rm_def split: task_stat_t.split)
  then have "bq_msg (tasks ?k t) = m" by (simp add: task_bq_recv_def)
  then show ?thesis using send sys qs c s(2,4,5) bqsend.sig_type [of m t k q] by (auto simp: bq_inv_def)
qed

lemma bq_recv_pop:
  assumes "bq_inv k q (m # ms)" and "g_intrpt_nested_level k = 0 \<or> ticks = RHINO_NO_WAIT"
  shows "\<exists>k'. krhino_buf_queue_recv (Some q) ticks (Some addr) False k = (Some RHINO_SUCCESS, Some m, k') \<and> sys_inv k' = sys_inv k \<and>
    tasks k' = tasks k \<and> bq_inv k' q ms"
proof -
  let ?c = "buf_queues k q"
  have c: "bq_holds ?c (m # ms)" "obj_type (objs k q) = RHINO_BUF_QUEUE_OBJ_TYPE" "waiters k q = []" using assms(1) by (auto simp: bq_inv_def)
  have d: "dyn_holds (bq_ringbuf ?c) (m # ms)" "unat (bq_cur_num ?c) = Suc (length ms)" using c(1) by (simp_all add: bq_holds_def)
  then have pos: "bq_cur_num ?c \<noteq> 0" by auto
  note p = dynq.pop_msg [OF d(1)]
  have "bq_holds (?c\<lparr>bq_ringbuf := snd (snd (ringbuf_pop (bq_ringbuf ?c))), bq_cur_num := bq_cur_num ?c - 1\<rparr>) ms"
    using c(1) p dyn_pop_end [of "bq_ringbuf ?c"] d(2) pos by (simp add: bq_holds_def unat_minus_one)
  moreover have "krhino_buf_queue_recv (Some q) ticks (Some addr) False k = (Some RHINO_SUCCESS, Some m,
      upd_bq q (\<lambda>c. c\<lparr>bq_ringbuf := snd (snd (ringbuf_pop (bq_ringbuf ?c))), bq_cur_num := bq_cur_num c - 1\<rparr>) k)"
    using assms(2) c(2) p bq_empty [OF c(1)] by (auto simp: krhino_buf_queue_recv_def split_beta)
  ultimately show ?thesis using c(2,3) by (simp add: bq_inv_def)
qed

lemma bq_recv_blocks:
  assumes "sys_inv k" and "bq_inv k q []" and "g_active_task k \<noteq> g_idle_task" and "g_intrpt_nested_level k = 0" "g_sched_lock k = 0"
    and "ticks \<noteq> RHINO_NO_WAIT"
  shows "\<exists>k'. krhino_buf_queue_recv (Some q) ticks (Some addr) False k = (None, None, k') \<and> sys_inv k' \<and> bq_inv k' q [] \<and>
    state_of k' (g_active_task k) = K_PEND \<and> set (waiters k' q) = insert (g_active_task k) (set (waiters k q)) \<and>
    msg (tasks k' (g_active_task k)) = addr"
proof -
  let ?k = "upd_task (g_active_task k) (\<lambda>c. c\<lparr>msg := addr\<rparr>) k"
  have c: "bq_holds (buf_queues k q) []" "obj_type (objs k q) = RHINO_BUF_QUEUE_OBJ_TYPE" using assms(2) by (simp_all add: bq_inv_def)
  have "view ?k = view k" by simp
  then have sys: "sys_inv ?k" using assms(1) sys_inv_view [of ?k k] by simp
  have b: "sys_inv (block_on q ticks ?k)" "state_of (block_on q ticks ?k) (g_active_task k) = K_PEND"
    "set (waiters (block_on q ticks ?k) q) = insert (g_active_task k) (set (waiters k q))" "obj_type (objs (block_on q ticks ?k) q) = RHINO_BUF_QUEUE_OBJ_TYPE"
    using block_on_inv [OF sys, where b = q and ticks = ticks] assms(3-5) c(2) by simp_all
  have "krhino_buf_queue_recv (Some q) ticks (Some addr) False k = (None, None, block_on q ticks ?k)"
    using assms(4-6) c(2) bq_empty [OF c(1)] by (simp add: krhino_buf_queue_recv_def block_on_def)
  moreover have "buf_queues (block_on q ticks ?k) = buf_queues k" using bq_more(1) [of "block_on q ticks ?k" ?k] by simp
  moreover have "msg (tasks (block_on q ticks ?k) (g_active_task k)) = addr"
    by (simp add: block_on_def pend_to_blk_obj_def Let_def pend_list_add_def tick_list_insert_def tick_list_pri_insert_def)
  ultimately show ?thesis using b c(1) by (simp add: bq_inv_def)
qed

lemma bq_create_inv:
  assumes "sys_inv k" and "obj_type (objs k q) = RHINO_OBJ_TYPE_NONE" and "sz \<noteq> 0" "max_msg \<noteq> 0" and "unat sz \<le> length bytes"
    and "\<not> rb_fault (bq_ringbuf (buf_queues k q))"
  shows "\<exists>k'. buf_queue_create (Some q) (Some nm) (Some (addr, bytes)) sz max_msg flag k = (RHINO_SUCCESS, k') \<and> sys_inv k' \<and> bq_inv k' q [] \<and>
    max_msg_size (buf_queues k' q) = max_msg \<and> rb_freesize (bq_ringbuf (buf_queues k' q)) = unat sz \<and> tasks k' = tasks k"
proof -
  let ?k = "snd (buf_queue_create (Some q) (Some nm) (Some (addr, bytes)) sz max_msg flag k)"
  let ?b = "take (unat sz) bytes"
  let ?o = "upd_obj q (\<lambda>h. h\<lparr>blk_list := [], obj_name := nm, blk_policy := BLK_POLICY_PRI, obj_type := RHINO_BUF_QUEUE_OBJ_TYPE\<rparr>) k"
  have b: "?b \<noteq> []" "length ?b = unat sz" using assms(3,5) by (auto simp: unat_eq_0)
  have "sys_inv ?o" by (rule object_create_inv [OF assms(1,2)]) simp_all
  moreover have "view ?k = view ?o"
    using assms(3,4) by (simp add: buf_queue_create_def Let_def upd_bq_def view_def ticks_left_def fun_eq_iff)
  ultimately have "sys_inv ?k" using sys_inv_view [of ?k ?o] assms(3,4) by (simp add: buf_queue_create_def Let_def upd_bq_def)
  moreover have "dyn_holds (snd (ringbuf_init (bq_ringbuf (buf_queues k q)) ?b RINGBUF_TYPE_DYN 0)) []"
    by (rule ringbuf_init_holds(1) [OF b(1) assms(6)])
  moreover have "unat sz < 2 ^ 32" using unsigned_less [of sz, where 'a = nat] by simp
  ultimately show ?thesis
    using assms(3,4) b(2) by (intro exI [of _ ?k]) (simp add: buf_queue_create_def Let_def bq_inv_def bq_holds_def upd_bq_def ringbuf_init_def ringbuf_reset_def)
qed

section \<open>Theorems\<close>

text \<open>A buffer queue of eight bytes, object 8, in a system where task 1 runs.\<close>

definition no_bufs :: bqkernel where
  "no_bufs = qkernel.extend no_queues (bqkernel.fields []
     (\<lambda>_. \<lparr>bq_buf = 0, bq_ringbuf = q_ringbuf queue_zero, max_msg_size = 0, bq_cur_num = 0, bq_peak_num = 0, min_free_buf_size = 0, bq_alloc_flag = 0\<rparr>))"

definition bq_example :: bqkernel where
  "bq_example = snd (krhino_buf_queue_create (Some 8) (Some ''b'') (Some (4096, replicate 8 0)) 8 6 no_bufs)"

lemma bq_example_inv:
  "sys_inv bq_example" "bq_inv bq_example 8 []" "unat (max_msg_size (buf_queues bq_example 8)) = 6"
  "rb_freesize (bq_ringbuf (buf_queues bq_example 8)) = 8"
proof -
  have "view no_bufs = view no_queues" by (simp add: no_bufs_def qkernel.defs view_def ticks_left_def fun_eq_iff)
  then have "sys_inv no_bufs = sys_inv no_queues" by (rule sys_inv_view) (simp_all add: no_bufs_def qkernel.defs)
  moreover have "sys_inv no_queues" using sys_inv_extend [of task_kernel] task_kernel_inv by (simp add: no_queues_def)
  moreover have "obj_type (objs no_bufs 8) = RHINO_OBJ_TYPE_NONE" "\<not> rb_fault (bq_ringbuf (buf_queues no_bufs 8))"
    by (simp_all add: no_bufs_def no_queues_def queue_zero_def kernel.defs qkernel.defs bqkernel.defs)
  ultimately obtain k' where "buf_queue_create (Some 8) (Some ''b'') (Some (4096, replicate 8 0)) 8 6 K_OBJ_STATIC_ALLOC no_bufs = (RHINO_SUCCESS, k')"
    "sys_inv k'" "bq_inv k' 8 []" "max_msg_size (buf_queues k' 8) = 6" "rb_freesize (bq_ringbuf (buf_queues k' 8)) = 8"
    using bq_create_inv [of no_bufs 8 8 6 "replicate 8 0" "''b''" 4096 K_OBJ_STATIC_ALLOC] by auto
  then show "sys_inv bq_example" "bq_inv bq_example 8 []" "unat (max_msg_size (buf_queues bq_example 8)) = 6"
    "rb_freesize (bq_ringbuf (buf_queues bq_example 8)) = 8" by (simp_all add: bq_example_def krhino_buf_queue_create_def)
qed

lemma bq_example_facts:
  "g_active_task bq_example = 1" "g_intrpt_nested_level bq_example = 0" "g_sched_lock bq_example = 0" "waiters bq_example 8 = []"
  by (simp_all add: bq_example_def krhino_buf_queue_create_def buf_queue_create_def upd_bq_def no_bufs_def no_queues_def kernel.defs qkernel.defs Let_def)

text \<open>C26: A buffer queue refines a FIFO list of messages of varying size.  With nobody waiting, a message is appended when its bytes and its
  length code fit into the free part of the buffer and refused with \<open>RHINO_BUF_QUEUE_FULL\<close> otherwise; a message longer than the limit of
  the queue and an empty message are refused; receiving returns the bytes of the oldest message.  The count of messages cannot overflow.\<close>

theorem buf_queue_refines_list:
  assumes "sys_inv k" and "bq_inv k q ms" and "waiters k q = []" and "length m \<le> 0x3fffff"
  shows "(length m > unat (max_msg_size (buf_queues k q)) \<longrightarrow>
      krhino_buf_queue_send (Some q) (Some m) k = (RHINO_BUF_QUEUE_MSG_SIZE_OVERFLOW, k)) \<and>
    (m = [] \<longrightarrow> krhino_buf_queue_send (Some q) (Some m) k = (RHINO_INV_PARAM, k)) \<and>
    (m \<noteq> [] \<and> length m \<le> unat (max_msg_size (buf_queues k q)) \<longrightarrow>
      (if dyn_fits m (bq_ringbuf (buf_queues k q))
       then \<exists>k'. krhino_buf_queue_send (Some q) (Some m) k = (RHINO_SUCCESS, k') \<and> sys_inv k' \<and> tasks k' = tasks k \<and> bq_inv k' q (ms @ [m])
       else krhino_buf_queue_send (Some q) (Some m) k = (RHINO_BUF_QUEUE_FULL, k))) \<and>
    (ms \<noteq> [] \<longrightarrow> (\<exists>k'. krhino_buf_queue_recv (Some q) RHINO_NO_WAIT (Some addr) False k = (Some RHINO_SUCCESS, Some (hd ms), k') \<and> sys_inv k' \<and>
      tasks k' = tasks k \<and> bq_inv k' q (tl ms))) \<and> 2 * length ms < 2 ^ 32"
proof (intro conjI impI)
  assume m: "m \<noteq> [] \<and> length m \<le> unat (max_msg_size (buf_queues k q))"
  have v: "dyn_valid m" using assms(4) by (simp add: dyn_valid_def)
  show "if dyn_fits m (bq_ringbuf (buf_queues k q))
    then \<exists>k'. krhino_buf_queue_send (Some q) (Some m) k = (RHINO_SUCCESS, k') \<and> sys_inv k' \<and> tasks k' = tasks k \<and> bq_inv k' q (ms @ [m])
    else krhino_buf_queue_send (Some q) (Some m) k = (RHINO_BUF_QUEUE_FULL, k)"
    using bq_send_store [OF assms(2,3) _ _ v] bq_send_full [OF assms(2,3) _ _ v] m assms(1) by (auto simp: krhino_buf_queue_send_def)
next
  assume "ms \<noteq> []"
  then have "bq_inv k q (hd ms # tl ms)" using assms(2) by simp
  from bq_recv_pop [OF this] show "\<exists>k'. krhino_buf_queue_recv (Some q) RHINO_NO_WAIT (Some addr) False k = (Some RHINO_SUCCESS, Some (hd ms), k') \<and>
    sys_inv k' \<and> tasks k' = tasks k \<and> bq_inv k' q (tl ms)" using assms(1) by fastforce
qed (use assms(2) bq_count(2) in \<open>auto simp: krhino_buf_queue_send_def buf_queue_send_def bq_inv_def\<close>)

theorem buf_queue_refines_list_witness:
  "\<exists>k'. krhino_buf_queue_send (Some 8) (Some [1, 2, 3]) bq_example = (RHINO_SUCCESS, k') \<and> sys_inv k' \<and> bq_inv k' 8 [[1, 2, 3]]"
proof -
  have "rb_frame_of [1, 2, 3] = [3, 1, 2, 3]" by code_simp
  then have "dyn_fits [1, 2, 3] (bq_ringbuf (buf_queues bq_example 8))" using bq_example_inv(4) by (simp add: dyn_fits_def)
  then show ?thesis using buf_queue_refines_list [OF bq_example_inv(1,2) bq_example_facts(4), of "[1, 2, 3]"] bq_example_inv(3) by auto
qed

text \<open>Receiving from an empty buffer queue takes the caller off the processor, and the next message is copied straight to the first waiting
  task: that task becomes ready and its call returns the message when it runs again.\<close>

theorem buf_queue_hands_over:
  assumes "sys_inv k" and "bq_inv k q ms" and "waiters k q = t # ts" and "m \<noteq> []" and "length m \<le> unat (max_msg_size (buf_queues k q))"
  shows "\<exists>k'. krhino_buf_queue_send (Some q) (Some m) k = (RHINO_SUCCESS, k') \<and> sys_inv k' \<and> bq_inv k' q [] \<and> waiters k' q = ts \<and>
    state_of k' t = woken (state_of k t) \<and> (\<forall>u. u \<noteq> t \<longrightarrow> state_of k' u = state_of k u) \<and>
    buf_queue_recv_return (k'\<lparr>g_active_task := t\<rparr>) = (RHINO_SUCCESS, m, k'\<lparr>g_active_task := t\<rparr>)"
  using bq_send_hand [OF assms, of False]
  by (auto simp: krhino_buf_queue_send_def buf_queue_recv_return_def pend_state_end_proc_def)

theorem buf_queue_hands_over_witness:
  "\<exists>k k'. krhino_buf_queue_recv (Some 8) 5 (Some 100) False bq_example = (None, None, k) \<and>
     krhino_buf_queue_send (Some 8) (Some [1, 2, 3]) k = (RHINO_SUCCESS, k') \<and>
     buf_queue_recv_return (k'\<lparr>g_active_task := 1\<rparr>) = (RHINO_SUCCESS, [1, 2, 3], k'\<lparr>g_active_task := 1\<rparr>)"
proof -
  obtain k where k: "krhino_buf_queue_recv (Some 8) 5 (Some 100) False bq_example = (None, None, k)" "sys_inv k" "bq_inv k 8 []"
    using bq_recv_blocks [OF bq_example_inv(1,2) _ bq_example_facts(2,3), of 5 100] by (auto simp: bq_example_facts g_idle_task_def)
  have "ringbuf_is_empty (bq_ringbuf (buf_queues bq_example 8))" "obj_type (objs bq_example 8) = RHINO_BUF_QUEUE_OBJ_TYPE"
    using bq_example_inv(2) bq_empty [of "buf_queues bq_example 8" "[]"] by (simp_all add: bq_inv_def)
  then have "k = block_on 8 5 (upd_task 1 (\<lambda>c. c\<lparr>msg := 100\<rparr>) bq_example)"
    using k(1) by (simp add: krhino_buf_queue_recv_def block_on_def bq_example_facts Let_def)
  then have wl: "waiters k 8 = [1]" and mx: "buf_queues k = buf_queues bq_example"
    using bq_more(1) [of k "upd_task 1 (\<lambda>c. c\<lparr>msg := 100\<rparr>) bq_example"]
    by (simp_all add: block_on_def pend_to_blk_obj_def pend_list_add_def tick_list_insert_def tick_list_pri_insert_def bq_example_facts Let_def)
  show ?thesis using buf_queue_hands_over [OF k(2,3) wl, of "[1, 2, 3]"] k(1) mx bq_example_inv(3) by auto
qed

text \<open>Sending to the front of a buffer queue can garble the message: with eight bytes of buffer, after a message of one byte has passed through, a
  message of four bytes sent to the front is received with its halves exchanged.\<close>

theorem buf_queue_front_garbles:
  "let k = snd (krhino_buf_queue_send (Some 8) (Some [5]) bq_example);
       (_, _, k1) = krhino_buf_queue_recv (Some 8) 0 (Some 100) False k;
       (r, k2) = krhino_buf_queue_send_front (Some 8) (Some [1, 2, 3, 4]) k1;
       (_, m, _) = krhino_buf_queue_recv (Some 8) 0 (Some 100) False k2
   in r = RHINO_SUCCESS \<and> m = Some [3, 4, 1, 2]"
  by code_simp

end
