(* ===== verification/Timer.thy ===== *)
theory Timer
  imports Buf_Queue Mblk
begin

text \<open>
  Software timers, \<^verbatim>\<open>kernel/rhino/core/k_timer.c\<close>.  The calls of the interface put commands into blocks of
  a pool and send them to the timer task through a queue; the timer task executes the commands, keeps
  the active timers in a list and calls the callbacks of those that are due.  The body of the endless
  loop of \<open>timer_task\<close> is cut at its two calls of \<open>krhino_queue_recv\<close>, where the task may block.  A
  callback is user code: its calls are recorded in \<open>timer_fired\<close>.  The theorems: a command that cannot
  be sent leaves no block behind; the list holds exactly the active timers, ordered by due time as long as
  the timer task is not late; every due timer then fires, once and in order; a late timer task can
  postpone a timer by the period of another one.
\<close>

section \<open>State\<close>

datatype (plugins only: code size) k_timer_state_t = TIMER_DEACTIVE | TIMER_ACTIVE

datatype (plugins only: code size) timer_cmd =
  TIMER_CMD_CB | TIMER_CMD_START | TIMER_CMD_STOP | TIMER_CMD_CHG | TIMER_ARG_CHG | TIMER_ARG_CHG_AUTO | TIMER_CMD_DEL | TIMER_CMD_DYN_DEL

text \<open>\<open>to_head\<close> says whether the pointer of that name is set.\<close>

record ktimer_t =
  to_head :: bool
  tm_name :: string
  tm_cb :: nat
  timer_cb_arg :: u32
  tm_match :: u64
  tm_remain :: u64
  init_count :: u64
  round_ticks :: u64
  tm_obj_type :: kobj_type_t
  timer_state :: k_timer_state_t
  tm_alloc_flag :: u8

text \<open>
  The members of a command block behind \<open>timer\<close>, which is the first word of the block and is kept in the
  memory of the pool.  \<open>cb_round\<close> and \<open>cb_arg\<close> are the members of a union; each command reads the one it has
  written.
\<close>

record k_timer_queue_cb =
  cb_first :: u64
  cb_round :: u64
  cb_arg :: u32
  cb_num :: timer_cmd

record tkernel = bqkernel +
  timers :: "nat \<Rightarrow> ktimer_t"
  g_timer_head :: "nat list"
  g_timer_count :: u64
  g_timer_queue :: oid
  g_timer_pool :: mblk_pool_t
  timer_mem :: mblk_mem
  timer_cbs :: "nat \<Rightarrow> k_timer_queue_cb"
  timer_fired :: "(nat \<times> nat \<times> u32) list"

definition upd_timer :: "nat \<Rightarrow> (ktimer_t \<Rightarrow> ktimer_t) \<Rightarrow> 'a tkernel_scheme \<Rightarrow> 'a tkernel_scheme" where
  "upd_timer t f k = k\<lparr>timers := (timers k)(t := f (timers k t))\<rparr>"

section \<open>The list of active timers\<close>

text \<open>The time left until a timer is due, as the C code computes it.\<close>

definition timer_left :: "'a tkernel_scheme \<Rightarrow> nat \<Rightarrow> u64" where
  "timer_left k t = tm_match (timers k t) - g_timer_count k"

definition timer_list_pri_insert :: "nat \<Rightarrow> 'a tkernel_scheme \<Rightarrow> 'a tkernel_scheme" where
  "timer_list_pri_insert t k = k\<lparr>g_timer_head := ins_before (timer_left k) (tm_remain (timers k t)) t (g_timer_head k)\<rparr>"

definition timer_list_rm :: "nat \<Rightarrow> 'a tkernel_scheme \<Rightarrow> 'a tkernel_scheme" where
  "timer_list_rm t k =
     (if to_head (timers k t)
      then upd_timer t (\<lambda>c. c\<lparr>to_head := False\<rparr>) (k\<lparr>g_timer_head := remove1 t (g_timer_head k)\<rparr>) else k)"

section \<open>The calls of the interface\<close>

text \<open>
  Every call allocates a block, writes the command and sends the block to the timer task; if the queue
  refuses, the block is given back.
\<close>

definition timer_cmd_send :: "nat option \<Rightarrow> (k_timer_queue_cb \<Rightarrow> k_timer_queue_cb) \<Rightarrow> 'a tkernel_scheme \<Rightarrow> kstat \<times> 'a tkernel_scheme" where
  "timer_cmd_send timer fill k =
     (case timer of
        None \<Rightarrow> (RHINO_NULL_PTR, k)
      | Some t \<Rightarrow>
          (let (err, blk, pool) = krhino_mblk_alloc (Some (g_timer_pool k)) False (timer_mem k);
               k1 = k\<lparr>g_timer_pool := the pool\<rparr>
           in if err \<noteq> RHINO_SUCCESS then (err, k1)
              else
                let cb = the blk;
                    k2 = k1\<lparr>timer_mem := (timer_mem k1)(cb := t), timer_cbs := (timer_cbs k1)(cb := fill (timer_cbs k1 cb))\<rparr>;
                    (err, k3) = krhino_queue_back_send (Some (g_timer_queue k2)) (of_nat cb) k2
                in if err \<noteq> RHINO_SUCCESS
                   then let (_, pool, mem) = krhino_mblk_free (Some (g_timer_pool k3)) cb (timer_mem k3)
                        in (err, k3\<lparr>g_timer_pool := the pool, timer_mem := mem\<rparr>)
                   else (RHINO_SUCCESS, k3)))"

definition krhino_timer_del :: "nat option \<Rightarrow> 'a tkernel_scheme \<Rightarrow> kstat \<times> 'a tkernel_scheme" where
  "krhino_timer_del timer k = timer_cmd_send timer (\<lambda>c. c\<lparr>cb_num := TIMER_CMD_DEL\<rparr>) k"

definition krhino_timer_dyn_del :: "nat option \<Rightarrow> 'a tkernel_scheme \<Rightarrow> kstat \<times> 'a tkernel_scheme" where
  "krhino_timer_dyn_del timer k = timer_cmd_send timer (\<lambda>c. c\<lparr>cb_num := TIMER_CMD_DYN_DEL\<rparr>) k"

definition krhino_timer_start :: "nat option \<Rightarrow> 'a tkernel_scheme \<Rightarrow> kstat \<times> 'a tkernel_scheme" where
  "krhino_timer_start timer k = timer_cmd_send timer (\<lambda>c. c\<lparr>cb_num := TIMER_CMD_START\<rparr>) k"

definition krhino_timer_stop :: "nat option \<Rightarrow> 'a tkernel_scheme \<Rightarrow> kstat \<times> 'a tkernel_scheme" where
  "krhino_timer_stop timer k = timer_cmd_send timer (\<lambda>c. c\<lparr>cb_num := TIMER_CMD_STOP\<rparr>) k"

definition krhino_timer_change :: "nat option \<Rightarrow> u64 \<Rightarrow> u64 \<Rightarrow> 'a tkernel_scheme \<Rightarrow> kstat \<times> 'a tkernel_scheme" where
  "krhino_timer_change timer first round k =
     (if timer = None then (RHINO_NULL_PTR, k)
      else if first \<ge> 0xFFFFFFFF then (RHINO_INV_PARAM, k)
      else if round \<ge> 0xFFFFFFFF then (RHINO_INV_PARAM, k)
      else timer_cmd_send timer (\<lambda>c. c\<lparr>cb_first := first, cb_round := round, cb_num := TIMER_CMD_CHG\<rparr>) k)"

definition krhino_timer_arg_change :: "nat option \<Rightarrow> u32 \<Rightarrow> 'a tkernel_scheme \<Rightarrow> kstat \<times> 'a tkernel_scheme" where
  "krhino_timer_arg_change timer arg k = timer_cmd_send timer (\<lambda>c. c\<lparr>cb_arg := arg, cb_num := TIMER_ARG_CHG\<rparr>) k"

definition krhino_timer_arg_change_auto :: "nat option \<Rightarrow> u32 \<Rightarrow> 'a tkernel_scheme \<Rightarrow> kstat \<times> 'a tkernel_scheme" where
  "krhino_timer_arg_change_auto timer arg k = timer_cmd_send timer (\<lambda>c. c\<lparr>cb_arg := arg, cb_num := TIMER_ARG_CHG_AUTO\<rparr>) k"

text \<open>The result of the start that \<open>auto_run\<close> asks for is ignored.\<close>

definition timer_create :: "nat option \<Rightarrow> string option \<Rightarrow> nat option \<Rightarrow> u64 \<Rightarrow> u64 \<Rightarrow> u32 \<Rightarrow> u8 \<Rightarrow> u8 \<Rightarrow> 'a tkernel_scheme \<Rightarrow>
    kstat \<times> 'a tkernel_scheme" where
  "timer_create timer name cb first round arg auto_run mm_alloc k =
     (case (timer, name, cb) of
        (Some t, Some nm, Some f) \<Rightarrow>
          if first = 0 then (RHINO_INV_PARAM, k)
          else if first \<ge> 0xFFFFFFFF then (RHINO_INV_PARAM, k)
          else if round \<ge> 0xFFFFFFFF then (RHINO_INV_PARAM, k)
          else if g_intrpt_nested_level k > 0 then (RHINO_NOT_CALLED_BY_INTRPT, k)
          else
            let k1 = upd_timer t (\<lambda>c. c\<lparr>tm_name := nm, tm_cb := f, init_count := first, round_ticks := round, tm_remain := 0,
                       tm_match := 0, timer_state := TIMER_DEACTIVE, to_head := False, tm_alloc_flag := mm_alloc,
                       timer_cb_arg := arg, tm_obj_type := RHINO_TIMER_OBJ_TYPE\<rparr>) k
            in (RHINO_SUCCESS, if auto_run > 0 then snd (krhino_timer_start (Some t) k1) else k1)
      | _ \<Rightarrow> (RHINO_NULL_PTR, k))"

definition krhino_timer_create :: "nat option \<Rightarrow> string option \<Rightarrow> nat option \<Rightarrow> u64 \<Rightarrow> u64 \<Rightarrow> u32 \<Rightarrow> u8 \<Rightarrow> 'a tkernel_scheme \<Rightarrow>
    kstat \<times> 'a tkernel_scheme" where
  "krhino_timer_create timer name cb first round arg auto_run k = timer_create timer name cb first round arg auto_run K_OBJ_STATIC_ALLOC k"

text \<open>\<open>mem\<close> is what \<open>krhino_mm_alloc\<close> returned.\<close>

definition krhino_timer_dyn_create :: "bool \<Rightarrow> nat option \<Rightarrow> string option \<Rightarrow> nat option \<Rightarrow> u64 \<Rightarrow> u64 \<Rightarrow> u32 \<Rightarrow> u8 \<Rightarrow> 'a tkernel_scheme \<Rightarrow>
    kstat \<times> nat option \<times> 'a tkernel_scheme" where
  "krhino_timer_dyn_create timer_is_null mem name cb first round arg auto_run k =
     (if timer_is_null then (RHINO_NULL_PTR, None, k)
      else if first \<ge> 0xFFFFFFFF then (RHINO_INV_PARAM, None, k)
      else if round \<ge> 0xFFFFFFFF then (RHINO_INV_PARAM, None, k)
      else case mem of
        None \<Rightarrow> (RHINO_NO_MEM, None, k)
      | Some timer_obj \<Rightarrow>
          (let (ret, k1) = timer_create (Some timer_obj) name cb first round arg auto_run K_OBJ_DYN_ALLOC k
           in if ret \<noteq> RHINO_SUCCESS then (ret, None, k1\<lparr>mm_freed := mm_freed k1 @ [timer_obj]\<rparr>)
              else (ret, Some timer_obj, k1)))"

section \<open>The timer task\<close>

text \<open>
  \<open>timer_cb_proc\<close>: \<open>q\<close> runs over the list while timers are taken off and put back, so its successor is
  the old one for a timer that has been taken off and the new one for a timer that has been put
  back.  \<open>None\<close> is the list head.  The number of timers bounds the rounds; running out of them is a loop
  that does not end.
\<close>

fun next_of :: "nat \<Rightarrow> nat list \<Rightarrow> nat option" where
  "next_of t [] = None"
| "next_of t [x] = None"
| "next_of t (x # y # ys) = (if x = t then Some y else next_of t (y # ys))"

definition timer_delta :: "u64 \<Rightarrow> u64 \<Rightarrow> int" where
  "timer_delta m now = sint m - sint now"

text \<open>The callback of timer \<open>t\<close> and what follows it, with the next value of \<open>q\<close>.\<close>

definition timer_fire :: "nat \<Rightarrow> 'a tkernel_scheme \<Rightarrow> nat option \<times> 'a tkernel_scheme" where
  "timer_fire t k =
     (let k1 = k\<lparr>timer_fired := timer_fired k @ [(t, tm_cb (timers k t), timer_cb_arg (timers k t))]\<rparr>;
          succ = next_of t (g_timer_head k1);
          k2 = timer_list_rm t k1
      in if round_ticks (timers k2 t) > 0 then
           let k3 = upd_timer t (\<lambda>c. c\<lparr>tm_remain := round_ticks c, tm_match := g_timer_count k2 + round_ticks c, to_head := True\<rparr>) k2;
               k4 = timer_list_pri_insert t k3
           in (next_of t (g_timer_head k4), k4)
         else (succ, upd_timer t (\<lambda>c. c\<lparr>timer_state := TIMER_DEACTIVE\<rparr>) k2))"

fun timer_cb_walk :: "nat \<Rightarrow> nat option \<Rightarrow> 'a tkernel_scheme \<Rightarrow> 'a tkernel_scheme" where
  "timer_cb_walk n None k = k"
| "timer_cb_walk 0 (Some t) k = k_crash k"
| "timer_cb_walk (Suc n) (Some t) k =
     (if timer_delta (tm_match (timers k t)) (g_timer_count k) \<le> 0
      then case timer_fire t k of (q, k1) \<Rightarrow> timer_cb_walk n q k1
      else k)"

definition timer_cb_proc :: "'a tkernel_scheme \<Rightarrow> 'a tkernel_scheme" where
  "timer_cb_proc k =
     timer_cb_walk (Suc (length (g_timer_head k))) (case g_timer_head k of [] \<Rightarrow> None | t # _ \<Rightarrow> Some t) k"

text \<open>Executing a command for timer \<open>t\<close>.\<close>

definition cmd_proc :: "nat \<Rightarrow> k_timer_queue_cb \<Rightarrow> timer_cmd \<Rightarrow> 'a tkernel_scheme \<Rightarrow> 'a tkernel_scheme" where
  "cmd_proc t cb cmd k =
     (case cmd of
        TIMER_CMD_START \<Rightarrow>
          if tm_obj_type (timers k t) \<noteq> RHINO_TIMER_OBJ_TYPE then k
          else if timer_state (timers k t) = TIMER_ACTIVE then k
          else
            let k1 = upd_timer t (\<lambda>c. c\<lparr>tm_match := g_timer_count k + init_count c, tm_remain := init_count c, to_head := True\<rparr>) k
            in upd_timer t (\<lambda>c. c\<lparr>timer_state := TIMER_ACTIVE\<rparr>) (timer_list_pri_insert t k1)
      | TIMER_CMD_STOP \<Rightarrow>
          if tm_obj_type (timers k t) \<noteq> RHINO_TIMER_OBJ_TYPE then k
          else if timer_state (timers k t) = TIMER_DEACTIVE then k
          else upd_timer t (\<lambda>c. c\<lparr>timer_state := TIMER_DEACTIVE\<rparr>) (timer_list_rm t k)
      | TIMER_CMD_CHG \<Rightarrow>
          if cb_first cb = 0 then k
          else if tm_obj_type (timers k t) \<noteq> RHINO_TIMER_OBJ_TYPE then k
          else if timer_state (timers k t) \<noteq> TIMER_DEACTIVE then k
          else upd_timer t (\<lambda>c. c\<lparr>init_count := cb_first cb, round_ticks := cb_round cb\<rparr>) k
      | TIMER_ARG_CHG \<Rightarrow>
          if tm_obj_type (timers k t) \<noteq> RHINO_TIMER_OBJ_TYPE then k
          else if timer_state (timers k t) \<noteq> TIMER_DEACTIVE then k
          else upd_timer t (\<lambda>c. c\<lparr>timer_cb_arg := cb_arg cb\<rparr>) k
      | TIMER_CMD_DEL \<Rightarrow>
          if tm_obj_type (timers k t) \<noteq> RHINO_TIMER_OBJ_TYPE then k
          else if timer_state (timers k t) \<noteq> TIMER_DEACTIVE then k
          else if tm_alloc_flag (timers k t) \<noteq> K_OBJ_STATIC_ALLOC then k
          else upd_timer t (\<lambda>c. c\<lparr>tm_obj_type := RHINO_OBJ_TYPE_NONE\<rparr>) k
      | TIMER_CMD_DYN_DEL \<Rightarrow>
          if tm_obj_type (timers k t) \<noteq> RHINO_TIMER_OBJ_TYPE then k
          else if timer_state (timers k t) \<noteq> TIMER_DEACTIVE then k
          else if tm_alloc_flag (timers k t) \<noteq> K_OBJ_DYN_ALLOC then k
          else let k1 = upd_timer t (\<lambda>c. c\<lparr>tm_obj_type := RHINO_OBJ_TYPE_NONE\<rparr>) k in k1\<lparr>mm_freed := mm_freed k1 @ [t]\<rparr>
      | _ \<Rightarrow> k_err_proc RHINO_SYS_FATAL_ERR k)"

definition timer_cmd_proc :: "nat \<Rightarrow> k_timer_queue_cb \<Rightarrow> 'a tkernel_scheme \<Rightarrow> 'a tkernel_scheme" where
  "timer_cmd_proc t cb k =
     (if cb_num cb = TIMER_ARG_CHG_AUTO
      then cmd_proc t cb TIMER_CMD_START (cmd_proc t cb TIMER_ARG_CHG (cmd_proc t cb TIMER_CMD_STOP k))
      else cmd_proc t cb (cb_num cb) k)"

text \<open>Reading the command at address \<open>m\<close>, giving its block back and executing it; a null message is a null dereference.\<close>

definition timer_exec :: "nat \<Rightarrow> 'a tkernel_scheme \<Rightarrow> 'a tkernel_scheme" where
  "timer_exec m k =
     (if m = 0 then k_crash k
      else
        let t = timer_mem k m; cb = timer_cbs k m;
            (_, pool, mem) = krhino_mblk_free (Some (g_timer_pool k)) m (timer_mem k)
        in timer_cmd_proc t cb (k\<lparr>g_timer_pool := the pool, timer_mem := mem\<rparr>))"

text \<open>After the receive at the top of the outer loop; the flag tells whether the inner loop is entered.\<close>

definition timer_task_outer :: "kstat \<Rightarrow> nat \<Rightarrow> 'a tkernel_scheme \<Rightarrow> bool \<times> 'a tkernel_scheme" where
  "timer_task_outer err m k =
     (let tick_end = krhino_sys_tick_get k
      in if err = RHINO_BLK_TIMEOUT then (False, k\<lparr>g_timer_count := tick_end\<rparr>)
         else
           let k1 = (if err = RHINO_SUCCESS then k\<lparr>g_timer_count := tick_end\<rparr> else k_err_proc RHINO_SYS_FATAL_ERR k)
           in (True, timer_exec m k1))"

text \<open>
  The head of the inner loop: leave it when no timer is active, wait for a command at most until the
  first timer is due, or run the callbacks.
\<close>

datatype (plugins only: code size) timer_act = Timer_leave | Timer_recv u32 | Timer_again

definition timer_task_inner :: "'a tkernel_scheme \<Rightarrow> timer_act \<times> 'a tkernel_scheme" where
  "timer_task_inner k =
     (case g_timer_head k of
        [] \<Rightarrow> (Timer_leave, k)
      | t # _ \<Rightarrow>
          let tick_start = krhino_sys_tick_get k;
              delta = timer_delta (tm_match (timers k t)) tick_start
          in if delta > 0 then (Timer_recv (of_int delta), k)
             else (Timer_again, timer_cb_proc (k\<lparr>g_timer_count := tick_start\<rparr>)))"

text \<open>After the receive in the inner loop.\<close>

definition timer_task_woken :: "kstat \<Rightarrow> nat \<Rightarrow> 'a tkernel_scheme \<Rightarrow> 'a tkernel_scheme" where
  "timer_task_woken err m k =
     (let tick_end = krhino_sys_tick_get k
      in timer_cb_proc
           (if err = RHINO_BLK_TIMEOUT then k\<lparr>g_timer_count := tick_end\<rparr>
            else if err = RHINO_SUCCESS then timer_exec m (k\<lparr>g_timer_count := tick_end\<rparr>)
            else k_err_proc RHINO_SYS_FATAL_ERR k))"

text \<open>
  \<open>ktimer_init\<close> with the addresses of the globals \<open>g_timer_queue\<close>, \<open>g_timer_msg\<close>, \<open>timer_queue_cb\<close> (40 blocks of 32
  bytes) and \<open>g_timer_task\<close>.
\<close>

definition ktimer_init :: "(u32 list \<Rightarrow> u32 list) \<Rightarrow> oid \<Rightarrow> nat \<Rightarrow> nat \<Rightarrow> tid \<Rightarrow> 'a tkernel_scheme \<Rightarrow> 'a tkernel_scheme" where
  "ktimer_init cpu_task_stack_init queue msgs cbs task k =
     (let k1 = k\<lparr>g_timer_head := [], g_timer_queue := queue\<rparr>;
          k2 = snd (krhino_queue_create (Some queue) (Some ''timer_queue'') (Some (msgs, replicate 160 0)) 40 k1)
      in case krhino_mblk_pool_init (Some (g_timer_pool k2)) (Some ''timer_blk_pool'') cbs 32 1280 (timer_mem k2) of
           None \<Rightarrow> k_crash k2
         | Some (_, pool, mem) \<Rightarrow>
             snd (krhino_task_create cpu_task_stack_init (Some task) (Some ''timer_task'') 5 False 300 False 1
               (k2\<lparr>g_timer_pool := the pool, timer_mem := mem\<rparr>)))"

section \<open>The list holds the active timers\<close>

lemma upd_timer_frame [simp]:
  "timers (upd_timer t f k) = (timers k)(t := f (timers k t))" "g_timer_head (upd_timer t f k) = g_timer_head k"
  "g_timer_count (upd_timer t f k) = g_timer_count k" "timer_fired (upd_timer t f k) = timer_fired k" "k_fault (upd_timer t f k) = k_fault k"
  "g_sys_time_tick (upd_timer t f k) = g_sys_time_tick k"
  by (simp_all add: upd_timer_def)

lemma timer_list_frame [simp]:
  "timers (timer_list_pri_insert t k) = timers k" "g_timer_count (timer_list_pri_insert t k) = g_timer_count k"
  "timer_fired (timer_list_pri_insert t k) = timer_fired k" "k_fault (timer_list_pri_insert t k) = k_fault k"
  "g_sys_time_tick (timer_list_pri_insert t k) = g_sys_time_tick k"
  "g_timer_count (timer_list_rm t k) = g_timer_count k" "timer_fired (timer_list_rm t k) = timer_fired k" "k_fault (timer_list_rm t k) = k_fault k"
  "g_sys_time_tick (timer_list_rm t k) = g_sys_time_tick k"
  by (simp_all add: timer_list_pri_insert_def timer_list_rm_def)

definition timer_inv :: "'a tkernel_scheme \<Rightarrow> bool" where
  "timer_inv k \<longleftrightarrow> distinct (g_timer_head k) \<and> (\<forall>t. t \<in> set (g_timer_head k) \<longleftrightarrow> to_head (timers k t)) \<and>
     (\<forall>t. to_head (timers k t) \<longrightarrow> tm_obj_type (timers k t) = RHINO_TIMER_OBJ_TYPE) \<and>
     (\<forall>t. tm_obj_type (timers k t) = RHINO_TIMER_OBJ_TYPE \<longrightarrow> (to_head (timers k t) \<longleftrightarrow> timer_state (timers k t) = TIMER_ACTIVE))"

lemma distinct_ins_before: "distinct (ins_before key v x ys) \<longleftrightarrow> x \<notin> set ys \<and> distinct ys"
  by (induction ys) auto

lemma timer_stop_inv:
  assumes "timer_inv k"
  shows "timer_inv (cmd_proc t cb TIMER_CMD_STOP k)"
  using assms by (auto simp: cmd_proc_def timer_inv_def timer_list_rm_def)

lemma timer_start_inv:
  assumes "timer_inv k"
  shows "timer_inv (cmd_proc t cb TIMER_CMD_START k)"
proof (cases "tm_obj_type (timers k t) = RHINO_TIMER_OBJ_TYPE \<and> timer_state (timers k t) \<noteq> TIMER_ACTIVE")
  case True
  then have "\<not> to_head (timers k t)" "t \<notin> set (g_timer_head k)" using assms by (auto simp: timer_inv_def)
  then show ?thesis
    using True assms by (auto simp: cmd_proc_def timer_inv_def timer_list_pri_insert_def Let_def distinct_ins_before)
qed (use assms in \<open>auto simp: cmd_proc_def\<close>)

lemma timer_cmd_inv:
  assumes "timer_inv k"
  shows "timer_inv (timer_cmd_proc t cb k)"
proof -
  have other: "timer_inv (cmd_proc t cb cmd j)" if "timer_inv j" "cmd \<noteq> TIMER_CMD_START" "cmd \<noteq> TIMER_CMD_STOP" for cmd and j :: "'a tkernel_scheme"
    using that by (cases cmd) (auto simp: cmd_proc_def timer_inv_def Let_def)
  then have "timer_inv (cmd_proc t cb cmd j)" if "timer_inv j" for cmd and j :: "'a tkernel_scheme"
    using that timer_start_inv timer_stop_inv by (cases cmd) blast+
  then show ?thesis using assms by (simp add: timer_cmd_proc_def)
qed

lemma next_of_mid: "t \<notin> set xs \<Longrightarrow> next_of t (xs @ t # ys) = (case ys of [] \<Rightarrow> None | u # _ \<Rightarrow> Some u)"
  by (induction t xs rule: next_of.induct) (auto split: list.splits)

lemma next_of_in: "next_of t ts = Some u \<Longrightarrow> distinct ts \<Longrightarrow> u \<in> set ts \<and> u \<noteq> t"
  by (induction t ts rule: next_of.induct) (auto split: if_splits)

text \<open>One callback keeps the invariant and the loop stays inside the list.\<close>

lemma timer_fire_inv:
  assumes "timer_inv k" and "t \<in> set (g_timer_head k)"
  shows "timer_inv (snd (timer_fire t k))" and "fst (timer_fire t k) = Some u \<Longrightarrow> u \<in> set (g_timer_head (snd (timer_fire t k)))"
proof -
  have t: "to_head (timers k t)" "distinct (g_timer_head k)" using assms by (simp_all add: timer_inv_def)
  show "timer_inv (snd (timer_fire t k))"
    using assms t by (auto simp: timer_fire_def timer_inv_def timer_list_rm_def timer_list_pri_insert_def Let_def distinct_ins_before)
  assume f: "fst (timer_fire t k) = Some u"
  show "u \<in> set (g_timer_head (snd (timer_fire t k)))"
  proof (cases "round_ticks (timers k t) > 0")
    case True
    then show ?thesis
      using f t next_of_in [of t "g_timer_head (snd (timer_fire t k))" u]
      by (auto simp: timer_fire_def timer_list_rm_def timer_list_pri_insert_def Let_def distinct_ins_before)
  next
    case False
    then show ?thesis
      using f t next_of_in [of t "g_timer_head k" u] by (simp add: timer_fire_def timer_list_rm_def Let_def)
  qed
qed

lemma timer_walk_inv: "timer_inv k \<Longrightarrow> (\<And>t. q = Some t \<Longrightarrow> t \<in> set (g_timer_head k)) \<Longrightarrow> timer_inv (timer_cb_walk n q k)"
proof (induction n q k rule: timer_cb_walk.induct)
  case (3 n t k)
  obtain q k1 where f: "timer_fire t k = (q, k1)" by fastforce
  have t: "t \<in> set (g_timer_head k)" using "3.prems"(2) by simp
  show ?case
  proof (cases "timer_delta (tm_match (timers k t)) (g_timer_count k) \<le> 0")
    case True
    have "timer_inv (timer_cb_walk n q k1)"
      using "3.IH" [OF True f [symmetric]] timer_fire_inv [OF "3.prems"(1) t] f by simp
    then show ?thesis using True f by simp
  qed (use "3.prems" in simp)
qed (simp_all add: timer_inv_def)

lemma timer_cb_proc_inv: "timer_inv k \<Longrightarrow> timer_inv (timer_cb_proc k)"
  unfolding timer_cb_proc_def by (rule timer_walk_inv) (auto split: list.splits)

section \<open>Firing\<close>

text \<open>
  A timer task that is not late: the timers \<open>D\<close> are due now, the timers \<open>R\<close> later, in this order.  The
  bounds keep the signed and unsigned readings of the time apart from overflow.
\<close>

definition prompt :: "'a tkernel_scheme \<Rightarrow> nat list \<Rightarrow> nat list \<Rightarrow> bool" where
  "prompt k D R \<longleftrightarrow> g_timer_head k = D @ R \<and> distinct (D @ R) \<and> unat (g_timer_count k) < 2 ^ 61 \<and>
     (\<forall>t \<in> set (D @ R). to_head (timers k t) \<and> unat (round_ticks (timers k t)) < 2 ^ 32) \<and>
     (\<forall>t \<in> set D. tm_match (timers k t) = g_timer_count k) \<and>
     (\<forall>t \<in> set R. unat (g_timer_count k) < unat (tm_match (timers k t)) \<and> unat (tm_match (timers k t)) < 2 ^ 62) \<and>
     sorted (map (unat \<circ> tm_match \<circ> timers k) R)"

lemma timer_delta_nat:
  assumes "unat m < 2 ^ 63" and "unat n < 2 ^ 63"
  shows "timer_delta m n = int (unat m) - int (unat n)"
proof -
  have "sint x = int (unat x)" if "unat x < 2 ^ 63" for x :: u64
  proof -
    have "uint x < 2 ^ 63" using that by (metis of_nat_less_iff of_nat_numeral of_nat_power uint_nat)
    then have "signed_take_bit 63 (uint x) = uint x" by (intro signed_take_bit_int_eq_self) (simp_all add: order_trans [OF _ unsigned_greater_eq])
    then show ?thesis by (simp add: sint_uint)
  qed
  then show ?thesis using assms by (simp add: timer_delta_def)
qed

lemma timer_delta_pos:
  assumes "unat n < unat m" and "unat m < 2 ^ 62"
  shows "0 < timer_delta m n"
proof -
  have "timer_delta m n = int (unat m) - int (unat n)" by (rule timer_delta_nat) (use assms in simp_all)
  moreover have "int (unat n) < int (unat m)" using assms(1) by (simp only: of_nat_less_iff)
  ultimately show ?thesis by linarith
qed

lemma ins_before_append: "\<forall>y \<in> set xs. key y \<le> v \<Longrightarrow> ins_before key v x (xs @ ys) = xs @ ins_before key v x ys"
  by (induction xs) (auto simp: not_less)

lemma ins_before_cong: "\<forall>y \<in> set ys. key y = key' y \<Longrightarrow> ins_before key v x ys = ins_before key' v x ys"
  by (induction ys) auto

lemma sorted_split:
  assumes "sorted (map f R)" and "\<And>r. r \<in> set R \<Longrightarrow> P r \<longleftrightarrow> f r \<le> v"
  obtains R1 R2 where "R = R1 @ R2" "takeWhile P R = R1" "dropWhile P R = R2" "\<forall>r \<in> set R1. f r \<le> v" "\<forall>r \<in> set R2. v < f r"
proof -
  have "\<forall>r \<in> set (takeWhile P R). f r \<le> v" using assms(2) by (auto dest: set_takeWhileD)
  moreover have "\<forall>r \<in> set (dropWhile P R). v < f r" using assms by (induction R) (force simp: not_le)+
  ultimately show thesis using that [of "takeWhile P R" "dropWhile P R"] by simp
qed

lemma timer_fire_fields:
  assumes "to_head (timers k t)"
  shows "timer_fired (snd (timer_fire t k)) = timer_fired k @ [(t, tm_cb (timers k t), timer_cb_arg (timers k t))]"
    and "g_timer_count (snd (timer_fire t k)) = g_timer_count k" and "k_fault (snd (timer_fire t k)) = k_fault k"
    and "g_sys_time_tick (snd (timer_fire t k)) = g_sys_time_tick k"
    and "timers (snd (timer_fire t k)) = (timers k)(t :=
      if round_ticks (timers k t) > 0
      then (timers k t)\<lparr>tm_remain := round_ticks (timers k t), tm_match := g_timer_count k + round_ticks (timers k t), to_head := True\<rparr>
      else (timers k t)\<lparr>to_head := False, timer_state := TIMER_DEACTIVE\<rparr>)"
  using assms by (auto simp: timer_fire_def timer_list_rm_def Let_def fun_eq_iff)

text \<open>A one-shot timer leaves the list; a periodic one is put back at its new place, behind everything that is due now.\<close>

lemma timer_fire_once:
  assumes "prompt k (t # D) R" and "round_ticks (timers k t) = 0"
  shows "prompt (snd (timer_fire t k)) D R" and "fst (timer_fire t k) = (case D @ R of [] \<Rightarrow> None | u # _ \<Rightarrow> Some u)"
proof -
  have p: "to_head (timers k t)" "g_timer_head k = t # D @ R" "t \<notin> set (D @ R)" using assms(1) by (auto simp: prompt_def)
  note f = timer_fire_fields [OF p(1)]
  have "g_timer_head (snd (timer_fire t k)) = D @ R" "fst (timer_fire t k) = next_of t (g_timer_head k)"
    using p assms(2) by (simp_all add: timer_fire_def timer_list_rm_def Let_def)
  moreover have "map (unat \<circ> tm_match \<circ> timers (snd (timer_fire t k))) R = map (unat \<circ> tm_match \<circ> timers k) R"
    using p(3) f(5) by auto
  ultimately show "prompt (snd (timer_fire t k)) D R" "fst (timer_fire t k) = (case D @ R of [] \<Rightarrow> None | u # _ \<Rightarrow> Some u)"
    using assms p(2,3) next_of_mid [of t "[]" "D @ R"] f by (auto simp: prompt_def split: list.split)
qed

lemma timer_fire_again:
  assumes "prompt k (t # D) R" and "round_ticks (timers k t) > 0"
  obtains R1 R2 where "R = R1 @ R2" "prompt (snd (timer_fire t k)) D (R1 @ t # R2)"
    "fst (timer_fire t k) = (case R2 of [] \<Rightarrow> None | u # _ \<Rightarrow> Some u)"
proof -
  let ?c = "g_timer_count k" and ?r = "round_ticks (timers k t)" and ?k = "snd (timer_fire t k)"
  have p: "to_head (timers k t)" "g_timer_head k = t # D @ R" "t \<notin> set (D @ R)" "unat ?c < 2 ^ 61" "unat ?r < 2 ^ 32"
    "\<And>u. u \<in> set D \<Longrightarrow> tm_match (timers k u) = ?c"
    "\<And>u. u \<in> set R \<Longrightarrow> unat ?c < unat (tm_match (timers k u)) \<and> unat (tm_match (timers k u)) < 2 ^ 62"
    "sorted (map (unat \<circ> tm_match \<circ> timers k) R)" "distinct (D @ R)" using assms(1) by (auto simp: prompt_def)
  note f = timer_fire_fields [OF p(1)]
  have sum: "unat (?c + ?r) = unat ?c + unat ?r" using p(4,5) by (simp add: unat_word_ariths)
  have left: "tm_match (timers k u) - ?c \<le> ?r \<longleftrightarrow> (unat \<circ> tm_match \<circ> timers k) u \<le> unat ?c + unat ?r" if "u \<in> set R" for u
  proof -
    have "unat (tm_match (timers k u) - ?c) = unat (tm_match (timers k u)) - unat ?c" using p(7) [OF that] by (simp add: unat_sub_if')
    then show ?thesis using p(7) [OF that] by (auto simp: word_le_nat_alt)
  qed
  obtain R1 R2 where R: "R = R1 @ R2" "takeWhile (\<lambda>u. tm_match (timers k u) - ?c \<le> ?r) R = R1"
    "dropWhile (\<lambda>u. tm_match (timers k u) - ?c \<le> ?r) R = R2"
    "\<forall>u \<in> set R1. (unat \<circ> tm_match \<circ> timers k) u \<le> unat ?c + unat ?r" "\<forall>u \<in> set R2. unat ?c + unat ?r < (unat \<circ> tm_match \<circ> timers k) u"
    by (rule sorted_split [OF p(8) left])
  have "g_timer_head ?k = ins_before (\<lambda>u. tm_match (timers k u) - ?c) ?r t (D @ R)"
    using p(1,2,3) assms(2)
    by (auto simp: timer_fire_def timer_list_rm_def timer_list_pri_insert_def timer_left_def Let_def intro!: ins_before_cong)
  also have "\<dots> = D @ R1 @ t # R2" using p(6) R(2,3) by (simp add: ins_before_append ins_before_split)
  finally have head: "g_timer_head ?k = D @ R1 @ t # R2" .
  moreover have "fst (timer_fire t k) = next_of t (g_timer_head ?k)" using assms(2) p(1) by (simp add: timer_fire_def timer_list_rm_def Let_def)
  ultimately have nx: "fst (timer_fire t k) = (case R2 of [] \<Rightarrow> None | u # _ \<Rightarrow> Some u)" using next_of_mid [of t "D @ R1" R2] p(3) R(1) by simp
  define g where "g = unat \<circ> tm_match \<circ> timers ?k"
  have gm: "map g R1 = map (unat \<circ> tm_match \<circ> timers k) R1" "map g R2 = map (unat \<circ> tm_match \<circ> timers k) R2" "g t = unat ?c + unat ?r"
    using p(3) R(1) f(5) assms(2) sum by (auto simp: g_def)
  have "sorted (map g R1)" "sorted (map g R2)" using p(8) R(1) unfolding gm by (simp_all add: sorted_append)
  moreover have "\<forall>u \<in> set R1. g u \<le> g t" "\<forall>u \<in> set R2. g t \<le> g u" using gm R(4,5) by (auto simp: less_imp_le)
  ultimately have "sorted (map g (R1 @ t # R2))" by (fastforce simp: sorted_append)
  then have "prompt ?k D (R1 @ t # R2)"
    using assms p head R(1) f sum by (auto simp: prompt_def word_less_nat_alt g_def)
  then show thesis using that R(1) nx by blast
qed

text \<open>What firing does to a timer, and what is recorded.\<close>

definition after_fire :: "u64 \<Rightarrow> ktimer_t \<Rightarrow> ktimer_t" where
  "after_fire now c =
     (if round_ticks c > 0 then c\<lparr>tm_remain := round_ticks c, tm_match := now + round_ticks c, to_head := True\<rparr>
      else c\<lparr>to_head := False, timer_state := TIMER_DEACTIVE\<rparr>)"

definition call_of :: "'a tkernel_scheme \<Rightarrow> nat \<Rightarrow> nat \<times> nat \<times> u32" where
  "call_of k t = (t, tm_cb (timers k t), timer_cb_arg (timers k t))"

definition fires :: "'a tkernel_scheme \<Rightarrow> nat list \<Rightarrow> nat list \<Rightarrow> nat list \<Rightarrow> 'a tkernel_scheme \<Rightarrow> bool" where
  "fires k D R R' k' \<longleftrightarrow> timer_fired k' = timer_fired k @ map (call_of k) D \<and>
     (\<forall>u. timers k' u = (if u \<in> set D then after_fire (g_timer_count k) (timers k u) else timers k u)) \<and>
     set R' = set R \<union> {u \<in> set D. round_ticks (timers k u) > 0} \<and> k_fault k' = k_fault k \<and> g_timer_count k' = g_timer_count k \<and>
     g_sys_time_tick k' = g_sys_time_tick k"

lemma fires_none [simp]: "fires k [] R R k"
  by (simp add: fires_def)

lemma fires_trans:
  assumes "fires k D1 R R1 k1" and "fires k1 D2 R1 R2 k2" and "set D1 \<inter> set D2 = {}"
  shows "fires k (D1 @ D2) R R2 k2"
proof -
  have eq: "timers k1 u = timers k u" if "u \<in> set D2" for u using assms(1,3) that by (auto simp: fires_def)
  then have "map (call_of k1) D2 = map (call_of k) D2" by (simp add: call_of_def)
  moreover have "{u \<in> set D2. round_ticks (timers k1 u) > 0} = {u \<in> set D2. round_ticks (timers k u) > 0}" using eq by auto
  ultimately show ?thesis using assms by (auto simp: fires_def)
qed

lemma timer_fire_fires:
  assumes "prompt k (t # D) R" and "prompt (snd (timer_fire t k)) D R'"
    and "set R' = set R \<union> (if round_ticks (timers k t) > 0 then {t} else {})"
  shows "fires k [t] R R' (snd (timer_fire t k))"
proof -
  have "to_head (timers k t)" using assms(1) by (simp add: prompt_def)
  note f = timer_fire_fields [OF this]
  show ?thesis using f assms(3) by (auto simp: fires_def call_of_def after_fire_def)
qed

text \<open>The walk stops at a timer that is not due.\<close>

lemma timer_walk_stops:
  assumes "prompt k D R" and "R2 = [] \<or> hd R2 \<in> set R"
  shows "timer_cb_walk (Suc n) (case R2 of [] \<Rightarrow> None | u # _ \<Rightarrow> Some u) k = k"
proof (cases R2)
  case (Cons r rs)
  then have "unat (g_timer_count k) < unat (tm_match (timers k r))" "unat (tm_match (timers k r)) < 2 ^ 62"
    using assms by (auto simp: prompt_def)
  then show ?thesis using Cons timer_delta_pos [of "g_timer_count k" "tm_match (timers k r)"] by simp
qed simp

lemma timer_walk_prompt:
  "prompt k D R \<Longrightarrow> length D < n \<Longrightarrow> \<exists>D1 D2 R'. D = D1 @ D2 \<and> (D \<noteq> [] \<longrightarrow> D1 \<noteq> []) \<and>
     (let k' = timer_cb_walk n (case D @ R of [] \<Rightarrow> None | u # _ \<Rightarrow> Some u) k in prompt k' D2 R' \<and> fires k D1 R R' k')"
proof (induction D arbitrary: k n)
  case Nil
  then obtain m where "n = Suc m" by (cases n) auto
  then show ?case using Nil timer_walk_stops [OF Nil.prems(1), of R m] by (cases R) (auto simp: Let_def intro!: exI [of _ R])
next
  case (Cons t D)
  obtain m where n: "n = Suc m" "length D < m" using Cons.prems(2) by (cases n) auto
  have due: "timer_delta (tm_match (timers k t)) (g_timer_count k) \<le> 0" using Cons.prems(1) by (simp add: prompt_def timer_delta_def)
  have dist: "t \<notin> set D" using Cons.prems(1) by (simp add: prompt_def)
  let ?k = "snd (timer_fire t k)"
  show ?case
  proof (cases "round_ticks (timers k t) > 0")
    case False
    then have r: "round_ticks (timers k t) = 0" by (simp add: word_gt_0)
    note o = timer_fire_once [OF Cons.prems(1) r]
    obtain D1 D2 R' where D: "D = D1 @ D2" "prompt (timer_cb_walk m (fst (timer_fire t k)) ?k) D2 R'"
      "fires ?k D1 R R' (timer_cb_walk m (fst (timer_fire t k)) ?k)"
      using Cons.IH [OF o(1) n(2)] o(2) by (auto simp: Let_def)
    have "fires k [t] R R ?k" by (rule timer_fire_fires [OF Cons.prems(1) o(1)]) (simp add: r)
    then have "fires k (t # D1) R R' (timer_cb_walk m (fst (timer_fire t k)) ?k)" using fires_trans [OF _ D(3), of k "[t]"] dist D(1) by simp
    then show ?thesis using D(1,2) n(1) due by (intro exI [of _ "t # D1"] exI [of _ D2] exI [of _ R']) (simp add: Let_def split_beta)
  next
    case True
    obtain R1 R2 where R: "R = R1 @ R2" "prompt ?k D (R1 @ t # R2)" "fst (timer_fire t k) = (case R2 of [] \<Rightarrow> None | u # _ \<Rightarrow> Some u)"
      by (rule timer_fire_again [OF Cons.prems(1) True])
    obtain l where l: "m = Suc l" using n(2) by (cases m) auto
    have "timer_cb_walk m (fst (timer_fire t k)) ?k = ?k" using timer_walk_stops [OF R(2), of R2 l] R(3) l by (cases R2) auto
    moreover have "fires k [t] R (R1 @ t # R2) ?k" by (rule timer_fire_fires [OF Cons.prems(1) R(2)]) (use R(1) True in auto)
    ultimately show ?thesis
      using n(1) due R(2) by (intro exI [of _ "[t]"] exI [of _ D] exI [of _ "R1 @ t # R2"]) (simp add: Let_def split_beta)
  qed
qed

lemma timer_cb_proc_prompt:
  assumes "prompt k D R"
  obtains D1 D2 R' where "D = D1 @ D2" "D \<noteq> [] \<Longrightarrow> D1 \<noteq> []" "prompt (timer_cb_proc k) D2 R'" "fires k D1 R R' (timer_cb_proc k)"
proof -
  have "g_timer_head k = D @ R" using assms by (simp add: prompt_def)
  then have eq: "timer_cb_proc k = timer_cb_walk (Suc (length (D @ R))) (case D @ R of [] \<Rightarrow> None | u # _ \<Rightarrow> Some u) k"
    by (simp add: timer_cb_proc_def)
  show thesis using timer_walk_prompt [OF assms, of "Suc (length (D @ R))"] that unfolding eq Let_def by fastforce
qed

text \<open>The inner loop at one tick: each round fires at least one of the timers that are due, until none is left.\<close>

lemma timer_rounds:
  "prompt k D R \<Longrightarrow> g_timer_count k = krhino_sys_tick_get k \<Longrightarrow>
     \<exists>R'. prompt (((\<lambda>k. snd (timer_task_inner k)) ^^ length D) k) [] R' \<and> fires k D R R' (((\<lambda>k. snd (timer_task_inner k)) ^^ length D) k)"
proof (induction "length D" arbitrary: k D R rule: less_induct)
  case less
  let ?f = "\<lambda>k. snd (timer_task_inner k)"
  show ?case
  proof (cases D)
    case (Cons t D')
    have p: "g_timer_head k = t # D' @ R" "tm_match (timers k t) = g_timer_count k" using less.prems(1) Cons by (simp_all add: prompt_def)
    have same: "k\<lparr>g_timer_count := krhino_sys_tick_get k\<rparr> = k" unfolding less.prems(2) [symmetric] by simp
    have f: "?f k = timer_cb_proc k" using p less.prems(2) by (simp add: timer_task_inner_def timer_delta_def same)
    obtain D1 D2 R1 where D: "D = D1 @ D2" "D1 \<noteq> []" "prompt (timer_cb_proc k) D2 R1" "fires k D1 R R1 (timer_cb_proc k)"
      using timer_cb_proc_prompt [OF less.prems(1)] Cons by (metis list.distinct(1))
    have len: "length D2 < length D" using D(1,2) by simp
    have cnt: "g_timer_count (timer_cb_proc k) = krhino_sys_tick_get (timer_cb_proc k)"
      using D(4) less.prems(2) by (simp add: fires_def krhino_sys_tick_get_def)
    obtain R2 where R2: "prompt ((?f ^^ length D2) (timer_cb_proc k)) [] R2" "fires (timer_cb_proc k) D2 R1 R2 ((?f ^^ length D2) (timer_cb_proc k))"
      using less.hyps [OF len D(3) cnt] by blast
    let ?k = "(?f ^^ length D2) (timer_cb_proc k)"
    have stop: "?f ?k = ?k"
    proof (cases R2)
      case (Cons r rs)
      have "g_timer_count ?k = krhino_sys_tick_get ?k" using R2(2) cnt by (simp add: fires_def krhino_sys_tick_get_def)
      moreover have "timer_delta (tm_match (timers ?k r)) (g_timer_count ?k) > 0"
        using R2(1) Cons timer_delta_pos [of "g_timer_count ?k" "tm_match (timers ?k r)"] by (simp add: prompt_def)
      ultimately show ?thesis using R2(1) Cons by (simp add: timer_task_inner_def prompt_def)
    qed (use R2(1) in \<open>simp add: timer_task_inner_def prompt_def\<close>)
    have fix_k: "(?f ^^ i) ?k = ?k" for i by (induction i) (simp_all add: stop)
    have "length D = (length D1 - 1) + (length D2 + 1)" using D(1,2) by (cases D1) auto
    then have "(?f ^^ length D) k = (?f ^^ (length D1 - 1)) ((?f ^^ (length D2 + 1)) k)" by (simp only: funpow_add comp_apply)
    also have "(?f ^^ (length D2 + 1)) k = ?k" by (simp only: funpow_Suc_right Suc_eq_plus1 [symmetric] comp_apply f)
    finally have "(?f ^^ length D) k = ?k" using fix_k by simp
    moreover have "fires k D R R2 ?k" using fires_trans [OF D(4) R2(2)] D(1) less.prems(1) by (auto simp: prompt_def)
    ultimately show ?thesis using R2(1) by metis
  qed (use less.prems in auto)
qed

section \<open>Commands\<close>

lemma mblk_first:
  assumes "mblk_ok p mem (f # fs) rest"
  shows "krhino_mblk_alloc (Some p) False mem = (RHINO_SUCCESS, Some f, Some (p\<lparr>mb_avail_list := mem f, mb_blk_avail := mb_blk_avail p - 1\<rparr>))"
    and "f \<noteq> 0" "mb_avail_list p = f" "mb_blk_avail p > 0" "mb_is_pool p"
    and "mblk_ok (p\<lparr>mb_avail_list := mem f, mb_blk_avail := mb_blk_avail p - 1\<rparr>) (mem(f := x)) fs rest"
  using assms by (auto simp: mblk_ok_def krhino_mblk_alloc_def)

lemma timer_more:
  assumes "qkernel.more k' = qkernel.more k"
  shows "timers k' = timers k" "g_timer_head k' = g_timer_head k" "g_timer_queue k' = g_timer_queue k" "g_timer_pool k' = g_timer_pool k"
    "timer_mem k' = timer_mem k" "timer_cbs k' = timer_cbs k" "g_timer_count k' = g_timer_count k" "timer_fired k' = timer_fired k"
  using assms by (cases k; cases k'; simp)+

lemma msg_send_more: "qkernel.more (snd (msg_send q m opt all k)) = qkernel.more k"
proof -
  have cong: "qkernel.more k' = qkernel.more k" if "kernel.more k' = kernel.more k" for k' :: "'a qkernel_scheme"
    using that by (cases k; cases k'; simp)
  have one: "kernel.more (task_msg_recv m t j) = kernel.more j" for t and j :: "'b kernel_scheme"
    by (simp add: task_msg_recv_def)
  have "qkernel.more (core_sched (for_waiters (task_msg_recv m) b k)) = qkernel.more k" "qkernel.more (core_sched (task_msg_recv m t k)) = qkernel.more k"
    "qkernel.more (upd_queue b f k) = qkernel.more k" for b t f
    by (rule cong, simp add: for_waiters_more one)+ (simp add: upd_queue_def)
  then show ?thesis by (simp add: msg_send_def split: option.split list.split)
qed

text \<open>The state in which the command is sent.\<close>

definition timer_cmd_ready :: "nat \<Rightarrow> nat \<Rightarrow> (k_timer_queue_cb \<Rightarrow> k_timer_queue_cb) \<Rightarrow> 'a tkernel_scheme \<Rightarrow> 'a tkernel_scheme" where
  "timer_cmd_ready t cb fill k =
     k\<lparr>g_timer_pool := (g_timer_pool k)\<lparr>mb_avail_list := timer_mem k cb, mb_blk_avail := mb_blk_avail (g_timer_pool k) - 1\<rparr>,
       timer_mem := (timer_mem k)(cb := t), timer_cbs := (timer_cbs k)(cb := fill (timer_cbs k cb))\<rparr>"

lemma timer_cmd_ready_frame [simp]:
  "queue_inv (timer_cmd_ready t cb fill k) q ms = queue_inv k q ms" "waiters (timer_cmd_ready t cb fill k) q = waiters k q"
  "queues (timer_cmd_ready t cb fill k) = queues k" "tasks (timer_cmd_ready t cb fill k) = tasks k"
  by (simp_all add: timer_cmd_ready_def queue_inv_def)

lemma timer_cmd_ready_inv [simp]: "sys_inv (timer_cmd_ready t cb fill k) = sys_inv k"
proof -
  have "view (timer_cmd_ready t cb fill k) = view k" by (simp add: timer_cmd_ready_def view_def ticks_left_def fun_eq_iff)
  then show ?thesis by (rule sys_inv_view) (simp_all add: timer_cmd_ready_def)
qed

lemma timer_cmd_send_eq:
  assumes "mblk_ok (g_timer_pool k) (timer_mem k) (cb # free) rest"
  shows "timer_cmd_send (Some t) fill k =
    (case krhino_queue_back_send (Some (g_timer_queue k)) (of_nat cb) (timer_cmd_ready t cb fill k) of (err, k3) \<Rightarrow>
       if err \<noteq> RHINO_SUCCESS
       then let (_, pool, mem) = krhino_mblk_free (Some (g_timer_pool k3)) cb (timer_mem k3) in (err, k3\<lparr>g_timer_pool := the pool, timer_mem := mem\<rparr>)
       else (RHINO_SUCCESS, k3))"
  using mblk_first(1) [OF assms] by (simp add: timer_cmd_send_def timer_cmd_ready_def Let_def split_beta)

text \<open>A full queue: the block goes back to the front of the pool.\<close>

lemma timer_send_full:
  assumes "mblk_ok (g_timer_pool k) (timer_mem k) (cb # free) rest" and "queue_inv k (g_timer_queue k) ms"
    and "length ms = unat (q_size (queues k (g_timer_queue k)))"
  shows "timer_cmd_send (Some t) fill k = (RHINO_QUEUE_FULL, k\<lparr>timer_cbs := (timer_cbs k)(cb := fill (timer_cbs k cb))\<rparr>)"
proof -
  note b = mblk_first [OF assms(1)]
  have "krhino_queue_back_send (Some (g_timer_queue k)) (of_nat cb) (timer_cmd_ready t cb fill k) = (RHINO_QUEUE_FULL, timer_cmd_ready t cb fill k)"
    using msg_send_full [of "timer_cmd_ready t cb fill k" "g_timer_queue k" ms] assms(2,3) by (simp add: krhino_queue_back_send_def)
  then have "timer_cmd_send (Some t) fill k = (let k3 = timer_cmd_ready t cb fill k; (_, pool, mem) = krhino_mblk_free (Some (g_timer_pool k3)) cb (timer_mem k3)
      in (RHINO_QUEUE_FULL, k3\<lparr>g_timer_pool := the pool, timer_mem := mem\<rparr>))"
    by (simp add: timer_cmd_send_eq [OF assms(1)] Let_def)
  also have "\<dots> = (RHINO_QUEUE_FULL, k\<lparr>timer_cbs := (timer_cbs k)(cb := fill (timer_cbs k cb))\<rparr>)"
    using b(2-5) by (simp add: timer_cmd_ready_def krhino_mblk_free_def)
  finally show ?thesis .
qed

lemma timer_send_ok:
  assumes "sys_inv k" and "mblk_ok (g_timer_pool k) (timer_mem k) (cb # free) rest" and "queue_inv k (g_timer_queue k) ms"
    and "length ms < unat (q_size (queues k (g_timer_queue k)))"
  shows "\<exists>k'. timer_cmd_send (Some t) fill k = (RHINO_SUCCESS, k') \<and> sys_inv k' \<and> mblk_ok (g_timer_pool k') (timer_mem k') free rest \<and>
    timer_mem k' cb = t \<and> timer_cbs k' cb = fill (timer_cbs k cb) \<and> timers k' = timers k \<and> g_timer_head k' = g_timer_head k \<and>
    (case waiters k (g_timer_queue k) of [] \<Rightarrow> queue_inv k' (g_timer_queue k) (ms @ [of_nat cb])
     | w # ws \<Rightarrow> queue_inv k' (g_timer_queue k) [] \<and> msg (tasks k' w) = of_nat cb \<and> state_of k' w = woken (state_of k w))"
proof -
  let ?r = "timer_cmd_ready t cb fill k" and ?q = "g_timer_queue k"
  obtain k' where k': "msg_send (Some ?q) (of_nat cb) QMSG_SEND_TO_END False ?r = (RHINO_SUCCESS, k')" "sys_inv k'"
    "case waiters k ?q of [] \<Rightarrow> queue_inv k' ?q (ms @ [of_nat cb])
     | w # ws \<Rightarrow> queue_inv k' ?q [] \<and> msg (tasks k' w) = of_nat cb \<and> state_of k' w = woken (state_of k w)"
  proof (cases "waiters k ?q")
    case Nil
    then show thesis using msg_send_store [of ?r ?q ms "of_nat cb" QMSG_SEND_TO_END False] assms(1,3,4) that by auto
  next
    case (Cons w ws)
    have "0 < q_size (queues ?r ?q)" using assms(4) by (auto simp: word_gt_0)
    then show thesis using msg_send_hand [of ?r ?q ms w ws "of_nat cb" QMSG_SEND_TO_END False] Cons assms(1,3) that by auto
  qed
  have m: "qkernel.more k' = qkernel.more ?r" using msg_send_more [of "Some ?q" "of_nat cb" QMSG_SEND_TO_END False ?r] k'(1) by simp
  have "timer_cmd_send (Some t) fill k = (RHINO_SUCCESS, k')" using k'(1) by (simp add: timer_cmd_send_eq [OF assms(2)] krhino_queue_back_send_def)
  moreover have "mblk_ok (g_timer_pool ?r) (timer_mem ?r) free rest" using mblk_first(6) [OF assms(2), of t] by (simp add: timer_cmd_ready_def)
  ultimately show ?thesis using k'(2,3) timer_more [OF m] by (simp add: timer_cmd_ready_def)
qed

section \<open>Theorems\<close>

text \<open>A system with the timer queue (object 9) and one command block.\<close>

definition timer_zero :: ktimer_t where
  "timer_zero = \<lparr>to_head = False, tm_name = [], tm_cb = 0, timer_cb_arg = 0, tm_match = 0, tm_remain = 0, init_count = 0, round_ticks = 0,
     tm_obj_type = RHINO_OBJ_TYPE_NONE, timer_state = TIMER_DEACTIVE, tm_alloc_flag = 0\<rparr>"

definition no_timers :: tkernel where
  "no_timers = bqkernel.extend no_bufs (tkernel.fields (\<lambda>_. timer_zero) [] 0 0 new_pool (\<lambda>_. 0)
     (\<lambda>_. \<lparr>cb_first = 0, cb_round = 0, cb_arg = 0, cb_num = TIMER_CMD_CB\<rparr>) [])"

definition timer_ready :: tkernel where
  "timer_ready = snd (krhino_queue_create (Some 9) (Some ''timer_queue'') (Some (4096, replicate 8 0)) 2
     (no_timers\<lparr>g_timer_queue := 9, g_timer_pool := new_pool\<lparr>mb_is_pool := True, mb_blk_avail := 1, mb_avail_list := 256\<rparr>\<rparr>))"

lemma timer_ready_inv:
  "sys_inv timer_ready" "queue_inv timer_ready 9 []" "q_size (queues timer_ready 9) = 2" "g_timer_queue timer_ready = 9"
  "mblk_ok (g_timer_pool timer_ready) (timer_mem timer_ready) [256] []" "waiters timer_ready 9 = []"
proof -
  let ?k = "no_timers\<lparr>g_timer_queue := 9, g_timer_pool := new_pool\<lparr>mb_is_pool := True, mb_blk_avail := 1, mb_avail_list := 256\<rparr>\<rparr>"
  have "view ?k = view no_queues" by (simp add: no_timers_def no_bufs_def bqkernel.defs qkernel.defs view_def ticks_left_def fun_eq_iff)
  then have "sys_inv ?k = sys_inv no_queues" by (rule sys_inv_view) (simp_all add: no_timers_def no_bufs_def bqkernel.defs qkernel.defs)
  moreover have "sys_inv no_queues" using sys_inv_extend [of task_kernel] task_kernel_inv by (simp add: no_queues_def)
  moreover have "obj_type (objs ?k 9) = RHINO_OBJ_TYPE_NONE" "\<not> rb_fault (q_ringbuf (queues ?k 9))"
    by (simp_all add: no_timers_def no_bufs_def no_queues_def queue_zero_def kernel.defs qkernel.defs bqkernel.defs)
  ultimately obtain k' where k': "queue_create (Some 9) (Some ''timer_queue'') (Some (4096, replicate 8 0)) 2 K_OBJ_STATIC_ALLOC ?k = (RHINO_SUCCESS, k')"
    "sys_inv k'" "queue_inv k' 9 []" "q_size (queues k' 9) = 2"
    using queue_create_inv [of ?k 9 2 "replicate 8 0" "''timer_queue''" 4096 K_OBJ_STATIC_ALLOC] by auto
  have e: "timer_ready = k'" using k'(1) by (simp add: timer_ready_def krhino_queue_create_def)
  show "sys_inv timer_ready" "queue_inv timer_ready 9 []" "q_size (queues timer_ready 9) = 2" using k' e by simp_all
  show "g_timer_queue timer_ready = 9" "mblk_ok (g_timer_pool timer_ready) (timer_mem timer_ready) [256] []" "waiters timer_ready 9 = []"
    by (simp_all add: timer_ready_def krhino_queue_create_def queue_create_def upd_queue_def Let_def no_timers_def no_bufs_def no_queues_def mblk_ok_def
        kernel.defs qkernel.defs bqkernel.defs tkernel.defs)
qed

text \<open>Timers 1, 2 and 3 are active; 1 is periodic.\<close>

definition active_timer :: "u64 \<Rightarrow> u64 \<Rightarrow> ktimer_t" where
  "active_timer due round = timer_zero\<lparr>to_head := True, tm_cb := 50, tm_match := due, init_count := 7, round_ticks := round,
     tm_obj_type := RHINO_TIMER_OBJ_TYPE, timer_state := TIMER_ACTIVE\<rparr>"

definition running_timers :: "u64 \<Rightarrow> u64 \<Rightarrow> u64 \<Rightarrow> tkernel" where
  "running_timers a b c = no_timers\<lparr>g_sys_time_tick := 100, g_timer_count := 100, g_timer_head := [1, 2, 3],
     timers := (timers no_timers)(1 := active_timer a 5, 2 := active_timer b 0, 3 := active_timer c 9)\<rparr>"

text \<open>C18: As long as the timer task is not late, every timer that is due at a tick fires at that tick: the rounds of the inner loop call the callbacks of
  exactly the timers due now, each once, in the order in which they are due, put periodic ones back one period later and deactivate the others, and then
  the loop waits for a later timer or leaves.  The list stays ordered and the loop of \<open>timer_cb_proc\<close> ends.\<close>

theorem due_timers_fire:
  assumes "prompt k D R" and "g_timer_count k = krhino_sys_tick_get k"
  shows "\<exists>k' R'. ((\<lambda>k. snd (timer_task_inner k)) ^^ length D) k = k' \<and> prompt k' [] R' \<and>
    timer_fired k' = timer_fired k @ map (call_of k) D \<and> set R' = set R \<union> {u \<in> set D. round_ticks (timers k u) > 0} \<and>
    (\<forall>u. timers k' u = (if u \<in> set D then after_fire (g_timer_count k) (timers k u) else timers k u)) \<and>
    fst (timer_task_inner k') \<noteq> Timer_again \<and> k_fault k' = k_fault k"
proof -
  obtain k' R' where k': "((\<lambda>k. snd (timer_task_inner k)) ^^ length D) k = k'" "prompt k' [] R'" "fires k D R R' k'"
    using timer_rounds [OF assms] by blast
  have "fst (timer_task_inner k') \<noteq> Timer_again"
  proof (cases R')
    case (Cons r rs)
    have "g_timer_count k' = krhino_sys_tick_get k'" using k'(3) assms(2) by (simp add: fires_def krhino_sys_tick_get_def)
    then show ?thesis
      using k'(2) Cons timer_delta_pos [of "g_timer_count k'" "tm_match (timers k' r)"] by (simp add: timer_task_inner_def prompt_def)
  qed (use k'(2) in \<open>simp add: timer_task_inner_def prompt_def\<close>)
  then show ?thesis using k' by (auto simp: fires_def)
qed

theorem due_timers_fire_witness:
  "\<exists>k'. ((\<lambda>k. snd (timer_task_inner k)) ^^ 2) (running_timers 100 100 103) = k' \<and> timer_fired k' = [(1, 50, 0), (2, 50, 0)] \<and>
     tm_match (timers k' 1) = 105 \<and> timer_state (timers k' 2) = TIMER_DEACTIVE"
proof -
  have p: "prompt (running_timers 100 100 103) [1, 2] [3]" "g_timer_count (running_timers 100 100 103) = krhino_sys_tick_get (running_timers 100 100 103)"
    by (simp_all add: prompt_def running_timers_def active_timer_def timer_zero_def krhino_sys_tick_get_def)
  have t: "timer_fired (running_timers 100 100 103) = []" "round_ticks (timers (running_timers 100 100 103) 1) = 5"
    "round_ticks (timers (running_timers 100 100 103) 2) = 0" "g_timer_count (running_timers 100 100 103) = 100"
    "map (call_of (running_timers 100 100 103)) [1, 2] = [(1, 50, 0), (2, 50, 0)]"
    by (simp_all add: running_timers_def active_timer_def timer_zero_def call_of_def no_timers_def bqkernel.defs tkernel.defs)
  obtain k' where k': "((\<lambda>k. snd (timer_task_inner k)) ^^ length [1, 2 :: nat]) (running_timers 100 100 103) = k'"
    "timer_fired k' = timer_fired (running_timers 100 100 103) @ map (call_of (running_timers 100 100 103)) [1, 2]"
    "\<forall>u. timers k' u = (if u \<in> set [1, 2] then after_fire (g_timer_count (running_timers 100 100 103)) (timers (running_timers 100 100 103) u)
       else timers (running_timers 100 100 103) u)"
    using due_timers_fire [OF p] by blast
  have "length [1, 2 :: nat] = 2" by simp
  moreover have "timer_fired k' = [(1, 50, 0), (2, 50, 0)]" using k'(2) t(1,5) by simp
  moreover have "tm_match (timers k' 1) = 105" using k'(3) [rule_format, of 1] t(2,4) by (simp add: after_fire_def)
  moreover have "timer_state (timers k' 2) = TIMER_DEACTIVE" using k'(3) [rule_format, of 2] t(3) by (simp add: after_fire_def)
  ultimately show ?thesis using k'(1) by metis
qed

text \<open>C19: The list of the timer task holds exactly the active timers, each once: every command and every run of the callbacks keeps this, so a timer that has
  been stopped, deleted or has fired its only time does not fire again.\<close>

theorem timer_list_invariant:
  assumes "timer_inv k"
  shows "timer_inv (timer_cmd_proc t cb k) \<and> timer_inv (timer_cb_proc k) \<and> timer_inv (snd (timer_task_inner k)) \<and>
    timer_inv (timer_exec m k) \<and> timer_inv (snd (timer_task_outer err m k)) \<and> timer_inv (timer_task_woken err m k)"
proof -
  have upd: "timer_inv (j\<lparr>g_timer_count := c\<rparr>) = timer_inv j" "timer_inv (j\<lparr>g_timer_pool := p, timer_mem := mm\<rparr>) = timer_inv j"
    "timer_inv (j\<lparr>k_fault := b\<rparr>) = timer_inv j" "timer_inv (j\<lparr>g_err := e\<rparr>) = timer_inv j" for j :: "'a tkernel_scheme" and c p mm b e
    by (simp_all add: timer_inv_def)
  have ex: "timer_inv (timer_exec m j)" if "timer_inv j" for j :: "'a tkernel_scheme"
  proof (cases "m = 0")
    case True
    then show ?thesis using that by (simp add: timer_exec_def upd)
  next
    case False
    have "timer_inv (timer_cmd_proc (timer_mem j m) (timer_cbs j m) (j\<lparr>g_timer_pool := p, timer_mem := mm\<rparr>))" for p mm
      using that by (intro timer_cmd_inv) (simp add: upd)
    then show ?thesis using False by (simp add: timer_exec_def split_beta Let_def)
  qed
  then show ?thesis
    using assms by (auto simp: timer_task_inner_def timer_task_outer_def timer_task_woken_def upd Let_def timer_cmd_inv timer_cb_proc_inv split: list.split)
qed

theorem timer_list_invariant_witness: "timer_inv (timer_cb_proc (running_timers 99 100 103))"
proof -
  have "timer_inv (running_timers 99 100 103)"
    by (auto simp: timer_inv_def running_timers_def active_timer_def timer_zero_def no_timers_def bqkernel.defs tkernel.defs)
  then show ?thesis using timer_list_invariant by blast
qed

text \<open>A timer call either succeeds and hands exactly its command to the timer task, through the queue or directly, or it fails and leaves the pool of
  command blocks, the queue and the timers as they were: it reports \<open>RHINO_NO_MEM\<close> when no block is free and \<open>RHINO_QUEUE_FULL\<close> when
  the queue is full.\<close>

theorem timer_start_all_or_nothing:
  assumes "sys_inv k" and "mblk_ok (g_timer_pool k) (timer_mem k) free rest" and "queue_inv k (g_timer_queue k) ms"
  shows "(free = [] \<longrightarrow> krhino_timer_start (Some t) k = (RHINO_NO_MEM, k)) \<and>
    (\<forall>cb fs. free = cb # fs \<and> length ms = unat (q_size (queues k (g_timer_queue k))) \<longrightarrow>
      (\<exists>cbs. krhino_timer_start (Some t) k = (RHINO_QUEUE_FULL, k\<lparr>timer_cbs := cbs\<rparr>))) \<and>
    (\<forall>cb fs. free = cb # fs \<and> length ms < unat (q_size (queues k (g_timer_queue k))) \<longrightarrow>
      (\<exists>k'. krhino_timer_start (Some t) k = (RHINO_SUCCESS, k') \<and> sys_inv k' \<and> mblk_ok (g_timer_pool k') (timer_mem k') fs rest \<and>
        timer_mem k' cb = t \<and> cb_num (timer_cbs k' cb) = TIMER_CMD_START \<and> timers k' = timers k \<and>
        (case waiters k (g_timer_queue k) of [] \<Rightarrow> queue_inv k' (g_timer_queue k) (ms @ [of_nat cb])
         | w # ws \<Rightarrow> queue_inv k' (g_timer_queue k) [] \<and> msg (tasks k' w) = of_nat cb \<and> state_of k' w = woken (state_of k w))))"
proof (intro conjI allI impI)
  assume "free = []"
  then show "krhino_timer_start (Some t) k = (RHINO_NO_MEM, k)"
    using assms(2) by (simp add: krhino_timer_start_def timer_cmd_send_def mblk_ok_def krhino_mblk_alloc_def)
next
  fix cb fs assume "free = cb # fs \<and> length ms = unat (q_size (queues k (g_timer_queue k)))"
  then show "\<exists>cbs. krhino_timer_start (Some t) k = (RHINO_QUEUE_FULL, k\<lparr>timer_cbs := cbs\<rparr>)"
    using timer_send_full [OF _ assms(3)] assms(2) by (auto simp: krhino_timer_start_def)
next
  fix cb fs assume f: "free = cb # fs \<and> length ms < unat (q_size (queues k (g_timer_queue k)))"
  then show "\<exists>k'. krhino_timer_start (Some t) k = (RHINO_SUCCESS, k') \<and> sys_inv k' \<and> mblk_ok (g_timer_pool k') (timer_mem k') fs rest \<and>
        timer_mem k' cb = t \<and> cb_num (timer_cbs k' cb) = TIMER_CMD_START \<and> timers k' = timers k \<and>
        (case waiters k (g_timer_queue k) of [] \<Rightarrow> queue_inv k' (g_timer_queue k) (ms @ [of_nat cb])
         | w # ws \<Rightarrow> queue_inv k' (g_timer_queue k) [] \<and> msg (tasks k' w) = of_nat cb \<and> state_of k' w = woken (state_of k w))"
    using timer_send_ok [OF assms(1) _ assms(3), of cb fs rest t "\<lambda>c. c\<lparr>cb_num := TIMER_CMD_START\<rparr>"] assms(2)
    by (auto simp: krhino_timer_start_def)
qed

theorem timer_start_all_or_nothing_witness:
  "\<exists>k'. krhino_timer_start (Some 4) timer_ready = (RHINO_SUCCESS, k') \<and> queue_inv k' 9 [256] \<and> timer_mem k' 256 = 4"
proof -
  have "queue_inv timer_ready (g_timer_queue timer_ready) []" using timer_ready_inv(2,4) by simp
  from timer_start_all_or_nothing [OF timer_ready_inv(1,5) this, of 4] timer_ready_inv(3,4,6) show ?thesis by auto
qed

text \<open>A late timer task can postpone a timer.  Timer 2 is due at tick 99; when the timer task runs at tick 100 because of a command that starts timer 4
  with 50 ticks, timer 4 is put in front of the overdue timer 2, which is not called, and the task then waits 50 ticks.\<close>

theorem overdue_timer_postponed:
  "let k = (running_timers 0 99 0)\<lparr>g_timer_head := [2]\<rparr>;
       k = k\<lparr>timers := (timers k)(4 := (active_timer 0 0)\<lparr>to_head := False, timer_state := TIMER_DEACTIVE, init_count := 50\<rparr>),
             timer_mem := (timer_mem k)(64 := 4), timer_cbs := (timer_cbs k)(64 := \<lparr>cb_first = 0, cb_round = 0, cb_arg = 0, cb_num = TIMER_CMD_START\<rparr>)\<rparr>;
       k' = timer_task_woken RHINO_SUCCESS 64 k
   in timer_fired k' = [] \<and> g_timer_head k' = [4, 2] \<and> fst (timer_task_inner k') = Timer_recv 50"
  by code_simp

end
