(* ===== verification/Workqueue.thy ===== *)
theory Workqueue
  imports Timer
begin

text \<open>
  Work queues, \<^verbatim>\<open>kernel/rhino/core/k_workqueue.c\<close>.  A work queue is a list of works, a semaphore that counts
  them and a worker task that executes them.  A work with a delay is put into the list by the callback of its
  timer.  The endless loop of \<open>worker_task\<close> is cut where the task may block and around the call of the handler,
  which is user code: its calls are recorded in \<open>work_log\<close>.  The theorems: the semaphore counts the works, so the
  worker never takes a work from an empty list, and the works are executed once each, in the order in which
  they were accepted; a work that has run once with a delay can no longer be cancelled while its timer runs.
\<close>

section \<open>State\<close>

text \<open>\<open>wq\<close> is the queue of a work, as an address; the null pointer is \<open>None\<close>.\<close>

record kwork_t =
  handle :: nat
  work_arg :: u32
  dly :: u32
  work_timer :: "nat option"
  wq :: "nat option"
  work_exit :: u8

text \<open>\<open>worker\<close> and \<open>wq_sem\<close> are the addresses of the members of that name.\<close>

record kworkqueue_t =
  work_list :: "nat list"
  work_current :: "nat option"
  wq_name :: string
  worker :: tid
  wq_sem :: oid

text \<open>\<open>timer_priv\<close> is the member \<open>priv\<close> of the timers, which only this component uses.\<close>

record wkernel = tkernel +
  works :: "nat \<Rightarrow> kwork_t"
  workqueues :: "nat \<Rightarrow> kworkqueue_t"
  g_workqueue_list_head :: "nat list"
  timer_priv :: "nat \<Rightarrow> nat option"
  work_log :: "(nat \<times> nat \<times> nat \<times> u32) list"

definition upd_work :: "nat \<Rightarrow> (kwork_t \<Rightarrow> kwork_t) \<Rightarrow> 'a wkernel_scheme \<Rightarrow> 'a wkernel_scheme" where
  "upd_work w f k = k\<lparr>works := (works k)(w := f (works k w))\<rparr>"

definition upd_wq :: "nat \<Rightarrow> (kworkqueue_t \<Rightarrow> kworkqueue_t) \<Rightarrow> 'a wkernel_scheme \<Rightarrow> 'a wkernel_scheme" where
  "upd_wq q f k = k\<lparr>workqueues := (workqueues k)(q := f (workqueues k q))\<rparr>"

text \<open>Unlinking the node of a work from the list it is in, if any.\<close>

definition work_unlink :: "nat \<Rightarrow> 'a wkernel_scheme \<Rightarrow> 'a wkernel_scheme" where
  "work_unlink w k = k\<lparr>workqueues := (\<lambda>q. (workqueues k q)\<lparr>work_list := remove1 w (work_list (workqueues k q))\<rparr>)\<rparr>"

section \<open>Operations\<close>

definition workqueue_is_exist :: "nat \<Rightarrow> 'a wkernel_scheme \<Rightarrow> kstat" where
  "workqueue_is_exist q k = (if q \<in> set (g_workqueue_list_head k) then RHINO_WORKQUEUE_EXIST else RHINO_WORKQUEUE_NOT_EXIST)"

text \<open>
  \<open>worker_task\<close> after the semaphore was taken with result \<open>ret\<close>, up to the return of the handler; the node after
  the head of an empty list is the head itself, which is not part of a work.
\<close>

definition worker_begin :: "kstat \<Rightarrow> nat \<Rightarrow> 'a wkernel_scheme \<Rightarrow> 'a wkernel_scheme" where
  "worker_begin ret q k =
     (let k1 = (if ret \<noteq> RHINO_SUCCESS then k_err_proc ret k else k)
      in case work_list (workqueues k1 q) of
           [] \<Rightarrow> k_crash k1
         | w # _ \<Rightarrow>
             let k2 = work_unlink w k1;
                 k3 = upd_wq q (\<lambda>c. c\<lparr>work_current := Some w\<rparr>) k2;
                 k4 = upd_work w (\<lambda>c. c\<lparr>work_exit := 0\<rparr>) k3
             in k4\<lparr>work_log := work_log k4 @ [(q, w, handle (works k4 w), work_arg (works k4 w))]\<rparr>)"

definition worker_end :: "nat \<Rightarrow> 'a wkernel_scheme \<Rightarrow> 'a wkernel_scheme" where
  "worker_end q k = upd_wq q (\<lambda>c. c\<lparr>work_current := None\<rparr>) k"

definition krhino_workqueue_create :: "(u32 list \<Rightarrow> u32 list) \<Rightarrow> nat option \<Rightarrow> string option \<Rightarrow> nat \<Rightarrow> bool \<Rightarrow> nat \<Rightarrow> 'a wkernel_scheme \<Rightarrow>
    kstat \<times> 'a wkernel_scheme" where
  "krhino_workqueue_create cpu_task_stack_init workqueue name pri stack_is_null stack_size k =
     (case (workqueue, name) of
        (Some q, Some nm) \<Rightarrow>
          if stack_is_null then (RHINO_NULL_PTR, k)
          else if pri \<ge> RHINO_CONFIG_PRI_MAX then (RHINO_BEYOND_MAX_PRI, k)
          else if stack_size = 0 then (RHINO_TASK_INV_STACK_SIZE, k)
          else if workqueue_is_exist q k = RHINO_WORKQUEUE_EXIST then (RHINO_WORKQUEUE_EXIST, k)
          else
            let k1 = upd_wq q (\<lambda>c. c\<lparr>work_list := [], work_current := None, wq_name := nm\<rparr>) k;
                s = wq_sem (workqueues k1 q); t = worker (workqueues k1 q);
                (ret, k2) = krhino_sem_create (Some s) (Some ''WORKQUEUE-SEM'') 0 k1
            in if ret \<noteq> RHINO_SUCCESS then (ret, k2)
               else
                 let (ret, k3) = krhino_task_create cpu_task_stack_init (Some t) (Some nm) pri False stack_size False 0 k2
                 in if ret \<noteq> RHINO_SUCCESS then (ret, snd (krhino_sem_del (Some s) k3))
                    else
                      let k4 = k3\<lparr>g_workqueue_list_head := g_workqueue_list_head k3 @ [q]\<rparr>
                      in krhino_task_resume (Some t) k4
      | _ \<Rightarrow> (RHINO_NULL_PTR, k))"

definition krhino_workqueue_del :: "nat option \<Rightarrow> 'a wkernel_scheme \<Rightarrow> kstat \<times> 'a wkernel_scheme" where
  "krhino_workqueue_del workqueue k =
     (case workqueue of
        None \<Rightarrow> (RHINO_NULL_PTR, k)
      | Some q \<Rightarrow>
          if workqueue_is_exist q k = RHINO_WORKQUEUE_NOT_EXIST then (RHINO_WORKQUEUE_NOT_EXIST, k)
          else if work_list (workqueues k q) \<noteq> [] then (RHINO_WORKQUEUE_BUSY, k)
          else if work_current (workqueues k q) \<noteq> None then (RHINO_WORKQUEUE_BUSY, k)
          else
            let (ret, k1) = krhino_task_del (Some (worker (workqueues k q))) k
            in if ret \<noteq> RHINO_SUCCESS then (ret, k1)
               else
                 let (ret, k2) = krhino_sem_del (Some (wq_sem (workqueues k q))) k1
                 in if ret \<noteq> RHINO_SUCCESS then (ret, k2)
                    else (RHINO_SUCCESS, k2\<lparr>g_workqueue_list_head := remove1 q (g_workqueue_list_head k2)\<rparr>))"

text \<open>
  The critical section in which \<open>work_timer_cb\<close> and \<open>krhino_work_run\<close> put a work at the end of the list of a
  queue; they give the semaphore after it.
\<close>

definition work_enqueue :: "nat \<Rightarrow> nat \<Rightarrow> 'a wkernel_scheme \<Rightarrow> 'a wkernel_scheme" where
  "work_enqueue q w k =
     upd_work w (\<lambda>c. c\<lparr>wq := Some q, work_exit := 1\<rparr>) (upd_wq q (\<lambda>c. c\<lparr>work_list := work_list c @ [w]\<rparr>) (work_unlink w k))"

definition work_post :: "nat \<Rightarrow> nat \<Rightarrow> 'a wkernel_scheme \<Rightarrow> kstat \<times> 'a wkernel_scheme" where
  "work_post q w k =
     (if work_current (workqueues k q) = Some w then (RHINO_WORKQUEUE_WORK_RUNNING, k)
      else if work_exit (works k w) = 1 then (RHINO_WORKQUEUE_WORK_EXIST, k)
      else (RHINO_SUCCESS, work_enqueue q w k))"

text \<open>The callback of the timer \<open>timer\<close> with argument \<open>arg\<close>, the address of the queue; a null \<open>priv\<close> is a null dereference.\<close>

definition work_timer_cb :: "nat \<Rightarrow> u32 \<Rightarrow> 'a wkernel_scheme \<Rightarrow> 'a wkernel_scheme" where
  "work_timer_cb timer arg k =
     (case timer_priv k timer of
        None \<Rightarrow> k_crash k
      | Some w \<Rightarrow>
          let q = unat arg; (ret, k1) = work_post q w k
          in if ret \<noteq> RHINO_SUCCESS then k1
             else snd (krhino_sem_give (Some (wq_sem (workqueues k1 q))) k1))"

text \<open>\<open>cb\<close> is the address of \<open>work_timer_cb\<close>, \<open>mem\<close> what \<open>krhino_mm_alloc\<close> returned for the timer.\<close>

definition krhino_work_init :: "nat \<Rightarrow> nat option \<Rightarrow> nat option \<Rightarrow> nat option \<Rightarrow> u32 \<Rightarrow> u32 \<Rightarrow> 'a wkernel_scheme \<Rightarrow> kstat \<times> 'a wkernel_scheme" where
  "krhino_work_init cb mem work hnd arg delay k =
     (case (work, hnd) of
        (Some w, Some f) \<Rightarrow>
          let k1 = upd_work w (\<lambda>_. \<lparr>handle = f, work_arg = arg, dly = delay, work_timer = None, wq = None, work_exit = 0\<rparr>) k
          in if delay > 0 then
               let (ret, tm, k2) = krhino_timer_dyn_create False mem (Some ''WORK-TIMER'') (Some cb) (ucast delay) 0 (of_nat w) 0 k1;
                   k3 = (case tm of None \<Rightarrow> k2 | Some t \<Rightarrow> upd_work w (\<lambda>c. c\<lparr>work_timer := Some t\<rparr>) k2)
               in (ret, k3)
             else (RHINO_SUCCESS, k1)
      | _ \<Rightarrow> (RHINO_NULL_PTR, k))"

definition krhino_work_run :: "nat option \<Rightarrow> nat option \<Rightarrow> 'a wkernel_scheme \<Rightarrow> kstat \<times> 'a wkernel_scheme" where
  "krhino_work_run workqueue work k =
     (case (workqueue, work) of
        (Some q, Some w) \<Rightarrow>
          if dly (works k w) = 0 then
            let (ret, k1) = work_post q w k
            in if ret \<noteq> RHINO_SUCCESS then (ret, k1) else krhino_sem_give (Some (wq_sem (workqueues k1 q))) k1
          else
            (case work_timer (works k w) of
               None \<Rightarrow> (RHINO_NULL_PTR, k_crash k)
             | Some t \<Rightarrow> krhino_timer_arg_change_auto (Some t) (of_nat q) (k\<lparr>timer_priv := (timer_priv k)(t := Some w)\<rparr>))
      | _ \<Rightarrow> (RHINO_NULL_PTR, k))"

text \<open>\<open>g_workqueue_default\<close> is the address of the default queue.\<close>

definition krhino_work_sched :: "nat \<Rightarrow> nat option \<Rightarrow> 'a wkernel_scheme \<Rightarrow> kstat \<times> 'a wkernel_scheme" where
  "krhino_work_sched g_workqueue_default work k = krhino_work_run (Some g_workqueue_default) work k"

definition krhino_work_cancel :: "nat option \<Rightarrow> 'a wkernel_scheme \<Rightarrow> kstat \<times> 'a wkernel_scheme" where
  "krhino_work_cancel work k =
     (case work of
        None \<Rightarrow> (RHINO_NULL_PTR, k)
      | Some w \<Rightarrow>
          (case wq (works k w) of
             None \<Rightarrow> (RHINO_SUCCESS, if dly (works k w) > 0 then snd (krhino_timer_stop (work_timer (works k w)) k) else k)
           | Some q \<Rightarrow>
               if work_current (workqueues k q) = Some w then (RHINO_WORKQUEUE_WORK_RUNNING, k)
               else if work_exit (works k w) = 1 then (RHINO_WORKQUEUE_WORK_EXIST, k)
               else (RHINO_SUCCESS, upd_work w (\<lambda>c. c\<lparr>wq := None\<rparr>) (work_unlink w k))))"

definition workqueue_init :: "(u32 list \<Rightarrow> u32 list) \<Rightarrow> nat \<Rightarrow> 'a wkernel_scheme \<Rightarrow> 'a wkernel_scheme" where
  "workqueue_init cpu_task_stack_init g_workqueue_default k =
     snd (krhino_workqueue_create cpu_task_stack_init (Some g_workqueue_default) (Some ''DEFAULT-WORKQUEUE'') 9 False 768
       (k\<lparr>g_workqueue_list_head := []\<rparr>))"

section \<open>Frames\<close>

lemma wk_more:
  assumes "kernel.more k' = kernel.more k"
  shows "works k' = works k" "workqueues k' = workqueues k" "work_log k' = work_log k"
  using assms by (cases k; cases k'; simp)+

lemma wk_upd [simp]:
  "tasks (upd_work w f k) = tasks k" "objs (upd_work w f k) = objs k" "sems (upd_work w f k) = sems k"
  "tasks (upd_wq q g k) = tasks k" "objs (upd_wq q g k) = objs k" "sems (upd_wq q g k) = sems k"
  "tasks (work_unlink w k) = tasks k" "objs (work_unlink w k) = objs k" "sems (work_unlink w k) = sems k"
  "works (upd_work w f k) = (works k)(w := f (works k w))" "works (upd_wq q g k) = works k" "works (work_unlink w k) = works k"
  "workqueues (upd_work w f k) = workqueues k" "workqueues (upd_wq q g k) = (workqueues k)(q := g (workqueues k q))"
  "work_list (workqueues (work_unlink w k) q) = remove1 w (work_list (workqueues k q))" "work_current (workqueues (work_unlink w k) q) = work_current (workqueues k q)"
  "worker (workqueues (work_unlink w k) q) = worker (workqueues k q)" "wq_sem (workqueues (work_unlink w k) q) = wq_sem (workqueues k q)"
  "work_log (upd_work w f k) = work_log k" "work_log (upd_wq q g k) = work_log k" "work_log (work_unlink w k) = work_log k"
  by (simp_all add: upd_work_def upd_wq_def work_unlink_def)

lemma sys_inv_wk [simp]:
  "sys_inv (upd_work w f k) = sys_inv k" "sys_inv (upd_wq q g k) = sys_inv k" "sys_inv (work_unlink w k) = sys_inv k" "sys_inv (k\<lparr>work_log := l\<rparr>) = sys_inv k"
  by (rule sys_inv_view; simp add: upd_work_def upd_wq_def work_unlink_def view_def ticks_left_def fun_eq_iff)+

text \<open>The two ways of giving a semaphore.\<close>

lemma give_count:
  assumes "sys_inv k" and "obj_type (objs k s) = RHINO_SEM_OBJ_TYPE" and "waiters k s = []" and "unat (sem_count (sems k s)) < 2 ^ 32 - 1"
  shows "\<exists>k'. krhino_sem_give (Some s) k = (RHINO_SUCCESS, k') \<and> sys_inv k' \<and> tasks k' = tasks k \<and> objs k' = objs k \<and>
    unat (sem_count (sems k' s)) = Suc (unat (sem_count (sems k s))) \<and> kernel.more k' = kernel.more k"
proof -
  have c: "sem_count (sems k s) \<noteq> - 1" using assms(4) by (auto simp: unsigned_minus_1_eq_mask mask_eq_exp_minus_1)
  let ?k = "snd (sem_give s False k)"
  have "unat (sem_count (sems k s) + 1) = Suc (unat (sem_count (sems k s)))" using c by (simp add: unatSuc eq_neg_iff_add_eq_0 add.commute)
  then have "unat (sem_count (sems ?k s)) = Suc (unat (sem_count (sems k s)))" "tasks ?k = tasks k" "objs ?k = objs k" "kernel.more ?k = kernel.more k"
    "fst (sem_give s False k) = RHINO_SUCCESS"
    using assms(2,3) c by (simp_all add: sem_give_def Let_def)
  then show ?thesis using sem_give_inv [OF assms(1), of s False] by (intro exI [of _ ?k]) (simp add: krhino_sem_give_def prod_eq_iff)
qed

lemma give_wake:
  assumes "sys_inv k" and "obj_type (objs k s) = RHINO_SEM_OBJ_TYPE" and "waiters k s = [t]"
  shows "\<exists>k'. krhino_sem_give (Some s) k = (RHINO_SUCCESS, k') \<and> sys_inv k' \<and> waiters k' s = [] \<and> blk_state (tasks k' t) = BLK_FINISH \<and>
    sems k' = sems k \<and> obj_type (objs k' s) = RHINO_SEM_OBJ_TYPE \<and> kernel.more k' = kernel.more k"
proof -
  have inv: "kernel_inv k" using assms(1) by (simp add: sys_inv_def)
  have p: "pending (state_of k t)" using waiter_pending [OF kernel_invD(2) [OF inv], of t s] assms(3) by simp
  let ?w = "pend_task_wakeup t k"
  have e: "sem_give s False k = (RHINO_SUCCESS, core_sched ?w)" using assms(2,3) by (simp add: sem_give_def)
  have w: "waiters ?w s = []" "blk_state (tasks ?w t) = BLK_FINISH" "obj_type (objs ?w s) = RHINO_SEM_OBJ_TYPE"
    using fun_cong [OF wakeup_proj(8) [OF p], of s] fun_cong [OF wakeup_proj(7) [OF p], of t] fun_cong [OF wakeup_proj(9) [OF p], of s] assms(2,3) by simp_all
  have "env ?w = env k" by simp
  then have "kernel.more ?w = kernel.more k" "sems ?w = sems k" by (simp_all add: env_def)
  then show ?thesis using sem_give_inv [OF assms(1), of s False] e w by (intro exI [of _ "core_sched ?w"]) (simp add: krhino_sem_give_def)
qed

section \<open>A work queue at work\<close>

text \<open>Where the worker is in its loop: before \<open>krhino_sem_take\<close>, blocked in it, returned from it, or in the handler.\<close>

datatype (plugins only: code size) worker_pc = Worker_take | Worker_blocked | Worker_got kstat | Worker_runs

text \<open>The works whose handlers the worker of \<open>q\<close> has called, in order.\<close>

definition started :: "nat \<Rightarrow> 'a wkernel_scheme \<Rightarrow> nat list" where
  "started q k = map (\<lambda>(_, w, _, _). w) (filter (\<lambda>(q', _). q' = q) (work_log k))"

text \<open>What the rest of the system may do between two steps of the queue \<open>q\<close>: anything that keeps the invariant of the kernel, the semaphore and the list of the queue.\<close>

definition wq_others :: "nat \<Rightarrow> 'a wkernel_scheme \<Rightarrow> 'a wkernel_scheme \<Rightarrow> bool" where
  "wq_others q k k' \<longleftrightarrow> sys_inv k' \<and> workqueues k' q = workqueues k q \<and> started q k' = started q k \<and>
     (\<forall>w \<in> set (work_list (workqueues k q)). work_exit (works k' w) = work_exit (works k w)) \<and>
     (let s = wq_sem (workqueues k q); t = worker (workqueues k q)
      in obj_type (objs k' s) = obj_type (objs k s) \<and> waiters k' s = waiters k s \<and> sem_count (sems k' s) = sem_count (sems k s) \<and>
         (waiters k s = [] \<longrightarrow> blk_state (tasks k' t) = blk_state (tasks k t)))"

text \<open>
  The steps of a queue: a state, the position of the worker, the works accepted so far and the number of callers
  between their critical section and \<open>krhino_sem_give\<close>.  Every critical section is a step of its own, so calls of
  \<open>krhino_work_run\<close> and \<open>work_timer_cb\<close> interleave with each other and with the worker.  A list is far shorter
  than the count of a semaphore reaches, because a work takes 28 bytes of memory.
\<close>

inductive wq_step :: "nat \<Rightarrow> 'a wkernel_scheme \<times> worker_pc \<times> nat list \<times> nat \<Rightarrow> 'a wkernel_scheme \<times> worker_pc \<times> nat list \<times> nat \<Rightarrow> bool" for q where
  refuse: "work_post q w k = (ret, k') \<Longrightarrow> ret \<noteq> RHINO_SUCCESS \<Longrightarrow> wq_step q (k, pc, acc, n) (k', pc, acc, n)"
| post: "work_post q w k = (RHINO_SUCCESS, k') \<Longrightarrow> length (work_list (workqueues k q)) < 2 ^ 28 \<Longrightarrow> wq_step q (k, pc, acc, n) (k', pc, acc @ [w], Suc n)"
| give: "krhino_sem_give (Some (wq_sem (workqueues k q))) k = (ret, k') \<Longrightarrow> wq_step q (k, pc, acc, Suc n) (k', pc, acc, n)"
| take: "g_active_task k = worker (workqueues k q) \<Longrightarrow> g_active_task k \<noteq> g_idle_task \<Longrightarrow> g_intrpt_nested_level k = 0 \<Longrightarrow> g_sched_lock k = 0 \<Longrightarrow>
    krhino_sem_take (Some (wq_sem (workqueues k q))) RHINO_WAIT_FOREVER k = (Some ret, k') \<Longrightarrow>
    wq_step q (k, Worker_take, acc, n) (k', Worker_got ret, acc, n)"
| block: "g_active_task k = worker (workqueues k q) \<Longrightarrow> g_active_task k \<noteq> g_idle_task \<Longrightarrow> g_intrpt_nested_level k = 0 \<Longrightarrow> g_sched_lock k = 0 \<Longrightarrow>
    krhino_sem_take (Some (wq_sem (workqueues k q))) RHINO_WAIT_FOREVER k = (None, k') \<Longrightarrow>
    wq_step q (k, Worker_take, acc, n) (k', Worker_blocked, acc, n)"
| resume: "g_active_task k = worker (workqueues k q) \<Longrightarrow> g_intrpt_nested_level k = 0 \<Longrightarrow> blk_call_return k = (ret, k') \<Longrightarrow>
    wq_step q (k, Worker_blocked, acc, n) (k', Worker_got ret, acc, n)"
| handle_work: "wq_step q (k, Worker_got ret, acc, n) (worker_begin ret q k, Worker_runs, acc, n)"
| finish: "wq_step q (k, Worker_runs, acc, n) (worker_end q k, Worker_take, acc, n)"
| others: "wq_others q k k' \<Longrightarrow> wq_step q (k, pc, acc, n) (k', pc, acc, n)"

text \<open>
  The semaphore counts the works of the list, less those not given yet; when the worker has taken it or has been
  woken, the work it is going to execute is not counted any more.
\<close>

definition wq_inv :: "nat \<Rightarrow> 'a wkernel_scheme \<times> worker_pc \<times> nat list \<times> nat \<Rightarrow> bool" where
  "wq_inv q st \<longleftrightarrow>
     (case st of (k, pc, acc, n) \<Rightarrow>
        let c = workqueues k q; s = wq_sem c; m = unat (sem_count (sems k s)) + n
        in sys_inv k \<and> obj_type (objs k s) = RHINO_SEM_OBJ_TYPE \<and> distinct (work_list c) \<and> (\<forall>w \<in> set (work_list c). work_exit (works k w) = 1) \<and>
           length (work_list c) \<le> 2 ^ 28 \<and> started q k @ work_list c = acc \<and> (pc = Worker_runs \<longleftrightarrow> work_current c \<noteq> None) \<and>
           (case pc of
              Worker_blocked \<Rightarrow>
                waiters k s = [worker c] \<and> sem_count (sems k s) = 0 \<and> length (work_list c) = n \<or>
                waiters k s = [] \<and> blk_state (tasks k (worker c)) = BLK_FINISH \<and> length (work_list c) = Suc m
            | Worker_got ret \<Rightarrow> ret = RHINO_SUCCESS \<and> waiters k s = [] \<and> length (work_list c) = Suc m
            | _ \<Rightarrow> waiters k s = [] \<and> length (work_list c) = m))"

text \<open>The invariant of a work queue without the part on the semaphore.\<close>

lemma wq_invD:
  assumes "wq_inv q (k, pc, acc, n)"
  shows "sys_inv k" "obj_type (objs k (wq_sem (workqueues k q))) = RHINO_SEM_OBJ_TYPE" "distinct (work_list (workqueues k q))"
    "\<forall>w \<in> set (work_list (workqueues k q)). work_exit (works k w) = 1" "length (work_list (workqueues k q)) \<le> 2 ^ 28"
    "started q k @ work_list (workqueues k q) = acc" "pc = Worker_runs \<longleftrightarrow> work_current (workqueues k q) \<noteq> None"
  using assms by (simp_all add: wq_inv_def Let_def)

lemma enqueue_facts:
  fixes k :: "'a wkernel_scheme"
  assumes "w \<notin> set (work_list (workqueues k q))"
  shows "work_list (workqueues (work_enqueue q w k) q) = work_list (workqueues k q) @ [w]" "worker (workqueues (work_enqueue q w k) q) = worker (workqueues k q)"
    "wq_sem (workqueues (work_enqueue q w k) q) = wq_sem (workqueues k q)" "work_current (workqueues (work_enqueue q w k) q) = work_current (workqueues k q)"
    "sys_inv (work_enqueue q w k) = sys_inv k" "tasks (work_enqueue q w k) = tasks k" "objs (work_enqueue q w k) = objs k" "sems (work_enqueue q w k) = sems k"
    "works (work_enqueue q w k) = (works k)(w := (works k w)\<lparr>wq := Some q, work_exit := 1\<rparr>)" "started q (work_enqueue q w k) = started q k"
  using assms by (simp_all add: work_enqueue_def started_def remove1_idem)

text \<open>Accepting a work keeps the invariant, and so does giving the semaphore for it.\<close>

lemma post_inv:
  assumes "wq_inv q (k, pc, acc, n)" and "length (work_list (workqueues k q)) < 2 ^ 28" and "work_exit (works k w) \<noteq> 1"
  shows "wq_inv q (work_enqueue q w k, pc, acc @ [w], Suc n)"
proof -
  have w: "w \<notin> set (work_list (workqueues k q))" using wq_invD(4) [OF assms(1)] assms(3) by blast
  show ?thesis using assms(1,2) w by (auto simp: wq_inv_def Let_def enqueue_facts [OF w] split: worker_pc.splits)
qed

lemma give_inv:
  assumes "wq_inv q (k, pc, acc, Suc n)"
  shows "\<exists>k'. krhino_sem_give (Some (wq_sem (workqueues k q))) k = (RHINO_SUCCESS, k') \<and> wq_inv q (k', pc, acc, n) \<and> kernel.more k' = kernel.more k"
proof -
  let ?c = "workqueues k q" let ?s = "wq_sem (workqueues k q)"
  note i = wq_invD [OF assms]
  show ?thesis
  proof (cases "pc = Worker_blocked \<and> waiters k ?s \<noteq> []")
    case True
    then have b: "waiters k ?s = [worker ?c]" "sem_count (sems k ?s) = 0" "length (work_list ?c) = Suc n" using assms by (auto simp: wq_inv_def Let_def)
    obtain k' where k': "krhino_sem_give (Some ?s) k = (RHINO_SUCCESS, k')" "sys_inv k'" "waiters k' ?s = []" "blk_state (tasks k' (worker ?c)) = BLK_FINISH"
      "sems k' = sems k" "obj_type (objs k' ?s) = RHINO_SEM_OBJ_TYPE" "kernel.more k' = kernel.more k"
      using give_wake [OF i(1,2) b(1)] by blast
    have "wq_inv q (k', pc, acc, n)" using i True b k' wk_more [OF k'(7)] by (simp add: wq_inv_def Let_def started_def)
    then show ?thesis using k'(1,7) by blast
  next
    case False
    then have b: "waiters k ?s = []" "unat (sem_count (sems k ?s)) < 2 ^ 32 - 1" using assms i(5) by (auto simp: wq_inv_def Let_def split: worker_pc.splits)
    obtain k' where k': "krhino_sem_give (Some ?s) k = (RHINO_SUCCESS, k')" "sys_inv k'" "tasks k' = tasks k" "objs k' = objs k"
      "unat (sem_count (sems k' ?s)) = Suc (unat (sem_count (sems k ?s)))" "kernel.more k' = kernel.more k"
      using give_count [OF i(1,2) b] by blast
    have "wq_inv q (k', pc, acc, n)" using assms False k' wk_more [OF k'(6)] by (auto simp: wq_inv_def Let_def started_def split: worker_pc.splits)
    then show ?thesis using k'(1,6) by blast
  qed
qed

text \<open>The worker takes the first work.\<close>

lemma begin_inv:
  fixes k :: "'a wkernel_scheme"
  assumes "wq_inv q (k, Worker_got ret, acc, n)"
  shows "wq_inv q (worker_begin ret q k, Worker_runs, acc, n)"
proof -
  note i = wq_invD [OF assms]
  have g: "ret = RHINO_SUCCESS" "waiters k (wq_sem (workqueues k q)) = []"
    "length (work_list (workqueues k q)) = Suc (unat (sem_count (sems k (wq_sem (workqueues k q)))) + n)"
    using assms by (simp_all add: wq_inv_def Let_def)
  obtain w ws where l: "work_list (workqueues k q) = w # ws" using g(3) by (cases "work_list (workqueues k q)") auto
  let ?b = "worker_begin ret q k"
  have b: "sys_inv ?b = sys_inv k" "tasks ?b = tasks k" "objs ?b = objs k" "sems ?b = sems k"
    "work_list (workqueues ?b q) = ws" "work_current (workqueues ?b q) = Some w" "wq_sem (workqueues ?b q) = wq_sem (workqueues k q)"
    "\<And>v. v \<noteq> w \<Longrightarrow> works ?b v = works k v" "started q ?b = started q k @ [w]"
    using g(1) by (simp_all add: worker_begin_def l Let_def started_def)
  have w: "w \<notin> set ws" using i(3) l by simp
  have "work_exit (works ?b v) = 1" if v: "v \<in> set ws" for v
  proof -
    have "v \<noteq> w" using v w by blast
    then show ?thesis using b(8) [of v] i(4) l v by simp
  qed
  then show ?thesis using i(1-3,5,6) g l b(1-7,9) unfolding wq_inv_def by (simp add: Let_def)
qed

lemma take_inv:
  assumes "wq_inv q (k, Worker_take, acc, n)" and "g_active_task k \<noteq> g_idle_task" and "g_intrpt_nested_level k = 0" and "g_sched_lock k = 0"
    and "krhino_sem_take (Some (wq_sem (workqueues k q))) RHINO_WAIT_FOREVER k = (Some ret, k')"
  shows "wq_inv q (k', Worker_got ret, acc, n)"
proof -
  let ?s = "wq_sem (workqueues k q)"
  note i = wq_invD [OF assms(1)]
  have e: "sem_count (sems k ?s) > 0" "ret = RHINO_SUCCESS" "k' = upd_sem ?s (\<lambda>c. c\<lparr>sem_count := sem_count c - 1\<rparr>) k"
    using assms(3-5) i(2) by (auto simp: krhino_sem_take_def split: if_splits)
  have si: "sys_inv k'" using sem_take_inv [OF i(1) assms(2), of "Some ?s" RHINO_WAIT_FOREVER] assms(5) by simp
  have "unat (sem_count (sems k ?s)) \<noteq> 0" using e(1) by (simp add: unat_eq_0 word_gt_0)
  then have "unat (sem_count (sems k ?s)) = Suc (unat (sem_count (sems k' ?s)))" using e(1,3) by (simp add: unat_minus_one word_gt_0)
  then show ?thesis using assms(1) si e(2,3) by (simp add: wq_inv_def Let_def started_def)
qed

lemma block_inv:
  assumes "wq_inv q (k, Worker_take, acc, n)" and "g_active_task k = worker (workqueues k q)" and "g_active_task k \<noteq> g_idle_task"
    and "g_intrpt_nested_level k = 0" and "g_sched_lock k = 0"
    and "krhino_sem_take (Some (wq_sem (workqueues k q))) RHINO_WAIT_FOREVER k = (None, k')"
  shows "wq_inv q (k', Worker_blocked, acc, n)"
proof -
  let ?s = "wq_sem (workqueues k q)"
  note i = wq_invD [OF assms(1)]
  have wt: "waiters k ?s = []" "length (work_list (workqueues k q)) = unat (sem_count (sems k ?s)) + n" using assms(1) by (simp_all add: wq_inv_def Let_def)
  have e: "sem_count (sems k ?s) = 0" "k' = block_on ?s RHINO_WAIT_FOREVER k"
    using assms(4-6) i(2) by (auto simp: krhino_sem_take_def block_on_def word_gt_0 split: if_splits)
  have si: "sys_inv k'" using sem_take_inv [OF i(1) assms(3), of "Some ?s" RHINO_WAIT_FOREVER] assms(6) by simp
  have m: "kernel.more k' = kernel.more k" by (simp add: e(2))
  have "waiters k' ?s = [g_active_task k]" "sems k' = sems k" "obj_type (objs k' ?s) = RHINO_SEM_OBJ_TYPE"
    using i(2) wt(1) by (simp_all add: e(2) block_on_def pend_to_blk_obj_def Let_def pend_list_add_def tick_list_insert_def tick_list_pri_insert_def)
  then show ?thesis using si i wt(2) assms(2) e(1) wk_more [OF m] by (simp add: wq_inv_def Let_def started_def)
qed

lemma resume_inv:
  assumes "wq_inv q (k, Worker_blocked, acc, n)" and "g_active_task k = worker (workqueues k q)" and "g_intrpt_nested_level k = 0" and "blk_call_return k = (ret, k')"
  shows "wq_inv q (k', Worker_got ret, acc, n)"
proof -
  let ?c = "workqueues k q" let ?s = "wq_sem (workqueues k q)"
  note i = wq_invD [OF assms(1)]
  have "state_of k (g_active_task k) = K_RDY" using i(1) assms(3) sched_okD(1) by (auto simp: sys_inv_def)
  then have "waiters k ?s \<noteq> [worker ?c]" using waiter_pending [of k "worker ?c" ?s] kernel_invD(2) [of k] i(1) assms(2) by (auto simp: sys_inv_def)
  then have b: "waiters k ?s = []" "blk_state (tasks k (worker ?c)) = BLK_FINISH" "length (work_list ?c) = Suc (unat (sem_count (sems k ?s)) + n)"
    using assms(1) by (auto simp: wq_inv_def Let_def)
  then have r: "ret = RHINO_SUCCESS" "k' = k" using assms(2,4) by (simp_all add: blk_call_return_def pend_state_end_proc_def)
  show ?thesis unfolding r using i b by (simp add: wq_inv_def Let_def)
qed

lemma wq_step_inv:
  assumes "wq_step q st st'" and "wq_inv q st"
  shows "wq_inv q st'"
  using assms
proof (induction rule: wq_step.induct)
  case (refuse w k ret k' pc acc n)
  then show ?case by (auto simp: work_post_def split: if_splits)
next
  case (post w k k' pc acc n)
  then have "k' = work_enqueue q w k" "work_exit (works k w) \<noteq> 1" by (auto simp: work_post_def split: if_splits)
  then show ?case using post_inv [OF post.prems post(2)] by simp
next
  case (give k ret k' pc acc n)
  then show ?case using give_inv [OF give.prems] by auto
next
  case (finish k acc n)
  then show ?case by (simp add: wq_inv_def Let_def worker_end_def started_def)
next
  case (others k k' pc acc n)
  then show ?case by (auto simp: wq_inv_def Let_def wq_others_def split: worker_pc.splits)
qed (auto intro: take_inv block_inv resume_inv begin_inv)

lemma wq_steps_inv:
  assumes "(wq_step q)\<^sup>*\<^sup>* st st'" and "wq_inv q st"
  shows "wq_inv q st'"
  using assms by (induction rule: rtranclp_induct) (auto intro: wq_step_inv)

text \<open>A call of \<open>krhino_work_run\<close> for a work without delay is one of these two sequences of steps.\<close>

lemma work_run_steps:
  assumes "krhino_work_run (Some q) (Some w) k = (ret, k')" and "dly (works k w) = 0" and "length (work_list (workqueues k q)) < 2 ^ 28"
    and "wq_inv q (k, pc, acc, n)"
  shows "(wq_step q)\<^sup>*\<^sup>* (k, pc, acc, n) (k', pc, if ret = RHINO_SUCCESS then acc @ [w] else acc, n)"
proof (cases "work_current (workqueues k q) = Some w \<or> work_exit (works k w) = 1")
  case True
  then have "work_post q w k = (ret, k')" "ret \<noteq> RHINO_SUCCESS" using assms(1,2) by (auto simp: krhino_work_run_def work_post_def split: if_splits)
  then show ?thesis using wq_step.refuse [of q w k ret k' pc acc n] by auto
next
  case False
  let ?k = "work_enqueue q w k"
  have p: "work_post q w k = (RHINO_SUCCESS, ?k)" using False by (simp add: work_post_def)
  then have g: "krhino_sem_give (Some (wq_sem (workqueues ?k q))) ?k = (ret, k')" using assms(1,2) by (simp add: krhino_work_run_def)
  have "ret = RHINO_SUCCESS" using give_inv [OF post_inv [OF assms(4,3)], of w] False g by auto
  then show ?thesis using wq_step.post [OF p assms(3), of pc acc n] wq_step.give [OF g, of pc "acc @ [w]" n] by auto
qed

section \<open>Creation\<close>

text \<open>A new work queue, and what else the call leaves as it was.\<close>

lemma workqueue_create_inv:
  fixes k :: "'a wkernel_scheme"
  assumes "sys_inv k" and "g_intrpt_nested_level k = 0" and "q \<notin> set (g_workqueue_list_head k)"
    and "obj_type (objs k (wq_sem (workqueues k q))) = RHINO_OBJ_TYPE_NONE" and "\<not> live (state_of k (worker (workqueues k q)))"
    and "pri < RHINO_IDLE_PRI" and "stack_size \<noteq> 0"
  shows "\<exists>k'. krhino_workqueue_create f (Some q) (Some nm) pri False stack_size k = (RHINO_SUCCESS, k') \<and> wq_inv q (k', Worker_take, started q k, 0) \<and>
    kernel.more k' = kernel.more (upd_wq q (\<lambda>c. c\<lparr>work_list := [], work_current := None, wq_name := nm\<rparr>) k\<lparr>g_workqueue_list_head := g_workqueue_list_head k @ [q]\<rparr>) \<and>
    (\<forall>u. u \<noteq> worker (workqueues k q) \<longrightarrow> tasks k' u = tasks k u) \<and> (\<forall>b. b \<noteq> wq_sem (workqueues k q) \<longrightarrow> objs k' b = objs k b \<and> sems k' b = sems k b) \<and>
    g_sys_stat k' = g_sys_stat k \<and> g_sched_lock k' = g_sched_lock k \<and> g_intrpt_nested_level k' = 0 \<and> state_of k' (worker (workqueues k q)) = K_RDY \<and>
    prio_of k' (worker (workqueues k q)) = pri \<and> g_res_list k' = g_res_list k"
proof -
  let ?s = "wq_sem (workqueues k q)" and ?t = "worker (workqueues k q)"
  define k1 where "k1 = upd_wq q (\<lambda>c. c\<lparr>work_list := [], work_current := None, wq_name := nm\<rparr>) k"
  define k2 where "k2 = snd (krhino_sem_create (Some ?s) (Some ''WORKQUEUE-SEM'') 0 k1)"
  have i1: "sys_inv k1" "g_intrpt_nested_level k1 = 0" "tasks k1 = tasks k" "objs k1 = objs k" "sems k1 = sems k"
    "wq_sem (workqueues k1 q) = ?s" "worker (workqueues k1 q) = ?t" "env k1 = env (k\<lparr>kernel.more := kernel.more k1\<rparr>)"
    using assms(1-2) by (simp_all add: k1_def) (simp_all add: upd_wq_def env_def)
  have c1: "krhino_sem_create (Some ?s) (Some ''WORKQUEUE-SEM'') 0 k1 = (RHINO_SUCCESS, k2)"
    by (simp add: k2_def krhino_sem_create_def sem_create_def Let_def)
  have i2: "sys_inv k2" using sem_create_inv [OF i1(1), of "Some ?s"] assms(4) i1(4) by (simp add: k2_def krhino_sem_create_def)
  have f2: "g_intrpt_nested_level k2 = 0" "tasks k2 = tasks k" "obj_type (objs k2 ?s) = RHINO_SEM_OBJ_TYPE"
    "waiters k2 ?s = []" "sem_count (sems k2 ?s) = 0" "kernel.more k2 = kernel.more k1" "\<forall>b. b \<noteq> ?s \<longrightarrow> objs k2 b = objs k b \<and> sems k2 b = sems k b"
    "g_sys_stat k2 = g_sys_stat k" "g_sched_lock k2 = g_sched_lock k" "g_res_list k2 = g_res_list k"
    using i1 by (simp_all add: k2_def krhino_sem_create_def sem_create_def Let_def env_def)
  have nl: "\<not> live (state_of k2 ?t)" using assms(5) f2(2) by simp
  obtain k3 where k3: "krhino_task_create f (Some ?t) (Some nm) pri False stack_size False 0 k2 = (RHINO_SUCCESS, k3)" "sys_inv k3"
    "tasks k3 = (tasks k)(?t := ktask_new f nm pri stack_size 0 K_OBJ_STATIC_ALLOC)" "objs k3 = objs k2" "env k3 = env (k2\<lparr>task_head := task_head k2 @ [?t]\<rparr>)"
    using task_create_quiet_sys [OF i2 nl assms(6,7) f2(1), of f nm] f2(2) by auto
  define k4 where "k4 = k3\<lparr>g_workqueue_list_head := g_workqueue_list_head k3 @ [q]\<rparr>"
  have i4: "sys_inv k4" unfolding k4_def using k3(2) by (subst sys_inv_view [of _ k3]) (simp_all add: view_def ticks_left_def fun_eq_iff)
  have m3: "kernel.more k3 = kernel.more k1" using k3(5) f2(6) by (simp add: env_def)
  have l3: "g_workqueue_list_head k3 = g_workqueue_list_head k1" using m3 by (cases k3; cases k1; simp)
  have m4: "kernel.more k4 = kernel.more (k1\<lparr>g_workqueue_list_head := g_workqueue_list_head k1 @ [q]\<rparr>)"
    unfolding k4_def l3 using m3 by (cases k3; cases k1; simp)
  have f4: "state_of k4 ?t = K_SUSPENDED" "suspend_count (tasks k4 ?t) = 1" "prio_of k4 ?t = pri" "objs k4 = objs k2" "sems k4 = sems k2"
    "g_sys_stat k4 = g_sys_stat k2" "g_sched_lock k4 = g_sched_lock k2" "g_res_list k4 = g_res_list k2" "g_intrpt_nested_level k4 = 0"
    "\<forall>u. u \<noteq> ?t \<longrightarrow> tasks k4 u = tasks k u"
    using k3(3-5) f2(1) by (simp_all add: k4_def ktask_new_fields env_def)
  let ?r = "task_resume ?t k4"
  have r: "fst ?r = RHINO_SUCCESS" using f4(1) by (simp add: task_resume_def Let_def)
  have ri: "sys_inv (snd ?r)" by (rule task_resume_inv [OF i4])
  have fr: "objs (snd ?r) = objs k2" "sems (snd ?r) = sems k2" "kernel.more (snd ?r) = kernel.more k4"
    "\<forall>u. u \<noteq> ?t \<longrightarrow> tasks (snd ?r) u = tasks k u" "g_sys_stat (snd ?r) = g_sys_stat k" "g_sched_lock (snd ?r) = g_sched_lock k"
    "g_intrpt_nested_level (snd ?r) = 0" "state_of (snd ?r) ?t = K_RDY" "prio_of (snd ?r) ?t = pri" "g_res_list (snd ?r) = g_res_list k"
    using f4 f2(8-10) by (simp_all add: task_resume_def Let_def)
  have wk: "workqueues (snd ?r) = workqueues k1" "work_log (snd ?r) = work_log k1" using wk_more(2,3) [OF fr(3)] wk_more(2,3) [OF m4] by simp_all
  have "krhino_workqueue_create f (Some q) (Some nm) pri False stack_size k = ?r"
    using assms(3,6,7) c1 k3(1) i1(6,7) by (simp add: krhino_workqueue_create_def workqueue_is_exist_def k1_def [symmetric] k4_def [symmetric] krhino_task_resume_def Let_def)
  moreover have "wq_inv q (snd ?r, Worker_take, started q k, 0)"
    using ri fr(1,2) f2(3-5) wk i1(6) by (simp add: wq_inv_def started_def) (simp add: k1_def)
  moreover have "kernel.more (snd ?r) = kernel.more (upd_wq q (\<lambda>c. c\<lparr>work_list := [], work_current := None, wq_name := nm\<rparr>) k\<lparr>g_workqueue_list_head := g_workqueue_list_head k @ [q]\<rparr>)"
    using fr(3) m4 by (simp add: k1_def) (simp add: upd_wq_def)
  ultimately show ?thesis using r fr f2(7) by (intro exI [of _ "snd ?r"]) (simp add: prod_eq_iff)
qed

section \<open>Properties\<close>

text \<open>A system with the work queue 30, whose worker is task 5 and whose semaphore is object 20.\<close>

definition work_zero :: kwork_t where
  "work_zero = \<lparr>handle = 0, work_arg = 0, dly = 0, work_timer = None, wq = None, work_exit = 0\<rparr>"

definition wq_start :: wkernel where
  "wq_start = tkernel.extend timer_ready
     (wkernel.fields (\<lambda>_. work_zero) (\<lambda>_. \<lparr>work_list = [], work_current = None, wq_name = [], worker = 5, wq_sem = 20\<rparr>) [] (\<lambda>_. None) [])"

lemma timer_ready_facts:
  "g_sys_stat timer_ready = RHINO_RUNNING" "g_intrpt_nested_level timer_ready = 0" "obj_type (objs timer_ready 20) = RHINO_OBJ_TYPE_NONE"
  "state_of timer_ready 5 = K_SEED"
  by code_simp+

lemma wq_start_facts:
  "sys_inv wq_start" "g_sys_stat wq_start = RHINO_RUNNING" "g_intrpt_nested_level wq_start = 0" "obj_type (objs wq_start 20) = RHINO_OBJ_TYPE_NONE"
  "state_of wq_start 5 = K_SEED" "g_workqueue_list_head wq_start = []" "workqueues wq_start 30 = \<lparr>work_list = [], work_current = None, wq_name = [], worker = 5, wq_sem = 20\<rparr>"
  "works wq_start = (\<lambda>_. work_zero)" "started 30 wq_start = []"
proof -
  have "sys_inv wq_start = sys_inv timer_ready"
    by (rule sys_inv_view) (simp_all add: wq_start_def tkernel.defs view_def ticks_left_def fun_eq_iff)
  then show "sys_inv wq_start" using timer_ready_inv(1) by simp
qed (use timer_ready_facts in \<open>simp_all add: wq_start_def tkernel.defs wkernel.defs started_def\<close>)

lemma sample_queue: "\<exists>k. krhino_workqueue_create id (Some 30) (Some ''w'') 12 False 64 wq_start = (RHINO_SUCCESS, k) \<and> wq_inv 30 (k, Worker_take, [], 0) \<and> works k = works wq_start"
proof -
  obtain k where "krhino_workqueue_create id (Some 30) (Some ''w'') 12 False 64 wq_start = (RHINO_SUCCESS, k)" "wq_inv 30 (k, Worker_take, [], 0)"
    "kernel.more k = kernel.more (upd_wq 30 (\<lambda>c. c\<lparr>work_list := [], work_current := None, wq_name := ''w''\<rparr>) wq_start\<lparr>g_workqueue_list_head := g_workqueue_list_head wq_start @ [30]\<rparr>)"
    using workqueue_create_inv [of wq_start 30 12 64 id "''w''"] wq_start_facts by auto
  then show ?thesis using wk_more(1) [of k] by auto
qed

text \<open>Creating a work queue with a priority above the idle task succeeds: the worker is ready to take its first work, and the semaphore counts none.\<close>

theorem workqueue_create_ready:
  assumes "sys_inv k" and "g_intrpt_nested_level k = 0" and "q \<notin> set (g_workqueue_list_head k)"
    and "obj_type (objs k (wq_sem (workqueues k q))) = RHINO_OBJ_TYPE_NONE" and "\<not> live (state_of k (worker (workqueues k q)))"
    and "pri < RHINO_IDLE_PRI" and "stack_size \<noteq> 0"
  shows "\<exists>k'. krhino_workqueue_create f (Some q) (Some nm) pri False stack_size k = (RHINO_SUCCESS, k') \<and> wq_inv q (k', Worker_take, started q k, 0)"
  using workqueue_create_inv [OF assms] by blast

theorem workqueue_create_ready_witness:
  "\<exists>k. krhino_workqueue_create id (Some 30) (Some ''w'') 12 False 64 wq_start = (RHINO_SUCCESS, k) \<and> wq_inv 30 (k, Worker_take, [], 0)"
  using workqueue_create_ready [of wq_start 30 12 64 id "''w''"] wq_start_facts by simp

text \<open>C20: The works that a queue accepts, from tasks or from timers, are executed once each and in the order in which they were accepted, however the critical sections of
  the callers, the worker and the rest of the system interleave: those whose handlers were called, followed by those in the list, are exactly the accepted ones.  The
  worker never finds its list empty.  Once no caller is left between its critical section and \<open>krhino_sem_give\<close>, a work in the list means that the worker is not waiting,
  and that it will not block when it comes to \<open>krhino_sem_take\<close>.\<close>

theorem works_run_in_order:
  assumes "(wq_step q)\<^sup>*\<^sup>* (k, pc, acc, n) (k', pc', acc', n')" and "wq_inv q (k, pc, acc, n)"
  shows "started q k' @ work_list (workqueues k' q) = acc' \<and> distinct (work_list (workqueues k' q)) \<and> \<not> k_fault k' \<and>
    (n' = 0 \<and> work_list (workqueues k' q) \<noteq> [] \<longrightarrow> waiters k' (wq_sem (workqueues k' q)) = [] \<and>
      (pc' = Worker_take \<longrightarrow> sem_count (sems k' (wq_sem (workqueues k' q))) > 0))"
proof -
  have i: "wq_inv q (k', pc', acc', n')" by (rule wq_steps_inv [OF assms])
  then have "\<not> k_fault k'" by (auto simp: wq_inv_def Let_def sys_inv_def kernel_inv_def)
  then show ?thesis using i by (auto simp: wq_inv_def Let_def word_gt_0 split: worker_pc.splits)
qed

lemma sample_run:
  "\<exists>(k :: wkernel) k'. wq_inv 30 (k, Worker_take, [], 0) \<and> krhino_work_run (Some 30) (Some 40) k = (RHINO_SUCCESS, k') \<and>
    (wq_step 30)\<^sup>*\<^sup>* (k, Worker_take, [], 0) (k', Worker_take, [40], 0)"
proof -
  obtain k :: wkernel where k: "wq_inv 30 (k, Worker_take, [], 0)" "works k = works wq_start" using sample_queue by blast
  from k(2) have w: "dly (works k 40) = 0" "work_exit (works k 40) \<noteq> 1" using wq_start_facts(8) by (simp_all add: work_zero_def)
  have l: "work_current (workqueues k 30) = None" "length (work_list (workqueues k 30)) < 2 ^ 28" using wq_invD(6,7) [OF k(1)] by auto
  obtain k' where r: "krhino_work_run (Some 30) (Some 40) k = (RHINO_SUCCESS, k')"
    using give_inv [OF post_inv [OF k(1) l(2) w(2)]] l(1) w by (auto simp: krhino_work_run_def work_post_def)
  then show ?thesis using k(1) work_run_steps [OF r w(1) l(2) k(1)] by auto
qed

theorem works_run_in_order_witness:
  "\<exists>(k :: wkernel) k'. wq_inv 30 (k, Worker_take, [], 0) \<and> krhino_work_run (Some 30) (Some 40) k = (RHINO_SUCCESS, k') \<and> started 30 k' @ work_list (workqueues k' 30) = [40]"
proof -
  obtain k k' :: wkernel where k: "wq_inv 30 (k, Worker_take, [], 0)" "krhino_work_run (Some 30) (Some 40) k = (RHINO_SUCCESS, k')"
    "(wq_step 30)\<^sup>*\<^sup>* (k, Worker_take, [], 0) (k', Worker_take, [40], 0)"
    using sample_run by blast
  from works_run_in_order [OF k(3,1)] show ?thesis using k(1,2) by blast
qed

text \<open>C39: What \<open>krhino_work_cancel\<close> does not do: a work in the list is not taken out (the call is refused), and for a work that has run once with a delay and was
  scheduled again the call reports success but leaves the timer alone, so the work still enters the list when the timer fires.\<close>

theorem work_cancel_limits:
  assumes "wq_inv q (k, pc, acc, n)" and "wq (works k w) = Some q" and "timer_priv k tm = Some w" and "unat arg = q"
    and "length (work_list (workqueues k q)) < 2 ^ 28"
  shows "(w \<in> set (work_list (workqueues k q)) \<longrightarrow> fst (krhino_work_cancel (Some w) k) \<noteq> RHINO_SUCCESS \<and> snd (krhino_work_cancel (Some w) k) = k) \<and>
    (work_current (workqueues k q) \<noteq> Some w \<and> work_exit (works k w) \<noteq> 1 \<longrightarrow>
      (\<exists>k'. krhino_work_cancel (Some w) k = (RHINO_SUCCESS, k') \<and> timers k' = timers k \<and> g_timer_head k' = g_timer_head k \<and> queues k' = queues k \<and>
        work_list (workqueues (work_timer_cb tm arg k') q) = work_list (workqueues k q) @ [w]))"
proof (intro conjI impI)
  assume "w \<in> set (work_list (workqueues k q))"
  then have "work_exit (works k w) = 1" using assms(1) by (simp add: wq_inv_def Let_def)
  then show "fst (krhino_work_cancel (Some w) k) \<noteq> RHINO_SUCCESS" "snd (krhino_work_cancel (Some w) k) = k" using assms(2) by (simp_all add: krhino_work_cancel_def)
next
  assume a: "work_current (workqueues k q) \<noteq> Some w \<and> work_exit (works k w) \<noteq> 1"
  let ?k = "upd_work w (\<lambda>c. c\<lparr>wq := None\<rparr>) (work_unlink w k)"
  have c: "krhino_work_cancel (Some w) k = (RHINO_SUCCESS, ?k)" using a assms(2) by (simp add: krhino_work_cancel_def)
  have nw: "w \<notin> set (work_list (workqueues k q))" using a wq_invD(4) [OF assms(1)] by blast
  have l: "work_list (workqueues ?k q) = work_list (workqueues k q)" "length (work_list (workqueues ?k q)) < 2 ^ 28" using nw assms(5) by (simp_all add: remove1_idem)
  have i: "wq_inv q (?k, pc, acc, n)" using assms(1) nw by (simp add: wq_inv_def Let_def started_def remove1_idem split: worker_pc.splits)
  have e: "work_exit (works ?k w) \<noteq> 1" "timer_priv ?k tm = Some w" "work_current (workqueues ?k q) \<noteq> Some w"
    using a assms(3) by (simp_all) (simp add: upd_work_def work_unlink_def)
  obtain k' where k': "krhino_sem_give (Some (wq_sem (workqueues (work_enqueue q w ?k) q))) (work_enqueue q w ?k) = (RHINO_SUCCESS, k')"
      "kernel.more k' = kernel.more (work_enqueue q w ?k)"
    using give_inv [OF post_inv [OF i l(2) e(1)]] by blast
  have "work_post q w ?k = (RHINO_SUCCESS, work_enqueue q w ?k)" using e by (simp only: work_post_def) simp
  then have "work_timer_cb tm arg ?k = k'" using k'(1) e(2) assms(4) by (simp add: work_timer_cb_def Let_def)
  moreover have "work_list (workqueues k' q) = work_list (workqueues k q) @ [w]"
    using wk_more(2) [OF k'(2)] enqueue_facts(1) [of w ?k q] nw l(1) by simp
  ultimately show "\<exists>k'. krhino_work_cancel (Some w) k = (RHINO_SUCCESS, k') \<and> timers k' = timers k \<and> g_timer_head k' = g_timer_head k \<and> queues k' = queues k \<and>
        work_list (workqueues (work_timer_cb tm arg k') q) = work_list (workqueues k q) @ [w]"
    using c by (intro exI [of _ ?k]) (simp add: upd_work_def work_unlink_def)
qed

text \<open>Work 41 has run with a delay and was scheduled again: its timer 50 is started with the queue 30 as argument.\<close>

theorem work_cancel_limits_witness:
  "\<exists>k :: wkernel. wq_inv 30 (k, Worker_take, [], 0) \<and> wq (works k 41) = Some 30 \<and> timer_priv k 50 = Some 41 \<and>
    (\<exists>k'. krhino_work_cancel (Some 41) k = (RHINO_SUCCESS, k') \<and> timers k' = timers k \<and> work_list (workqueues (work_timer_cb 50 30 k') 30) = [41])"
proof -
  obtain k0 :: wkernel where k0: "wq_inv 30 (k0, Worker_take, [], 0)" "works k0 = works wq_start" using sample_queue by blast
  define k where "k = upd_work 41 (\<lambda>c. c\<lparr>dly := 5, work_timer := Some 50, wq := Some 30\<rparr>) (k0\<lparr>timer_priv := (timer_priv k0)(50 := Some 41)\<rparr>)"
  have "sys_inv k = sys_inv k0" by (rule sys_inv_view) (simp_all add: k_def upd_work_def view_def ticks_left_def fun_eq_iff)
  then have k: "wq_inv 30 (k, Worker_take, [], 0)" "wq (works k 41) = Some 30" "timer_priv k 50 = Some 41" "work_exit (works k 41) \<noteq> 1"
    using k0 wq_start_facts(8) by (auto simp: k_def upd_work_def wq_inv_def Let_def started_def work_zero_def)
  have l: "work_list (workqueues k 30) = []" "work_current (workqueues k 30) = None" using wq_invD(6,7) [OF k(1)] by auto
  from work_cancel_limits [OF k(1-3), of 30] show ?thesis using k l by auto
qed

end
