(* ===== verification/Mm_Search.thy ===== *)
theory Mm_Search
  imports Bitmap
begin

text \<open>
  The size classes of the heap allocator \<^verbatim>\<open>kernel/rhino/core/k_mm.c\<close>: \<open>bitmap_search\<close> maps a size to a pair of a first-level
  and a second-level index, \<open>find_last_bit\<close> finds the least set bit.  Sizes below 128 have a class per
  multiple of four; above, every power of two is divided into 32 classes.  The theory shows that a class
  is an interval of sizes, that the classes are ordered like the sizes, and that a block of the class
  found for a request, or of a later class, is large enough.
\<close>

section \<open>Operations\<close>

datatype (plugins only: code size) SEARCH_ACTION = ACTION_INSERT | ACTION_GET

text \<open>The constants of \<^verbatim>\<open>k_mm.h\<close> with \<open>RHINO_CONFIG_MM_MAXMSIZEBIT\<close> 19.\<close>

abbreviation (input) FLT_SIZE :: nat where "FLT_SIZE \<equiv> 13"
abbreviation (input) SLT_SIZE :: nat where "SLT_SIZE \<equiv> 32"

text \<open>
  \<open>31 - krhino_find_first_bit(&w)\<close>.  The search would run past the variable for \<open>w = 0\<close>, which does not
  happen for the multiples of four that the allocator passes.
\<close>

definition first_bit :: "u32 \<Rightarrow> u32" where
  "first_bit w = 31 - of_nat (case krhino_find_first_bit [w] of None \<Rightarrow> 32 | Some n \<Rightarrow> n)"

definition bitmap_search :: "u32 \<Rightarrow> SEARCH_ACTION \<Rightarrow> kstat \<times> nat \<times> nat" where
  "bitmap_search sz action =
     (let (flt, slt) =
            (if sz < 128 then (0, drop_bit 2 sz)
             else
               let firstbit = first_bit sz;
                   (tmp_size, firstbit) =
                     (if action = ACTION_GET
                      then let padding_size = push_bit (unat (firstbit - 5)) 1 - 1; tmp_size = sz + padding_size
                           in (tmp_size, first_bit tmp_size)
                      else (sz, firstbit));
                   flt = firstbit - 7 + 1;
                   tmp_size = tmp_size - push_bit (unat firstbit) 1
               in (flt, drop_bit (unat (firstbit - 5)) tmp_size))
      in (if flt \<ge> 13 \<or> slt \<ge> 32 then RHINO_MM_FREE_ADDR_ERR else RHINO_SUCCESS, unat flt, unat slt))"

definition find_last_bit :: "u32 \<Rightarrow> nat" where
  "find_last_bit bitmap =
     (if bitmap = 0 then 0
      else 31 - (case krhino_find_first_bit [bitmap AND - bitmap] of None \<Rightarrow> 32 | Some n \<Rightarrow> n))"

section \<open>First and last bit\<close>

lemma unat_ge_bit:
  assumes "bit (w :: u32) k"
  shows "2 ^ k \<le> unat w"
proof (rule ccontr)
  assume "\<not> ?thesis"
  then have "\<not> bit (unat w) k" by (simp add: bit_iff_odd)
  then show False using assms by (simp add: bit_unsigned_iff)
qed

lemma unat_less_bits:
  assumes "\<And>i. k < i \<Longrightarrow> i < 32 \<Longrightarrow> \<not> bit (w :: u32) i"
  shows "unat w < 2 ^ Suc k"
proof -
  have "take_bit (Suc k) w = w" using assms by (intro bit_word_eqI) (auto simp: bit_simps not_less_eq less_Suc_eq_le not_le [symmetric])
  then have "unat w = take_bit (Suc k) (unat w)" by (metis unsigned_take_bit_eq)
  then show ?thesis by (metis take_bit_nat_less_exp)
qed

lemma first_bit_spec:
  assumes "w \<noteq> 0"
  obtains k where "first_bit w = of_nat k" and "k < 32" and "2 ^ k \<le> unat w" and "unat w < 2 ^ Suc k"
proof -
  obtain n where n: "krhino_find_first_bit [w] = Some n"
    using find_first_bit_None [of "[w]"] first_set_exists [OF assms] by (force simp: bitmap_test_def first_set_def)
  then have b: "bitmap_test [w] n" "\<forall>m < n. \<not> bitmap_test [w] m" by (simp_all add: find_first_bit_Some)
  have lt: "n < 32" using b(1) by (simp add: bitmap_test_def)
  have "bit w (31 - n)" using b(1) lt by (simp add: bitmap_test_def)
  moreover have "\<not> bit w i" if "31 - n < i" "i < 32" for i
  proof -
    have "31 - i < n" using that lt by simp
    then have "\<not> bitmap_test [w] (31 - i)" using b(2) by blast
    then show ?thesis using that by (simp add: bitmap_test_def)
  qed
  moreover have "first_bit w = of_nat (31 - n)" using n lt by (simp add: first_bit_def of_nat_diff)
  ultimately show thesis using that [of "31 - n"] lt unat_ge_bit unat_less_bits by force
qed

text \<open>\<open>x & -x\<close> is the least set bit of \<open>x\<close>.\<close>

lemma and_uminus_odd:
  assumes "bit (u :: u32) 0"
  shows "u AND - u = 1"
proof -
  have "- u = NOT u + 1" by (simp add: minus_eq_not_plus_1)
  also have "\<dots> = NOT u OR 1"
    using assms by (intro disjunctive_add_eq_or bit_word_eqI) (auto simp: bit_simps)
  finally show ?thesis using assms by (intro bit_word_eqI) (auto simp: bit_simps)
qed

lemma and_uminus_least:
  assumes "bit (w :: u32) k" and "\<And>i. i < k \<Longrightarrow> \<not> bit w i"
  shows "w AND - w = push_bit k 1"
proof -
  let ?u = "drop_bit k w"
  have w: "w = push_bit k ?u" 
  proof (rule bit_word_eqI)
    fix n assume "n < LENGTH(32)"
    then show "bit w n = bit (push_bit k ?u) n" using assms(2) [of n] by (cases "k \<le> n") (simp_all add: bit_simps)
  qed
  then have "- w = push_bit k (- ?u)" by (metis minus_mult_left mult.commute push_bit_eq_mult)
  then have "w AND - w = push_bit k (?u AND - ?u)" using w by (metis push_bit_and)
  then show ?thesis using and_uminus_odd [of ?u] assms(1) by (simp add: bit_simps)
qed

lemma find_last_bit_spec:
  assumes "w \<noteq> 0"
  shows "bit w (find_last_bit w)" and "\<And>i. i < find_last_bit w \<Longrightarrow> \<not> bit w i" and "find_last_bit w < 32"
proof -
  obtain n where n: "bit w n" "\<forall>m < n. \<not> bit w m"
    using assms exists_least_iff [of "bit w"] bit_eq_iff [of w 0] by auto
  have lt: "n < 32" using n(1) bit_imp_le_length [of w n] by simp
  have "krhino_find_first_bit [push_bit n (1 :: u32)] = Some (31 - n)"
    using lt by (auto simp: find_first_bit_Some bitmap_test_def bit_simps)
  then have "find_last_bit w = n" using assms lt and_uminus_least [of w n] n by (simp add: find_last_bit_def)
  then show "bit w (find_last_bit w)" "\<And>i. i < find_last_bit w \<Longrightarrow> \<not> bit w i" "find_last_bit w < 32" using n lt by auto
qed

section \<open>Size classes\<close>

text \<open>The class of a size, and the least size of a class.\<close>

definition is_class :: "nat \<Rightarrow> nat \<Rightarrow> nat \<Rightarrow> bool" where
  "is_class s fl sl \<longleftrightarrow>
     (if s < 128 then fl = 0 \<and> sl = s div 4
      else 1 \<le> fl \<and> 2 ^ (fl + 6) \<le> s \<and> s < 2 ^ (fl + 7) \<and> sl = (s - 2 ^ (fl + 6)) div 2 ^ (fl + 1))"

definition class_lb :: "nat \<Rightarrow> nat \<Rightarrow> nat" where
  "class_lb fl sl = (if fl = 0 then 4 * sl else 2 ^ (fl + 6) + sl * 2 ^ (fl + 1))"

lemma class_bounds:
  assumes "is_class s fl sl"
  shows "sl < 32" and "class_lb fl sl \<le> s" and "s < class_lb fl sl + 2 ^ (if fl = 0 then 2 else fl + 1)"
proof -
  have "sl < 32 \<and> class_lb fl sl \<le> s \<and> s < class_lb fl sl + 2 ^ (if fl = 0 then 2 else fl + 1)"
  proof (cases "s < 128")
    case True
    then show ?thesis using assms by (auto simp: is_class_def class_lb_def)
  next
    case False
    let ?d = "(2 :: nat) ^ (fl + 1)" and ?r = "s - 2 ^ (fl + 6)"
    have c: "1 \<le> fl" "2 ^ (fl + 6) \<le> s" "s < 2 ^ (fl + 7)" "sl = ?r div ?d" using assms False by (simp_all add: is_class_def)
    have "?r < 32 * ?d" using c(2,3) by (simp add: power_add)
    then have "sl < 32" unfolding c(4) by (simp add: less_mult_imp_div_less)
    moreover have "sl * ?d \<le> ?r" "?r < sl * ?d + ?d" unfolding c(4)
      using div_times_less_eq_dividend [of ?r ?d] dividend_less_div_times [of ?d ?r] by (simp_all add: add.commute)
    ultimately show ?thesis using c(1,2) by (simp add: class_lb_def) linarith
  qed
  then show "sl < 32" "class_lb fl sl \<le> s" "s < class_lb fl sl + 2 ^ (if fl = 0 then 2 else fl + 1)" by simp_all
qed

text \<open>The classes follow each other without gaps, so later classes have larger sizes.\<close>

lemma class_lb_next:
  assumes "sl < 32"
  shows "class_lb fl sl + 2 ^ (if fl = 0 then 2 else fl + 1) \<le> class_lb (Suc fl) 0"
proof -
  have "sl + 1 \<le> 32" using assms by simp
  then have "(sl + 1) * 2 ^ (fl + 1) \<le> 32 * 2 ^ (fl + 1)" by (rule mult_le_mono1)
  then show ?thesis using assms by (cases fl) (simp_all add: class_lb_def power_add)
qed

lemma class_lb_first_mono: "fl \<le> fl' \<Longrightarrow> class_lb fl 0 \<le> class_lb fl' 0"
  using power_increasing [of "fl + 6" "fl' + 6" "2 :: nat"] by (auto simp: class_lb_def)

lemma class_lb_second_mono: "sl \<le> sl' \<Longrightarrow> class_lb fl sl \<le> class_lb fl sl'"
  by (simp add: class_lb_def)

lemma class_lb_less:
  assumes "fl < fl'" and "sl < 32"
  shows "class_lb fl sl < class_lb fl' sl'"
proof -
  have "0 < (2 :: nat) ^ (if fl = 0 then 2 else fl + 1)" by simp
  then have "class_lb fl sl < class_lb (Suc fl) 0" using class_lb_next [OF assms(2), of fl] by linarith
  also have "\<dots> \<le> class_lb fl' 0" using assms(1) by (intro class_lb_first_mono) simp
  also have "\<dots> \<le> class_lb fl' sl'" by (rule class_lb_second_mono) simp
  finally show ?thesis .
qed

lemma later_class_larger:
  assumes "is_class s fl' sl'" and "fl < fl' \<or> fl = fl' \<and> sl \<le> sl'" and "sl < 32"
  shows "class_lb fl sl \<le> s"
proof -
  have "class_lb fl sl \<le> class_lb fl' sl'"
    using assms(2,3) class_lb_less [of fl fl' sl sl'] class_lb_second_mono by fastforce
  then show ?thesis using class_bounds(2) [OF assms(1)] by simp
qed

lemma larger_later_class:
  assumes "is_class s fl' sl'" and "class_lb fl sl \<le> s"
  shows "fl < fl' \<or> fl = fl' \<and> sl \<le> sl'"
proof (rule ccontr)
  assume "\<not> ?thesis"
  then consider "fl' < fl" | "fl' = fl" "sl' < sl" by linarith
  then show False
  proof cases
    case 1
    have "s < class_lb (Suc fl') 0" by (rule less_le_trans [OF class_bounds(3) [OF assms(1)] class_lb_next [OF class_bounds(1) [OF assms(1)]]])
    also have "\<dots> \<le> class_lb fl 0" using 1 by (intro class_lb_first_mono) simp
    also have "\<dots> \<le> class_lb fl sl" by (rule class_lb_second_mono) simp
    finally show False using assms(2) by simp
  next
    case 2
    have "(sl' + 1) * 2 ^ (fl + 1) \<le> sl * 2 ^ (fl + 1)" by (rule mult_le_mono1) (use 2(2) in simp)
    then have "class_lb fl' sl' + 2 ^ (if fl' = 0 then 2 else fl' + 1) \<le> class_lb fl sl"
      using 2 by (cases fl) (simp_all add: class_lb_def)
    then show False using class_bounds(3) [OF assms(1)] assms(2) by simp
  qed
qed

lemma is_class_unique:
  assumes "is_class s fl sl" and "is_class s fl' sl'"
  shows "fl' = fl \<and> sl' = sl"
  using larger_later_class [OF assms(1) class_bounds(2) [OF assms(2)]] larger_later_class [OF assms(2) class_bounds(2) [OF assms(1)]]
  by auto

section \<open>The search on sizes\<close>

lemma unat_push_bit_1:
  assumes "k < 32"
  shows "unat (push_bit k 1 :: u32) = 2 ^ k"
proof -
  have "push_bit k 1 = (of_nat (2 ^ k) :: u32)" by (simp add: push_bit_eq_mult)
  moreover have "(2 :: nat) ^ k < 2 ^ 32" using assms by (rule power_strict_increasing) simp
  ultimately show ?thesis by (simp only: unat_of_nat) (simp add: take_bit_nat_eq_self)
qed

text \<open>The indices the search computes from a size \<open>t\<close> with leading bit \<open>k\<close>.\<close>

lemma search_indices:
  fixes t :: u32
  assumes "2 ^ k \<le> unat t" and "unat t < 2 ^ Suc k" and "k < 32" and "7 \<le> k"
  shows "unat ((of_nat k :: u32) - 7 + 1) = k - 6"
    and "unat (drop_bit (unat ((of_nat k :: u32) - 5)) (t - push_bit (unat (of_nat k :: u32)) 1)) = (unat t - 2 ^ k) div 2 ^ (k - 5)"
proof -
  have k: "unat (of_nat k :: u32) = k" using assms(3) by (simp add: unat_of_nat)
  have "(of_nat k :: u32) - 7 + 1 = of_nat (k - 6)" "(of_nat k :: u32) - 5 = of_nat (k - 5)" using assms(4) by (simp_all add: of_nat_diff)
  then show "unat ((of_nat k :: u32) - 7 + 1) = k - 6" using assms(3) by (simp add: unat_of_nat)
  have "unat ((of_nat k :: u32) - 5) = k - 5" using \<open>_ - 5 = _\<close> assms(3) by (simp add: unat_of_nat)
  moreover have "unat (push_bit k 1 :: u32) = 2 ^ k" by (rule unat_push_bit_1 [OF assms(3)])
  moreover have "push_bit k 1 \<le> t" using calculation(2) assms(1) by (simp add: word_le_nat_alt)
  ultimately show "unat (drop_bit (unat ((of_nat k :: u32) - 5)) (t - push_bit (unat (of_nat k :: u32)) 1)) = (unat t - 2 ^ k) div 2 ^ (k - 5)"
    using unat_push_bit_1 [of "k - 5"] assms(3) by (simp add: k drop_bit_eq_div unat_div_distrib unat_sub)
qed

lemma class_of_bit:
  assumes "2 ^ k \<le> t" and "t < 2 ^ Suc k" and "7 \<le> k"
  shows "is_class t (k - 6) ((t - 2 ^ k) div 2 ^ (k - 5))"
proof -
  have "(2 :: nat) ^ 7 \<le> 2 ^ k" using assms(3) by (rule power_increasing) simp
  then have "128 \<le> t" using assms(1) by simp
  moreover have "k - 6 + 6 = k" "k - 6 + 7 = Suc k" "k - 6 + 1 = k - 5" using assms(3) by simp_all
  ultimately show ?thesis using assms by (auto simp: is_class_def)
qed

lemma bit_below: "2 ^ k \<le> t \<Longrightarrow> t < 2 ^ n \<Longrightarrow> k < n" for t :: nat
  by (meson le_less_trans nat_power_less_imp_less one_less_numeral_iff power_strict_increasing_iff semiring_norm(76))

lemma bitmap_search_insert:
  assumes "s < 2 ^ 19"
  obtains fl sl where "bitmap_search (of_nat s) ACTION_INSERT = (RHINO_SUCCESS, fl, sl)" and "is_class s fl sl" and "fl < 13" and "sl < 32"
proof (cases "s < 128")
  case True
  have u: "unat (of_nat s :: u32) = s" using True by (simp add: unat_of_nat)
  have "unat (drop_bit 2 (of_nat s :: u32)) = s div 4" using u by (simp add: drop_bit_eq_div unat_div_distrib)
  moreover have "(of_nat s :: u32) < 128" using True u by (simp add: word_less_nat_alt)
  moreover have "\<not> 32 \<le> drop_bit 2 (of_nat s :: u32)" using calculation(1) True by (simp add: word_le_nat_alt)
  ultimately have "bitmap_search (of_nat s) ACTION_INSERT = (RHINO_SUCCESS, 0, s div 4)" by (simp add: bitmap_search_def)
  then show thesis using that [of 0 "s div 4"] True by (simp add: is_class_def)
next
  case False
  let ?w = "of_nat s :: u32"
  have u: "unat ?w = s" using assms by (simp add: unat_of_nat)
  then have "?w \<noteq> 0" using False by auto
  then obtain k where k: "first_bit ?w = of_nat k" "k < 32" "2 ^ k \<le> unat ?w" "unat ?w < 2 ^ Suc k" by (rule first_bit_spec)
  have "(2 :: nat) ^ 7 \<le> s" using False by simp
  then have k7: "7 \<le> k" using bit_below [of 7 s "Suc k"] k(4) u by simp
  have k18: "k < 19" using bit_below [of k s 19] k(3) u assms by simp
  note ix = search_indices [OF k(3,4,2) k7]
  have cl: "is_class s (k - 6) ((s - 2 ^ k) div 2 ^ (k - 5))" using class_of_bit [of k s] k(3,4) u k7 by simp
  have "\<not> ?w < 128" using False u by (simp add: word_less_nat_alt)
  moreover have "\<not> (of_nat k :: u32) - 7 + 1 \<ge> 13" using ix(1) k18 by (simp only: word_le_nat_alt) simp
  moreover have "\<not> drop_bit (unat ((of_nat k :: u32) - 5)) (?w - push_bit (unat (of_nat k :: u32)) 1) \<ge> 32"
    using ix(2) class_bounds(1) [OF cl] u by (simp only: word_le_nat_alt) simp
  ultimately have "bitmap_search ?w ACTION_INSERT = (RHINO_SUCCESS, k - 6, (s - 2 ^ k) div 2 ^ (k - 5))"
    using ix u k(1) by (simp add: bitmap_search_def Let_def)
  then show thesis using that cl k18 class_bounds(1) [OF cl] by auto
qed

text \<open>
  For a request the search rounds up: every block of the class it returns is large enough, and the
  class starts at most a thirty-second above the request.  It fails only when no class reaches that far.
\<close>

lemma bitmap_search_get:
  assumes "4 dvd n" and "n \<le> 2 ^ 31" and "bitmap_search (of_nat n) ACTION_GET = (st, fl, sl)"
  shows "st = RHINO_SUCCESS \<Longrightarrow> fl < 13 \<and> sl < 32 \<and> n \<le> class_lb fl sl \<and> class_lb fl sl \<le> n + n div 32"
    and "st \<noteq> RHINO_SUCCESS \<Longrightarrow> 2 ^ 19 \<le> n + n div 32"
proof -
  let ?w = "of_nat n :: u32"
  have u: "unat ?w = n" using assms(2) by (simp add: unat_of_nat)
  have "(st = RHINO_SUCCESS \<longrightarrow> fl < 13 \<and> sl < 32 \<and> n \<le> class_lb fl sl \<and> class_lb fl sl \<le> n + n div 32) \<and>
    (st \<noteq> RHINO_SUCCESS \<longrightarrow> 2 ^ 19 \<le> n + n div 32)"
  proof (cases "n < 128")
    case True
    have "unat (drop_bit 2 ?w) = n div 4" using u by (simp add: drop_bit_eq_div unat_div_distrib)
    moreover have "\<not> 32 \<le> drop_bit 2 ?w" using calculation True by (simp add: word_le_nat_alt)
    moreover have "?w < 128" using True u by (simp add: word_less_nat_alt)
    ultimately have "st = RHINO_SUCCESS" "fl = 0" "sl = n div 4" using assms(3) by (simp_all add: bitmap_search_def)
    then show ?thesis using True assms(1) by (simp add: class_lb_def)
  next
    case False
    then have "?w \<noteq> 0" using u by auto
    then obtain k where k: "first_bit ?w = of_nat k" "k < 32" "2 ^ k \<le> unat ?w" "unat ?w < 2 ^ Suc k" by (rule first_bit_spec)
    have "(2 :: nat) ^ 7 \<le> n" using False by simp
    then have k7: "7 \<le> k" using bit_below [of 7 n "Suc k"] k(4) u by simp
    have p5: "(2 :: nat) ^ k = 2 ^ (k - 5) * 32" using k7 power_add [of "2 :: nat" "k - 5" 5] by simp
    have pd: "2 ^ (k - 5) \<le> n div 32" using k(3) u p5 by (simp add: less_eq_div_iff_mult_less_eq)
    have uk: "unat ((of_nat k :: u32) - 5) = k - 5"
    proof -
      have "(of_nat k :: u32) - 5 = of_nat (k - 5)" using k7 by (simp add: of_nat_diff)
      then show ?thesis using k(2) by (simp add: unat_of_nat)
    qed
    let ?pad = "push_bit (k - 5) 1 - 1 :: u32" and ?t = "?w + (push_bit (k - 5) 1 - 1)"
    have pb: "unat (push_bit (k - 5) 1 :: u32) = 2 ^ (k - 5)" using k(2) by (intro unat_push_bit_1) simp
    then have "push_bit (k - 5) 1 \<ge> (1 :: u32)" by (simp add: word_le_nat_alt)
    then have "unat ?pad = 2 ^ (k - 5) - 1" using pb by (simp add: unat_sub)
    moreover have "n + (2 ^ (k - 5) - 1) < 2 ^ 32" using pd assms(2) by simp
    ultimately have ut: "unat ?t = n + (2 ^ (k - 5) - 1)" using u by (simp add: unat_word_ariths)
    have "?t \<noteq> 0" using ut False by (metis add_is_0 unat_0 less_numeral_extra(1) not_less_zero zero_less_numeral)
    then obtain k' where k': "first_bit ?t = of_nat k'" "k' < 32" "2 ^ k' \<le> unat ?t" "unat ?t < 2 ^ Suc k'" by (rule first_bit_spec)
    have "2 ^ k \<le> unat ?t" using k(3) unfolding u ut by linarith
    then have kk: "k \<le> k'" using bit_below [of k "unat ?t" "Suc k'"] k'(4) by simp
    then have k7': "7 \<le> k'" using k7 by simp
    note ix = search_indices [OF k'(3,4,2) k7']
    define f where "f = k' - 6"
    define l where "l = (unat ?t - 2 ^ k') div 2 ^ (k' - 5)"
    have cl: "is_class (unat ?t) f l" unfolding f_def l_def by (rule class_of_bit [OF k'(3,4) k7'])
    have "\<not> ?w < 128" using False u by (simp add: word_less_nat_alt)
    then have e: "fl = f" "sl = l" "st = (if (of_nat k' :: u32) - 7 + 1 \<ge> 13 \<or>
        drop_bit (unat ((of_nat k' :: u32) - 5)) (?t - push_bit (unat (of_nat k' :: u32)) 1) \<ge> 32 then RHINO_MM_FREE_ADDR_ERR else RHINO_SUCCESS)"
      using assms(3) ix k(1) k'(1) uk unfolding f_def l_def by (simp_all add: bitmap_search_def Let_def)
    have "((of_nat k' :: u32) - 7 + 1 \<ge> 13) = (f \<ge> 13)" using ix(1) unfolding f_def by (simp only: word_le_nat_alt) simp
    moreover have "\<not> drop_bit (unat ((of_nat k' :: u32) - 5)) (?t - push_bit (unat (of_nat k' :: u32)) 1) \<ge> 32"
      using ix(2) class_bounds(1) [OF cl] unfolding l_def by (simp only: word_le_nat_alt) simp
    ultimately have st: "st = RHINO_SUCCESS \<longleftrightarrow> f < 13" using e(3) by auto
    have ub: "unat ?t \<le> n + n div 32" using ut pd by simp
    have "n \<le> class_lb f l"
    proof (cases "k' = k")
      case True
      have "(if f = 0 then 2 else f + 1) = k - 5" using k7 True by (auto simp: f_def)
      then have "n + (2 ^ (k - 5) - 1) < class_lb f l + 2 ^ (k - 5)" using class_bounds(3) [OF cl] ut by simp
      then show ?thesis by simp
    next
      case False
      then have "(2 :: nat) ^ Suc k \<le> 2 ^ k'" using kk by (intro power_increasing) simp_all
      moreover have "2 ^ k' \<le> class_lb f l" using k7' by (auto simp: class_lb_def f_def)
      ultimately show ?thesis using k(4) u by simp
    qed
    moreover have "2 ^ 19 \<le> n + n div 32" if "13 \<le> f"
    proof -
      have "(2 :: nat) ^ 19 \<le> 2 ^ k'" using that by (intro power_increasing) (simp_all add: f_def)
      then show ?thesis using k'(3) ub by simp
    qed
    moreover have "class_lb f l \<le> n + n div 32" using class_bounds(2) [OF cl] ub by simp
    ultimately show ?thesis using e(1,2) st class_bounds(1) [OF cl] by auto
  qed
  then show "st = RHINO_SUCCESS \<Longrightarrow> fl < 13 \<and> sl < 32 \<and> n \<le> class_lb fl sl \<and> class_lb fl sl \<le> n + n div 32"
    "st \<noteq> RHINO_SUCCESS \<Longrightarrow> 2 ^ 19 \<le> n + n div 32" by simp_all
qed

end
