(* ===== verification/Mm.thy ===== *)
theory Mm
  imports Mm_Search
begin

text \<open>
  The heap allocator, \<^verbatim>\<open>kernel/rhino/core/k_mm.c\<close>: two-level segregated fit.  Memory is a function from addresses (of
  words, multiples of four) to words; a block is an address \<open>b\<close> with its header in the words \<open>b\<close> (previous
  block) and \<open>b + 4\<close> (size, with the flags \<open>RHINO_MM_FREE\<close> and \<open>RHINO_MM_PREVFREE\<close> in its low bits) and its data from \<open>b + 8\<close> on; a free block keeps
  the links of its free list in its first two data words.  The head of the allocator lies in memory too,
  but only its owner accesses it, so it is a record; the record carries the memory and \<open>mm_fault\<close>, set by an access outside
  of the tables.  A null pointer is 0 or \<open>None\<close>.  The configuration has no mutex of its own (a critical section makes the calls
  atomic), no debug dyes, no statistics, and no pool of small blocks (\<open>RHINO_CONFIG_MM_TLF_BLK_SIZE\<close> is 0,
  so \<open>fixedmblk\<close> is null and its branches are not taken).
\<close>

section \<open>State\<close>

type_synonym mm_mem = "nat \<Rightarrow> u32"

record k_mm_head =
  regioninfo :: nat
  fl_bitmap :: u32
  sl_bitmap :: "nat \<Rightarrow> u32"
  mm_tbl :: "nat \<Rightarrow> nat \<Rightarrow> nat"
  mm_words :: mm_mem
  mm_fault :: bool

definition set_word :: "nat \<Rightarrow> u32 \<Rightarrow> k_mm_head \<Rightarrow> k_mm_head" where
  "set_word a v h = h\<lparr>mm_words := (mm_words h)(a := v)\<rparr>"

text \<open>The fields of \<open>k_mm_list_t\<close>.\<close>

definition blk_prev :: "k_mm_head \<Rightarrow> nat \<Rightarrow> nat" where
  "blk_prev h b = unat (mm_words h b)"

definition blk_size :: "k_mm_head \<Rightarrow> nat \<Rightarrow> u32" where
  "blk_size h b = mm_words h (b + 4)"

definition free_prev :: "k_mm_head \<Rightarrow> nat \<Rightarrow> nat" where
  "free_prev h b = unat (mm_words h (b + 8))"

definition free_next :: "k_mm_head \<Rightarrow> nat \<Rightarrow> nat" where
  "free_next h b = unat (mm_words h (b + 12))"

definition set_blk_prev :: "nat \<Rightarrow> nat \<Rightarrow> k_mm_head \<Rightarrow> k_mm_head" where
  "set_blk_prev b p = set_word b (of_nat p)"

definition set_blk_size :: "nat \<Rightarrow> u32 \<Rightarrow> k_mm_head \<Rightarrow> k_mm_head" where
  "set_blk_size b v = set_word (b + 4) v"

definition set_free_prev :: "nat \<Rightarrow> nat \<Rightarrow> k_mm_head \<Rightarrow> k_mm_head" where
  "set_free_prev b p = set_word (b + 8) (of_nat p)"

definition set_free_next :: "nat \<Rightarrow> nat \<Rightarrow> k_mm_head \<Rightarrow> k_mm_head" where
  "set_free_next b p = set_word (b + 12) (of_nat p)"

text \<open>The constants and macros of \<^verbatim>\<open>k_mm.h\<close>.\<close>

abbreviation (input) RHINO_MM_FREE :: u32 where "RHINO_MM_FREE \<equiv> 1"
abbreviation (input) RHINO_MM_PREVFREE :: u32 where "RHINO_MM_PREVFREE \<equiv> 2"
abbreviation (input) RHINO_MM_PRESTAT_MASK :: u32 where "RHINO_MM_PRESTAT_MASK \<equiv> 2"
abbreviation (input) RHINO_MM_BLKSIZE_MASK :: u32 where "RHINO_MM_BLKSIZE_MASK \<equiv> 0xFFFFFFFC"
abbreviation (input) MMLIST_HEAD_SIZE :: u32 where "MMLIST_HEAD_SIZE \<equiv> 8"

definition MM_ALIGN_UP :: "u32 \<Rightarrow> u32" where
  "MM_ALIGN_UP a = (a + 3) AND NOT 3"

definition MM_ALIGN_DOWN :: "u32 \<Rightarrow> u32" where
  "MM_ALIGN_DOWN a = a AND NOT 3"

definition NEXT_MM_BLK :: "nat \<Rightarrow> u32 \<Rightarrow> nat" where
  "NEXT_MM_BLK buf r = unat (of_nat buf + r)"

section \<open>The free lists\<close>

definition insert_block :: "nat \<Rightarrow> nat \<Rightarrow> nat \<Rightarrow> k_mm_head \<Rightarrow> k_mm_head" where
  "insert_block b flt slt h =
     (if flt < FLT_SIZE \<and> slt < SLT_SIZE then
        let first = mm_tbl h flt slt;
            h1 = set_free_next b first (set_free_prev b 0 h);
            h2 = (if first \<noteq> 0 then set_free_prev first b h1 else h1)
        in h2\<lparr>mm_tbl := (mm_tbl h2)(flt := (mm_tbl h2 flt)(slt := b)),
              sl_bitmap := (sl_bitmap h2)(flt := krhino_bitmap_set [sl_bitmap h2 flt] (31 - slt) ! 0),
              fl_bitmap := krhino_bitmap_set [fl_bitmap h2] (31 - flt) ! 0\<rparr>
      else h\<lparr>mm_fault := True\<rparr>)"

text \<open>The bits of an emptied list, as in \<open>get_block\<close> and \<open>k_mm_alloc\<close>.\<close>

definition clear_bits :: "nat \<Rightarrow> nat \<Rightarrow> k_mm_head \<Rightarrow> k_mm_head" where
  "clear_bits flt slt h =
     (let h1 = h\<lparr>sl_bitmap := (sl_bitmap h)(flt := krhino_bitmap_clear [sl_bitmap h flt] (31 - slt) ! 0)\<rparr>
      in if sl_bitmap h1 flt = 0 then h1\<lparr>fl_bitmap := krhino_bitmap_clear [fl_bitmap h1] (31 - flt) ! 0\<rparr> else h1)"

definition get_block :: "nat \<Rightarrow> nat \<Rightarrow> nat \<Rightarrow> k_mm_head \<Rightarrow> k_mm_head" where
  "get_block b flt slt h =
     (if flt < FLT_SIZE \<and> slt < SLT_SIZE then
        let h1 = (if free_next h b \<noteq> 0 then set_free_prev (free_next h b) (free_prev h b) h else h);
            h2 = (if free_prev h1 b \<noteq> 0 then set_free_next (free_prev h1 b) (free_next h1 b) h1 else h1);
            h3 = (if mm_tbl h2 flt slt = b then
                    let n = free_next h2 b; h' = h2\<lparr>mm_tbl := (mm_tbl h2)(flt := (mm_tbl h2 flt)(slt := n))\<rparr>
                    in if n = 0 then clear_bits flt slt h' else h'
                  else h2)
        in set_free_next b 0 (set_free_prev b 0 h3)
      else h\<lparr>mm_fault := True\<rparr>)"

text \<open>The block found and the indices of its list.\<close>

definition findblk_byidx :: "k_mm_head \<Rightarrow> nat \<Rightarrow> nat \<Rightarrow> nat \<times> nat \<times> nat" where
  "findblk_byidx h flt slt =
     (let tmp = sl_bitmap h flt AND push_bit slt (NOT 0)
      in if tmp \<noteq> 0 then let slt = find_last_bit tmp in (mm_tbl h flt slt, flt, slt)
         else
           let flt = find_last_bit (fl_bitmap h AND push_bit (flt + 1) (NOT 0))
           in if flt > 0 then let slt = find_last_bit (sl_bitmap h flt) in (mm_tbl h flt slt, flt, slt)
              else (0, flt, slt))"

section \<open>Allocation\<close>

definition mm_req_size :: "u32 \<Rightarrow> u32" where
  "mm_req_size size' = (let s = MM_ALIGN_UP size' in if s < 8 then 8 else s)"

text \<open>Taking the first block of a list.\<close>

definition take_first :: "nat \<Rightarrow> nat \<Rightarrow> nat \<Rightarrow> k_mm_head \<Rightarrow> k_mm_head" where
  "take_first b fl sl h =
     (let n = free_next h b;
          h1 = h\<lparr>mm_tbl := (mm_tbl h)(fl := (mm_tbl h fl)(sl := n))\<rparr>;
          h2 = (if n \<noteq> 0 then set_free_prev n 0 h1 else clear_bits fl sl h1)
      in set_free_next b 0 (set_free_prev b 0 h2))"

text \<open>Cutting \<open>n\<close> bytes off the free block \<open>b\<close>, or using all of it.\<close>

definition split_block :: "nat \<Rightarrow> u32 \<Rightarrow> k_mm_head \<Rightarrow> k_mm_head" where
  "split_block b n h =
     (let next_b = NEXT_MM_BLK (b + 8) (blk_size h b AND RHINO_MM_BLKSIZE_MASK);
          tmp_size = (blk_size h b AND RHINO_MM_BLKSIZE_MASK) - n
      in if tmp_size \<ge> 16 then
           let tmp_size = tmp_size - MMLIST_HEAD_SIZE;
               b2 = NEXT_MM_BLK (b + 8) n;
               h1 = set_blk_prev next_b b2 (set_blk_size b2 (tmp_size OR RHINO_MM_FREE) h);
               (_, fl, sl) = bitmap_search tmp_size ACTION_INSERT;
               h2 = insert_block b2 fl sl h1
           in set_blk_size b (n OR (blk_size h2 b AND RHINO_MM_PRESTAT_MASK)) h2
         else
           let h1 = set_blk_size next_b (blk_size h next_b AND NOT RHINO_MM_PREVFREE) h
           in set_blk_size b (blk_size h1 b AND NOT RHINO_MM_FREE) h1)"

definition k_mm_alloc :: "k_mm_head option \<Rightarrow> u32 \<Rightarrow> nat \<times> k_mm_head option" where
  "k_mm_alloc mmhead size' =
     (case mmhead of
        None \<Rightarrow> (0, None)
      | Some h \<Rightarrow>
          if size' = 0 then (0, Some h)
          else
            let n = mm_req_size size'; (st, fl, sl) = bitmap_search n ACTION_GET
            in if st \<noteq> RHINO_SUCCESS then (0, Some h)
               else
                 let (b, fl, sl) = findblk_byidx h fl sl
                 in if b = 0 then (0, Some h)
                    else (b + 8, Some (split_block b n (take_first b fl sl h))))"

section \<open>Release\<close>

definition join_next :: "nat \<Rightarrow> k_mm_head \<Rightarrow> k_mm_head" where
  "join_next b h =
     (let tmp_b = NEXT_MM_BLK (b + 8) (blk_size h b AND RHINO_MM_BLKSIZE_MASK)
      in if blk_size h tmp_b AND RHINO_MM_FREE \<noteq> 0 then
           let (_, fl, sl) = bitmap_search (blk_size h tmp_b AND RHINO_MM_BLKSIZE_MASK) ACTION_INSERT;
               h1 = get_block tmp_b fl sl h
           in set_blk_size b (blk_size h1 b + ((blk_size h1 tmp_b AND RHINO_MM_BLKSIZE_MASK) + MMLIST_HEAD_SIZE)) h1
         else h)"

definition join_prev :: "nat \<Rightarrow> k_mm_head \<Rightarrow> nat \<times> k_mm_head" where
  "join_prev b h =
     (if blk_size h b AND RHINO_MM_PREVFREE \<noteq> 0 then
        let tmp_b = blk_prev h b;
            (_, fl, sl) = bitmap_search (blk_size h tmp_b AND RHINO_MM_BLKSIZE_MASK) ACTION_INSERT;
            h1 = get_block tmp_b fl sl h
        in (tmp_b, set_blk_size tmp_b (blk_size h1 tmp_b + ((blk_size h1 b AND RHINO_MM_BLKSIZE_MASK) + MMLIST_HEAD_SIZE)) h1)
      else (b, h))"

definition k_mm_free :: "k_mm_head option \<Rightarrow> nat \<Rightarrow> k_mm_head option" where
  "k_mm_free mmhead ptr =
     (case mmhead of
        None \<Rightarrow> None
      | Some h \<Rightarrow>
          if ptr = 0 then Some h
          else
            let b = ptr - 8;
                h1 = set_blk_size b (blk_size h b OR RHINO_MM_FREE) h;
                (b, h2) = join_prev b (join_next b h1);
                (_, fl, sl) = bitmap_search (blk_size h2 b AND RHINO_MM_BLKSIZE_MASK) ACTION_INSERT;
                h3 = insert_block b fl sl h2;
                tmp_b = NEXT_MM_BLK (b + 8) (blk_size h3 b AND RHINO_MM_BLKSIZE_MASK)
            in Some (set_blk_prev tmp_b b (set_blk_size tmp_b (blk_size h3 tmp_b OR RHINO_MM_PREVFREE) h3)))"

section \<open>Reallocation\<close>

text \<open>The rest of a block that is cut to \<open>n\<close> bytes becomes a free block; \<open>next_b\<close> is the block behind it.\<close>

definition leave_rest :: "nat \<Rightarrow> u32 \<Rightarrow> u32 \<Rightarrow> nat \<Rightarrow> k_mm_head \<Rightarrow> k_mm_head" where
  "leave_rest b n tmp_size next_b h =
     (let tmp_size = tmp_size - MMLIST_HEAD_SIZE;
          tmp_b = NEXT_MM_BLK (b + 8) n;
          h1 = set_blk_prev next_b tmp_b (set_blk_size tmp_b (tmp_size OR RHINO_MM_FREE) h);
          h2 = set_blk_size next_b (blk_size h1 next_b OR RHINO_MM_PREVFREE) h1;
          (_, fl, sl) = bitmap_search tmp_size ACTION_INSERT;
          h3 = insert_block tmp_b fl sl h2
      in set_blk_size b (n OR (blk_size h3 b AND RHINO_MM_PRESTAT_MASK)) h3)"

text \<open>The block is large enough: what it and a free block behind it do not need is cut off.\<close>

definition shrink_block :: "nat \<Rightarrow> u32 \<Rightarrow> k_mm_head \<Rightarrow> k_mm_head" where
  "shrink_block b n h =
     (let tmp_size = blk_size h b AND RHINO_MM_BLKSIZE_MASK;
          next_b = NEXT_MM_BLK (b + 8) tmp_size;
          (tmp_size, next_b, h1) =
            (if blk_size h next_b AND RHINO_MM_FREE \<noteq> 0 then
               let (_, fl, sl) = bitmap_search (blk_size h next_b AND RHINO_MM_BLKSIZE_MASK) ACTION_INSERT;
                   h1 = get_block next_b fl sl h;
                   next_size = blk_size h1 next_b AND RHINO_MM_BLKSIZE_MASK
               in (tmp_size + (next_size + MMLIST_HEAD_SIZE), NEXT_MM_BLK (next_b + 8) next_size, h1)
             else (tmp_size, next_b, h));
          tmp_size = tmp_size - n
      in if tmp_size \<ge> 16 then leave_rest b n tmp_size next_b h1 else h1)"

text \<open>The block is large enough together with the free block behind it.\<close>

definition grow_block :: "nat \<Rightarrow> u32 \<Rightarrow> k_mm_head \<Rightarrow> k_mm_head" where
  "grow_block b n h =
     (let next_b = NEXT_MM_BLK (b + 8) (blk_size h b AND RHINO_MM_BLKSIZE_MASK);
          (_, fl, sl) = bitmap_search (blk_size h next_b AND RHINO_MM_BLKSIZE_MASK) ACTION_INSERT;
          h1 = get_block next_b fl sl h;
          h2 = set_blk_size b (blk_size h1 b + ((blk_size h1 next_b AND RHINO_MM_BLKSIZE_MASK) + MMLIST_HEAD_SIZE)) h1;
          next_b = NEXT_MM_BLK (b + 8) (blk_size h2 b AND RHINO_MM_BLKSIZE_MASK);
          h3 = set_blk_prev next_b b h2;
          h4 = set_blk_size next_b (blk_size h3 next_b AND NOT RHINO_MM_PREVFREE) h3;
          tmp_size = (blk_size h4 b AND RHINO_MM_BLKSIZE_MASK) - n
      in if tmp_size \<ge> 16 then leave_rest b n tmp_size next_b h4 else h4)"

text \<open>\<open>memcpy\<close> of \<open>n\<close> bytes, a multiple of four, between blocks that do not overlap.\<close>

definition mm_copy :: "nat \<Rightarrow> nat \<Rightarrow> nat \<Rightarrow> k_mm_head \<Rightarrow> k_mm_head" where
  "mm_copy dst src n h = h\<lparr>mm_words := (\<lambda>a. if dst \<le> a \<and> a < dst + n then mm_words h (src + (a - dst)) else mm_words h a)\<rparr>"

definition mm_new_size :: "u32 \<Rightarrow> u32" where
  "mm_new_size new_size = (if new_size < 16 then 16 else MM_ALIGN_UP new_size)"

text \<open>\<open>None\<close> is the use of a null head.\<close>

definition k_mm_realloc :: "k_mm_head option \<Rightarrow> nat \<Rightarrow> u32 \<Rightarrow> (nat \<times> k_mm_head option) option" where
  "k_mm_realloc mmhead oldmem new_size =
     (if oldmem = 0 then Some (if new_size \<noteq> 0 then k_mm_alloc mmhead new_size else (0, mmhead))
      else if new_size = 0 then Some (0, k_mm_free mmhead oldmem)
      else case mmhead of
        None \<Rightarrow> None
      | Some h \<Rightarrow>
          let b = oldmem - 8;
              tmp_size = blk_size h b AND RHINO_MM_BLKSIZE_MASK;
              next_b = NEXT_MM_BLK (b + 8) tmp_size;
              n = mm_new_size new_size
          in if n \<le> tmp_size then Some (b + 8, Some (shrink_block b n h))
             else if blk_size h next_b AND RHINO_MM_FREE \<noteq> 0 \<and> n \<le> tmp_size + (blk_size h next_b AND RHINO_MM_BLKSIZE_MASK)
             then Some (b + 8, Some (grow_block b n h))
             else case k_mm_alloc mmhead n of
               (_, None) \<Rightarrow> None
             | (ptr_aux, Some h1) \<Rightarrow>
                 if ptr_aux = 0 then Some (0, Some h1)
                 else
                   let old_size = blk_size h1 b AND RHINO_MM_BLKSIZE_MASK;
                       cpsize = (if old_size > n then n else old_size)
                   in Some (ptr_aux, k_mm_free (Some (mm_copy ptr_aux oldmem (unat cpsize) h1)) oldmem))"

section \<open>Regions\<close>

text \<open>The fields of \<open>k_mm_region_info_t\<close>.\<close>

definition region_end :: "k_mm_head \<Rightarrow> nat \<Rightarrow> nat" where
  "region_end h r = unat (mm_words h r)"

definition region_next :: "k_mm_head \<Rightarrow> nat \<Rightarrow> nat" where
  "region_next h r = unat (mm_words h (r + 4))"

text \<open>The first block holds the region information, the last one ends the region.\<close>

definition init_mm_region :: "nat \<Rightarrow> u32 \<Rightarrow> k_mm_head \<Rightarrow> k_mm_head" where
  "init_mm_region regionaddr len h =
     (let firstblk = regionaddr;
          h1 = set_blk_size firstblk (MM_ALIGN_UP 8) h;
          curblk = NEXT_MM_BLK (firstblk + 8) (blk_size h1 firstblk AND RHINO_MM_BLKSIZE_MASK);
          h2 = set_blk_size curblk (MM_ALIGN_DOWN (len - 32)) h1;
          h3 = set_free_next curblk 0 (set_free_prev curblk 0 h2);
          lastblk = NEXT_MM_BLK (curblk + 8) (blk_size h3 curblk AND RHINO_MM_BLKSIZE_MASK);
          h4 = set_blk_size lastblk RHINO_MM_PREVFREE (set_blk_prev lastblk curblk h3);
          region = firstblk + 8
      in set_word region (of_nat lastblk) (set_word (region + 4) 0 h4))"

definition mm_head_zero :: "mm_mem \<Rightarrow> k_mm_head" where
  "mm_head_zero mem = \<lparr>regioninfo = 0, fl_bitmap = 0, sl_bitmap = (\<lambda>_. 0), mm_tbl = (\<lambda>_ _. 0), mm_words = mem, mm_fault = False\<rparr>"

text \<open>The size of \<open>k_mm_head\<close> is 1728.  The second component is what is stored in \<open>*ppmmhead\<close>, if anything.\<close>

definition krhino_init_mm_head :: "bool \<Rightarrow> u32 \<Rightarrow> u32 \<Rightarrow> mm_mem \<Rightarrow> kstat \<times> k_mm_head option" where
  "krhino_init_mm_head ppmmhead_is_null addr len mem =
     (if ppmmhead_is_null \<or> addr = 0 then (RHINO_NULL_PTR, None)
      else
        let orig_addr = addr;
            addr = MM_ALIGN_UP addr;
            len = MM_ALIGN_DOWN (len - (addr - orig_addr))
        in if addr AND 3 \<noteq> 0 \<or> len \<noteq> MM_ALIGN_DOWN len then (RHINO_INV_ALIGN, None)
           else if len = 0 \<or> len < 1024 \<or> len > 0x80000 then (RHINO_MM_POOL_SIZE_ERR, None)
           else
             let firstblk = NEXT_MM_BLK (unat addr) (MM_ALIGN_UP 1728);
                 h1 = init_mm_region firstblk (MM_ALIGN_DOWN (len - 1728)) (mm_head_zero mem);
                 h2 = h1\<lparr>regioninfo := firstblk + 8\<rparr>;
                 nextblk = NEXT_MM_BLK (firstblk + 8) (blk_size h2 firstblk AND RHINO_MM_BLKSIZE_MASK)
             in (RHINO_SUCCESS, k_mm_free (Some h2) (nextblk + 8)))"

definition krhino_deinit_mm_head :: "k_mm_head \<Rightarrow> kstat \<times> k_mm_head" where
  "krhino_deinit_mm_head h = (RHINO_SUCCESS, (mm_head_zero (mm_words h))\<lparr>mm_fault := mm_fault h\<rparr>)"

text \<open>The loop of \<open>krhino_add_mm_region\<close> over the regions, which joins the new one with its neighbours.\<close>

definition region_unlink :: "nat \<Rightarrow> nat \<Rightarrow> k_mm_head \<Rightarrow> k_mm_head" where
  "region_unlink ptr ptr_prev h =
     (if regioninfo h = ptr then h\<lparr>regioninfo := region_next h ptr\<rparr>
      else set_word (ptr_prev + 4) (of_nat (region_next h ptr)) h)"

partial_function (option) region_merge :: "nat \<Rightarrow> nat \<Rightarrow> nat \<Rightarrow> nat \<Rightarrow> nat \<Rightarrow> k_mm_head \<Rightarrow> (nat \<times> nat \<times> nat \<times> k_mm_head) option" where
  "region_merge ptr ptr_prev ib0 b0 lb0 h =
     (if ptr = 0 then Some (ib0, b0, lb0, h)
      else
        let ib1 = ptr - 8;
            b1 = NEXT_MM_BLK (ib1 + 8) (blk_size h ib1 AND RHINO_MM_BLKSIZE_MASK);
            lb1 = region_end h ptr;
            next = region_next h ptr
        in if ib1 = lb0 + 8 then
             let h1 = region_unlink ptr ptr_prev h;
                 h2 = set_blk_size b0 (MM_ALIGN_DOWN ((blk_size h1 b0 AND RHINO_MM_BLKSIZE_MASK) + (blk_size h1 ib1 AND RHINO_MM_BLKSIZE_MASK) + 16)) h1;
                 h3 = set_blk_prev b1 b0 h2
             in region_merge next ptr_prev ib0 b0 lb1 h3
           else if lb1 + 8 = ib0 then
             let h1 = region_unlink ptr ptr_prev h;
                 h2 = set_blk_size lb1 (MM_ALIGN_DOWN ((blk_size h1 b0 AND RHINO_MM_BLKSIZE_MASK) + (blk_size h1 ib0 AND RHINO_MM_BLKSIZE_MASK) + 16)
                        OR (blk_size h1 lb1 AND RHINO_MM_PRESTAT_MASK)) h1;
                 next_b = NEXT_MM_BLK (lb1 + 8) (blk_size h2 lb1 AND RHINO_MM_BLKSIZE_MASK);
                 h3 = set_blk_prev next_b lb1 h2
             in region_merge next ptr_prev ib1 lb1 lb0 h3
           else region_merge next ptr ib0 b0 lb0 h)"

definition krhino_add_mm_region :: "k_mm_head option \<Rightarrow> u32 \<Rightarrow> u32 \<Rightarrow> (kstat \<times> k_mm_head option) option" where
  "krhino_add_mm_region mmhead addr len =
     (case mmhead of
        None \<Rightarrow> Some (RHINO_NULL_PTR, None)
      | Some h \<Rightarrow>
          if addr = 0 then Some (RHINO_NULL_PTR, Some h)
          else if addr AND 3 \<noteq> 0 \<or> len \<noteq> MM_ALIGN_DOWN len then Some (RHINO_INV_ALIGN, Some h)
          else if len = 0 \<or> len < 40 then Some (RHINO_MM_POOL_SIZE_ERR, Some h)
          else
            let ib0 = unat addr;
                h0 = h\<lparr>mm_words := (\<lambda>a. if ib0 \<le> a \<and> a < ib0 + unat len then 0 else mm_words h a)\<rparr>;
                ptr = regioninfo h0;
                h1 = init_mm_region ib0 len h0;
                b0 = NEXT_MM_BLK (ib0 + 8) (blk_size h1 ib0 AND RHINO_MM_BLKSIZE_MASK);
                lb0 = NEXT_MM_BLK (b0 + 8) (blk_size h1 b0 AND RHINO_MM_BLKSIZE_MASK)
            in case region_merge ptr 0 ib0 b0 lb0 h1 of
                 None \<Rightarrow> None
               | Some (ib0, b0, lb0, h2) \<Rightarrow>
                   let ai = ib0 + 8;
                       h3 = set_word ai (of_nat lb0) (set_word (ai + 4) (of_nat (regioninfo h2)) h2)
                   in Some (RHINO_SUCCESS, k_mm_free (Some (h3\<lparr>regioninfo := ai\<rparr>)) (b0 + 8)))"

section \<open>The calls of the interface\<close>

text \<open>\<open>g_kmm_head\<close> is the argument and the result; the warnings are not modelled.\<close>

definition krhino_mm_alloc :: "u32 \<Rightarrow> k_mm_head option \<Rightarrow> nat \<times> k_mm_head option" where
  "krhino_mm_alloc size' g_kmm_head = (if size' = 0 then (0, g_kmm_head) else k_mm_alloc g_kmm_head size')"

definition krhino_mm_free :: "nat \<Rightarrow> k_mm_head option \<Rightarrow> k_mm_head option" where
  "krhino_mm_free ptr g_kmm_head = k_mm_free g_kmm_head ptr"

definition krhino_mm_realloc :: "nat \<Rightarrow> u32 \<Rightarrow> k_mm_head option \<Rightarrow> (nat \<times> k_mm_head option) option" where
  "krhino_mm_realloc oldmem newsize g_kmm_head = k_mm_realloc g_kmm_head oldmem newsize"

fun add_regions :: "(u32 \<times> u32) list \<Rightarrow> k_mm_head option \<Rightarrow> k_mm_head option option" where
  "add_regions [] g = Some g"
| "add_regions ((start, len) # rs) g =
     (case krhino_add_mm_region g start len of None \<Rightarrow> None | Some (_, g') \<Rightarrow> add_regions rs g')"

text \<open>\<open>k_mm_init\<close> with the table \<open>g_mm_region\<close>, which has at least one entry.\<close>

definition k_mm_init :: "(u32 \<times> u32) list \<Rightarrow> mm_mem \<Rightarrow> k_mm_head option option" where
  "k_mm_init g_mm_region mem =
     (case g_mm_region of
        [] \<Rightarrow> None
      | (start, len) # rs \<Rightarrow> add_regions rs (snd (krhino_init_mm_head False start len mem)))"

end
