(* ===== verification/Mm_Lists.thy ===== *)
theory Mm_Lists
  imports Mm
begin

text \<open>
  The free lists of the heap allocator.  \<open>lists_ok h F\<close> says that the free blocks are those of \<open>F\<close> (addresses with
  sizes): each stands in the doubly linked list of its size class, and the two levels of bitmaps tell
  which lists are not empty.  Inserting a block, removing one and searching a large enough one are shown
  against it, with the words of memory they touch.
\<close>

section \<open>Single words\<close>

lemma set_word_simps [simp]:
  "mm_words (set_word a v h) = (mm_words h)(a := v)" "regioninfo (set_word a v h) = regioninfo h" "fl_bitmap (set_word a v h) = fl_bitmap h"
  "sl_bitmap (set_word a v h) = sl_bitmap h" "mm_tbl (set_word a v h) = mm_tbl h" "mm_fault (set_word a v h) = mm_fault h"
  by (simp_all add: set_word_def)

lemmas blk_sets = set_blk_prev_def set_blk_size_def set_free_prev_def set_free_next_def

lemmas blk_gets = blk_prev_def blk_size_def free_prev_def free_next_def

lemma unat_ptr: "p < 2 ^ 32 \<Longrightarrow> unat (of_nat p :: u32) = p"
  by (simp add: unat_of_nat take_bit_nat_eq_self)

section \<open>Segments of a free list\<close>

fun dseg :: "k_mm_head \<Rightarrow> nat \<Rightarrow> nat \<Rightarrow> nat list \<Rightarrow> nat \<Rightarrow> bool" where
  "dseg h p x [] m = (x = m)"
| "dseg h p x (y # ys) m = (x = y \<and> free_prev h y = p \<and> dseg h y (free_next h y) ys m)"

lemma dseg_append: "dseg h p x (as @ bs) m \<longleftrightarrow> (\<exists>y. dseg h p x as y \<and> dseg h (last (p # as)) y bs m)"
  by (induction as arbitrary: p x) auto

lemma dseg_cong:
  assumes "\<And>y. y \<in> set ys \<Longrightarrow> mm_words h' (y + 8) = mm_words h (y + 8) \<and> mm_words h' (y + 12) = mm_words h (y + 12)"
  shows "dseg h' p x ys m = dseg h p x ys m"
  using assms by (induction ys arbitrary: p x) (auto simp: free_prev_def free_next_def)

text \<open>The predecessor of the first element changes.\<close>

lemma dseg_new_prev:
  assumes "dseg h p x ys 0" and "0 \<notin> set ys" and "q < 2 ^ 32" and "distinct ys"
    and "\<And>y. y \<in> set ys \<Longrightarrow> y \<noteq> x \<Longrightarrow> mm_words h' (y + 8) = mm_words h (y + 8)"
    and "\<And>y. y \<in> set ys \<Longrightarrow> mm_words h' (y + 12) = mm_words h (y + 12)"
    and "x \<noteq> 0 \<Longrightarrow> mm_words h' (x + 8) = of_nat q"
  shows "dseg h' q x ys 0"
proof (cases ys)
  case (Cons y zs)
  then have "x = y" "dseg h y (free_next h y) zs 0" "x \<noteq> 0" using assms(1,2) by auto
  moreover have "dseg h' y (free_next h y) zs 0 = dseg h y (free_next h y) zs 0"
    by (rule dseg_cong) (use assms(4-6) Cons \<open>x = y\<close> in auto)
  ultimately show ?thesis using Cons assms(3,6,7) unat_ptr by (simp add: free_prev_def free_next_def)
qed (use assms in simp)

text \<open>The successor of the last element changes.\<close>

lemma dseg_new_next:
  assumes "dseg h p x (ys @ [z]) m" and "m' < 2 ^ 32" and "z \<notin> set ys"
    and "\<And>y. y \<in> set ys \<Longrightarrow> mm_words h' (y + 12) = mm_words h (y + 12)"
    and "\<And>y. y \<in> set (ys @ [z]) \<Longrightarrow> mm_words h' (y + 8) = mm_words h (y + 8)"
    and "mm_words h' (z + 12) = of_nat m'"
  shows "dseg h' p x (ys @ [z]) m'"
proof -
  obtain y where y: "dseg h p x ys y" "dseg h (last (p # ys)) y [z] m" using assms(1) dseg_append by blast
  have "dseg h' p x ys y" using y(1) dseg_cong [of ys h' h] assms(4,5) by simp
  moreover have "dseg h' (last (p # ys)) y [z] m'" using y(2) assms(2,5,6) unat_ptr by (simp add: free_prev_def free_next_def)
  ultimately show ?thesis using dseg_append by blast
qed

section \<open>Bitmaps\<close>

lemma bitmap_set_word: "n < 32 \<Longrightarrow> krhino_bitmap_set [w] (31 - n) ! 0 = w OR push_bit n 1"
  by (simp add: krhino_bitmap_set_def BITMAP_WORD_def BITMAP_MASK_def)

lemma bitmap_clear_word: "n < 32 \<Longrightarrow> krhino_bitmap_clear [w] (31 - n) ! 0 = w AND NOT (push_bit n 1)"
  by (simp add: krhino_bitmap_clear_def BITMAP_WORD_def BITMAP_MASK_def)

lemma bit_set_word: "n < 32 \<Longrightarrow> bit (w OR push_bit n 1 :: u32) i \<longleftrightarrow> i = n \<or> bit w i"
  by (auto simp: bit_simps)

lemma bit_clear_word: "n < 32 \<Longrightarrow> bit (w AND NOT (push_bit n 1) :: u32) i \<longleftrightarrow> i \<noteq> n \<and> bit w i"
  using bit_imp_le_length [of w i] by (auto simp: bit_simps)

lemma word_zero_bits: "(w :: u32) = 0 \<longleftrightarrow> (\<forall>i < 32. \<not> bit w i)"
  by (auto simp: bit_eq_iff dest: bit_imp_le_length)

section \<open>Well-formed free lists\<close>

definition apart :: "nat \<Rightarrow> nat set \<Rightarrow> bool" where
  "apart b S \<longleftrightarrow> 0 < b \<and> b + 16 \<le> 2 ^ 32 \<and> (\<forall>y \<in> S. y \<noteq> b \<longrightarrow> b + 16 \<le> y \<or> y + 16 \<le> b)"

definition link_words :: "nat set \<Rightarrow> nat set" where
  "link_words S = (\<Union>x \<in> S. {x + 8, x + 12})"

text \<open>The lists \<open>L\<close> are those of the table, and their blocks are those of \<open>F\<close>, by class.\<close>

definition lists_are :: "k_mm_head \<Rightarrow> (nat \<rightharpoonup> nat) \<Rightarrow> (nat \<Rightarrow> nat \<Rightarrow> nat list) \<Rightarrow> bool" where
  "lists_are h F L \<longleftrightarrow> \<not> mm_fault h \<and> (\<forall>fl. bit (fl_bitmap h) fl \<longleftrightarrow> fl < 13 \<and> sl_bitmap h fl \<noteq> 0) \<and>
     (\<forall>fl sl. fl < 13 \<and> sl < 32 \<longrightarrow>
        dseg h 0 (mm_tbl h fl sl) (L fl sl) 0 \<and> distinct (L fl sl) \<and> (bit (sl_bitmap h fl) sl \<longleftrightarrow> L fl sl \<noteq> []) \<and>
        (\<forall>a. a \<in> set (L fl sl) \<longleftrightarrow> (\<exists>s. F a = Some s \<and> is_class s fl sl)))"

definition free_apart :: "(nat \<rightharpoonup> nat) \<Rightarrow> bool" where
  "free_apart F \<longleftrightarrow> (\<forall>a s. F a = Some s \<longrightarrow> apart a (dom F) \<and> s < 2 ^ 19)"

definition lists_ok :: "k_mm_head \<Rightarrow> (nat \<rightharpoonup> nat) \<Rightarrow> bool" where
  "lists_ok h F \<longleftrightarrow> free_apart F \<and> (\<exists>L. lists_are h F L)"

lemma lists_areD:
  assumes "lists_are h F L" and "fl < 13" and "sl < 32"
  shows "dseg h 0 (mm_tbl h fl sl) (L fl sl) 0" "distinct (L fl sl)" "bit (sl_bitmap h fl) sl \<longleftrightarrow> L fl sl \<noteq> []"
    "a \<in> set (L fl sl) \<longleftrightarrow> (\<exists>s. F a = Some s \<and> is_class s fl sl)"
  using assms unfolding lists_are_def by blast+

lemma lists_ok_cong:
  assumes "lists_ok h F" and "\<And>a. a \<in> link_words (dom F) \<Longrightarrow> mm_words h' a = mm_words h a"
    and "mm_tbl h' = mm_tbl h" "sl_bitmap h' = sl_bitmap h" "fl_bitmap h' = fl_bitmap h" "mm_fault h' = mm_fault h"
  shows "lists_ok h' F"
proof -
  obtain L where L: "lists_are h F L" "free_apart F" using assms(1) by (auto simp: lists_ok_def)
  have "dseg h' 0 x (L fl sl) 0 = dseg h 0 x (L fl sl) 0" if "fl < 13" "sl < 32" for fl sl x
    using lists_areD(4) [OF L(1) that] assms(2) by (intro dseg_cong) (auto simp: link_words_def)
  then have "lists_are h' F L" using L(1) assms(3-6) by (simp add: lists_are_def)
  then show ?thesis using L(2) by (auto simp: lists_ok_def)
qed

text \<open>Link words of different blocks are different.\<close>

lemma apart_words:
  assumes "apart b S" and "y \<in> S" and "y \<noteq> b"
  shows "y + 8 \<noteq> b + 8" "y + 8 \<noteq> b + 12" "y + 12 \<noteq> b + 8" "y + 12 \<noteq> b + 12"
  using assms unfolding apart_def by auto

lemma free_apartD: "free_apart F \<Longrightarrow> F a = Some s \<Longrightarrow> apart a (dom F)" "free_apart F \<Longrightarrow> F a = Some s \<Longrightarrow> s < 2 ^ 19"
  by (auto simp: free_apart_def)

lemma free_addr:
  assumes "free_apart F" and "a \<in> dom F"
  shows "0 < a" "a < 2 ^ 32"
proof -
  have "0 < a \<and> a + 16 \<le> 2 ^ 32" using assms by (auto simp: free_apart_def apart_def)
  then show "0 < a" "a < 2 ^ 32" by simp_all
qed

section \<open>Inserting a block\<close>

lemma insert_block_words:
  assumes "fl < 13" "sl < 32"
  shows "mm_words (insert_block b fl sl h) =
    (if mm_tbl h fl sl \<noteq> 0 then (mm_words h)(b + 8 := 0, b + 12 := of_nat (mm_tbl h fl sl), mm_tbl h fl sl + 8 := of_nat b)
     else (mm_words h)(b + 8 := 0, b + 12 := 0))"
  using assms by (auto simp: insert_block_def Let_def blk_sets)

lemma insert_block_tables:
  assumes "fl < 13" "sl < 32"
  shows "mm_tbl (insert_block b fl sl h) = (mm_tbl h)(fl := (mm_tbl h fl)(sl := b))"
    "sl_bitmap (insert_block b fl sl h) = (sl_bitmap h)(fl := sl_bitmap h fl OR push_bit sl 1)"
    "fl_bitmap (insert_block b fl sl h) = fl_bitmap h OR push_bit fl 1" "mm_fault (insert_block b fl sl h) = mm_fault h"
    "regioninfo (insert_block b fl sl h) = regioninfo h"
  using assms bitmap_set_word [of sl] bitmap_set_word [of fl] by (auto simp: insert_block_def Let_def blk_sets)

lemma insert_block_ok:
  assumes "lists_ok h F" and "F b = None" and "apart b (dom F)" and "is_class s fl sl" and "fl < 13" and "s < 2 ^ 19"
  shows "lists_ok (insert_block b fl sl h) (F(b \<mapsto> s))"
    and "\<And>a. a \<notin> link_words (insert b (dom F)) \<Longrightarrow> mm_words (insert_block b fl sl h) a = mm_words h a"
proof -
  obtain L where L: "lists_are h F L" and fa: "free_apart F" using assms(1) by (auto simp: lists_ok_def)
  have sl: "sl < 32" using class_bounds(1) [OF assms(4)] .
  let ?h = "insert_block b fl sl h" and ?x = "mm_tbl h fl sl"
  note Ls = lists_areD [OF L assms(5) sl]
  note wd = insert_block_words [OF assms(5) sl, of b h]
  have x: "?x \<in> set (L fl sl)" if "?x \<noteq> 0" using Ls(1) that by (cases "L fl sl") auto
  then have xF: "?x \<in> dom F" if "?x \<noteq> 0" using Ls(4) that by blast
  show "mm_words ?h a = mm_words h a" if "a \<notin> link_words (insert b (dom F))" for a
    using that xF wd by (auto simp: link_words_def split: if_splits)
  have b: "0 < b" "b < 2 ^ 32" using assms(3) by (simp_all add: apart_def)
  have bw: "y + 8 \<noteq> b + 8 \<and> y + 8 \<noteq> b + 12 \<and> y + 12 \<noteq> b + 8 \<and> y + 12 \<noteq> b + 12" if "y \<in> dom F" for y
    using apart_words [OF assms(3) that] that assms(2) by (metis domIff)
  have xw: "y + 8 \<noteq> ?x + 8 \<and> y + 12 \<noteq> ?x + 8" if "y \<in> dom F" "y \<noteq> ?x" "?x \<noteq> 0" for y
    using apart_words [of ?x "dom F" y] that xF fa by (auto simp: free_apart_def)
  have xw': "y + 12 \<noteq> ?x + 8" if "y \<in> dom F" "?x \<noteq> 0" for y using xw that by (cases "y = ?x") auto
  define L' where "L' = L(fl := (L fl)(sl := b # L fl sl))"
  have other: "dseg ?h 0 y (L f' s') 0 = dseg h 0 y (L f' s') 0" if f': "f' < 13" "s' < 32" "(f', s') \<noteq> (fl, sl)" for f' s' y
  proof (rule dseg_cong)
    fix z assume z: "z \<in> set (L f' s')"
    then obtain t where t: "F z = Some t" "is_class t f' s'" using lists_areD(4) [OF L f'(1,2)] by blast
    have "z \<noteq> ?x" if "?x \<noteq> 0"
      using x [OF that] Ls(4) [of ?x] t is_class_unique [OF t(2), of fl sl] f'(3) by auto
    then show "mm_words ?h (z + 8) = mm_words h (z + 8) \<and> mm_words ?h (z + 12) = mm_words h (z + 12)"
      using bw [of z] xw [of z] t(1) by (auto simp: wd domI)
  qed
  have inF: "y \<in> dom F" if "y \<in> set (L fl sl)" for y using that Ls(4) by blast
  have "dseg ?h b ?x (L fl sl) 0"
  proof (rule dseg_new_prev [OF Ls(1)])
    show "0 \<notin> set (L fl sl)" using inF free_addr(1) [OF fa] by blast
  qed (use b Ls(2) bw xw xw' inF in \<open>auto simp: wd\<close>)
  moreover have "?x < 2 ^ 32" using free_addr(2) [OF fa xF] by (cases "?x = 0") simp_all
  ultimately have same: "dseg ?h 0 b (b # L fl sl) 0"
    using unat_ptr [of ?x] bw [OF xF] by (auto simp: free_prev_def free_next_def wd)
  have "lists_are ?h (F(b \<mapsto> s)) L'"
    unfolding lists_are_def insert_block_tables [OF assms(5) sl]
  proof (intro conjI allI impI)
    show "\<not> mm_fault h" using L by (simp add: lists_are_def)
    show "bit (fl_bitmap h OR push_bit fl 1) f' \<longleftrightarrow> f' < 13 \<and> ((sl_bitmap h)(fl := sl_bitmap h fl OR push_bit sl 1)) f' \<noteq> 0" for f'
    proof -
      have "sl_bitmap h fl OR push_bit sl 1 \<noteq> 0" using bit_set_word [OF sl, of "sl_bitmap h fl" sl] by auto
      then show ?thesis using L assms(5) bit_set_word [of fl "fl_bitmap h" f'] by (auto simp: lists_are_def)
    qed
  next
    fix f' s' :: nat assume f: "f' < 13 \<and> s' < 32"
    then have f12: "f' < 13" "s' < 32" by simp_all
    note Lf = lists_areD [OF L f12]
    show "dseg ?h 0 (((mm_tbl h)(fl := (mm_tbl h fl)(sl := b))) f' s') (L' f' s') 0"
      using same other [OF f12] Lf(1) by (auto simp: L'_def)
    show "distinct (L' f' s')" using Lf(2) Ls(2,4) assms(2) by (auto simp: L'_def)
    show "bit (((sl_bitmap h)(fl := sl_bitmap h fl OR push_bit sl 1)) f') s' \<longleftrightarrow> L' f' s' \<noteq> []"
      using Lf(3) bit_set_word [OF sl] by (auto simp: L'_def)
    show "a \<in> set (L' f' s') \<longleftrightarrow> (\<exists>t. (F(b \<mapsto> s)) a = Some t \<and> is_class t f' s')" for a
    proof (cases "a = b")
      case True
      have "is_class s f' s' \<longleftrightarrow> f' = fl \<and> s' = sl" using assms(4) is_class_unique [OF assms(4), of f' s'] by auto
      moreover have "b \<notin> set (L f' s')" using Lf(4) [of b] assms(2) by simp
      ultimately show ?thesis using True by (auto simp: L'_def)
    next
      case False
      then show ?thesis using Lf(4) [of a] by (auto simp: L'_def)
    qed
  qed
  moreover have "free_apart (F(b \<mapsto> s))" using fa assms(3,6) unfolding free_apart_def apart_def by (auto split: if_splits)
  ultimately show "lists_ok ?h (F(b \<mapsto> s))" by (auto simp: lists_ok_def)
qed

section \<open>Removing a block\<close>

lemma clear_bits_simps [simp]:
  "mm_words (clear_bits fl sl h) = mm_words h" "mm_tbl (clear_bits fl sl h) = mm_tbl h" "mm_fault (clear_bits fl sl h) = mm_fault h"
  "regioninfo (clear_bits fl sl h) = regioninfo h"
  by (simp_all add: clear_bits_def Let_def)

lemma clear_bits_bitmaps:
  assumes "sl < 32" "fl < 13"
  shows "sl_bitmap (clear_bits fl sl h) = (sl_bitmap h)(fl := sl_bitmap h fl AND NOT (push_bit sl 1))"
    "fl_bitmap (clear_bits fl sl h) =
       (if sl_bitmap h fl AND NOT (push_bit sl 1) = 0 then fl_bitmap h AND NOT (push_bit fl 1) else fl_bitmap h)"
  using assms bitmap_clear_word [of sl] bitmap_clear_word [of fl] by (simp_all add: clear_bits_def Let_def)

text \<open>The words a removal writes: the links of the neighbours \<open>q\<close> and \<open>n\<close> and of the block itself.\<close>

definition unlink_words :: "nat \<Rightarrow> nat \<Rightarrow> nat \<Rightarrow> mm_mem \<Rightarrow> mm_mem" where
  "unlink_words b q n m =
     (let m1 = (if n \<noteq> 0 then m(n + 8 := of_nat q) else m); m2 = (if q \<noteq> 0 then m1(q + 12 := of_nat n) else m1)
      in m2(b + 8 := 0, b + 12 := 0))"

text \<open>The state after a removal from the list \<open>as @ b # bs\<close>.\<close>

definition removed :: "nat \<Rightarrow> nat \<Rightarrow> nat \<Rightarrow> nat \<Rightarrow> nat \<Rightarrow> k_mm_head \<Rightarrow> k_mm_head" where
  "removed b q n fl sl h =
     (let h1 = (if q = 0 then h\<lparr>mm_tbl := (mm_tbl h)(fl := (mm_tbl h fl)(sl := n))\<rparr> else h);
          h2 = (if q = 0 \<and> n = 0 then clear_bits fl sl h1 else h1)
      in h2\<lparr>mm_words := unlink_words b q n (mm_words h)\<rparr>)"

lemma list_neighbours:
  assumes "dseg h 0 x (as @ b # bs) 0" and "0 \<notin> set (as @ b # bs)"
  shows "free_prev h b = (if as = [] then 0 else last as)" and "free_next h b = (if bs = [] then 0 else hd bs)"
    and "x = hd (as @ [b])"
proof -
  obtain y where y: "dseg h 0 x as y" "dseg h (last (0 # as)) y (b # bs) 0" using assms(1) dseg_append by blast
  then show "free_prev h b = (if as = [] then 0 else last as)" by simp
  show "free_next h b = (if bs = [] then 0 else hd bs)" using y(2) by (cases bs) auto
  show "x = hd (as @ [b])" using y by (cases as) auto
qed

lemma removed_ok:
  assumes L: "lists_are h F L" and fa: "free_apart F" and b: "F b = Some s" "is_class s fl sl" and fl: "fl < 13"
    and q: "q = free_prev h b" and n: "n = free_next h b"
  shows "lists_ok (removed b q n fl sl h) (F(b := None))"
    and "mm_tbl h fl sl = b \<longleftrightarrow> q = 0" and "q = 0 \<or> q \<in> dom F" and "n = 0 \<or> n \<in> dom F" and "q \<noteq> b" and "n \<noteq> b"
proof -
  have sl: "sl < 32" using class_bounds(1) [OF b(2)] .
  note Ls = lists_areD [OF L fl sl]
  obtain as bs where ab: "L fl sl = as @ b # bs" using Ls(4) [of b] b by (meson in_set_conv_decomp)
  have inF: "y \<in> dom F" if "y \<in> set (L fl sl)" for y using that Ls(4) by blast
  have z: "0 \<notin> set (as @ b # bs)" using inF free_addr(1) [OF fa] ab by force
  have dist: "distinct (as @ b # bs)" using Ls(2) ab by simp
  note nb = list_neighbours [OF Ls(1) [unfolded ab] z]
  have q': "q = (if as = [] then 0 else last as)" and n': "n = (if bs = [] then 0 else hd bs)" using nb(1,2) q n by simp_all
  have qF: "q \<in> set as" if "q \<noteq> 0" using that q' by (simp split: if_splits)
  have nF: "n \<in> set bs" if "n \<noteq> 0" using that n' by (simp split: if_splits)
  have "last as \<noteq> 0" if "as \<noteq> []" using last_in_set [OF that] z by (metis Un_iff set_append)
  then have q0: "q = 0 \<longleftrightarrow> as = []" using q' by (auto split: if_splits)
  have n0: "n = 0 \<longleftrightarrow> bs = []" using n' z by (cases bs) auto
  show tb: "mm_tbl h fl sl = b \<longleftrightarrow> q = 0" using nb(3) q0 dist by (cases as) auto
  show "q = 0 \<or> q \<in> dom F" "n = 0 \<or> n \<in> dom F" using qF nF inF ab by auto
  show "q \<noteq> b" "n \<noteq> b" using qF nF dist z by auto
  have nq: "n \<noteq> q" if "n \<noteq> 0" using nF [OF that] qF dist that by auto
  have lt: "q < 2 ^ 32" "n < 2 ^ 32" using \<open>q = 0 \<or> q \<in> dom F\<close> \<open>n = 0 \<or> n \<in> dom F\<close> free_addr(2) [OF fa] by auto
  have ap: "y + 8 \<noteq> x + 8 \<and> y + 8 \<noteq> x + 12 \<and> y + 12 \<noteq> x + 8 \<and> y + 12 \<noteq> x + 12" if "x \<in> dom F" "y \<in> dom F" "y \<noteq> x" for x y
    using apart_words [of x "dom F" y] that fa by (auto simp: free_apart_def)
  let ?m = "unlink_words b q n (mm_words h)" and ?h = "removed b q n fl sl h"
  have hw: "mm_words ?h = ?m" by (simp add: removed_def Let_def)
  have w8: "?m (y + 8) = (if y = n \<and> n \<noteq> 0 then of_nat q else mm_words h (y + 8))" if "y \<in> dom F" "y \<noteq> b" for y
    using that ap [of b y] ap [of q y] ap [of n y] \<open>q = 0 \<or> q \<in> dom F\<close> \<open>n = 0 \<or> n \<in> dom F\<close> b(1)
    by (cases "y = n"; cases "y = q") (auto simp: unlink_words_def Let_def domI)
  have w12: "?m (y + 12) = (if y = q \<and> q \<noteq> 0 then of_nat n else mm_words h (y + 12))" if "y \<in> dom F" "y \<noteq> b" for y
    using that ap [of b y] ap [of q y] ap [of n y] \<open>q = 0 \<or> q \<in> dom F\<close> \<open>n = 0 \<or> n \<in> dom F\<close> b(1)
    by (cases "y = n"; cases "y = q") (auto simp: unlink_words_def Let_def domI)
  define L' where "L' = L(fl := (L fl)(sl := as @ bs))"
  have other: "dseg ?h 0 y (L f' s') 0 = dseg h 0 y (L f' s') 0" if f': "f' < 13" "s' < 32" "(f', s') \<noteq> (fl, sl)" for f' s' y
  proof (rule dseg_cong)
    fix v assume "v \<in> set (L f' s')"
    then obtain t where t: "F v = Some t" "is_class t f' s'" using lists_areD(4) [OF L f'(1,2)] by blast
    have "v \<notin> set (L fl sl)" using t Ls(4) is_class_unique [OF t(2), of fl sl] f'(3) by auto
    then have "v \<noteq> b" "v \<noteq> q \<or> q = 0" "v \<noteq> n \<or> n = 0" using qF nF ab by auto
    then show "mm_words ?h (v + 8) = mm_words h (v + 8) \<and> mm_words ?h (v + 12) = mm_words h (v + 12)"
      using w8 [of v] w12 [of v] t(1) by (auto simp: hw domI)
  qed
  have inas: "y \<in> dom F \<and> y \<noteq> b" if "y \<in> set as \<or> y \<in> set bs" for y using that inF [of y] ab dist by auto
  obtain y0 where y0: "dseg h 0 (mm_tbl h fl sl) as y0" "dseg h (last (0 # as)) y0 (b # bs) 0" using Ls(1) ab dseg_append by metis
  have front: "dseg ?h 0 (if as = [] then n else mm_tbl h fl sl) as n"
  proof (cases as rule: rev_cases)
    case (snoc as' z)
    then have zq: "z = q" "q \<noteq> 0" using q' q0 by simp_all
    have "dseg ?h 0 (mm_tbl h fl sl) (as' @ [z]) n"
    proof (rule dseg_new_next)
      show "dseg h 0 (mm_tbl h fl sl) (as' @ [z]) y0" using y0(1) snoc by simp
      show "mm_words ?h (y + 12) = mm_words h (y + 12)" if "y \<in> set as'" for y
        using w12 [of y] inas [of y] that snoc zq dist by (auto simp: hw)
      show "mm_words ?h (y + 8) = mm_words h (y + 8)" if "y \<in> set (as' @ [z])" for y
      proof -
        have "y \<in> set as" using that snoc by simp
        then have "y \<noteq> n \<or> n = 0" using nF dist by auto
        then show ?thesis using w8 [of y] inas [of y] \<open>y \<in> set as\<close> by (auto simp: hw)
      qed
      show "mm_words ?h (z + 12) = of_nat n" using w12 [of z] inas [of z] zq qF by (simp add: hw)
    qed (use lt dist snoc in auto)
    then show ?thesis using snoc by simp
  qed simp
  have lq: "last (0 # as) = q" by (simp add: q')
  have rear: "dseg ?h (last (0 # as)) n bs 0"
  proof (rule dseg_new_prev [of h b])
    show "dseg h b n bs 0" using y0(2) n by simp
    show "mm_words ?h (y + 8) = mm_words h (y + 8)" if "y \<in> set bs" "y \<noteq> n" for y
      using w8 [of y] inas [of y] that by (auto simp: hw)
    show "mm_words ?h (y + 12) = mm_words h (y + 12)" if "y \<in> set bs" for y
      using w12 [of y] inas [of y] that qF dist by (auto simp: hw)
    show "mm_words ?h (n + 8) = of_nat (last (0 # as))" if "n \<noteq> 0" unfolding lq hw using w8 [of n] inas [of n] nF that by simp
    show "last (0 # as) < 2 ^ 32" unfolding lq by (rule lt(1))
  qed (use z dist in auto)
  have same: "dseg ?h 0 (if q = 0 then n else mm_tbl h fl sl) (as @ bs) 0"
    unfolding dseg_append q0 using front rear by (intro exI [of _ n] conjI)
  have tbl: "mm_tbl ?h = (if q = 0 then (mm_tbl h)(fl := (mm_tbl h fl)(sl := n)) else mm_tbl h)" by (simp add: removed_def Let_def)
  have slb: "sl_bitmap ?h = (if q = 0 \<and> n = 0 then (sl_bitmap h)(fl := sl_bitmap h fl AND NOT (push_bit sl 1)) else sl_bitmap h)"
    using clear_bits_bitmaps(1) [OF sl fl] by (simp add: removed_def Let_def)
  have flb: "fl_bitmap ?h = (if q = 0 \<and> n = 0 \<and> sl_bitmap h fl AND NOT (push_bit sl 1) = 0 then fl_bitmap h AND NOT (push_bit fl 1) else fl_bitmap h)"
    using clear_bits_bitmaps(2) [OF sl fl] by (auto simp: removed_def Let_def)
  have ne: "sl_bitmap h fl \<noteq> 0" using Ls(3) ab by auto
  have "lists_are ?h (F(b := None)) L'" unfolding lists_are_def
  proof (intro conjI allI impI)
    show "\<not> mm_fault ?h" using L by (simp add: lists_are_def removed_def Let_def)
    show "bit (fl_bitmap ?h) f' \<longleftrightarrow> f' < 13 \<and> sl_bitmap ?h f' \<noteq> 0" for f'
      using L fl ne bit_clear_word [of fl "fl_bitmap h" f'] unfolding flb slb lists_are_def by auto
  next
    fix f' s' :: nat assume f: "f' < 13 \<and> s' < 32"
    then have f12: "f' < 13" "s' < 32" by simp_all
    note Lf = lists_areD [OF L f12]
    show "dseg ?h 0 (mm_tbl ?h f' s') (L' f' s') 0"
      using same other [OF f12] Lf(1) unfolding tbl by (auto simp: L'_def)
    show "distinct (L' f' s')" using Lf(2) dist by (auto simp: L'_def)
    show "bit (sl_bitmap ?h f') s' \<longleftrightarrow> L' f' s' \<noteq> []"
      using Lf(3) bit_clear_word [OF sl, of "sl_bitmap h fl" s'] q0 n0 ab unfolding slb by (auto simp: L'_def)
    show "a \<in> set (L' f' s') \<longleftrightarrow> (\<exists>t. (F(b := None)) a = Some t \<and> is_class t f' s')" for a
    proof (cases "a = b")
      case True
      have "b \<in> set (L f' s') \<longleftrightarrow> f' = fl \<and> s' = sl" using Lf(4) [of b] b is_class_unique [OF b(2), of f' s'] by auto
      then show ?thesis using True dist by (auto simp: L'_def)
    next
      case False
      then show ?thesis using Lf(4) [of a] ab by (auto simp: L'_def)
    qed
  qed
  moreover have "free_apart (F(b := None))" using fa by (auto simp: free_apart_def apart_def)
  ultimately show "lists_ok ?h (F(b := None))" by (auto simp: lists_ok_def)
qed

lemma unlink_words_frame:
  assumes "q = 0 \<or> q \<in> S" and "n = 0 \<or> n \<in> S" and "b \<in> S" and "a \<notin> link_words S"
  shows "unlink_words b q n m a = m a"
  using assms by (auto simp: unlink_words_def link_words_def Let_def)

lemma get_block_removed:
  assumes "free_prev h b \<noteq> b" "free_next h b \<noteq> b" and "mm_tbl h fl sl = b \<longleftrightarrow> free_prev h b = 0" and "fl < 13" "sl < 32"
    and "free_next h b = 0 \<or> apart (free_next h b) {b}" and "free_prev h b = 0 \<or> apart (free_prev h b) {b}"
  shows "get_block b fl sl h = removed b (free_prev h b) (free_next h b) fl sl h"
proof -
  have "b + 8 \<noteq> free_next h b + 8 \<and> b + 12 \<noteq> free_next h b + 8" if "free_next h b \<noteq> 0" using that assms(2,6) by (auto simp: apart_def)
  moreover have "b + 12 \<noteq> free_prev h b + 12" using assms(1) by simp
  ultimately show ?thesis
    using assms(3-5) unfolding get_block_def removed_def unlink_words_def Let_def blk_sets free_prev_def free_next_def
    by (auto simp: clear_bits_def Let_def set_word_def)
qed

lemma get_block_ok:
  assumes "lists_ok h F" and "F b = Some s" and "is_class s fl sl" and "fl < 13"
  shows "lists_ok (get_block b fl sl h) (F(b := None))"
    and "\<And>a. a \<notin> link_words (dom F) \<Longrightarrow> mm_words (get_block b fl sl h) a = mm_words h a"
    and "regioninfo (get_block b fl sl h) = regioninfo h"
proof -
  obtain L where L: "lists_are h F L" and fa: "free_apart F" using assms(1) by (auto simp: lists_ok_def)
  note r = removed_ok [OF L fa assms(2-4) refl refl]
  have "apart x {b}" if "x \<in> dom F" for x using that fa assms(2) by (auto simp: free_apart_def apart_def domI)
  then have e: "get_block b fl sl h = removed b (free_prev h b) (free_next h b) fl sl h"
    using r(2-6) assms(4) class_bounds(1) [OF assms(3)] by (intro get_block_removed) auto
  show "lists_ok (get_block b fl sl h) (F(b := None))" unfolding e by (rule r(1))
  show "regioninfo (get_block b fl sl h) = regioninfo h" unfolding e by (simp add: removed_def Let_def)
  show "mm_words (get_block b fl sl h) a = mm_words h a" if "a \<notin> link_words (dom F)" for a
    unfolding e using unlink_words_frame [OF r(3,4) domI [of F b] that] assms(2) by (simp add: removed_def Let_def)
qed

text \<open>Taking the first block of a list, as \<open>k_mm_alloc\<close> does, is a removal.\<close>

lemma take_first_get_block:
  assumes "lists_ok h F" and "F b = Some s" and "is_class s fl sl" and "fl < 13" and "mm_tbl h fl sl = b"
  shows "take_first b fl sl h = get_block b fl sl h"
proof -
  obtain L where L: "lists_are h F L" and fa: "free_apart F" using assms(1) by (auto simp: lists_ok_def)
  note r = removed_ok [OF L fa assms(2-4) refl refl]
  have "apart x {b}" if "x \<in> dom F" for x using that fa assms(2) by (auto simp: free_apart_def apart_def domI)
  then have "get_block b fl sl h = removed b (free_prev h b) (free_next h b) fl sl h"
    using r(2-6) assms(4) class_bounds(1) [OF assms(3)] by (intro get_block_removed) auto
  moreover have "free_prev h b = 0" using r(2) assms(5) by simp
  ultimately show ?thesis
    by (simp add: take_first_def removed_def unlink_words_def Let_def blk_sets set_word_def clear_bits_def)
qed

section \<open>Searching a block\<close>

lemma bit_high_mask:
  "bit (w AND push_bit n (NOT 0) :: u32) i \<longleftrightarrow> n \<le> i \<and> bit w i" "bit (w AND NOT (mask n) :: u32) i \<longleftrightarrow> n \<le> i \<and> bit w i"
  using bit_imp_le_length [of w i] by (auto simp: bit_simps)

lemma first_of_list:
  assumes "lists_are h F L" and "fl < 13" and "sl < 32" and "bit (sl_bitmap h fl) sl"
  obtains s where "F (mm_tbl h fl sl) = Some s" and "is_class s fl sl"
proof -
  note l = lists_areD [OF assms(1-3)]
  obtain y ys where "L fl sl = y # ys" using l(3) assms(4) by (cases "L fl sl") auto
  then have "mm_tbl h fl sl \<in> set (L fl sl)" using l(1) by simp
  then show thesis using l(4) that by blast
qed

lemma findblk_ok:
  assumes "lists_ok h F" and "fl < 13" and "sl < 32" and "findblk_byidx h fl sl = (b, fl', sl')"
  shows "b \<noteq> 0 \<Longrightarrow> fl' < 13 \<and> mm_tbl h fl' sl' = b \<and> (fl < fl' \<or> fl = fl' \<and> sl \<le> sl') \<and> (\<exists>s. F b = Some s \<and> is_class s fl' sl')"
    and "b = 0 \<Longrightarrow> F a = Some s \<Longrightarrow> is_class s f1 s1 \<Longrightarrow> f1 < 13 \<Longrightarrow> \<not> (fl < f1 \<or> fl = f1 \<and> sl \<le> s1)"
proof -
  obtain L where L: "lists_are h F L" and fa: "free_apart F" using assms(1) by (auto simp: lists_ok_def)
  let ?t = "sl_bitmap h fl AND push_bit sl (NOT 0)" and ?u = "fl_bitmap h AND push_bit (fl + 1) (NOT 0)"
  have flb: "bit (fl_bitmap h) f \<longleftrightarrow> f < 13 \<and> sl_bitmap h f \<noteq> 0" for f using L by (simp add: lists_are_def)
  have member: "bit (sl_bitmap h f1) s1" if "F a = Some s" "is_class s f1 s1" "f1 < 13" for f1 s1 a s
    using lists_areD(3) [OF L that(3) class_bounds(1) [OF that(2)]] lists_areD(4) [OF L that(3) class_bounds(1) [OF that(2)], of a] that(1,2)
    by force
  have pos: "mm_tbl h f l \<noteq> 0" if "f < 13" "l < 32" "bit (sl_bitmap h f) l" for f l
    using first_of_list [OF L that] free_addr(1) [OF fa] by (metis domI less_nat_zero_code)
  have main: "(b \<noteq> 0 \<longrightarrow> fl' < 13 \<and> mm_tbl h fl' sl' = b \<and> (fl < fl' \<or> fl = fl' \<and> sl \<le> sl') \<and> (\<exists>s. F b = Some s \<and> is_class s fl' sl')) \<and>
    (b = 0 \<longrightarrow> ?t = 0 \<and> ?u = 0)"
  proof (cases "?t = 0")
    case False
    note t = find_last_bit_spec [OF False]
    have bt: "sl \<le> find_last_bit ?t" "bit (sl_bitmap h fl) (find_last_bit ?t)" using t(1) by (simp_all add: bit_high_mask)
    have "b = mm_tbl h fl (find_last_bit ?t)" "fl' = fl" "sl' = find_last_bit ?t"
      using assms(4) False by (auto simp: findblk_byidx_def Let_def)
    then show ?thesis using first_of_list [OF L assms(2) t(3) bt(2)] pos [OF assms(2) t(3) bt(2)] assms(2) bt(1) by auto
  next
    case True
    show ?thesis
    proof (cases "?u = 0")
      case True
      then show ?thesis using assms(4) \<open>?t = 0\<close> by (simp add: findblk_byidx_def Let_def find_last_bit_def)
    next
      case False
      define f where "f = find_last_bit ?u"
      have "bit ?u f" unfolding f_def by (rule find_last_bit_spec(1) [OF False])
      then have f: "fl < f" "f < 13" "sl_bitmap h f \<noteq> 0" using flb by (auto simp: bit_high_mask)
      note t = find_last_bit_spec [OF f(3)]
      have "b = mm_tbl h f (find_last_bit (sl_bitmap h f))" "fl' = f" "sl' = find_last_bit (sl_bitmap h f)"
        using assms(4) True f(1) unfolding f_def by (auto simp: findblk_byidx_def Let_def)
      then show ?thesis using first_of_list [OF L f(2) t(3) t(1)] pos [OF f(2) t(3) t(1)] f(1,2) by auto
    qed
  qed
  then show "b \<noteq> 0 \<Longrightarrow> fl' < 13 \<and> mm_tbl h fl' sl' = b \<and> (fl < fl' \<or> fl = fl' \<and> sl \<le> sl') \<and> (\<exists>s. F b = Some s \<and> is_class s fl' sl')" by simp
  show "\<not> (fl < f1 \<or> fl = f1 \<and> sl \<le> s1)" if "b = 0" "F a = Some s" "is_class s f1 s1" "f1 < 13"
  proof
    assume "fl < f1 \<or> fl = f1 \<and> sl \<le> s1"
    moreover have bm: "bit (sl_bitmap h f1) s1" by (rule member [OF that(2-4)])
    moreover have "bit (fl_bitmap h) f1" using bm flb [of f1] that(4) by auto
    ultimately have "bit ?t s1 \<or> bit ?u f1" by (auto simp: bit_high_mask)
    then show False using conjunct2 [OF main] that(1) by auto
  qed
qed

end
