(* ===== verification/Mm_Inv.thy ===== *)
theory Mm_Inv
  imports Mm_Lists
begin

text \<open>
  The invariant of the heap.  \<open>B\<close> maps the address of every block to its size and whether it is free; \<open>E\<close> are
  the addresses of the blocks of size zero that end the regions.  \<open>mm_lay\<close> says that the blocks lie one behind the other without
  overlap, \<open>hdr_ok\<close> that the headers in memory describe them, and \<open>mm_inv\<close> adds the free lists and that no two free blocks
  are neighbours.  The steps of allocation and release are shown on headers and layout separately; the
  end of the block that is being released is exempt until its header is written.
\<close>

section \<open>Header words\<close>

declare bit_numeral_word_iff [simp del]

definition mm_hdr :: "nat \<Rightarrow> bool \<Rightarrow> bool \<Rightarrow> u32" where
  "mm_hdr s f p = of_nat s OR (if f then 1 else 0) OR (if p then 2 else 0)"

lemma bit_of_nat_4:
  assumes "4 dvd s"
  shows "\<not> bit (of_nat s :: u32) 0" "\<not> bit (of_nat s :: u32) (Suc 0)"
proof -
  obtain k where "s = 4 * k" using assms by blast
  then have "\<not> bit s 0" "\<not> bit s (Suc 0)" by (simp_all add: bit_0 bit_Suc)
  then show "\<not> bit (of_nat s :: u32) 0" "\<not> bit (of_nat s :: u32) (Suc 0)" by (simp_all only: bit_of_nat_iff) simp_all
qed

lemma small_bits: "bit (2 :: u32) i \<longleftrightarrow> i = Suc 0" "bit (1 :: u32) i \<longleftrightarrow> i = 0" "bit (0xFFFFFFFC :: u32) i \<longleftrightarrow> 2 \<le> i \<and> i < 32"
proof -
  show "bit (2 :: u32) i \<longleftrightarrow> i = Suc 0" "bit (1 :: u32) i \<longleftrightarrow> i = 0" by (auto simp: bit_2_iff bit_1_iff)
  have e: "(0xFFFFFFFC :: u32) = NOT (mask 2)" by (simp add: mask_eq_exp_minus_1)
  show "bit (0xFFFFFFFC :: u32) i \<longleftrightarrow> 2 \<le> i \<and> i < 32" unfolding e by (auto simp: bit_not_iff bit_mask_iff possible_bit_word)
qed

lemma bit_mm_hdr:
  assumes "4 dvd s"
  shows "bit (mm_hdr s f p) i \<longleftrightarrow> (if i = 0 then f else if i = Suc 0 then p else bit (of_nat s :: u32) i)"
  using bit_of_nat_4 [OF assms] by (auto simp: mm_hdr_def bit_or_iff small_bits split: if_splits)

lemma hdr_eqI:
  fixes w :: u32
  assumes "4 dvd s" and "\<And>i. i < 32 \<Longrightarrow> bit w i \<longleftrightarrow> (if i = 0 then f else if i = Suc 0 then p else bit (of_nat s :: u32) i)"
  shows "w = mm_hdr s f p"
  using assms by (intro bit_word_eqI) (simp add: bit_mm_hdr)

lemma mm_hdr_0: "4 dvd s \<Longrightarrow> mm_hdr s False False = of_nat s"
  by (simp add: mm_hdr_def)

lemma hdr_ops:
  assumes "4 dvd s"
  shows "mm_hdr s f p AND 0xFFFFFFFC = of_nat s" "mm_hdr s f p AND 1 \<noteq> 0 \<longleftrightarrow> f" "mm_hdr s f p AND 2 \<noteq> 0 \<longleftrightarrow> p"
    "mm_hdr s f p OR 1 = mm_hdr s True p" "mm_hdr s f p OR 2 = mm_hdr s f True" "mm_hdr s f p AND NOT 1 = mm_hdr s False p"
    "mm_hdr s f p AND NOT 2 = mm_hdr s f False" "4 dvd n \<Longrightarrow> of_nat n OR (mm_hdr s f p AND 2) = mm_hdr n False p"
proof -
  note bits = bit_mm_hdr [OF assms] bit_of_nat_4 [OF assms]
  show "mm_hdr s f p AND 0xFFFFFFFC = of_nat s"
  proof (rule bit_word_eqI)
    fix n assume "n < LENGTH(32)"
    then consider "n = 0" | "n = Suc 0" | "2 \<le> n" "n < 32" by (metis len_num1 len_bit0 less_2_cases_iff not_less mult.right_neutral One_nat_def mult_2 numeral_Bit0)
    then show "bit (mm_hdr s f p AND 0xFFFFFFFC) n = bit (of_nat s :: u32) n"
      by cases (use bits in \<open>simp_all add: bit_and_iff small_bits\<close>)
  qed
  show "mm_hdr s f p AND 1 \<noteq> 0 \<longleftrightarrow> f"
    by (auto simp: word_zero_bits bit_and_iff small_bits bits)
  show "mm_hdr s f p AND 2 \<noteq> 0 \<longleftrightarrow> p"
    by (auto simp: word_zero_bits bit_and_iff small_bits bits)
  show "mm_hdr s f p OR 1 = mm_hdr s True p" "mm_hdr s f p OR 2 = mm_hdr s f True"
    by (rule hdr_eqI [OF assms]; auto simp: bit_or_iff small_bits bits)+
  have nb: "bit (w AND NOT v) i \<longleftrightarrow> bit w i \<and> \<not> bit v i" for v w :: u32 and i
    using bit_imp_le_length [of w i] by (auto simp: bit_and_iff bit_not_iff)
  show "mm_hdr s f p AND NOT 1 = mm_hdr s False p" "mm_hdr s f p AND NOT 2 = mm_hdr s f False"
    by (rule hdr_eqI [OF assms]; unfold nb small_bits bits; auto)+
  show "of_nat n OR (mm_hdr s f p AND 2) = mm_hdr n False p" if "4 dvd n"
    using bit_of_nat_4 [OF that] by (intro hdr_eqI [OF that]) (auto simp: bit_or_iff bit_and_iff small_bits bits)
qed

text \<open>The same with the complements as numerals.\<close>

lemmas hdr_ops' = hdr_ops hdr_ops(6,7) [simplified]

lemma hdr_sum: "4 dvd s \<Longrightarrow> mm_hdr s f p = of_nat (s + of_bool f + 2 * of_bool p)"
proof -
  assume s: "4 dvd s"
  have "mm_hdr s f p = of_nat s + ((if f then 1 else 0) + (if p then 2 else 0))"
  proof -
    have "(if f then 1 else 0) OR (if p then 2 else 0) = (if f then 1 else 0) + (if p then 2 else (0 :: u32))"
      by (rule disjunctive_add_eq_or [symmetric], rule bit_word_eqI) (auto simp: bit_and_iff small_bits)
    moreover have "of_nat s OR ((if f then 1 else 0) OR (if p then 2 else 0)) = of_nat s + ((if f then 1 else 0) OR (if p then 2 else (0 :: u32)))"
      by (rule disjunctive_add_eq_or [symmetric], rule bit_word_eqI)
        (use bit_of_nat_4 [OF s] in \<open>auto simp: bit_and_iff bit_or_iff small_bits intro!: Nat.gr0I\<close>)
    ultimately show ?thesis by (simp add: mm_hdr_def or.assoc)
  qed
  then show ?thesis by simp
qed

lemma hdr_add: "4 dvd s \<Longrightarrow> 4 dvd t \<Longrightarrow> mm_hdr s f p + (of_nat t + 8) = mm_hdr (s + 8 + t) f p"
  by (simp add: hdr_sum)

section \<open>Layout\<close>

type_synonym mm_blocks = "nat \<rightharpoonup> nat \<times> bool"

definition mm_lay :: "mm_blocks \<Rightarrow> nat set \<Rightarrow> bool" where
  "mm_lay B E \<longleftrightarrow>
     (\<forall>a s f. B a = Some (s, f) \<longrightarrow> 0 < a \<and> 4 dvd a \<and> 4 dvd s \<and> 8 \<le> s \<and> a + 8 + s \<in> dom B \<union> E \<and>
        (\<exists>e \<in> E. a < e \<and> e \<le> a + 2 ^ 19) \<and> (\<forall>y \<in> dom B \<union> E. a < y \<longrightarrow> a + 8 + s \<le> y)) \<and>
     (\<forall>e \<in> E. 0 < e \<and> 4 dvd e \<and> e + 8 \<le> 2 ^ 32 \<and> B e = None \<and> (\<forall>y \<in> dom B \<union> E. e < y \<longrightarrow> e + 8 \<le> y))"

definition pfree :: "mm_blocks \<Rightarrow> nat \<Rightarrow> bool" where
  "pfree B y \<longleftrightarrow> (\<exists>a s. B a = Some (s, True) \<and> y = a + 8 + s)"

lemma layD:
  assumes "mm_lay B E" and "B a = Some (s, f)"
  shows "0 < a" "4 dvd a" "4 dvd s" "8 \<le> s" "a + 8 + s \<in> dom B \<union> E" "y \<in> dom B \<union> E \<Longrightarrow> a < y \<Longrightarrow> a + 8 + s \<le> y"
    "a + 8 + s + 8 \<le> 2 ^ 32" "s + 8 \<le> 2 ^ 19" "\<exists>e \<in> E. a < e \<and> e \<le> a + 2 ^ 19"
proof -
  note l = assms(1) [unfolded mm_lay_def, THEN conjunct1, rule_format, OF assms(2)]
  show "0 < a" "4 dvd a" "4 dvd s" "8 \<le> s" "a + 8 + s \<in> dom B \<union> E" "\<exists>e \<in> E. a < e \<and> e \<le> a + 2 ^ 19" using l by blast+
  show "a + 8 + s \<le> y" if "y \<in> dom B \<union> E" "a < y" using l that by blast
  obtain e where e: "e \<in> E" "a < e" "e \<le> a + 2 ^ 19" using l by blast
  then have "a + 8 + s \<le> e" "e + 8 \<le> 2 ^ 32" using l assms(1) unfolding mm_lay_def by blast+
  then show "a + 8 + s + 8 \<le> 2 ^ 32" "s + 8 \<le> 2 ^ 19" using e(3) by linarith+
qed

lemma layE:
  assumes "mm_lay B E" and "e \<in> E"
  shows "0 < e" "4 dvd e" "e + 8 \<le> 2 ^ 32" "B e = None" "y \<in> dom B \<union> E \<Longrightarrow> e < y \<Longrightarrow> e + 8 \<le> y"
  using assms unfolding mm_lay_def by blast+

lemma lay_size: "mm_lay B E \<Longrightarrow> B a = Some (s, f) \<Longrightarrow> s < 2 ^ 19"
  using layD(8) [of B E a s f] by simp

lemma lay_next: "mm_lay B E \<Longrightarrow> B a = Some (s, f) \<Longrightarrow> NEXT_MM_BLK (a + 8) (of_nat s) = a + 8 + s"
proof -
  assume l: "mm_lay B E" "B a = Some (s, f)"
  have "(of_nat (a + 8) :: u32) + of_nat s = of_nat (a + 8 + s)" by simp
  then show ?thesis using layD(7) [OF l] unat_ptr [of "a + 8 + s"] by (simp add: NEXT_MM_BLK_def)
qed

text \<open>Two blocks with the same end are the same.\<close>

lemma lay_end_inj:
  assumes "mm_lay B E" and "B a = Some (s, f)" and "B c = Some (t, g)" and "a + 8 + s = c + 8 + t"
  shows "a = c"
proof (rule ccontr)
  assume "a \<noteq> c"
  then consider "a < c" | "c < a" by linarith
  then show False
    using layD(4) [OF assms(1,2)] layD(4) [OF assms(1,3)] layD(6) [OF assms(1,2), of c] layD(6) [OF assms(1,3), of a] assms(2-4)
    by cases auto
qed

lemma pfree_end: "mm_lay B E \<Longrightarrow> B a = Some (s, f) \<Longrightarrow> pfree B (a + 8 + s) \<longleftrightarrow> f"
  unfolding pfree_def using lay_end_inj by fastforce

lemma lay_flag:
  assumes "mm_lay B E" and "B b = Some (s, f)"
  shows "mm_lay (B(b \<mapsto> (s, g))) E"
proof -
  have d: "dom (B(b \<mapsto> (s, g))) = dom B" using assms(2) by auto
  show ?thesis unfolding mm_lay_def d
  proof (intro conjI allI impI ballI)
    fix a t f' assume "(B(b \<mapsto> (s, g))) a = Some (t, f')"
    then have "\<exists>f. B a = Some (t, f)" using assms(2) by (auto split: if_splits)
    then obtain f where a: "B a = Some (t, f)" by blast
    note l = layD [OF assms(1) a]
    show "0 < a" "4 dvd a" "4 dvd t" "8 \<le> t" "a + 8 + t \<in> dom B \<union> E" "\<exists>e \<in> E. a < e \<and> e \<le> a + 2 ^ 19" by (fact l)+
    show "a + 8 + t \<le> y" if "y \<in> dom B \<union> E" "a < y" for y by (rule l(6) [OF that])
  next
    fix e assume e: "e \<in> E"
    note l = layE [OF assms(1) e]
    show "0 < e" "4 dvd e" "e + 8 \<le> 2 ^ 32" by (fact l)+
    show "(B(b \<mapsto> (s, g))) e = None" using l(4) assms(2) by auto
    show "e + 8 \<le> y" if "y \<in> dom B \<union> E" "e < y" for y by (rule l(5) [OF that])
  qed
qed

lemma lay_join:
  assumes "mm_lay B E" and "B a = Some (s, f)" and "B (a + 8 + s) = Some (t, g)"
  shows "mm_lay (B(a \<mapsto> (s + 8 + t, k), a + 8 + s := None)) E"
proof -
  let ?c = "a + 8 + s" and ?B = "B(a \<mapsto> (s + 8 + t, k), a + 8 + s := None)"
  have d: "dom ?B = dom B - {?c}" using assms(2) by auto
  note la = layD [OF assms(1,2)] and lc = layD [OF assms(1,3)]
  show ?thesis unfolding mm_lay_def
  proof (intro conjI allI impI ballI)
    fix x u f' assume x: "?B x = Some (u, f')"
    show "0 < x" "4 dvd x" "4 dvd u" "8 \<le> u" "\<exists>e \<in> E. x < e \<and> e \<le> x + 2 ^ 19"
      using x layD(1-4,9) [OF assms(1), of x] la(1-4,9) lc(3) by (auto split: if_splits)
    show "x + 8 + u \<in> dom ?B \<union> E"
    proof (cases "x = a")
      case True
      then have e: "x + 8 + u = ?c + 8 + t" using x by (auto split: if_splits)
      have "?c + 8 + t \<noteq> ?c" by simp
      then show ?thesis unfolding e d using lc(5) by blast
    next
      case False
      then have "B x = Some (u, f')" using x by (auto split: if_splits)
      moreover have "x + 8 + u \<noteq> ?c" using lay_end_inj [OF assms(1) calculation assms(2)] False by auto
      ultimately show ?thesis using layD(5) [OF assms(1), of x u f'] unfolding d by auto
    qed
    show "x + 8 + u \<le> y" if y: "y \<in> dom ?B \<union> E" "x < y" for y
    proof -
      have yB: "y \<in> dom B \<union> E" and yc: "y \<noteq> ?c" using y(1) layE(4) [OF assms(1)] assms(3) unfolding d by auto
      show ?thesis
      proof (cases "x = a")
        case True
        then have "u = s + 8 + t" using x by (auto split: if_splits)
        moreover have "?c \<le> y" using la(6) [OF yB] y(2) True by simp
        ultimately show ?thesis using lc(6) [OF yB] yc True by auto
      next
        case False
        then have "B x = Some (u, f')" using x by (auto split: if_splits)
        then show ?thesis using layD(6) [OF assms(1) _ yB y(2)] by blast
      qed
    qed
  next
    fix e assume e: "e \<in> E"
    note l = layE [OF assms(1) e]
    show "0 < e" "4 dvd e" "e + 8 \<le> 2 ^ 32" by (fact l)+
    show "?B e = None" using l(4) assms(2) by auto
    show "e + 8 \<le> y" if "y \<in> dom ?B \<union> E" "e < y" for y using l(5) that unfolding d by auto
  qed
qed

lemma lay_split:
  assumes "mm_lay B E" and "B b = Some (s, f)" and "4 dvd n" "8 \<le> n" "n + 16 \<le> s"
  shows "mm_lay (B(b \<mapsto> (n, f1), b + 8 + n \<mapsto> (s - n - 8, f2))) E" and "b + 8 + n \<notin> dom B \<union> E"
proof -
  let ?m = "b + 8 + n" and ?B = "B(b \<mapsto> (n, f1), b + 8 + n \<mapsto> (s - n - 8, f2))"
  have d: "dom ?B = insert ?m (dom B)" using assms(2) by auto
  note lb = layD [OF assms(1,2)]
  show m: "?m \<notin> dom B \<union> E" using lb(6) [of ?m] assms(5) by auto
  have div: "4 dvd s - n - 8" using lb(3) assms(3) by (metis dvd_diff_nat dvd_refl dvd_triv_right numeral_Bit0 dvd_add)
  show "mm_lay ?B E" unfolding mm_lay_def
  proof (intro conjI allI impI ballI)
    fix x u f' assume x: "?B x = Some (u, f')"
    consider (1) "x = ?m" "u = s - n - 8" | (2) "x = b" "u = n" | (3) "B x = Some (u, f')" "x \<noteq> b" "x \<noteq> ?m"
      using x by (auto split: if_splits)
    then have all: "0 < x \<and> 4 dvd x \<and> 4 dvd u \<and> 8 \<le> u \<and> (\<exists>e \<in> E. x < e \<and> e \<le> x + 2 ^ 19) \<and> x + 8 + u \<in> dom ?B \<union> E \<and>
      (\<forall>y \<in> dom B \<union> E. x < y \<longrightarrow> x + 8 + u \<le> y) \<and> (x < ?m \<longrightarrow> x + 8 + u \<le> ?m)"
    proof cases
      case 1
      obtain e where e: "e \<in> E" "b < e" "e \<le> b + 2 ^ 19" using lb(9) by blast
      have "b + 8 + s \<le> e" using lb(6) [of e] e(1,2) by auto
      then have "\<exists>e \<in> E. x < e \<and> e \<le> x + 2 ^ 19" using e 1 assms(5) by (intro bexI [of _ e]) auto
      moreover have e: "x + 8 + u = b + 8 + s" using 1 assms(5) by simp
      moreover have "4 dvd x" using lb(2) assms(3) 1 by simp
      moreover have "b + 8 + s \<le> y" if "y \<in> dom B \<union> E" "x < y" for y using lb(6) [OF that(1)] that(2) 1 by simp
      moreover have "0 < x" "8 \<le> u" "4 dvd u" "\<not> x < ?m" using 1 assms(5) div by simp_all
      ultimately show ?thesis using lb(5) unfolding e d by blast
    next
      case 2
      moreover have "?m \<le> y" if "y \<in> dom B \<union> E" "b < y" for y using lb(6) [OF that] assms(5) by simp
      ultimately show ?thesis using lb(1,2,9) assms(3,4) unfolding d by simp
    next
      case 3
      note l = layD [OF assms(1) 3(1)]
      have "x + 8 + u \<le> ?m" if "x < ?m"
      proof (cases "x < b")
        case True
        have "b \<in> dom B \<union> E" using assms(2) by auto
        then have "x + 8 + u \<le> b" using l(6) True by blast
        then show ?thesis by simp
      next
        case False
        have "x \<in> dom B \<union> E" using 3(1) by auto
        then have "b + 8 + s \<le> x" using lb(6) False 3(2) by force
        then show ?thesis using that assms(5) by simp
      qed
      then show ?thesis using l(1-6,9) unfolding d by auto
    qed
    show "0 < x" "4 dvd x" "4 dvd u" "8 \<le> u" "\<exists>e \<in> E. x < e \<and> e \<le> x + 2 ^ 19" "x + 8 + u \<in> dom ?B \<union> E" using all by blast+
    show "x + 8 + u \<le> y" if "y \<in> dom ?B \<union> E" "x < y" for y using all that unfolding d by auto
  next
    fix e assume e: "e \<in> E"
    note l = layE [OF assms(1) e]
    show "0 < e" "4 dvd e" "e + 8 \<le> 2 ^ 32" by (fact l)+
    show "?B e = None" using l(4) assms(2) m e by auto
    show "e + 8 \<le> y" if y: "y \<in> dom ?B \<union> E" "e < y" for y
    proof (cases "y = ?m")
      case True
      have "e < b \<or> b < e" using l(4) assms(2) by (cases "e = b") auto
      then show ?thesis using lb(6) [of e] l(5) [of b] e assms(2,5) True y(2) by auto
    next
      case False
      then show ?thesis using l(5) y unfolding d by auto
    qed
  qed
qed

section \<open>Headers\<close>

definition hdr_ok :: "mm_mem \<Rightarrow> mm_blocks \<Rightarrow> nat set \<Rightarrow> nat set \<Rightarrow> bool" where
  "hdr_ok m B E X \<longleftrightarrow>
     (\<forall>a s f. B a = Some (s, f) \<longrightarrow> (\<exists>p. m (a + 4) = mm_hdr s f p \<and> (a \<notin> X \<longrightarrow> p = pfree B a))) \<and>
     (\<forall>e \<in> E. \<exists>p. m (e + 4) = mm_hdr 0 False p \<and> (e \<notin> X \<longrightarrow> p = pfree B e)) \<and>
     (\<forall>a s. B a = Some (s, True) \<and> a + 8 + s \<notin> X \<longrightarrow> m (a + 8 + s) = of_nat a)"

lemma hdr_okD:
  assumes "hdr_ok m B E X"
  shows "B a = Some (s, f) \<Longrightarrow> \<exists>p. m (a + 4) = mm_hdr s f p \<and> (a \<notin> X \<longrightarrow> p = pfree B a)"
    "e \<in> E \<Longrightarrow> \<exists>p. m (e + 4) = mm_hdr 0 False p \<and> (e \<notin> X \<longrightarrow> p = pfree B e)"
    "B a = Some (s, True) \<Longrightarrow> a + 8 + s \<notin> X \<Longrightarrow> m (a + 8 + s) = of_nat a"
  using assms unfolding hdr_ok_def by blast+

lemma hdr_ok_full: "hdr_ok m B E {} \<Longrightarrow> B a = Some (s, f) \<Longrightarrow> m (a + 4) = mm_hdr s f (pfree B a)"
  using hdr_okD(1) [of m B E "{}" a s f] by simp

lemma hdr_cong:
  assumes "mm_lay B E" and "hdr_ok m B E X" and "\<And>a. a \<in> dom B \<union> E \<Longrightarrow> m' a = m a \<and> m' (a + 4) = m (a + 4)"
  shows "hdr_ok m' B E X"
  unfolding hdr_ok_def
proof (intro conjI allI impI ballI)
  show "\<exists>p. m' (a + 4) = mm_hdr s f p \<and> (a \<notin> X \<longrightarrow> p = pfree B a)" if "B a = Some (s, f)" for a s f
  proof -
    have "a \<in> dom B \<union> E" using that by auto
    then show ?thesis using hdr_okD(1) [OF assms(2) that] assms(3) [of a] by auto
  qed
  show "\<exists>p. m' (e + 4) = mm_hdr 0 False p \<and> (e \<notin> X \<longrightarrow> p = pfree B e)" if "e \<in> E" for e
    using hdr_okD(2) [OF assms(2) that] assms(3) [of e] that by auto
  show "m' (a + 8 + s) = of_nat a" if "B a = Some (s, True) \<and> a + 8 + s \<notin> X" for a s
    using hdr_okD(3) [OF assms(2), of a s] layD(5) [OF assms(1), of a s True] assms(3) [of "a + 8 + s"] that by auto
qed

text \<open>The header words of different blocks are different.\<close>

lemma hdr_words:
  assumes "mm_lay B E" and "x \<in> dom B \<union> E" and "y \<in> dom B \<union> E" and "x \<noteq> y"
  shows "x + 4 \<noteq> y" "x + 4 \<noteq> y + 4"
proof -
  have gap: "u + 8 \<le> v" if uv: "u \<in> dom B \<union> E" "v \<in> dom B \<union> E" "u < v" for u v
  proof (cases "u \<in> E")
    case True
    then show ?thesis using layE(5) [OF assms(1)] uv by blast
  next
    case False
    then obtain s f where "B u = Some (s, f)" using uv(1) by auto
    then have "u + 8 + s \<le> v" using layD(6) [OF assms(1) _ uv(2,3)] by blast
    then show ?thesis by simp
  qed
  show "x + 4 \<noteq> y" "x + 4 \<noteq> y + 4" using gap [OF assms(2,3)] assms(4) by auto
qed

lemma next_hdr: "mm_lay B E \<Longrightarrow> B b = Some (s, f) \<Longrightarrow> b + 8 + s \<noteq> b \<and> b + 8 + s \<in> dom B \<union> E"
  using layD(5) by auto

text \<open>A block changes between free and allocated; the flag of its successor follows later.\<close>

lemma hdr_flag:
  assumes "mm_lay B E" and "hdr_ok m B E {}" and "B b = Some (s, f)"
  shows "hdr_ok (m(b + 4 := mm_hdr s g (pfree B b))) (B(b \<mapsto> (s, g))) E {b + 8 + s}"
proof -
  let ?B = "B(b \<mapsto> (s, g))"
  have bB: "b \<in> dom B \<union> E" using assms(3) by auto
  note w = hdr_words [OF assms(1) _ bB] hdr_words [OF assms(1) bB]
  have pf: "pfree ?B y = pfree B y" if "y \<noteq> b + 8 + s" for y
    using that assms(3) by (auto simp: pfree_def) (metis prod.inject option.inject)+
  show ?thesis unfolding hdr_ok_def
  proof (intro conjI allI impI ballI)
    show "\<exists>p. (m(b + 4 := mm_hdr s g (pfree B b))) (a + 4) = mm_hdr t k p \<and> (a \<notin> {b + 8 + s} \<longrightarrow> p = pfree ?B a)"
      if a: "?B a = Some (t, k)" for a t k
      using a pf [of a] pf [of b] hdr_okD(1) [OF assms(2), of a t k] by (cases "a = b") auto
    show "\<exists>p. (m(b + 4 := mm_hdr s g (pfree B b))) (e + 4) = mm_hdr 0 False p \<and> (e \<notin> {b + 8 + s} \<longrightarrow> p = pfree ?B e)" if e: "e \<in> E" for e
      using pf [of e] hdr_okD(2) [OF assms(2) e] layE(4) [OF assms(1) e] assms(3) by auto
    show "(m(b + 4 := mm_hdr s g (pfree B b))) (a + 8 + t) = of_nat a" if a: "?B a = Some (t, True) \<and> a + 8 + t \<notin> {b + 8 + s}" for a t
    proof -
      have ab: "a \<noteq> b" "B a = Some (t, True)" using a by (auto split: if_splits)
      then have "a + 8 + t \<in> dom B \<union> E" using layD(5) [OF assms(1)] by blast
      then have "a + 8 + t \<noteq> b + 4" using w(3) [of "a + 8 + t"] by (cases "a + 8 + t = b") auto
      then show ?thesis using hdr_okD(3) [OF assms(2) ab(2)] by simp
    qed
  qed
qed

text \<open>A block swallows its free successor.\<close>

lemma hdr_join:
  assumes "mm_lay B E" and "hdr_ok m B E X" and "B a = Some (s, f)" and c: "c = a + 8 + s" "B c = Some (t, True)" and "X \<subseteq> {c, c + 8 + t}"
  shows "hdr_ok (m(a + 4 := m (a + 4) + ((m (c + 4) AND 0xFFFFFFFC) + 8))) (B(a \<mapsto> (s + 8 + t, f), c := None)) E {c + 8 + t}"
proof -
  let ?B = "B(a \<mapsto> (s + 8 + t, f), c := None)" and ?m = "m(a + 4 := m (a + 4) + ((m (c + 4) AND 0xFFFFFFFC) + 8))"
  have aB: "a \<in> dom B \<union> E" using assms(3) by auto
  note la = layD [OF assms(1,3)] and lc = layD [OF assms(1) c(2)]
  have ac: "a \<noteq> c" using c(1) by simp
  have aX: "a \<notin> X" using assms(6) c(1) by auto
  have ma: "m (a + 4) = mm_hdr s f (pfree B a)" using hdr_okD(1) [OF assms(2,3)] aX by blast
  obtain p where "m (c + 4) = mm_hdr t True p" using hdr_okD(1) [OF assms(2) c(2)] by blast
  then have new: "m (a + 4) + ((m (c + 4) AND 0xFFFFFFFC) + 8) = mm_hdr (s + 8 + t) f (pfree B a)"
    using hdr_add [OF la(3) lc(3)] hdr_ops(1) [OF lc(3)] by (simp add: ma)
  have pf: "pfree ?B y = pfree B y" if y: "y \<noteq> c" "y \<noteq> c + 8 + t" for y
  proof
    assume "pfree ?B y"
    then show "pfree B y" using y c(1) by (auto simp: pfree_def split: if_splits)
  next
    assume "pfree B y"
    then obtain x u where x: "B x = Some (u, True)" "y = x + 8 + u" by (auto simp: pfree_def)
    then have "x \<noteq> a" "x \<noteq> c" using y assms(3) c by auto
    then have "?B x = Some (u, True)" using x(1) by simp
    then show "pfree ?B y" using x(2) unfolding pfree_def by blast
  qed
  have nX: "y \<notin> X" if "y \<noteq> c" "y \<noteq> c + 8 + t" for y using that assms(6) by auto
  show ?thesis unfolding hdr_ok_def
  proof (intro conjI allI impI ballI)
    show "\<exists>p. ?m (x + 4) = mm_hdr u k p \<and> (x \<notin> {c + 8 + t} \<longrightarrow> p = pfree ?B x)" if x: "?B x = Some (u, k)" for x u k
    proof (cases "x = a")
      case True
      have "pfree ?B a = pfree B a" using pf [of a] c(1) by simp
      then show ?thesis using x True new ac by auto
    next
      case False
      then have "B x = Some (u, k)" "x \<noteq> c" using x by (auto split: if_splits)
      then show ?thesis using hdr_okD(1) [OF assms(2), of x u k] pf [of x] nX [of x] False by auto
    qed
    show "\<exists>p. ?m (e + 4) = mm_hdr 0 False p \<and> (e \<notin> {c + 8 + t} \<longrightarrow> p = pfree ?B e)" if e: "e \<in> E" for e
    proof -
      have "e \<noteq> a" "e \<noteq> c" using layE(4) [OF assms(1) e] assms(3) c(2) by auto
      then show ?thesis using hdr_okD(2) [OF assms(2) e] pf [of e] nX [of e] by auto
    qed
    show "?m (x + 8 + u) = of_nat x" if x: "?B x = Some (u, True) \<and> x + 8 + u \<notin> {c + 8 + t}" for x u
    proof -
      have xa: "x \<noteq> a" using x c(1) by (auto split: if_splits)
      then have xb: "B x = Some (u, True)" "x \<noteq> c" using x by (auto split: if_splits)
      have "x + 8 + u \<noteq> c" using lay_end_inj [OF assms(1) xb(1) assms(3)] xa c(1) by auto
      then have "x + 8 + u \<notin> X" using nX x by auto
      moreover have "x + 8 + u \<in> dom B \<union> E" by (rule layD(5) [OF assms(1) xb(1)])
      then have "x + 8 + u \<noteq> a + 4" using hdr_words(1) [OF assms(1) aB, of "x + 8 + u"] by (cases "x + 8 + u = a") auto
      ultimately show ?thesis using hdr_okD(3) [OF assms(2) xb(1)] by simp
    qed
  qed
qed

text \<open>The exempt header is written.\<close>

lemma hdr_settle:
  assumes "mm_lay B E" and "hdr_ok m B E {y}" and "B c = Some (s, f)" and y: "y = c + 8 + s"
    and v: "\<And>q g p. 4 dvd q \<Longrightarrow> m (y + 4) = mm_hdr q g p \<Longrightarrow> v = mm_hdr q g f" and w: "f \<Longrightarrow> w = of_nat c"
  shows "hdr_ok (m(y + 4 := v, y := w)) B E {}"
proof -
  have yB: "y \<in> dom B \<union> E" using layD(5) [OF assms(1,3)] y by simp
  have pf: "pfree B y = f" unfolding y by (rule pfree_end [OF assms(1,3)])
  have ne: "a + 4 \<noteq> y \<and> a + 4 \<noteq> y + 4" if "a \<in> dom B \<union> E" "a \<noteq> y" for a using hdr_words [OF assms(1) that(1) yB that(2)] by blast
  show ?thesis unfolding hdr_ok_def
  proof (intro conjI allI impI ballI)
    show "\<exists>p. (m(y + 4 := v, y := w)) (a + 4) = mm_hdr t g p \<and> (a \<notin> {} \<longrightarrow> p = pfree B a)" if a: "B a = Some (t, g)" for a t g
    proof (cases "a = y")
      case True
      obtain p where "m (y + 4) = mm_hdr t g p" using hdr_okD(1) [OF assms(2) a] True by blast
      then have "v = mm_hdr t g f" using v layD(3) [OF assms(1) a] by blast
      then show ?thesis using True pf by simp
    next
      case False
      then show ?thesis using ne [of a] a hdr_okD(1) [OF assms(2) a] by auto
    qed
    show "\<exists>p. (m(y + 4 := v, y := w)) (e + 4) = mm_hdr 0 False p \<and> (e \<notin> {} \<longrightarrow> p = pfree B e)" if e: "e \<in> E" for e
    proof (cases "e = y")
      case True
      obtain p where "m (y + 4) = mm_hdr 0 False p" using hdr_okD(2) [OF assms(2) e] True by blast
      then have "v = mm_hdr 0 False f" using v [of 0] by simp
      then show ?thesis using True pf by simp
    next
      case False
      then show ?thesis using ne [of e] e hdr_okD(2) [OF assms(2) e] by auto
    qed
    show "(m(y + 4 := v, y := w)) (x + 8 + u) = of_nat x" if x: "B x = Some (u, True) \<and> x + 8 + u \<notin> {}" for x u
    proof (cases "x + 8 + u = y")
      case True
      then have "x = c" using lay_end_inj [OF assms(1) _ assms(3)] x y by blast
      then show ?thesis using True w x assms(3) by simp
    next
      case False
      have "x + 8 + u \<in> dom B \<union> E" using layD(5) [OF assms(1)] x by blast
      then have "y + 4 \<noteq> x + 8 + u" using hdr_words(1) [OF assms(1) yB _ False [symmetric]] by blast
      then show ?thesis using False hdr_okD(3) [OF assms(2)] x by auto
    qed
  qed
qed

text \<open>An allocated block is cut; the rest becomes a free block.\<close>

lemma hdr_trim:
  assumes "mm_lay B E" and "hdr_ok m B E {y}" and "B b = Some (s, False)" and y: "y = b + 8 + s"
    and n: "4 dvd n" "8 \<le> n" "n + 16 \<le> s" and z: "z = b + 8 + n" and r: "r = s - n - 8"
  shows "hdr_ok (m(z + 4 := mm_hdr r True False, b + 4 := mm_hdr n False (pfree B b))) (B(b \<mapsto> (n, False), z \<mapsto> (r, True))) E {y}"
proof -
  let ?B = "B(b \<mapsto> (n, False), z \<mapsto> (r, True))" and ?m = "m(z + 4 := mm_hdr r True False, b + 4 := mm_hdr n False (pfree B b))"
  have zn: "z \<notin> dom B \<union> E" using lay_split(2) [OF assms(1,3) n] z by simp
  have lay: "mm_lay ?B E" using lay_split(1) [OF assms(1,3) n] z r by simp
  have zB: "z \<in> dom ?B \<union> E" and bB: "b \<in> dom ?B \<union> E" by auto
  have zb: "z \<noteq> b" and zr: "z + 8 + r = y" using z r y n by auto
  have bny: "b \<noteq> y" using y by simp
  have pf: "pfree ?B x = pfree B x" if x: "x \<noteq> y" for x
  proof
    assume "pfree ?B x"
    then show "pfree B x" using x zr by (auto simp: pfree_def split: if_splits)
  next
    assume "pfree B x"
    then obtain a t where a: "B a = Some (t, True)" "x = a + 8 + t" by (auto simp: pfree_def)
    then have "a \<noteq> b" "a \<noteq> z" using assms(3) zn by auto
    then have "?B a = Some (t, True)" using a(1) by simp
    then show "pfree ?B x" using a(2) unfolding pfree_def by blast
  qed
  have pz: "\<not> pfree ?B z"
  proof
    assume "pfree ?B z"
    then obtain a t where a: "?B a = Some (t, True)" "z = a + 8 + t" by (auto simp: pfree_def)
    have bn: "?B b = Some (n, False)" using zb by simp
    have "a = b" by (rule lay_end_inj [OF lay a(1) bn]) (use a(2) z in simp)
    then show False using a(1) zb by simp
  qed
  show ?thesis unfolding hdr_ok_def
  proof (intro conjI allI impI ballI)
    show "\<exists>p. ?m (a + 4) = mm_hdr t g p \<and> (a \<notin> {y} \<longrightarrow> p = pfree ?B a)" if a: "?B a = Some (t, g)" for a t g
    proof -
      consider "a = z" "t = r" "g" | "a = b" "t = n" "\<not> g" | "a \<noteq> z" "a \<noteq> b" "B a = Some (t, g)" using a by (auto split: if_splits)
      then show ?thesis
      proof cases
        case 3
        then show ?thesis using hdr_okD(1) [OF assms(2) 3(3)] pf [of a] by auto
      qed (use zb pz pf [OF bny] in auto)
    qed
    show "\<exists>p. ?m (e + 4) = mm_hdr 0 False p \<and> (e \<notin> {y} \<longrightarrow> p = pfree ?B e)" if e: "e \<in> E" for e
    proof -
      have "e \<noteq> z" "e \<noteq> b" using zn e layE(4) [OF assms(1) e] assms(3) by auto
      then show ?thesis using hdr_okD(2) [OF assms(2) e] pf [of e] by auto
    qed
    show "?m (x + 8 + u) = of_nat x" if x: "?B x = Some (u, True) \<and> x + 8 + u \<notin> {y}" for x u
    proof -
      have x': "B x = Some (u, True)" using x zr by (auto split: if_splits)
      have "x + 8 + u \<in> dom ?B \<union> E" by (rule layD(5) [OF lay]) (use x in blast)
      moreover have "x + 8 + u \<in> dom B \<union> E" by (rule layD(5) [OF assms(1) x'])
      ultimately have "x + 8 + u \<noteq> z + 4 \<and> x + 8 + u \<noteq> b + 4"
        using hdr_words(1) [OF lay zB, of "x + 8 + u"] hdr_words(1) [OF lay bB, of "x + 8 + u"] zn by (cases "x + 8 + u = b") force+
      then show ?thesis using hdr_okD(3) [OF assms(2) x'] x by simp
    qed
  qed
qed

end
