(* ===== verification/Mm_Steps.thy ===== *)
theory Mm_Steps
  imports Mm_Inv
begin

text \<open>
  The heap allocator step by step: its invariant \<open>mm_inv\<close>, the state \<open>mm_open\<close> in which one block is in
  work, and the steps between them (taking a block out of its list, putting it in, joining it with its
  neighbours), which add up to \<open>k_mm_free\<close>.
\<close>

section \<open>The invariant\<close>

definition free_of :: "mm_blocks \<Rightarrow> nat \<rightharpoonup> nat" where
  "free_of B a = (case B a of Some (s, True) \<Rightarrow> Some s | _ \<Rightarrow> None)"

definition coalesced :: "mm_blocks \<Rightarrow> bool" where
  "coalesced B \<longleftrightarrow> (\<forall>a s t. B a = Some (s, True) \<longrightarrow> B (a + 8 + s) \<noteq> Some (t, True))"

definition mm_inv :: "k_mm_head \<Rightarrow> mm_blocks \<Rightarrow> nat set \<Rightarrow> bool" where
  "mm_inv h B E \<longleftrightarrow> mm_lay B E \<and> hdr_ok (mm_words h) B E {} \<and> lists_ok h (free_of B) \<and> coalesced B"

text \<open>The block \<open>b\<close> is in work: it is in no list, and the header behind it is not up to date.\<close>

definition mm_open :: "k_mm_head \<Rightarrow> mm_blocks \<Rightarrow> nat set \<Rightarrow> nat \<Rightarrow> bool" where
  "mm_open h B E b \<longleftrightarrow> mm_lay B E \<and> (\<exists>s f. B b = Some (s, f) \<and> hdr_ok (mm_words h) B E {b + 8 + s}) \<and> lists_ok h ((free_of B)(b := None))"

lemma free_of_Some [simp]: "free_of B a = Some s \<longleftrightarrow> B a = Some (s, True)"
  by (auto simp: free_of_def split: option.split bool.split)

lemma free_of_dom: "dom (free_of B) \<subseteq> dom B"
  by (auto simp: free_of_def split: option.splits)

lemma free_of_upd: "free_of (B(b \<mapsto> (s, f))) = (free_of B)(b := if f then Some s else None)" "free_of (B(c := None)) = (free_of B)(c := None)"
  by (auto simp: free_of_def fun_eq_iff)

section \<open>Words of headers and links\<close>

definition hdr_words_of :: "mm_blocks \<Rightarrow> nat set \<Rightarrow> nat set" where
  "hdr_words_of B E = (\<Union>a \<in> dom B \<union> E. {a, a + 4})"

definition meta :: "mm_blocks \<Rightarrow> nat set \<Rightarrow> nat set" where
  "meta B E = hdr_words_of B E \<union> link_words (dom (free_of B))"

lemma lay_apart:
  assumes "mm_lay B E" and "B b = Some (s, f)" and "S \<subseteq> dom B"
  shows "apart b S"
  unfolding apart_def
proof (intro conjI ballI impI)
  note l = layD [OF assms(1,2)]
  show "0 < b" "b + 16 \<le> 2 ^ 32" using l(1,4,7) by simp_all
  fix y assume y: "y \<in> S" "y \<noteq> b"
  then obtain t g where t: "B y = Some (t, g)" using assms(3) by auto
  then have "y \<in> dom B \<union> E" "b \<in> dom B \<union> E" using assms(2) by auto
  then show "b + 16 \<le> y \<or> y + 16 \<le> b" using l(4,6) layD(4,6) [OF assms(1) t] y(2) by (metis add.assoc add_le_mono le_trans linorder_neqE_nat numeral_Bit0 order_refl add_left_mono)
qed

lemma link_not_hdr:
  assumes "mm_lay B E" and "x \<in> link_words (dom B)"
  shows "x \<notin> hdr_words_of B E"
proof
  assume "x \<in> hdr_words_of B E"
  then obtain y where y: "y \<in> dom B \<union> E" "x = y \<or> x = y + 4" by (auto simp: hdr_words_of_def)
  obtain a s f where a: "B a = Some (s, f)" "x = a + 8 \<or> x = a + 12" using assms(2) by (auto simp: link_words_def)
  note l = layD [OF assms(1) a(1)]
  consider "a < y" | "y \<le> a" by linarith
  then show False
  proof cases
    case 1
    then have "a + 8 + s \<le> y" using l(6) y(1) by blast
    then show False using l(4) a(2) y(2) by auto
  next
    case 2
    then show False using a(2) y(2) by auto
  qed
qed

lemma link_words_mono: "S \<subseteq> T \<Longrightarrow> link_words S \<subseteq> link_words T"
  by (auto simp: link_words_def)

lemma hdr_not_link:
  assumes "mm_lay B E" and "a \<in> dom B \<union> E" and "S \<subseteq> dom B"
  shows "a \<notin> link_words S" "a + 4 \<notin> link_words S"
  using link_not_hdr [OF assms(1)] link_words_mono [OF assms(3)] assms(2) by (force simp: hdr_words_of_def)+

text \<open>Operations on the lists keep the headers, and writing a header keeps the lists.\<close>

lemma hdr_list_op:
  assumes "mm_lay B E" and "hdr_ok (mm_words h) B E X" and "S \<subseteq> dom B" and "\<And>a. a \<notin> link_words S \<Longrightarrow> mm_words h' a = mm_words h a"
  shows "hdr_ok (mm_words h') B E X"
  using hdr_not_link [OF assms(1) _ assms(3)] assms(4) by (intro hdr_cong [OF assms(1,2)]) blast

lemma lists_hdr_write:
  assumes "mm_lay B E" and "lists_ok h F" and "dom F \<subseteq> dom B" and "x \<in> hdr_words_of B E"
  shows "lists_ok (set_word x v h) F"
  using link_not_hdr [OF assms(1)] link_words_mono [OF assms(3)] assms(4) by (intro lists_ok_cong [OF assms(2)]) auto

lemma hdr_words_ofI: "a \<in> dom B \<union> E \<Longrightarrow> a \<in> hdr_words_of B E \<and> a + 4 \<in> hdr_words_of B E"
  by (auto simp: hdr_words_of_def)

section \<open>Steps\<close>

text \<open>The class of a block's size, as the search computes it.\<close>

lemma blk_class:
  assumes "mm_lay B E" and "B a = Some (s, f)"
  obtains fl sl where "bitmap_search (of_nat s) ACTION_INSERT = (RHINO_SUCCESS, fl, sl)" "is_class s fl sl" "fl < 13" "sl < 32"
  by (rule bitmap_search_insert [OF lay_size [OF assms]])

lemma open_hdr:
  assumes "mm_open h B E b" and "B b = Some (s, f)"
  shows "mm_lay B E" "hdr_ok (mm_words h) B E {b + 8 + s}" "lists_ok h ((free_of B)(b := None))"
    "blk_size h b = mm_hdr s f (pfree B b)" "NEXT_MM_BLK (b + 8) (blk_size h b AND 0xFFFFFFFC) = b + 8 + s"
proof -
  show o: "mm_lay B E" "hdr_ok (mm_words h) B E {b + 8 + s}" "lists_ok h ((free_of B)(b := None))" using assms by (auto simp: mm_open_def)
  obtain p where "mm_words h (b + 4) = mm_hdr s f p" "b \<notin> {b + 8 + s} \<longrightarrow> p = pfree B b" using hdr_okD(1) [OF o(2) assms(2)] by blast
  then show bs: "blk_size h b = mm_hdr s f (pfree B b)" by (simp add: blk_size_def)
  show "NEXT_MM_BLK (b + 8) (blk_size h b AND 0xFFFFFFFC) = b + 8 + s"
    using lay_next [OF o(1) assms(2)] layD(3) [OF o(1) assms(2)] by (simp add: bs hdr_ops)
qed

text \<open>What the header at \<open>y\<close> says about being free.\<close>

lemma hdr_free_flag:
  assumes "mm_lay B E" and "hdr_ok (mm_words h) B E X" and "y \<in> dom B \<union> E"
  shows "blk_size h y AND 1 \<noteq> 0 \<longleftrightarrow> (\<exists>t. B y = Some (t, True))"
    and "B y = Some (t, g) \<Longrightarrow> blk_size h y AND 0xFFFFFFFC = of_nat t"
proof -
  show "blk_size h y AND 0xFFFFFFFC = of_nat t" if "B y = Some (t, g)"
    using hdr_okD(1) [OF assms(2) that] hdr_ops(1) [OF layD(3) [OF assms(1) that]] by (auto simp: blk_size_def)
  show "blk_size h y AND 1 \<noteq> 0 \<longleftrightarrow> (\<exists>t. B y = Some (t, True))"
  proof (cases "y \<in> E")
    case True
    then obtain p where "mm_words h (y + 4) = mm_hdr 0 False p" using hdr_okD(2) [OF assms(2)] by blast
    then show ?thesis using layE(4) [OF assms(1) True] hdr_ops(2) [of 0 False p] by (simp add: blk_size_def)
  next
    case False
    then obtain t g where t: "B y = Some (t, g)" using assms(3) by auto
    obtain p where "mm_words h (y + 4) = mm_hdr t g p" using hdr_okD(1) [OF assms(2) t] by blast
    then show ?thesis using t hdr_ops(2) [OF layD(3) [OF assms(1) t], of g p] by (simp add: blk_size_def)
  qed
qed

text \<open>Removing a free block \<open>c\<close> from its list.\<close>

lemma open_get:
  assumes "mm_lay B E" and "hdr_ok (mm_words h) B E X" and "lists_ok h F" and "dom F \<subseteq> dom B" and "F c = Some t" "B c = Some (t, g)"
    and "bitmap_search (of_nat t) ACTION_INSERT = (st, fl, sl)"
  shows "hdr_ok (mm_words (get_block c fl sl h)) B E X" "lists_ok (get_block c fl sl h) (F(c := None))"
    "\<And>a. a \<notin> link_words (dom F) \<Longrightarrow> mm_words (get_block c fl sl h) a = mm_words h a"
proof -
  obtain f l where fl: "bitmap_search (of_nat t) ACTION_INSERT = (RHINO_SUCCESS, f, l)" "is_class t f l" "f < 13"
    using blk_class [OF assms(1,6)] by blast
  then have e: "fl = f" "sl = l" using assms(7) by simp_all
  note g = get_block_ok [OF assms(3,5) fl(2,3), folded e]
  show "lists_ok (get_block c fl sl h) (F(c := None))" by (fact g)
  show "mm_words (get_block c fl sl h) a = mm_words h a" if "a \<notin> link_words (dom F)" for a by (rule g(2) [OF that])
  show "hdr_ok (mm_words (get_block c fl sl h)) B E X" by (rule hdr_list_op [OF assms(1,2,4) g(2)])
qed

text \<open>Inserting a free block that is in no list.\<close>

lemma open_insert:
  assumes "mm_lay B E" and "hdr_ok (mm_words h) B E X" and "lists_ok h F" and "dom F \<subseteq> dom B" and "F b = None" "B b = Some (s, f)"
    and "bitmap_search (of_nat s) ACTION_INSERT = (st, fl, sl)"
  shows "hdr_ok (mm_words (insert_block b fl sl h)) B E X" "lists_ok (insert_block b fl sl h) (F(b \<mapsto> s))"
    "\<And>a. a \<notin> link_words (insert b (dom F)) \<Longrightarrow> mm_words (insert_block b fl sl h) a = mm_words h a"
proof -
  obtain k l where fl: "bitmap_search (of_nat s) ACTION_INSERT = (RHINO_SUCCESS, k, l)" "is_class s k l" "k < 13"
    using blk_class [OF assms(1,6)] by blast
  then have e: "fl = k" "sl = l" using assms(7) by simp_all
  note g = insert_block_ok [OF assms(3,5) lay_apart [OF assms(1,6,4)] fl(2,3) lay_size [OF assms(1,6)], folded e]
  show "lists_ok (insert_block b fl sl h) (F(b \<mapsto> s))" by (fact g)
  show "mm_words (insert_block b fl sl h) a = mm_words h a" if "a \<notin> link_words (insert b (dom F))" for a by (rule g(2) [OF that])
  have "insert b (dom F) \<subseteq> dom B" using assms(4,6) by auto
  then show "hdr_ok (mm_words (insert_block b fl sl h)) B E X" by (rule hdr_list_op [OF assms(1,2) _ g(2)])
qed

text \<open>A block becomes a block in work.\<close>

lemma open_flag:
  assumes "mm_inv h B E" and "B b = Some (s, False)"
  shows "mm_open (set_blk_size b (mm_hdr s g (pfree B b)) h) (B(b \<mapsto> (s, g))) E b"
proof -
  have i: "mm_lay B E" "hdr_ok (mm_words h) B E {}" "lists_ok h (free_of B)" using assms(1) by (simp_all add: mm_inv_def)
  have "b \<in> dom B \<union> E" using assms(2) by auto
  then have "lists_ok (set_blk_size b (mm_hdr s g (pfree B b)) h) (free_of B)"
    unfolding set_blk_size_def using lists_hdr_write [OF i(1,3) free_of_dom] hdr_words_ofI by blast
  moreover have "(free_of (B(b \<mapsto> (s, g))))(b := None) = free_of B" using assms(2) by (auto simp: free_of_upd fun_eq_iff free_of_def)
  ultimately show ?thesis
    using lay_flag [OF i(1) assms(2)] hdr_flag [OF i(1,2) assms(2)] by (auto simp: mm_open_def set_blk_size_def)
qed

lemma open_join:
  assumes "mm_lay B E" and "hdr_ok (mm_words h) B E X" and "lists_ok h F" and "dom F \<subseteq> dom B" and "B a = Some (s, f)"
    and c: "c = a + 8 + s" "B c = Some (t, True)" and "X \<subseteq> {c, c + 8 + t}"
    and F: "F = (free_of B)(a := None, c := None)"
    and w: "v = blk_size h a + ((blk_size h c AND 0xFFFFFFFC) + 8)"
  shows "mm_open (set_blk_size a v h) (B(a \<mapsto> (s + 8 + t, f), c := None)) E a"
proof -
  let ?B = "B(a \<mapsto> (s + 8 + t, f), c := None)"
  have aB: "a \<in> dom B \<union> E" using assms(5) by auto
  have lay: "mm_lay ?B E" using lay_join [OF assms(1,5), of t True f] c by simp
  have e: "a + 8 + (s + 8 + t) = c + 8 + t" using c(1) by simp
  have "hdr_ok (mm_words (set_blk_size a v h)) ?B E {a + 8 + (s + 8 + t)}" unfolding e
    using hdr_join [OF assms(1,2,5) c assms(8)] by (simp add: set_blk_size_def w blk_size_def)
  moreover have "?B a = Some (s + 8 + t, f)" using c(1) by simp
  moreover have "lists_ok (set_blk_size a v h) F"
    unfolding set_blk_size_def using lists_hdr_write [OF assms(1,3,4)] hdr_words_ofI [OF aB] by blast
  moreover have "(free_of ?B)(a := None) = F" unfolding F by (auto simp: free_of_upd fun_eq_iff)
  ultimately show ?thesis using lay unfolding mm_open_def by blast
qed

lemma join_next_ok:
  assumes "mm_open h B E b" and "B b = Some (s, f)" and y: "y = b + 8 + s"
  shows "B y = Some (t, True) \<Longrightarrow> mm_open (join_next b h) (B(b \<mapsto> (s + 8 + t, f), y := None)) E b"
    and "\<nexists>t. B y = Some (t, True) \<Longrightarrow> join_next b h = h"
    and "\<And>a. a \<notin> meta B E \<Longrightarrow> mm_words (join_next b h) a = mm_words h a"
proof -
  note o = open_hdr [OF assms(1,2)]
  have yB: "y \<in> dom B \<union> E" using layD(5) [OF o(1) assms(2)] y by simp
  note flag = hdr_free_flag [OF o(1,2) yB]
  have n: "NEXT_MM_BLK (b + 8) (blk_size h b AND 0xFFFFFFFC) = y" using o(5) y by simp
  show same: "join_next b h = h" if "\<nexists>t. B y = Some (t, True)" using that flag(1) by (simp add: join_next_def n Let_def)
  have step: "mm_open (join_next b h) (B(b \<mapsto> (s + 8 + t, f), y := None)) E b \<and> (\<forall>a. a \<notin> meta B E \<longrightarrow> mm_words (join_next b h) a = mm_words h a)"
    if t: "B y = Some (t, True)" for t
  proof -
    obtain fl sl where bs: "bitmap_search (of_nat t) ACTION_INSERT = (RHINO_SUCCESS, fl, sl)" using blk_class [OF o(1) t] by blast
    let ?F = "(free_of B)(b := None)" and ?h = "get_block y fl sl h"
    have d: "dom ?F \<subseteq> dom B" "dom ?F \<subseteq> dom (free_of B)" using free_of_dom by auto
    have Fy: "?F y = Some t" using t y by simp
    note g = open_get [OF o(1,2,3) d(1) Fy t bs]
    have eq: "join_next b h = set_blk_size b (blk_size ?h b + ((blk_size ?h y AND 0xFFFFFFFC) + 8)) ?h"
      using flag(1) flag(2) [OF t] t bs by (simp add: join_next_def n Let_def)
    have "dom (?F(y := None)) \<subseteq> dom B" using d(1) by auto
    then have "mm_open (join_next b h) (B(b \<mapsto> (s + 8 + t, f), y := None)) E b"
      unfolding eq by (intro open_join [OF o(1) g(1,2) _ assms(2) y t _ refl refl]) (simp_all add: y)
    moreover have "mm_words (join_next b h) a = mm_words h a" if "a \<notin> meta B E" for a
    proof -
      have "a \<notin> link_words (dom ?F)" "a \<noteq> b + 4" using that link_words_mono [OF d(2)] assms(2) by (auto simp: meta_def hdr_words_of_def)
      then show ?thesis using g(3) [OF \<open>a \<notin> link_words _\<close>] unfolding eq by (simp add: set_blk_size_def)
    qed
    ultimately show ?thesis by blast
  qed
  show "B y = Some (t, True) \<Longrightarrow> mm_open (join_next b h) (B(b \<mapsto> (s + 8 + t, f), y := None)) E b" using step by blast
  show "mm_words (join_next b h) a = mm_words h a" if "a \<notin> meta B E" for a using step same that by (cases "\<exists>t. B y = Some (t, True)") auto
qed

text \<open>The predecessor of a block whose flag says that it is free.\<close>

lemma prev_block:
  assumes "mm_lay B E" and "hdr_ok m B E X" and "pfree B b" and "b \<notin> X"
  obtains c r where "B c = Some (r, True)" "b = c + 8 + r" "m b = of_nat c" "unat (m b) = c"
proof -
  obtain c r where c: "B c = Some (r, True)" "b = c + 8 + r" using assms(3) by (auto simp: pfree_def)
  then have "m b = of_nat c" using hdr_okD(3) [OF assms(2)] assms(4) by blast
  moreover have "c < 2 ^ 32" using layD(7) [OF assms(1) c(1)] by simp
  ultimately show thesis using that c unat_ptr by simp
qed

lemma join_prev_ok:
  assumes "mm_open h B E b" and "B b = Some (s, True)"
  shows "B c = Some (r, True) \<Longrightarrow> b = c + 8 + r \<Longrightarrow>
      fst (join_prev b h) = c \<and> mm_open (snd (join_prev b h)) (B(c \<mapsto> (r + 8 + s, True), b := None)) E c"
    and "\<not> pfree B b \<Longrightarrow> join_prev b h = (b, h)"
    and "\<And>a. a \<notin> meta B E \<Longrightarrow> mm_words (snd (join_prev b h)) a = mm_words h a"
proof -
  note o = open_hdr [OF assms]
  have pf: "blk_size h b AND 2 \<noteq> 0 \<longleftrightarrow> pfree B b" using hdr_ops(3) [OF layD(3) [OF o(1) assms(2)]] by (simp add: o(4))
  show same: "join_prev b h = (b, h)" if "\<not> pfree B b" using that pf by (simp add: join_prev_def)
  have step: "fst (join_prev b h) = c \<and> mm_open (snd (join_prev b h)) (B(c \<mapsto> (r + 8 + s, True), b := None)) E c \<and>
    (\<forall>a. a \<notin> meta B E \<longrightarrow> mm_words (snd (join_prev b h)) a = mm_words h a)"
    if c: "B c = Some (r, True)" "b = c + 8 + r" for c r
  proof -
    have bX: "b \<notin> {b + 8 + s}" by simp
    have "pfree B b" using c by (auto simp: pfree_def)
    then obtain c' r' where c': "B c' = Some (r', True)" "b = c' + 8 + r'" "unat (mm_words h b) = c'"
      using prev_block [OF o(1,2) _ bX] by metis
    have "c' = c" using lay_end_inj [OF o(1) c'(1) c(1)] c'(2) c(2) by simp
    then have pb: "blk_prev h b = c" using c'(3) by (simp add: blk_prev_def)
    obtain fl sl where bs: "bitmap_search (of_nat r) ACTION_INSERT = (RHINO_SUCCESS, fl, sl)" using blk_class [OF o(1) c(1)] by blast
    let ?F = "(free_of B)(b := None)" and ?h = "get_block c fl sl h"
    have cb: "c \<noteq> b" using c(2) by simp
    have d: "dom ?F \<subseteq> dom B" "dom ?F \<subseteq> dom (free_of B)" using free_of_dom by auto
    have Fc: "?F c = Some r" using c(1) cb by simp
    have cB: "c \<in> dom B \<union> E" using c(1) by auto
    note g = open_get [OF o(1,2,3) d(1) Fc c(1) bs]
    have eq: "join_prev b h = (c, set_blk_size c (blk_size ?h c + ((blk_size ?h b AND 0xFFFFFFFC) + 8)) ?h)"
      using pf \<open>pfree B b\<close> pb bs hdr_free_flag(2) [OF o(1,2) cB c(1)] by (simp add: join_prev_def Let_def)
    have "mm_open (snd (join_prev b h)) (B(c \<mapsto> (r + 8 + s, True), b := None)) E c"
      unfolding eq snd_conv
    proof (rule open_join [OF o(1) g(1,2) _ c(1) c(2) assms(2) _ _ refl])
      show "dom (?F(c := None)) \<subseteq> dom B" using d(1) by (rule subset_trans [rotated]) auto
      show "?F(c := None) = (free_of B)(c := None, b := None)" using cb by (rule fun_upd_twist [symmetric])
    qed simp
    moreover have "mm_words (snd (join_prev b h)) a = mm_words h a" if "a \<notin> meta B E" for a
    proof -
      have "a \<notin> link_words (dom ?F)" "a \<noteq> c + 4" using that link_words_mono [OF d(2)] c(1) by (auto simp: meta_def hdr_words_of_def)
      then show ?thesis using g(3) [OF \<open>a \<notin> link_words _\<close>] unfolding eq by (simp add: set_blk_size_def)
    qed
    ultimately show ?thesis using eq by simp
  qed
  show "B c = Some (r, True) \<Longrightarrow> b = c + 8 + r \<Longrightarrow>
      fst (join_prev b h) = c \<and> mm_open (snd (join_prev b h)) (B(c \<mapsto> (r + 8 + s, True), b := None)) E c" using step by blast
  show "mm_words (snd (join_prev b h)) a = mm_words h a" if "a \<notin> meta B E" for a
    using step same that by (cases "pfree B b") (auto simp: pfree_def)
qed

section \<open>Release\<close>

text \<open>A block swallows its successor if that is free.\<close>

definition merge_next :: "nat \<Rightarrow> mm_blocks \<Rightarrow> mm_blocks" where
  "merge_next b B =
     (case B b of
        None \<Rightarrow> B
      | Some (s, f) \<Rightarrow> (case B (b + 8 + s) of Some (t, True) \<Rightarrow> B(b \<mapsto> (s + 8 + t, f), b + 8 + s := None) | _ \<Rightarrow> B))"

lemma merge_next_simps:
  "B b = Some (s, f) \<Longrightarrow> B (b + 8 + s) = Some (t, True) \<Longrightarrow> merge_next b B = B(b \<mapsto> (s + 8 + t, f), b + 8 + s := None)"
  "B b = Some (s, f) \<Longrightarrow> \<nexists>t. B (b + 8 + s) = Some (t, True) \<Longrightarrow> merge_next b B = B"
  by (auto simp: merge_next_def split: option.split bool.split)

text \<open>Coalesced except for the block \<open>b\<close>.\<close>

definition coal_but :: "mm_blocks \<Rightarrow> nat \<Rightarrow> bool" where
  "coal_but B b \<longleftrightarrow> (\<forall>a s t. B a = Some (s, True) \<and> a \<noteq> b \<and> a + 8 + s \<noteq> b \<longrightarrow> B (a + 8 + s) \<noteq> Some (t, True))"

lemma merge_next_block:
  assumes "mm_lay B E" and "B b = Some (s, f)" and "coal_but B b"
  obtains u where "merge_next b B b = Some (u, f)" and "s \<le> u" and "\<forall>t. merge_next b B (b + 8 + u) \<noteq> Some (t, True)"
    and "coal_but (merge_next b B) b" and "\<forall>a < b. merge_next b B a = B a"
    and "\<forall>a t. a \<noteq> b \<longrightarrow> (merge_next b B a = Some (t, False) \<longleftrightarrow> B a = Some (t, False))"
    and "dom (merge_next b B) \<subseteq> dom B"
proof (cases "\<exists>t. B (b + 8 + s) = Some (t, True)")
  case False
  have m: "merge_next b B = B" by (rule merge_next_simps(2) [of B b s f, OF assms(2) False])
  show thesis by (rule that [of s]) (use False assms(2,3) in \<open>simp_all add: m\<close>)
next
  case True
  then obtain t where t: "B (b + 8 + s) = Some (t, True)" by blast
  let ?y = "b + 8 + s" and ?B = "B(b \<mapsto> (s + 8 + t, f), b + 8 + s := None)"
  have m: "merge_next b B = ?B" by (rule merge_next_simps(1) [of B b s f t, OF assms(2) t])
  have e: "b + 8 + (s + 8 + t) = ?y + 8 + t" by simp
  have "B ?y = Some (t, True) \<and> ?y \<noteq> b \<and> ?y + 8 + t \<noteq> b" using t by simp
  then have "B (?y + 8 + t) \<noteq> Some (v, True)" for v using assms(3) unfolding coal_but_def by blast
  then have "\<forall>v. ?B (b + 8 + (s + 8 + t)) \<noteq> Some (v, True)" unfolding e by simp
  moreover have "coal_but ?B b"
    unfolding coal_but_def
  proof (intro allI impI)
    fix a u v assume a: "?B a = Some (u, True) \<and> a \<noteq> b \<and> a + 8 + u \<noteq> b"
    then have "B a = Some (u, True)" by (auto split: if_splits)
    then show "?B (a + 8 + u) \<noteq> Some (v, True)" using assms(3) a unfolding coal_but_def by auto
  qed
  moreover have "?B b = Some (s + 8 + t, f)" by simp
  moreover have "\<forall>a < b. ?B a = B a" by simp
  moreover have "\<forall>a w. a \<noteq> b \<longrightarrow> (?B a = Some (w, False) \<longleftrightarrow> B a = Some (w, False))" using t by auto
  moreover have "dom ?B \<subseteq> dom B" using assms(2) by auto
  ultimately show thesis by (intro that [of "s + 8 + t"]) (simp_all only: m, simp)
qed

text \<open>The block in work is put into its list and its end is written.\<close>

lemma close_ok:
  assumes "mm_open h B E c" and "B c = Some (s, True)" and "coalesced B"
    and "bitmap_search (blk_size h c AND 0xFFFFFFFC) ACTION_INSERT = (st, fl, sl)"
    and h3: "h3 = insert_block c fl sl h" and y: "y = NEXT_MM_BLK (c + 8) (blk_size h3 c AND 0xFFFFFFFC)"
  shows "mm_inv (set_blk_prev y c (set_blk_size y (blk_size h3 y OR 2) h3)) B E"
    and "\<And>a. a \<notin> meta B E \<Longrightarrow> mm_words (set_blk_prev y c (set_blk_size y (blk_size h3 y OR 2) h3)) a = mm_words h a"
proof -
  note o = open_hdr [OF assms(1,2)]
  let ?F = "(free_of B)(c := None)"
  have d: "dom ?F \<subseteq> dom B" using free_of_dom by auto
  have "blk_size h c AND 0xFFFFFFFC = of_nat s" using hdr_ops(1) [OF layD(3) [OF o(1) assms(2)]] by (simp add: o(4))
  then have bs: "bitmap_search (of_nat s) ACTION_INSERT = (st, fl, sl)" using assms(4) by simp
  note i = open_insert [OF o(1,2,3) d _ assms(2) bs, folded h3]
  have i3: "hdr_ok (mm_words h3) B E {c + 8 + s}" "lists_ok h3 (?F(c \<mapsto> s))" using i(1,2) by simp_all
  have F: "?F(c \<mapsto> s) = free_of B" using assms(2) by (auto simp: fun_eq_iff free_of_def)
  have cX: "c \<notin> {c + 8 + s}" by simp
  have "blk_size h3 c = mm_hdr s True (pfree B c)" using hdr_okD(1) [OF i3(1) assms(2)] cX by (auto simp: blk_size_def)
  then have yy: "y = c + 8 + s" using y lay_next [OF o(1) assms(2)] hdr_ops(1) [OF layD(3) [OF o(1) assms(2)]] by simp
  have yB: "y \<in> dom B \<union> E" using layD(5) [OF o(1) assms(2)] yy by simp
  let ?h = "set_blk_prev y c (set_blk_size y (blk_size h3 y OR 2) h3)"
  have "hdr_ok ((mm_words h3)(y + 4 := blk_size h3 y OR 2, y := of_nat c)) B E {}"
  proof (rule hdr_settle [OF o(1) _ assms(2) yy])
    show "hdr_ok (mm_words h3) B E {y}" using i3(1) yy by simp
    show "blk_size h3 y OR 2 = mm_hdr q g True" if "4 dvd q" "mm_words h3 (y + 4) = mm_hdr q g p" for q g p
      using that hdr_ops(5) [OF that(1)] by (simp add: blk_size_def)
  qed simp
  then have "hdr_ok (mm_words ?h) B E {}" by (simp add: set_blk_prev_def set_blk_size_def)
  moreover have "lists_ok ?h (free_of B)"
  proof -
    have "lists_ok (set_blk_size y (blk_size h3 y OR 2) h3) (free_of B)"
      unfolding set_blk_size_def using lists_hdr_write [OF o(1) i3(2) [unfolded F] free_of_dom] hdr_words_ofI [OF yB] by blast
    then show ?thesis unfolding set_blk_prev_def using lists_hdr_write [OF o(1) _ free_of_dom] hdr_words_ofI [OF yB] by blast
  qed
  ultimately show "mm_inv ?h B E" using o(1) assms(3) by (simp add: mm_inv_def)
  fix a assume a: "a \<notin> meta B E"
  have "insert c (dom ?F) \<subseteq> dom (free_of B)" using assms(2) by (auto intro: domI)
  from link_words_mono [OF this] have "a \<notin> link_words (insert c (dom ?F))" using a unfolding meta_def by blast
  moreover have "a \<noteq> y" "a \<noteq> y + 4" using a hdr_words_ofI [OF yB] by (auto simp: meta_def)
  ultimately show "mm_words ?h a = mm_words h a" using i(3) by (simp add: set_blk_prev_def set_blk_size_def)
qed

lemma meta_subset:
  assumes "dom B' \<subseteq> dom B" and "\<And>a s. B' a = Some (s, True) \<Longrightarrow> a \<noteq> b \<Longrightarrow> \<exists>t. B a = Some (t, True)"
  shows "meta B' E \<subseteq> meta B E \<union> link_words {b}"
proof -
  have "dom (free_of B') \<subseteq> dom (free_of B) \<union> {b}"
  proof
    fix a assume "a \<in> dom (free_of B')"
    then obtain s where "B' a = Some (s, True)" by auto
    then show "a \<in> dom (free_of B) \<union> {b}" using assms(2) [of a s] by (cases "a = b") auto
  qed
  then have "link_words (dom (free_of B')) \<subseteq> link_words (dom (free_of B)) \<union> link_words {b}" by (force simp: link_words_def)
  moreover have "hdr_words_of B' E \<subseteq> hdr_words_of B E" unfolding hdr_words_of_def using assms(1) by (intro UN_mono) auto
  ultimately show ?thesis by (auto simp: meta_def)
qed

text \<open>The last step of joining: with the block before.\<close>

lemma coalesced_prev:
  assumes "mm_lay B E" and "B b = Some (u, True)" and "coal_but B b" and "\<forall>t. B (b + 8 + u) \<noteq> Some (t, True)"
    and "B c = Some (r, True)" and b: "b = c + 8 + r"
  shows "coalesced (B(c \<mapsto> (r + 8 + u, True), b := None))"
  unfolding coalesced_def
proof (intro allI impI)
  let ?B = "B(c \<mapsto> (r + 8 + u, True), b := None)"
  fix a x t assume a: "?B a = Some (x, True)"
  show "?B (a + 8 + x) \<noteq> Some (t, True)"
  proof (cases "a = c")
    case True
    then have "x = r + 8 + u" using a b by simp
    then have e: "a + 8 + x = b + 8 + u" using True b by simp
    show ?thesis unfolding e using assms(4) b by simp
  next
    case False
    then have a2: "B a = Some (x, True)" "a \<noteq> b" using a by (auto split: if_splits)
    have "a + 8 + x \<noteq> b" using lay_end_inj [OF assms(1) a2(1) assms(5)] False b by auto
    then have n: "B (a + 8 + x) \<noteq> Some (t', True)" for t' using assms(3) a2 unfolding coal_but_def by blast
    then have "a + 8 + x \<noteq> c" using assms(5) by metis
    then show ?thesis using n [of t] by simp
  qed
qed

lemma coalesced_no_prev:
  assumes "B b = Some (u, True)" and "coal_but B b" and "\<forall>t. B (b + 8 + u) \<noteq> Some (t, True)" and "\<not> pfree B b"
  shows "coalesced B"
  unfolding coalesced_def
proof (intro allI impI)
  fix a x t assume a: "B a = Some (x, True)"
  have "a + 8 + x \<noteq> b" using assms(4) a unfolding pfree_def by blast
  then show "B (a + 8 + x) \<noteq> Some (t, True)" using assms(1-3) a unfolding coal_but_def by (cases "a = b") auto
qed

lemma join_prev_block:
  assumes "mm_open h B E b" and "B b = Some (u, True)" and "coal_but B b" and "\<forall>t. B (b + 8 + u) \<noteq> Some (t, True)"
  obtains c h' B' v where "join_prev b h = (c, h')" "mm_open h' B' E c" "B' c = Some (v, True)" "coalesced B'" "dom B' \<subseteq> dom B"
    "\<not> pfree B b \<longrightarrow> B' = B" "\<forall>c r. B c = Some (r, True) \<and> b = c + 8 + r \<longrightarrow> B' = merge_next c B"
    "\<forall>a t. a \<noteq> b \<longrightarrow> (B' a = Some (t, False) \<longleftrightarrow> B a = Some (t, False))" "\<forall>t. B' b \<noteq> Some (t, False)"
    "meta B' E \<subseteq> meta B E"
proof (cases "pfree B b")
  case False
  have "\<forall>c r. B c = Some (r, True) \<and> b = c + 8 + r \<longrightarrow> B = merge_next c B" using False unfolding pfree_def by blast
  moreover have "join_prev b h = (b, h)" by (rule join_prev_ok(2) [OF assms(1,2) False])
  moreover have "\<forall>t. B b \<noteq> Some (t, False)" using assms(2) by simp
  ultimately show thesis using that [of b h B u] assms(1,2) coalesced_no_prev [OF assms(2-4) False] by blast
next
  case True
  then obtain c r where c: "B c = Some (r, True)" "b = c + 8 + r" by (auto simp: pfree_def)
  let ?B = "B(c \<mapsto> (r + 8 + u, True), b := None)"
  have lay: "mm_lay B E" using assms(1) by (simp add: mm_open_def)
  have cb: "c \<noteq> b" using c(2) by simp
  have m: "merge_next c B = ?B" using merge_next_simps(1) [of B c r True u, OF c(1)] assms(2) c(2) by simp
  note j = join_prev_ok(1) [OF assms(1,2) c]
  have rel: "\<forall>c r. B c = Some (r, True) \<and> b = c + 8 + r \<longrightarrow> ?B = merge_next c B"
  proof (intro allI impI, elim conjE)
    fix c' r' assume c': "B c' = Some (r', True)" "b = c' + 8 + r'"
    have "c' = c" using lay_end_inj [OF lay c'(1) c(1)] c'(2) c(2) by simp
    then show "?B = merge_next c' B" by (simp only: m)
  qed
  have dm: "dom ?B \<subseteq> dom B" using c(1) by auto
  have "c \<in> dom (free_of B)" using c(1) by (intro domI) simp
  then have "dom (free_of ?B) \<subseteq> dom (free_of B)" unfolding free_of_upd by auto
  note fm = link_words_mono [OF this]
  have "hdr_words_of ?B E \<subseteq> hdr_words_of B E" unfolding hdr_words_of_def by (rule UN_mono) (use dm in auto)
  then have mt: "meta ?B E \<subseteq> meta B E" unfolding meta_def using fm by blast
  have e: "join_prev b h = (c, snd (join_prev b h))" using j by (simp add: prod_eq_iff)
  have "?B c = Some (r + 8 + u, True)" "\<forall>t. ?B b \<noteq> Some (t, False)" using cb by simp_all
  moreover have "\<forall>a t. a \<noteq> b \<longrightarrow> (?B a = Some (t, False) \<longleftrightarrow> B a = Some (t, False))" using c(1) by auto
  ultimately show thesis
    using that [of c "snd (join_prev b h)" ?B "r + 8 + u"] e conjunct2 [OF j] coalesced_prev [OF lay assms(2-4) c] dm True rel mt by blast
qed

text \<open>
  What releasing \<open>b\<close> makes of the blocks: it is marked free and joined with its free neighbours.
\<close>

definition released :: "mm_blocks \<Rightarrow> nat \<Rightarrow> mm_blocks \<Rightarrow> bool" where
  "released B b B' \<longleftrightarrow> (\<exists>s. B b = Some (s, False) \<and>
     (let B2 = merge_next b (B(b \<mapsto> (s, True)))
      in (\<not> pfree B b \<longrightarrow> B' = B2) \<and> (\<forall>c r. B c = Some (r, True) \<and> b = c + 8 + r \<longrightarrow> B' = merge_next c B2)))"

lemma k_mm_free_ok:
  assumes "mm_inv h B E" and "B b = Some (s, False)"
  obtains h' B' where "k_mm_free (Some h) (b + 8) = Some h'" and "mm_inv h' B' E" and "released B b B'"
    and "\<forall>a. a \<notin> meta B E \<union> link_words {b} \<longrightarrow> mm_words h' a = mm_words h a"
    and "\<forall>a t. a \<noteq> b \<longrightarrow> (B' a = Some (t, False) \<longleftrightarrow> B a = Some (t, False))" and "\<nexists>t. B' b = Some (t, False)"
    and "dom B' \<subseteq> dom B"
proof -
  have i: "mm_lay B E" "hdr_ok (mm_words h) B E {}" "coalesced B" using assms(1) by (simp_all add: mm_inv_def)
  let ?B1 = "B(b \<mapsto> (s, True))" and ?B2 = "merge_next b (B(b \<mapsto> (s, True)))"
  let ?h1 = "set_blk_size b (blk_size h b OR 1) h"
  have "blk_size h b OR 1 = mm_hdr s True (pfree B b)"
    using hdr_ok_full [OF i(2) assms(2)] hdr_ops(4) [OF layD(3) [OF i(1) assms(2)]] by (simp add: blk_size_def)
  then have o1: "mm_open ?h1 ?B1 E b" using open_flag [OF assms, of True] by simp
  have b1: "?B1 b = Some (s, True)" by simp
  have l1: "mm_lay ?B1 E" using o1 by (simp add: mm_open_def)
  have cb1: "coal_but ?B1 b" using i(3) unfolding coal_but_def coalesced_def by auto
  obtain u where u: "?B2 b = Some (u, True)" "s \<le> u" "\<forall>t. ?B2 (b + 8 + u) \<noteq> Some (t, True)"
    "coal_but ?B2 b" "\<forall>a < b. ?B2 a = ?B1 a" "\<forall>a t. a \<noteq> b \<longrightarrow> (?B2 a = Some (t, False) \<longleftrightarrow> ?B1 a = Some (t, False))" "dom ?B2 \<subseteq> dom ?B1"
    by (rule merge_next_block [OF l1 b1 cb1])
  let ?h2 = "join_next b ?h1"
  note jn = join_next_ok [OF o1 b1 refl]
  have o2: "mm_open ?h2 ?B2 E b"
  proof (cases "\<exists>t. ?B1 (b + 8 + s) = Some (t, True)")
    case True
    then obtain t where t: "?B1 (b + 8 + s) = Some (t, True)" by blast
    show ?thesis unfolding merge_next_simps(1) [of ?B1 b s True t, OF b1 t] by (rule jn(1) [OF t])
  next
    case False
    then show ?thesis using jn(2) o1 merge_next_simps(2) [of ?B1 b s True] by simp
  qed
  have l2: "mm_lay ?B2 E" using o2 by (simp add: mm_open_def)
  note jp = join_prev_ok [OF o2 u(1)]
  have d1: "dom ?B1 = dom B" using assms(2) by auto
  have below: "?B2 c = B c" if "c < b" for c using u(5) that by simp
  have pf: "pfree ?B2 b = pfree B b" unfolding pfree_def using below by (metis less_add_same_cancel1 add.assoc add_pos_nonneg zero_less_numeral le0)
  have m1: "meta ?B1 E \<subseteq> meta B E \<union> link_words {b}" by (rule meta_subset) (use assms(2) in auto)
  have m2: "meta ?B2 E \<subseteq> meta B E \<union> link_words {b}"
  proof (rule meta_subset)
    show "dom ?B2 \<subseteq> dom B" using u(7) d1 by simp
    fix a t assume a: "?B2 a = Some (t, True)" "a \<noteq> b"
    then show "\<exists>t. B a = Some (t, True)" by (auto simp: merge_next_def split: option.splits bool.splits if_splits)
  qed
  obtain c h3 B3 v where jp': "join_prev b ?h2 = (c, h3)" "mm_open h3 B3 E c" "B3 c = Some (v, True)" "coalesced B3" "dom B3 \<subseteq> dom ?B2"
    "\<not> pfree ?B2 b \<longrightarrow> B3 = ?B2" "\<forall>c r. ?B2 c = Some (r, True) \<and> b = c + 8 + r \<longrightarrow> B3 = merge_next c ?B2"
    "\<forall>a t. a \<noteq> b \<longrightarrow> (B3 a = Some (t, False) \<longleftrightarrow> ?B2 a = Some (t, False))" "\<forall>t. B3 b \<noteq> Some (t, False)"
    "meta B3 E \<subseteq> meta ?B2 E"
    by (rule join_prev_block [OF o2 u(1,4,3)])
  have rel: "B3 = merge_next c' ?B2" if "B c' = Some (r, True)" "b = c' + 8 + r" for c' r
    using jp'(7) below [of c'] that by simp
  obtain st fl sl where bs: "bitmap_search (blk_size h3 c AND 0xFFFFFFFC) ACTION_INSERT = (st, fl, sl)" by (cases "bitmap_search (blk_size h3 c AND 0xFFFFFFFC) ACTION_INSERT")
  define h4 where "h4 = insert_block c fl sl h3"
  define y where "y = NEXT_MM_BLK (c + 8) (blk_size h4 c AND 0xFFFFFFFC)"
  let ?h = "set_blk_prev y c (set_blk_size y (blk_size h4 y OR 2) h4)"
  note cl = close_ok [OF jp'(2-4) bs h4_def y_def]
  show thesis
  proof (rule that)
    show "k_mm_free (Some h) (b + 8) = Some ?h"
      using jp'(1) bs by (simp add: k_mm_free_def Let_def h4_def y_def)
    show "mm_inv ?h B3 E" by (rule cl(1))
    show "released B b B3" unfolding released_def Let_def using assms(2) jp'(6) rel pf by blast
    show "dom B3 \<subseteq> dom B" using jp'(5) u(7) d1 by blast
    show "\<nexists>t. B3 b = Some (t, False)" using jp'(9) by blast
    show "\<forall>a t. a \<noteq> b \<longrightarrow> (B3 a = Some (t, False) \<longleftrightarrow> B a = Some (t, False))" using jp'(8) u(6) by auto
    show "\<forall>a. a \<notin> meta B E \<union> link_words {b} \<longrightarrow> mm_words ?h a = mm_words h a"
    proof (intro allI impI)
      fix a assume a: "a \<notin> meta B E \<union> link_words {b}"
      have "a \<noteq> b + 4" using a assms(2) by (auto simp: meta_def hdr_words_of_def)
      then have "mm_words ?h1 a = mm_words h a" by (simp add: set_blk_size_def)
      moreover have "mm_words ?h2 a = mm_words ?h1 a" using jn(3) [of a] m1 a by blast
      moreover have "mm_words h3 a = mm_words ?h2 a"
      proof -
        have "a \<notin> meta ?B2 E" using m2 a by blast
        from jp(3) [OF this] show ?thesis unfolding jp'(1) by simp
      qed
      moreover have "mm_words ?h a = mm_words h3 a" using cl(2) [of a] jp'(10) m2 a by blast
      ultimately show "mm_words ?h a = mm_words h a" by simp
    qed
  qed
qed

end
