(* ===== verification/Mm_Alloc.thy ===== *)
theory Mm_Alloc
  imports Mm_Steps
begin

text \<open>
  Allocation from the heap: cutting a block in two, and the search, the taking and the cutting that add up
  to \<open>k_mm_alloc\<close>.
\<close>

section \<open>Cutting a block\<close>

text \<open>
  The headers after cutting the allocated block \<open>b\<close> to \<open>n\<close> bytes; \<open>m\<close> need not hold the header of \<open>b\<close>
  yet, \<open>m'\<close> is the memory afterwards.
\<close>

lemma hdr_cut:
  assumes "mm_lay B E" and "B b = Some (s, False)" and "hdr_ok (m(b + 4 := mm_hdr s False (pfree B b))) B E {y}" and y: "y = b + 8 + s"
    and n: "4 dvd n" "8 \<le> n" "n + 16 \<le> s" and z: "z = b + 8 + n" and r: "r = s - n - 8"
    and v: "\<And>q g p. 4 dvd q \<Longrightarrow> m (y + 4) = mm_hdr q g p \<Longrightarrow> v = mm_hdr q g True"
    and m': "\<And>a. a \<in> hdr_words_of (B(b \<mapsto> (n, False), z \<mapsto> (r, True))) E \<Longrightarrow>
      m' a = (m(z + 4 := mm_hdr r True False, y := of_nat z, y + 4 := v, b + 4 := mm_hdr n False (pfree B b))) a"
  shows "hdr_ok m' (B(b \<mapsto> (n, False), z \<mapsto> (r, True))) E {}"
proof -
  let ?B = "B(b \<mapsto> (n, False), z \<mapsto> (r, True))"
  let ?m = "(m(b + 4 := mm_hdr s False (pfree B b)))(z + 4 := mm_hdr r True False, b + 4 := mm_hdr n False (pfree B b))"
  have lay: "mm_lay ?B E" using lay_split(1) [OF assms(1,2) n, of False True] by (simp only: z r)
  have ne: "y \<noteq> z" "y \<noteq> b" "b \<noteq> z" using y z n by auto
  have 1: "hdr_ok ?m ?B E {y}" by (rule hdr_trim [OF assms(1,3,2) y n z r])
  have zr: "?B z = Some (r, True)" "y = z + 8 + r" using n by (simp_all add: y z r)
  have "hdr_ok (?m(y + 4 := v, y := of_nat z)) ?B E {}"
  proof (rule hdr_settle [OF lay 1 zr])
    fix q g p assume q: "4 dvd q" "?m (y + 4) = mm_hdr q g p"
    have "m (y + 4) = mm_hdr q g p" using q(2) ne by simp
    then show "v = mm_hdr q g True" by (rule v [OF q(1)])
  qed simp
  then show ?thesis
  proof (rule hdr_cong [OF lay])
    have k: "b \<in> dom ?B \<union> E" "z \<in> dom ?B \<union> E" by auto
    have yB: "y \<in> dom ?B \<union> E" unfolding zr(2) by (rule layD(5) [OF lay zr(1)])
    note w = hdr_words [OF lay k(1) yB] hdr_words [OF lay k(2) yB] hdr_words [OF lay k(1,2)]
    fix a assume a: "a \<in> dom ?B \<union> E"
    have "m' x = (?m(y + 4 := v, y := of_nat z)) x" if "x = a \<or> x = a + 4" for x
      using m' [of x] hdr_words_ofI [OF a] that w ne by (auto split: if_splits)
    then show "m' a = (?m(y + 4 := v, y := of_nat z)) a \<and> m' (a + 4) = (?m(y + 4 := v, y := of_nat z)) (a + 4)" by blast
  qed
qed

text \<open>The free block at the end of what is cut goes into its list.\<close>

lemma lists_cut:
  assumes "mm_lay B E" and "B b = Some (s, f)" and n: "4 dvd n" "8 \<le> n" "n + 16 \<le> s" and z: "z = b + 8 + n" and r: "r = s - n - 8"
    and "lists_ok h ((free_of B)(b := None))" and "bitmap_search (of_nat r) ACTION_INSERT = (st, fl, sl)"
  shows "lists_ok (insert_block z fl sl h) (free_of (B(b \<mapsto> (n, False), z \<mapsto> (r, True))))"
    and "\<And>a. a \<notin> link_words (dom (free_of (B(b \<mapsto> (n, False), z \<mapsto> (r, True))))) \<Longrightarrow> mm_words (insert_block z fl sl h) a = mm_words h a"
proof -
  let ?B = "B(b \<mapsto> (n, False), z \<mapsto> (r, True))" and ?F = "(free_of B)(b := None)"
  have lay: "mm_lay ?B E" using lay_split(1) [OF assms(1,2) n, of False True] by (simp only: z r)
  have zn: "z \<notin> dom B \<union> E" unfolding z by (rule lay_split(2) [OF assms(1,2) n])
  then have Bz: "B z = None" by auto
  have zr: "?B z = Some (r, True)" by simp
  obtain k l where kl: "bitmap_search (of_nat r) ACTION_INSERT = (RHINO_SUCCESS, k, l)" "is_class r k l" "k < 13"
    using blk_class [OF lay zr] by blast
  then have e: "fl = k" "sl = l" using assms(9) by simp_all
  have d: "dom ?F \<subseteq> dom ?B" using free_of_dom [of B] by auto
  have Fz: "?F z = None" using Bz by (simp add: free_of_def)
  have F: "?F(z \<mapsto> r) = free_of ?B" using z by (auto simp: free_of_upd)
  note i = insert_block_ok [OF assms(8) Fz lay_apart [OF lay zr d] kl(2,3) lay_size [OF lay zr], folded e]
  show "lists_ok (insert_block z fl sl h) (free_of ?B)" using i(1) unfolding F .
  have "insert z (dom ?F) = dom (free_of ?B)" unfolding F [symmetric] by auto
  then show "mm_words (insert_block z fl sl h) a = mm_words h a" if "a \<notin> link_words (dom (free_of ?B))" for a
    using i(2) [of a] that by metis
qed

lemma coalesced_cut:
  assumes "mm_lay B E" and "coal_but B b" and "B b = Some (s, f)" and "\<forall>t. B (b + 8 + s) \<noteq> Some (t, True)"
    and n: "4 dvd n" "8 \<le> n" "n + 16 \<le> s" and z: "z = b + 8 + n" and r: "r = s - n - 8"
  shows "coalesced (B(b \<mapsto> (n, False), z \<mapsto> (r, True)))"
  unfolding coalesced_def
proof (intro allI impI)
  let ?B = "B(b \<mapsto> (n, False), z \<mapsto> (r, True))"
  have zn: "z \<notin> dom B \<union> E" unfolding z by (rule lay_split(2) [OF assms(1,3) n])
  fix a x t assume a: "?B a = Some (x, True)"
  show "?B (a + 8 + x) \<noteq> Some (t, True)"
  proof (cases "a = z")
    case True
    then have e: "a + 8 + x = b + 8 + s" using a n by (simp add: z r)
    have "b + 8 + s \<noteq> b" "b + 8 + s \<noteq> z" using n by (simp_all add: z)
    then show ?thesis unfolding e using assms(4) by simp
  next
    case False
    then have a2: "B a = Some (x, True)" "a \<noteq> b" using a by (auto split: if_splits)
    then have "a + 8 + x \<noteq> z" using layD(5) [OF assms(1) a2(1)] zn by auto
    then show ?thesis using assms(2) a2 unfolding coal_but_def by auto
  qed
qed

text \<open>The whole step: \<open>h\<close> has the words of the new free block and of its end written.\<close>

lemma cut_ok:
  assumes "mm_lay B E" and "B b = Some (s, False)" and "hdr_ok (m(b + 4 := mm_hdr s False (pfree B b))) B E {y}" and y: "y = b + 8 + s"
    and n: "4 dvd n" "8 \<le> n" "n + 16 \<le> s" and z: "z = b + 8 + n" and r: "r = s - n - 8"
    and v: "\<forall>q g p. 4 dvd q \<and> m (y + 4) = mm_hdr q g p \<longrightarrow> v = mm_hdr q g True"
    and "coal_but B b" and "\<forall>t. B y \<noteq> Some (t, True)"
    and mb: "m (b + 4) = mm_hdr q0 g0 (pfree B b)" "4 dvd q0"
    and h: "mm_words h = m(z + 4 := mm_hdr r True False, y := of_nat z, y + 4 := v)" and "lists_ok h (free_of B)"
    and bs: "bitmap_search (of_nat r) ACTION_INSERT = (st, fl, sl)"
    and B': "B' = B(b \<mapsto> (n, False), z \<mapsto> (r, True))" and h3: "h3 = insert_block z fl sl h"
  shows "mm_inv (set_blk_size b (of_nat n OR (blk_size h3 b AND 2)) h3) B' E"
    and "\<And>a. a \<notin> meta B' E \<Longrightarrow> mm_words (set_blk_size b (of_nat n OR (blk_size h3 b AND 2)) h3) a = m a"
proof -
  let ?h = "set_blk_size b (of_nat n OR (blk_size h3 b AND 2)) h3"
  have lay: "mm_lay B' E" unfolding B' z r by (rule lay_split(1) [OF assms(1,2) n, of False True])
  have Bb: "B' b = Some (n, False)" "B' z = Some (r, True)" using z by (simp_all add: B')
  have zr: "y = z + 8 + r" using n by (simp add: y z r)
  have bz: "b \<in> dom B' \<union> E" "z \<in> dom B' \<union> E" using Bb by auto
  have yB: "y \<in> dom B' \<union> E" unfolding zr by (rule layD(5) [OF lay Bb(2)])
  have ne: "y \<noteq> z" "y \<noteq> b" "b \<noteq> z" using y z n by auto
  have f: "(free_of B)(b := None) = free_of B" using assms(2) by (auto simp: free_of_def fun_eq_iff)
  have l0: "lists_ok h ((free_of B)(b := None))" unfolding f by (rule assms(16))
  note li = lists_cut [OF assms(1,2) n z r l0 bs, folded B' h3]
  have lw: "a \<in> dom B' \<union> E \<Longrightarrow> a \<notin> link_words (dom (free_of B')) \<and> a + 4 \<notin> link_words (dom (free_of B'))" for a
    using hdr_not_link [OF lay _ free_of_dom] by blast
  note w = hdr_words [OF lay bz(1) yB] hdr_words [OF lay bz]
  have "mm_words h3 (b + 4) = mm_words h (b + 4)" using li(2) lw [OF bz(1)] by blast
  also have "\<dots> = mm_hdr q0 g0 (pfree B b)" using w ne mb(1) by (simp add: h)
  finally have b3: "of_nat n OR (blk_size h3 b AND 2) = mm_hdr n False (pfree B b)" using hdr_ops(8) [OF mb(2) n(1)] by (simp add: blk_size_def)
  have "hdr_ok (mm_words ?h) B' E {}" unfolding B'
  proof (rule hdr_cut [OF assms(1-3) y n z r])
    show "v = mm_hdr q g True" if "4 dvd q" "m (y + 4) = mm_hdr q g p" for q g p using v that by blast
    fix a assume a: "a \<in> hdr_words_of (B(b \<mapsto> (n, False), z \<mapsto> (r, True))) E"
    then have "a \<notin> link_words (dom (free_of B'))" using lw by (auto simp: hdr_words_of_def B')
    then have "mm_words h3 a = mm_words h a" by (rule li(2))
    then show "mm_words ?h a = (m(z + 4 := mm_hdr r True False, y := of_nat z, y + 4 := v, b + 4 := mm_hdr n False (pfree B b))) a"
      by (simp add: set_blk_size_def b3 h)
  qed
  moreover have "lists_ok ?h (free_of B')"
    unfolding set_blk_size_def using lists_hdr_write [OF lay li(1) free_of_dom] hdr_words_ofI [OF bz(1)] by blast
  moreover have "coalesced B'" unfolding B' by (rule coalesced_cut [OF assms(1,11,2) assms(12) [unfolded y] n z r])
  ultimately show "mm_inv ?h B' E" using lay by (simp add: mm_inv_def)
  fix a assume a: "a \<notin> meta B' E"
  then have "a \<noteq> b + 4" "a \<noteq> y" "a \<noteq> y + 4" "a \<noteq> z + 4" using hdr_words_ofI [OF yB] hdr_words_ofI [OF bz(1)] hdr_words_ofI [OF bz(2)] by (auto simp: meta_def)
  moreover have "mm_words h3 a = mm_words h a" using li(2) a by (simp add: meta_def)
  ultimately show "mm_words ?h a = m a" by (simp add: set_blk_size_def h)
qed

section \<open>Allocation\<close>

lemma next_blk: "a + n < 2 ^ 32 \<Longrightarrow> NEXT_MM_BLK a (of_nat n) = a + n"
  unfolding NEXT_MM_BLK_def of_nat_add [symmetric] by (rule unat_ptr)

lemma size_words:
  assumes "s < 2 ^ 19" and "n \<le> s"
  shows "(of_nat s :: u32) - of_nat n = of_nat (s - n)" and "(16 :: u32) \<le> of_nat (s - n) \<longleftrightarrow> 16 \<le> s - n"
proof -
  show "(of_nat s :: u32) - of_nat n = of_nat (s - n)" using assms(2) by simp
  have "unat (of_nat (s - n) :: u32) = s - n" using assms by (intro unat_ptr) simp
  then show "(16 :: u32) \<le> of_nat (s - n) \<longleftrightarrow> 16 \<le> s - n" by (simp add: word_le_nat_alt)
qed

lemma pfree_self: "pfree (B(b \<mapsto> (s, g))) b = pfree B b" if "mm_lay B E" "B b = Some (s, f)"
proof -
  have "x \<noteq> b" if "b = x + 8 + t" for x t :: nat using that by simp
  then show ?thesis unfolding pfree_def by (metis fun_upd_apply)
qed

text \<open>The header behind a free block says so.\<close>

lemma hdr_end:
  assumes "mm_lay B E" and "hdr_ok m B E {}" and "B b = Some (s, f)" and "4 dvd q" and "m (b + 8 + s + 4) = mm_hdr q g p"
  shows "p = f"
proof -
  let ?y = "b + 8 + s"
  have yB: "?y \<in> dom B \<union> E" by (rule layD(5) [OF assms(1,3)])
  have pf: "pfree B ?y = f" by (rule pfree_end [OF assms(1,3)])
  obtain q' g' where q': "4 dvd q'" "m (?y + 4) = mm_hdr q' g' (pfree B ?y)"
  proof (cases "?y \<in> E")
    case True
    then show thesis using hdr_okD(2) [OF assms(2) True] that [of 0 False] by auto
  next
    case False
    then obtain t g where t: "B ?y = Some (t, g)" using yB by auto
    show thesis by (rule that [OF layD(3) [OF assms(1) t] hdr_ok_full [OF assms(2) t]])
  qed
  have "mm_hdr q g p AND 2 = mm_hdr q' g' f AND 2" using q'(2) assms(5) pf by simp
  then show ?thesis using hdr_ops(3) [OF assms(4), of g p] hdr_ops(3) [OF q'(1), of g' f] by metis
qed

text \<open>Allocation out of the free block \<open>b\<close>, which the search has found and which is in no list any more.\<close>

definition taken :: "mm_blocks \<Rightarrow> nat \<Rightarrow> nat \<Rightarrow> mm_blocks" where
  "taken B b n =
     (case B b of
        Some (s, True) \<Rightarrow> if n + 16 \<le> s then B(b \<mapsto> (n, False), b + 8 + n \<mapsto> (s - n - 8, True)) else B(b \<mapsto> (s, False))
      | _ \<Rightarrow> B)"

lemma split_whole_ok:
  assumes "mm_lay B E" and "hdr_ok (mm_words h) B E {}" and "lists_ok h ((free_of B)(b := None))" and "coalesced B"
    and "B b = Some (s, True)" and n: "4 dvd n" "8 \<le> n" "n \<le> s" "\<not> n + 16 \<le> s"
  shows "mm_inv (split_block b (of_nat n) h) (B(b \<mapsto> (s, False))) E"
    and "a \<notin> meta (B(b \<mapsto> (s, False))) E \<Longrightarrow> mm_words (split_block b (of_nat n) h) a = mm_words h a"
proof -
  let ?B1 = "B(b \<mapsto> (s, False))" and ?y = "b + 8 + s" and ?h = "split_block b (of_nat n) h"
  note l = layD [OF assms(1,5)]
  have lay1: "mm_lay ?B1 E" by (rule lay_flag [OF assms(1,5)])
  have pf: "pfree ?B1 b = pfree B b" by (rule pfree_self [OF assms(1,5)])
  have hb: "mm_words h (b + 4) = mm_hdr s True (pfree B b)" using hdr_ok_full [OF assms(2,5)] .
  have hm: "blk_size h b AND 0xFFFFFFFC = of_nat s" using hdr_ops(1) [OF l(3)] by (simp only: hb blk_size_def)
  have ny: "NEXT_MM_BLK (b + 8) (of_nat s) = ?y" by (rule lay_next [OF assms(1,5)])
  have h1: "hdr_ok ((mm_words h)(b + 4 := mm_hdr s False (pfree ?B1 b))) ?B1 E {?y}" unfolding pf by (rule hdr_flag [OF assms(1,2,5)])
  have b1: "?B1 b = Some (s, False)" by simp
  have F: "free_of ?B1 = (free_of B)(b := None)" by (auto simp: free_of_upd)
  have yB: "?y \<in> dom ?B1 \<union> E" by (rule layD(5) [OF lay1 b1])
  note sw = size_words [OF lay_size [OF assms(1,5)] n(3)]
  let ?m = "(mm_words h)(?y + 4 := mm_words h (?y + 4) AND NOT 2, b + 4 := mm_hdr s False (pfree B b))"
  have c16: "(16 \<le> s - n) = False" using n(4) by simp
  have e: "?h = set_blk_size b (blk_size (set_blk_size ?y (blk_size h ?y AND NOT 2) h) b AND NOT 1) (set_blk_size ?y (blk_size h ?y AND NOT 2) h)"
    unfolding split_block_def Let_def hm ny sw c16 if_False ..
  have "blk_size (set_blk_size ?y (blk_size h ?y AND NOT 2) h) b = blk_size h b" by (simp add: blk_size_def set_blk_size_def)
  moreover have "blk_size h b AND NOT 1 = mm_hdr s False (pfree B b)" unfolding blk_size_def hb by (rule hdr_ops(6) [OF l(3)])
  ultimately have e': "?h = set_blk_size b (mm_hdr s False (pfree B b)) (set_blk_size ?y (blk_size h ?y AND NOT 2) h)" using e by (simp only:)
  then have w: "mm_words ?h = ?m" by (simp add: set_blk_size_def blk_size_def)
  have "hdr_ok (((mm_words h)(b + 4 := mm_hdr s False (pfree ?B1 b)))(?y + 4 := mm_words h (?y + 4) AND NOT 2, ?y := mm_words h ?y)) ?B1 E {}"
  proof (rule hdr_settle [OF lay1 h1 b1 refl])
    fix q g p assume q: "4 dvd q" "((mm_words h)(b + 4 := mm_hdr s False (pfree ?B1 b))) (?y + 4) = mm_hdr q g p"
    then show "mm_words h (?y + 4) AND NOT 2 = mm_hdr q g False" using hdr_ops(7) [OF q(1), of g p] by simp
  qed simp
  moreover have "((mm_words h)(b + 4 := mm_hdr s False (pfree ?B1 b)))(?y + 4 := mm_words h (?y + 4) AND NOT 2, ?y := mm_words h ?y) = ?m"
    using l(4) unfolding pf by (auto simp: fun_eq_iff)
  ultimately have "hdr_ok (mm_words ?h) ?B1 E {}" unfolding w by simp
  moreover have "lists_ok ?h (free_of ?B1)"
  proof -
    have bB: "b \<in> dom ?B1 \<union> E" by simp
    have "lists_ok (set_blk_size ?y (blk_size h ?y AND NOT 2) h) (free_of ?B1)"
      unfolding set_blk_size_def using lists_hdr_write [OF lay1 assms(3) [folded F] free_of_dom] hdr_words_ofI [OF yB] by blast
    then show ?thesis unfolding e' set_blk_size_def using lists_hdr_write [OF lay1 _ free_of_dom] hdr_words_ofI [OF bB] by blast
  qed
  moreover have "coalesced ?B1" using assms(4) unfolding coalesced_def by (auto split: if_splits)
  ultimately show "mm_inv ?h ?B1 E" using lay1 by (simp add: mm_inv_def)
  show "mm_words ?h a = mm_words h a" if "a \<notin> meta ?B1 E"
    using that hdr_words_ofI [OF yB] hdr_words_ofI [of b ?B1 E] unfolding w by (auto simp: meta_def)
qed

lemma split_block_ok:
  assumes "mm_lay B E" and "hdr_ok (mm_words h) B E {}" and "lists_ok h ((free_of B)(b := None))" and "coalesced B"
    and "B b = Some (s, True)" and n: "4 dvd n" "8 \<le> n" "n \<le> s"
  shows "mm_inv (split_block b (of_nat n) h) (taken B b n) E \<and>
    (\<forall>a. a \<notin> meta B E \<union> meta (taken B b n) E \<longrightarrow> mm_words (split_block b (of_nat n) h) a = mm_words h a)"
proof -
  let ?B1 = "B(b \<mapsto> (s, False))" and ?y = "b + 8 + s" and ?h = "split_block b (of_nat n) h"
  note l = layD [OF assms(1,5)]
  have lay1: "mm_lay ?B1 E" by (rule lay_flag [OF assms(1,5)])
  have pf: "pfree ?B1 b = pfree B b" by (rule pfree_self [OF assms(1,5)])
  have hb: "mm_words h (b + 4) = mm_hdr s True (pfree B b)" using hdr_ok_full [OF assms(2,5)] .
  have hm: "blk_size h b AND 0xFFFFFFFC = of_nat s" using hdr_ops(1) [OF l(3)] by (simp only: hb blk_size_def)
  have ny: "NEXT_MM_BLK (b + 8) (of_nat s) = ?y" by (rule lay_next [OF assms(1,5)])
  have h1: "hdr_ok ((mm_words h)(b + 4 := mm_hdr s False (pfree ?B1 b))) ?B1 E {?y}" unfolding pf by (rule hdr_flag [OF assms(1,2,5)])
  have b1: "?B1 b = Some (s, False)" by simp
  have F: "free_of ?B1 = (free_of B)(b := None)" by (auto simp: free_of_upd)
  have yB: "?y \<in> dom ?B1 \<union> E" by (rule layD(5) [OF lay1 b1])
  note sw = size_words [OF lay_size [OF assms(1,5)] n(3)]
  have co: "\<forall>t. ?B1 ?y \<noteq> Some (t, True)" using assms(4,5) by (simp add: coalesced_def)
  have cb: "coal_but ?B1 b" using assms(4) unfolding coal_but_def coalesced_def by auto
  show ?thesis
  proof (cases "n + 16 \<le> s")
    case True
    let ?z = "b + 8 + n" and ?r = "s - n - 8"
    let ?B' = "?B1(b \<mapsto> (n, False), ?z \<mapsto> (?r, True))"
    have t: "taken B b n = ?B'" using assms(5) True by (simp add: taken_def)
    obtain st fl sl where bs: "bitmap_search (of_nat ?r) ACTION_INSERT = (st, fl, sl)" by (cases "bitmap_search (of_nat ?r) ACTION_INSERT")
    have nz: "NEXT_MM_BLK (b + 8) (of_nat n) = ?z" using l(7) n by (intro next_blk) simp
    have dr: "4 dvd ?r" using l(3) n(1) by (intro dvd_diff_nat) auto
    have rw: "(of_nat ?r :: u32) OR 1 = mm_hdr ?r True False" using hdr_ops(4) [OF dr, of False False] mm_hdr_0 [OF dr] by simp
    have tr: "(of_nat (s - n) :: u32) - 8 = of_nat ?r" using True by (simp add: of_nat_diff)
    define h1 where "h1 = set_blk_prev ?y ?z (set_blk_size ?z (mm_hdr ?r True False) h)"
    define h3 where "h3 = insert_block ?z fl sl h1"
    have c16: "(16 \<le> s - n) = True" using True by simp
    have e: "?h = set_blk_size b (of_nat n OR (blk_size h3 b AND 2)) h3"
      unfolding split_block_def Let_def hm ny sw nz tr bs prod.case rw c16 if_True h3_def h1_def ..
    have w: "mm_words h1 = (mm_words h)(?z + 4 := mm_hdr ?r True False, ?y := of_nat ?z, ?y + 4 := mm_words h (?y + 4))"
      using True by (auto simp: h1_def blk_sets fun_eq_iff)
    have bz: "?z \<in> dom ?B' \<union> E" by auto
    have lay': "mm_lay ?B' E" by (rule lay_split(1) [OF lay1 b1 n(1,2) True])
    have yB': "?y \<in> dom ?B' \<union> E" using yB by auto
    have d: "dom ((free_of B)(b := None)) \<subseteq> dom ?B'" using free_of_dom [of B] by auto
    have "lists_ok (set_blk_size ?z (mm_hdr ?r True False) h) ((free_of B)(b := None))"
      unfolding set_blk_size_def using lists_hdr_write [OF lay' assms(3) d] hdr_words_ofI [OF bz] by blast
    then have li: "lists_ok h1 (free_of ?B1)" unfolding F h1_def set_blk_prev_def
      using lists_hdr_write [OF lay' _ d] hdr_words_ofI [OF yB'] by blast
    have v: "\<forall>q g p. 4 dvd q \<and> mm_words h (?y + 4) = mm_hdr q g p \<longrightarrow> mm_words h (?y + 4) = mm_hdr q g True"
      using hdr_end [OF assms(1,2,5)] by metis
    note c = cut_ok [OF lay1 b1 h1 refl n(1,2) True refl refl v cb co hb [folded pf] l(3) w li bs refl h3_def, folded t e]
    show ?thesis using c(1) by (blast intro: c(2))
  next
    case False
    then have t: "taken B b n = B(b \<mapsto> (s, False))" using assms(5) by (simp add: taken_def)
    show ?thesis unfolding t using split_whole_ok [OF assms(1-5) n False] by blast
  qed
qed

text \<open>Rounding to multiples of four.\<close>

lemma align_down: "unat (MM_ALIGN_DOWN a) = unat a - unat a mod 4"
proof -
  have m3: "(3 :: u32) = mask 2" by (simp add: mask_eq_exp_minus_1)
  have "MM_ALIGN_DOWN a = a AND NOT (take_bit 2 a)"
    unfolding MM_ALIGN_DOWN_def m3 by (rule bit_word_eqI) (auto simp: bit_and_iff bit_not_iff bit_take_bit_iff bit_mask_iff)
  also have "\<dots> = a - take_bit 2 a" by (rule disjunctive_diff [symmetric]) (simp add: bit_take_bit_iff)
  finally have "MM_ALIGN_DOWN a = a - take_bit 2 a" .
  moreover have u: "unat (take_bit 2 a) = unat a mod 4" by (simp only: unsigned_take_bit_eq) (simp add: take_bit_eq_mod)
  moreover have "take_bit 2 a \<le> a" unfolding word_le_nat_alt u by simp
  ultimately show ?thesis by (simp add: unat_sub)
qed

lemma align_up:
  assumes "unat a + 3 < 2 ^ 32"
  shows "unat (MM_ALIGN_UP a) = unat a + 3 - (unat a + 3) mod 4"
proof -
  have "unat (a + 3) = unat a + 3" using assms by (subst unat_add_lem [THEN iffD1]) auto
  then show ?thesis using align_down [of "a + 3"] by (simp add: MM_ALIGN_UP_def MM_ALIGN_DOWN_def)
qed

lemma mm_req_size_ok:
  assumes "unat size' \<le> 2 ^ 31" and n: "n = unat (mm_req_size size')"
  shows "4 dvd n" "8 \<le> n" "unat size' \<le> n" "n \<le> max 8 (unat size' + 3)" "n \<le> 2 ^ 31" "mm_req_size size' = of_nat n"
proof -
  let ?u = "unat (MM_ALIGN_UP size')"
  have u: "?u = unat size' + 3 - (unat size' + 3) mod 4" using assms(1) by (intro align_up) simp
  have d: "4 dvd ?u" unfolding u by (simp add: dvd_minus_mod)
  have nu: "n = (if ?u < 8 then 8 else ?u)" unfolding n mm_req_size_def Let_def by (simp add: word_less_nat_alt)
  show "4 dvd n" "8 \<le> n" using d by (auto simp: nu)
  show "unat size' \<le> n" "n \<le> max 8 (unat size' + 3)" using u by (auto simp: nu)
  obtain k where k: "?u = 4 * k" using d by blast
  then have "4 * k \<le> 2 ^ 31 + 3" using u assms(1) by linarith
  then show "n \<le> 2 ^ 31" using k by (simp add: nu)
  show "mm_req_size size' = of_nat n" by (simp add: n)
qed

text \<open>The block that the search finds for \<open>n\<close> bytes.\<close>

lemma found_block:
  assumes "lists_ok h F" and "4 dvd n" and "n \<le> 2 ^ 31" and "bitmap_search (of_nat n) ACTION_GET = (RHINO_SUCCESS, fl, sl)"
    and "findblk_byidx h fl sl = (b, fl', sl')"
  shows "b \<noteq> 0 \<Longrightarrow> \<exists>s. F b = Some s \<and> n \<le> s \<and> take_first b fl' sl' h = get_block b fl' sl' h \<and> is_class s fl' sl' \<and> fl' < 13"
    and "b = 0 \<Longrightarrow> F a = Some s \<Longrightarrow> s < 2 ^ 19 \<Longrightarrow> s < n + n div 32"
proof -
  have g: "fl < 13" "sl < 32" "n \<le> class_lb fl sl" "class_lb fl sl \<le> n + n div 32"
    using bitmap_search_get(1) [OF assms(2-4)] by simp_all
  note f = findblk_ok [OF assms(1) g(1,2) assms(5)]
  show "\<exists>s. F b = Some s \<and> n \<le> s \<and> take_first b fl' sl' h = get_block b fl' sl' h \<and> is_class s fl' sl' \<and> fl' < 13" if nz: "b \<noteq> 0"
  proof -
    obtain s where s: "F b = Some s" "is_class s fl' sl'" "fl' < 13" "mm_tbl h fl' sl' = b" "fl < fl' \<or> fl = fl' \<and> sl \<le> sl'"
      using f(1) [OF nz] by blast
    have "n \<le> s" using later_class_larger [OF s(2,5) g(2)] g(3) by simp
    then show ?thesis using take_first_get_block [OF assms(1) s(1-4)] s by blast
  qed
  show "s < n + n div 32" if z: "b = 0" "F a = Some s" "s < 2 ^ 19"
  proof (rule ccontr)
    assume "\<not> s < n + n div 32"
    then have lb: "class_lb fl sl \<le> s" using g(4) by simp
    obtain k l where "is_class s k l" "k < 13" using bitmap_search_insert [OF z(3)] by blast
    then show False using f(2) [OF z(1,2)] larger_later_class [OF _ lb] by blast
  qed
qed

lemma k_mm_alloc_ok:
  assumes "mm_inv h B E" and "0 < unat size'" and "unat size' \<le> 2 ^ 31" and n: "n = unat (mm_req_size size')"
  obtains "k_mm_alloc (Some h) size' = (0, Some h)" and "\<forall>a s. B a = Some (s, True) \<longrightarrow> s < n + n div 32"
  | b s h' where "k_mm_alloc (Some h) size' = (b + 8, Some h')" and "B b = Some (s, True)" and "n \<le> s"
    and "mm_inv h' (taken B b n) E" and "\<forall>a. a \<notin> meta B E \<union> meta (taken B b n) E \<longrightarrow> mm_words h' a = mm_words h a"
proof -
  have i: "mm_lay B E" "hdr_ok (mm_words h) B E {}" "lists_ok h (free_of B)" "coalesced B" using assms(1) by (simp_all add: mm_inv_def)
  note r = mm_req_size_ok [OF assms(3) n]
  have small: "s < 2 ^ 19" if "B a = Some (s, True)" for a s using lay_size [OF i(1) that] .
  have nz: "size' \<noteq> 0" using assms(2) by auto
  obtain st fl sl where bs: "bitmap_search (of_nat n) ACTION_GET = (st, fl, sl)" by (cases "bitmap_search (of_nat n :: u32) ACTION_GET")
  obtain b fl' sl' where fb: "findblk_byidx h fl sl = (b, fl', sl')" by (cases "findblk_byidx h fl sl")
  have e: "k_mm_alloc (Some h) size' = (if st \<noteq> RHINO_SUCCESS \<or> b = 0 then (0, Some h) else (b + 8, Some (split_block b (of_nat n) (take_first b fl' sl' h))))"
    using nz by (simp add: k_mm_alloc_def r(6) [symmetric] bs [unfolded r(6) [symmetric]] fb)
  consider "st \<noteq> RHINO_SUCCESS" | "st = RHINO_SUCCESS" "b = 0" | "st = RHINO_SUCCESS" "b \<noteq> 0" by blast
  then show thesis
  proof cases
    case 1
    then have "2 ^ 19 \<le> n + n div 32" by (rule bitmap_search_get(2) [OF r(1,5) bs])
    then have "\<forall>a s. B a = Some (s, True) \<longrightarrow> s < n + n div 32" using small by (meson less_le_trans)
    then show thesis using that(1) e 1 by simp
  next
    case 2
    note f = found_block(2) [OF i(3) r(1,5) bs [unfolded 2(1)] fb 2(2)]
    have "\<forall>a s. B a = Some (s, True) \<longrightarrow> s < n + n div 32" using f small by simp
    then show thesis using that(1) e 2 by simp
  next
    case 3
    obtain s where s: "free_of B b = Some s" "n \<le> s" "take_first b fl' sl' h = get_block b fl' sl' h" "is_class s fl' sl'" "fl' < 13"
      using found_block(1) [OF i(3) r(1,5) bs [unfolded 3(1)] fb 3(2)] by blast
    then have Bb: "B b = Some (s, True)" by simp
    let ?h = "get_block b fl' sl' h"
    note g = get_block_ok(1,2) [OF i(3) s(1,4,5)]
    have "hdr_ok (mm_words ?h) B E {}" by (rule hdr_list_op [OF i(1,2) free_of_dom g(2)])
    note sp = split_block_ok [OF i(1) this g(1) i(4) Bb r(1,2) s(2)]
    have "k_mm_alloc (Some h) size' = (b + 8, Some (split_block b (of_nat n) ?h))" using e 3 s(3) by simp
    moreover have "mm_words ?h a = mm_words h a" if "a \<notin> meta B E" for a using g(2) that by (simp add: meta_def)
    ultimately show thesis using that(2) [OF _ Bb s(2)] sp by (metis UnI1)
  qed
qed

end
