(* ===== verification/Mm_Realloc.thy ===== *)
theory Mm_Realloc
  imports Mm_Alloc
begin

text \<open>
  Reallocation: a block is cut, or grows into the free block behind it, or is moved; with the words that
  belong to the data of an allocated block, which none of these steps touches.
\<close>

section \<open>Cutting an allocated block\<close>

lemma hdr_weaken: "hdr_ok m B E {} \<Longrightarrow> hdr_ok m B E X"
  unfolding hdr_ok_def by blast

lemma leave_rest_ok:
  assumes "mm_lay B E" and "B b = Some (s, False)" and "hdr_ok ((mm_words h)(b + 4 := mm_hdr s False (pfree B b))) B E {y}" and y: "y = b + 8 + s"
    and n: "4 dvd n" "8 \<le> n" "n + 16 \<le> s" and "coal_but B b" and "\<forall>t. B y \<noteq> Some (t, True)"
    and mb: "mm_words h (b + 4) = mm_hdr q0 g0 (pfree B b)" "4 dvd q0" and "lists_ok h (free_of B)"
    and B': "B' = B(b \<mapsto> (n, False), b + 8 + n \<mapsto> (s - n - 8, True))"
  shows "mm_inv (leave_rest b (of_nat n) (of_nat (s - n)) y h) B' E"
    and "\<And>a. a \<notin> meta B' E \<Longrightarrow> mm_words (leave_rest b (of_nat n) (of_nat (s - n)) y h) a = mm_words h a"
proof -
  let ?z = "b + 8 + n" and ?r = "s - n - 8" and ?h = "leave_rest b (of_nat n) (of_nat (s - n)) y h"
  note l = layD [OF assms(1,2)]
  obtain st fl sl where bs: "bitmap_search (of_nat ?r) ACTION_INSERT = (st, fl, sl)" by (cases "bitmap_search (of_nat ?r) ACTION_INSERT")
  have nz: "NEXT_MM_BLK (b + 8) (of_nat n) = ?z" using l(7) n by (intro next_blk) simp
  have dr: "4 dvd ?r" using l(3) n(1) by (intro dvd_diff_nat) auto
  have rw: "(of_nat ?r :: u32) OR 1 = mm_hdr ?r True False" using hdr_ops(4) [OF dr, of False False] mm_hdr_0 [OF dr] by simp
  have tr: "(of_nat (s - n) :: u32) - 8 = of_nat ?r" using n(3) by (simp add: of_nat_diff)
  define h1 where "h1 = set_blk_prev y ?z (set_blk_size ?z (mm_hdr ?r True False) h)"
  define h2 where "h2 = set_blk_size y (blk_size h1 y OR 2) h1"
  define h3 where "h3 = insert_block ?z fl sl h2"
  have e: "?h = set_blk_size b (of_nat n OR (blk_size h3 b AND 2)) h3"
    unfolding leave_rest_def Let_def tr nz bs prod.case rw h3_def h2_def h1_def ..
  have ne: "y \<noteq> ?z" "y + 4 \<noteq> ?z + 4" using y n(3) by auto
  have "blk_size h1 y = mm_words h (y + 4)" using ne by (simp add: h1_def blk_sets blk_size_def)
  then have w: "mm_words h2 = (mm_words h)(?z + 4 := mm_hdr ?r True False, y := of_nat ?z, y + 4 := mm_words h (y + 4) OR 2)"
    by (simp add: h2_def h1_def blk_sets)
  have lay': "mm_lay B' E" unfolding B' by (rule lay_split(1) [OF assms(1,2) n])
  have zB: "?z \<in> dom B' \<union> E" unfolding B' by auto
  have yB: "y \<in> dom B' \<union> E" unfolding B' using l(5) y by auto
  have d: "dom (free_of B) \<subseteq> dom B'" unfolding B' using free_of_dom [of B] by auto
  note wr = lists_hdr_write [OF lay' _ d]
  have "lists_ok (set_blk_size ?z (mm_hdr ?r True False) h) (free_of B)"
    unfolding set_blk_size_def using wr [OF assms(12)] hdr_words_ofI [OF zB] by blast
  then have "lists_ok h1 (free_of B)" unfolding h1_def set_blk_prev_def using wr hdr_words_ofI [OF yB] by blast
  then have li: "lists_ok h2 (free_of B)" unfolding h2_def set_blk_size_def using wr hdr_words_ofI [OF yB] by blast
  have v: "\<forall>q g p. 4 dvd q \<and> mm_words h (y + 4) = mm_hdr q g p \<longrightarrow> mm_words h (y + 4) OR 2 = mm_hdr q g True"
    using hdr_ops(5) by metis
  note c = cut_ok [OF assms(1-3) y n refl refl v assms(8,9) mb w li bs B' h3_def, folded e]
  show "mm_inv ?h B' E" by (rule c(1))
  show "mm_words ?h a = mm_words h a" if "a \<notin> meta B' E" for a by (rule c(2) [OF that])
qed

text \<open>What cutting makes of the blocks.\<close>

definition cut_to :: "nat \<Rightarrow> nat \<Rightarrow> mm_blocks \<Rightarrow> mm_blocks" where
  "cut_to b n B =
     (case B b of
        Some (s, False) \<Rightarrow> if n + 16 \<le> s then B(b \<mapsto> (n, False), b + 8 + n \<mapsto> (s - n - 8, True)) else B
      | _ \<Rightarrow> B)"

lemma cut_inv_ok:
  assumes "mm_inv h B E" and "B b = Some (s, False)" and "\<forall>t. B (b + 8 + s) \<noteq> Some (t, True)" and n: "4 dvd n" "8 \<le> n" "n + 16 \<le> s"
  shows "mm_inv (leave_rest b (of_nat n) (of_nat (s - n)) (b + 8 + s) h) (cut_to b n B) E"
    and "\<And>a. a \<notin> meta (cut_to b n B) E \<Longrightarrow> mm_words (leave_rest b (of_nat n) (of_nat (s - n)) (b + 8 + s) h) a = mm_words h a"
proof -
  have i: "mm_lay B E" "hdr_ok (mm_words h) B E {}" "lists_ok h (free_of B)" "coalesced B" using assms(1) by (simp_all add: mm_inv_def)
  have hb: "mm_words h (b + 4) = mm_hdr s False (pfree B b)" by (rule hdr_ok_full [OF i(2) assms(2)])
  then have "(mm_words h)(b + 4 := mm_hdr s False (pfree B b)) = mm_words h" by auto
  then have h: "hdr_ok ((mm_words h)(b + 4 := mm_hdr s False (pfree B b))) B E {b + 8 + s}" using hdr_weaken [OF i(2)] by simp
  have cb: "coal_but B b" using i(4) unfolding coal_but_def coalesced_def by blast
  have B': "cut_to b n B = B(b \<mapsto> (n, False), b + 8 + n \<mapsto> (s - n - 8, True))" using assms(2) n(3) by (simp add: cut_to_def)
  note l = leave_rest_ok [OF i(1) assms(2) h refl n cb assms(3) hb layD(3) [OF i(1) assms(2)] i(3) B']
  show "mm_inv (leave_rest b (of_nat n) (of_nat (s - n)) (b + 8 + s) h) (cut_to b n B) E" by (rule l(1))
  show "mm_words (leave_rest b (of_nat n) (of_nat (s - n)) (b + 8 + s) h) a = mm_words h a" if "a \<notin> meta (cut_to b n B) E" for a
    by (rule l(2) [OF that])
qed

section \<open>Resizing in place\<close>

lemma pfree_below: "(\<And>a. a < b \<Longrightarrow> B' a = B a) \<Longrightarrow> pfree B' b = pfree B b"
  unfolding pfree_def by (metis less_add_same_cancel1 add.assoc add_pos_nonneg zero_less_numeral le0)

lemma meta_mono:
  assumes "dom B' \<subseteq> dom B" and "\<And>a s. B' a = Some (s, True) \<Longrightarrow> \<exists>t. B a = Some (t, True)"
  shows "meta B' E \<subseteq> meta B E"
proof -
  have "dom (free_of B') \<subseteq> dom (free_of B)"
  proof
    fix a assume "a \<in> dom (free_of B')"
    then obtain s where "B' a = Some (s, True)" by auto
    then show "a \<in> dom (free_of B)" using assms(2) [of a s] by auto
  qed
  note f = link_words_mono [OF this]
  have "hdr_words_of B' E \<subseteq> hdr_words_of B E" unfolding hdr_words_of_def by (rule UN_mono) (use assms(1) in auto)
  then show ?thesis unfolding meta_def using f by blast
qed

lemma shrink_join_ok:
  assumes "mm_inv h B E" and "B b = Some (s, False)" and t: "B (b + 8 + s) = Some (t, True)" and n: "4 dvd n" "8 \<le> n" "n \<le> s"
  shows "mm_inv (shrink_block b (of_nat n) h) (cut_to b n (merge_next b B)) E"
    and "\<And>a. a \<notin> meta B E \<union> meta (cut_to b n (merge_next b B)) E \<Longrightarrow> mm_words (shrink_block b (of_nat n) h) a = mm_words h a"
proof -
  let ?y = "b + 8 + s" and ?S = "s + 8 + t" and ?B2 = "B(b \<mapsto> (s + 8 + t, False), b + 8 + s := None)"
  have i: "mm_lay B E" "hdr_ok (mm_words h) B E {}" "lists_ok h (free_of B)" "coalesced B" using assms(1) by (simp_all add: mm_inv_def)
  note l = layD [OF i(1) assms(2)] and ly = layD [OF i(1) t]
  have m: "merge_next b B = ?B2" by (rule merge_next_simps(1) [of B b s False t, OF assms(2) t])
  have cb: "coal_but B b" using i(4) unfolding coal_but_def coalesced_def by blast
  note mb = merge_next_block [OF i(1) assms(2) cb, unfolded m]
  have B2b: "?B2 b = Some (?S, False)" by simp
  have co: "coal_but ?B2 b" "\<forall>t. ?B2 (b + 8 + ?S) \<noteq> Some (t, True)" using mb B2b by (metis option.inject prod.inject)+
  have lay2: "mm_lay ?B2 E" by (rule lay_join [OF i(1) assms(2) t])
  have pf: "pfree ?B2 b = pfree B b" by (rule pfree_below) simp
  obtain st fl sl where bs: "bitmap_search (of_nat t) ACTION_INSERT = (st, fl, sl)" by (cases "bitmap_search (of_nat t) ACTION_INSERT")
  define h1 where "h1 = get_block ?y fl sl h"
  have Fy: "free_of B ?y = Some t" using t by simp
  note g = open_get [OF i(1,2,3) free_of_dom Fy t bs, folded h1_def]
  have hb: "mm_words h1 (b + 4) = mm_hdr s False (pfree B b)" by (rule hdr_ok_full [OF g(1) assms(2)])
  have yd: "?y \<in> dom B \<union> E" using t by auto
  have ym: "mm_words h1 (?y + 4) AND 0xFFFFFFFC = of_nat t" using hdr_free_flag(2) [OF i(1) g(1) yd t] by (simp add: blk_size_def)
  have "mm_words h1 (b + 4) + ((mm_words h1 (?y + 4) AND 0xFFFFFFFC) + 8) = mm_hdr ?S False (pfree ?B2 b)"
    unfolding hb ym pf by (rule hdr_add [OF l(3) ly(3)])
  then have ho: "hdr_ok ((mm_words h1)(b + 4 := mm_hdr ?S False (pfree ?B2 b))) ?B2 E {b + 8 + ?S}"
    using hdr_join [OF i(1) g(1) assms(2) refl t] by (simp add: add.assoc)
  have F2: "free_of ?B2 = (free_of B)(?y := None)" using assms(2) by (auto simp: free_of_upd fun_eq_iff free_of_def)
  have li: "lists_ok h1 (free_of ?B2)" unfolding F2 by (rule g(2))
  have n16: "n + 16 \<le> ?S" using n(3) ly(4) by simp
  have c: "cut_to b n (merge_next b B) = ?B2(b \<mapsto> (n, False), b + 8 + n \<mapsto> (?S - n - 8, True))" unfolding m using n16 by (simp add: cut_to_def)
  note lr = leave_rest_ok [OF lay2 B2b ho refl n(1,2) n16 co hb [folded pf] l(3) li c]
  have e: "shrink_block b (of_nat n) h = leave_rest b (of_nat n) (of_nat (?S - n)) (b + 8 + ?S) h1"
  proof -
    have w: "blk_size h b AND 0xFFFFFFFC = of_nat s" "blk_size h ?y AND 0xFFFFFFFC = of_nat t" "blk_size h1 ?y AND 0xFFFFFFFC = of_nat t"
      using hdr_free_flag(2) [OF i(1,2) _ assms(2)] hdr_free_flag(2) [OF i(1,2) yd t] ym assms(2) by (auto simp: blk_size_def)
    have fr: "(blk_size h ?y AND 1 \<noteq> 0) = True" using hdr_free_flag(1) [OF i(1,2) yd] t by simp
    have ny: "NEXT_MM_BLK (b + 8) (of_nat s) = ?y" "NEXT_MM_BLK (?y + 8) (of_nat t) = b + 8 + ?S"
      using lay_next [OF i(1) assms(2)] lay_next [OF i(1) t] by simp_all
    have a: "of_nat s + (of_nat t + 8) - of_nat n = (of_nat (?S - n) :: u32)" using n16 by (simp add: of_nat_diff)
    have "(16 \<le> (of_nat (?S - n) :: u32)) = True"
      using size_words(2) [of ?S n] lay_size [OF lay2 B2b] n16 by simp
    then show ?thesis unfolding shrink_block_def Let_def w ny bs prod.case fr if_True a h1_def [symmetric] by (simp only: if_True)
  qed
  show "mm_inv (shrink_block b (of_nat n) h) (cut_to b n (merge_next b B)) E" unfolding e by (rule lr(1))
  show "mm_words (shrink_block b (of_nat n) h) a = mm_words h a" if "a \<notin> meta B E \<union> meta (cut_to b n (merge_next b B)) E" for a
    using lr(2) [of a] g(3) [of a] that unfolding e by (simp add: meta_def)
qed

lemma merge_next_id: "B b = Some (s, f) \<Longrightarrow> \<nexists>t. B (b + 8 + s) = Some (t, True) \<Longrightarrow> merge_next b B = B"
  by (rule merge_next_simps(2))

lemma shrink_block_ok:
  assumes "mm_inv h B E" and "B b = Some (s, False)" and n: "4 dvd n" "8 \<le> n" "n \<le> s"
  shows "mm_inv (shrink_block b (of_nat n) h) (cut_to b n (merge_next b B)) E \<and>
    (\<forall>a. a \<notin> meta B E \<union> meta (cut_to b n (merge_next b B)) E \<longrightarrow> mm_words (shrink_block b (of_nat n) h) a = mm_words h a)"
proof (cases "\<exists>t. B (b + 8 + s) = Some (t, True)")
  case True
  then obtain t where t: "B (b + 8 + s) = Some (t, True)" by blast
  show ?thesis using shrink_join_ok [OF assms(1,2) t n] by blast
next
  case False
  let ?y = "b + 8 + s"
  have i: "mm_lay B E" "hdr_ok (mm_words h) B E {}" using assms(1) by (simp_all add: mm_inv_def)
  have m: "merge_next b B = B" by (rule merge_next_id [of B b s False, OF assms(2) False])
  have yd: "?y \<in> dom B \<union> E" by (rule layD(5) [OF i(1) assms(2)])
  have w: "blk_size h b AND 0xFFFFFFFC = of_nat s" using hdr_free_flag(2) [OF i(1,2) _ assms(2)] assms(2) by auto
  have fr: "(blk_size h ?y AND 1 \<noteq> 0) = False" using hdr_free_flag(1) [OF i(1,2) yd] False by simp
  note sw = size_words [OF lay_size [OF i(1) assms(2)] n(3)]
  have e: "shrink_block b (of_nat n) h = (if 16 \<le> s - n then leave_rest b (of_nat n) (of_nat (s - n)) ?y h else h)"
    unfolding shrink_block_def Let_def w lay_next [OF i(1) assms(2)] fr if_False prod.case sw ..
  show ?thesis
  proof (cases "n + 16 \<le> s")
    case True
    then have "shrink_block b (of_nat n) h = leave_rest b (of_nat n) (of_nat (s - n)) ?y h" using e by simp
    moreover have nf: "\<forall>t. B ?y \<noteq> Some (t, True)" using False by blast
    ultimately show ?thesis using cut_inv_ok [OF assms(1,2) nf n(1,2) True] unfolding m by simp
  next
    case False
    then have "shrink_block b (of_nat n) h = h" "cut_to b n B = B" using e assms(2) by (simp_all add: cut_to_def)
    then show ?thesis using assms(1) unfolding m by simp
  qed
qed

text \<open>The block takes the free block behind it.\<close>

lemma absorb_ok:
  assumes "mm_inv h B E" and "B b = Some (s, False)" and t: "B (b + 8 + s) = Some (t, True)"
    and h2: "h2 = join_next b h" and e: "e = b + 8 + (s + 8 + t)"
    and h4: "h4 = set_blk_size e (blk_size (set_blk_prev e b h2) e AND NOT 2) (set_blk_prev e b h2)"
  shows "mm_inv h4 (merge_next b B) E" and "merge_next b B b = Some (s + 8 + t, False)" and "\<forall>v. merge_next b B e \<noteq> Some (v, True)"
    and "meta (merge_next b B) E \<subseteq> meta B E" and "\<And>a. a \<notin> meta B E \<Longrightarrow> mm_words h4 a = mm_words h a"
    and "blk_size h2 b = mm_hdr (s + 8 + t) False (pfree (merge_next b B) b)"
proof -
  let ?S = "s + 8 + t" and ?B2 = "B(b \<mapsto> (s + 8 + t, False), b + 8 + s := None)"
  have i: "mm_lay B E" "hdr_ok (mm_words h) B E {}" "lists_ok h (free_of B)" "coalesced B" using assms(1) by (simp_all add: mm_inv_def)
  have m: "merge_next b B = ?B2" by (rule merge_next_simps(1) [of B b s False t, OF assms(2) t])
  have f: "(free_of B)(b := None) = free_of B" using assms(2) by (auto simp: free_of_def fun_eq_iff)
  have op: "mm_open h B E b" unfolding mm_open_def f using i assms(2) hdr_weaken [OF i(2)] by blast
  note j = join_next_ok [OF op assms(2) refl]
  have o2: "mm_open h2 ?B2 E b" unfolding h2 by (rule j(1) [OF t])
  have B2b: "?B2 b = Some (?S, False)" by simp
  show "merge_next b B b = Some (?S, False)" unfolding m by (rule B2b)
  note o = open_hdr [OF o2 B2b, folded e]
  show "blk_size h2 b = mm_hdr ?S False (pfree (merge_next b B) b)" unfolding m by (rule o(4))
  have cb: "coal_but B b" using i(4) unfolding coal_but_def coalesced_def by blast
  note mb = merge_next_block [OF i(1) assms(2) cb, unfolded m]
  have co: "coal_but ?B2 b" "\<forall>v. ?B2 e \<noteq> Some (v, True)" unfolding e using mb B2b by (metis option.inject prod.inject)+
  show "\<forall>v. merge_next b B e \<noteq> Some (v, True)" unfolding m by (rule co(2))
  have ed: "e \<in> dom ?B2 \<union> E" unfolding e by (rule layD(5) [OF o(1) B2b])
  have w: "mm_words h4 = (mm_words h2)(e + 4 := mm_words h2 (e + 4) AND NOT 2, e := of_nat b)"
    unfolding h4 by (simp add: blk_sets blk_size_def fun_upd_twist)
  have "hdr_ok (mm_words h4) ?B2 E {}" unfolding w
  proof (rule hdr_settle [OF o(1) o(2) B2b e])
    fix q g p assume "4 dvd q" "mm_words h2 (e + 4) = mm_hdr q g p"
    then show "mm_words h2 (e + 4) AND NOT 2 = mm_hdr q g False" using hdr_ops(7) [of q g p] by simp
  qed simp
  moreover have "lists_ok h4 (free_of ?B2)"
  proof -
    have f2: "(free_of ?B2)(b := None) = free_of ?B2" by (auto simp: free_of_def fun_eq_iff)
    have "lists_ok (set_blk_prev e b h2) (free_of ?B2)"
      unfolding set_blk_prev_def using lists_hdr_write [OF o(1) o(3) [unfolded f2] free_of_dom] hdr_words_ofI [OF ed] by blast
    then show ?thesis unfolding h4 set_blk_size_def using lists_hdr_write [OF o(1) _ free_of_dom] hdr_words_ofI [OF ed] by blast
  qed
  moreover have "coalesced ?B2" using co(1) B2b unfolding coalesced_def coal_but_def by (metis option.inject prod.inject)
  ultimately show "mm_inv h4 (merge_next b B) E" unfolding m mm_inv_def using o(1) by blast
  show mm: "meta (merge_next b B) E \<subseteq> meta B E" unfolding m by (rule meta_mono) (use assms(2) in \<open>auto split: if_splits\<close>)
  fix a assume a: "a \<notin> meta B E"
  then have "a \<notin> meta ?B2 E" using mm unfolding m by blast
  then have "a \<noteq> e" "a \<noteq> e + 4" using hdr_words_ofI [OF ed] by (auto simp: meta_def)
  then show "mm_words h4 a = mm_words h a" using j(3) [OF a] by (simp add: w h2)
qed

lemma grow_block_ok:
  assumes "mm_inv h B E" and "B b = Some (s, False)" and t: "B (b + 8 + s) = Some (t, True)" and n: "4 dvd n" "8 \<le> n" "n \<le> s + t"
  shows "mm_inv (grow_block b (of_nat n) h) (cut_to b n (merge_next b B)) E \<and>
    (\<forall>a. a \<notin> meta B E \<union> meta (cut_to b n (merge_next b B)) E \<longrightarrow> mm_words (grow_block b (of_nat n) h) a = mm_words h a)"
proof -
  let ?y = "b + 8 + s" and ?S = "s + 8 + t" and ?B2 = "merge_next b B" and ?h2 = "join_next b h"
  define e where "e = b + 8 + (s + 8 + t)"
  define h4 where "h4 = set_blk_size e (blk_size (set_blk_prev e b ?h2) e AND NOT 2) (set_blk_prev e b ?h2)"
  have i: "mm_lay B E" "hdr_ok (mm_words h) B E {}" using assms(1) by (simp_all add: mm_inv_def)
  note a = absorb_ok [OF assms(1,2) t refl e_def h4_def]
  have i4: "mm_lay ?B2 E" "hdr_ok (mm_words h4) ?B2 E {}" using a(1) by (simp_all add: mm_inv_def)
  have bd: "b \<in> dom ?B2 \<union> E" using a(2) by auto
  have yd: "?y \<in> dom B \<union> E" using t by auto
  obtain st fl sl where bs: "bitmap_search (of_nat t) ACTION_INSERT = (st, fl, sl)" by (cases "bitmap_search (of_nat t) ACTION_INSERT")
  have w: "blk_size h b AND 0xFFFFFFFC = of_nat s" "blk_size h ?y AND 0xFFFFFFFC = of_nat t"
    using hdr_free_flag(2) [OF i _ assms(2)] hdr_free_flag(2) [OF i yd t] assms(2) by auto
  have fr: "(blk_size h ?y AND 1 \<noteq> 0) = True" using hdr_free_flag(1) [OF i yd] t by simp
  have w2: "blk_size ?h2 b AND 0xFFFFFFFC = of_nat ?S" unfolding a(6) by (rule hdr_ops(1) [OF layD(3) [OF i4(1) a(2)]])
  have w4: "blk_size h4 b AND 0xFFFFFFFC = of_nat ?S" by (rule hdr_free_flag(2) [OF i4 bd a(2)])
  have ny: "NEXT_MM_BLK (b + 8) (of_nat s) = ?y" "NEXT_MM_BLK (b + 8) (of_nat ?S) = e"
    using lay_next [OF i(1) assms(2)] lay_next [OF i4(1) a(2)] unfolding e_def by simp_all
  have jn: "set_blk_size b (blk_size (get_block ?y fl sl h) b + ((blk_size (get_block ?y fl sl h) ?y AND 0xFFFFFFFC) + 8)) (get_block ?y fl sl h) = ?h2"
    unfolding join_next_def Let_def w ny bs prod.case fr if_True ..
  have nS: "n \<le> ?S" using n(3) by simp
  note sw = size_words [OF lay_size [OF i4(1) a(2)] nS]
  have g: "grow_block b (of_nat n) h = (if 16 \<le> ?S - n then leave_rest b (of_nat n) (of_nat (?S - n)) e h4 else h4)"
    unfolding grow_block_def Let_def w ny bs prod.case jn w2 h4_def [symmetric] w4 sw ..
  have fr4: "mm_words h4 x = mm_words h x" if "x \<notin> meta B E" for x by (rule a(5) [OF that])
  show ?thesis
  proof (cases "n + 16 \<le> ?S")
    case True
    note c = cut_inv_ok [OF a(1,2) a(3) [unfolded e_def] n(1,2) True, folded e_def]
    have "grow_block b (of_nat n) h = leave_rest b (of_nat n) (of_nat (?S - n)) e h4" using g True by simp
    then show ?thesis using c fr4 by simp
  next
    case False
    then have "grow_block b (of_nat n) h = h4" "cut_to b n ?B2 = ?B2" using g a(2) by (simp_all add: cut_to_def)
    then show ?thesis using a(1) fr4 by simp
  qed
qed

section \<open>The data of allocated blocks\<close>

definition payload :: "mm_blocks \<Rightarrow> nat \<Rightarrow> nat set" where
  "payload B c = (case B c of Some (t, False) \<Rightarrow> {c + 8..<c + 8 + t} | _ \<Rightarrow> {})"

lemma payload_Some [simp]: "B c = Some (t, False) \<Longrightarrow> payload B c = {c + 8..<c + 8 + t}"
  by (simp add: payload_def)

lemma payloadE:
  assumes "x \<in> payload B c"
  obtains t where "B c = Some (t, False)" and "c + 8 \<le> x" and "x < c + 8 + t"
  using assms by (auto simp: payload_def split: option.splits bool.splits)

lemma payload_not_meta:
  assumes "mm_lay B E" and "x \<in> payload B c"
  shows "x \<notin> meta B E"
proof
  assume "x \<in> meta B E"
  obtain t where t: "B c = Some (t, False)" "c + 8 \<le> x" "x < c + 8 + t" by (rule payloadE [OF assms(2)])
  note l = layD [OF assms(1) t(1)]
  have c: "c \<in> dom B \<union> E" using t(1) by auto
  from \<open>x \<in> meta B E\<close> consider y where "y \<in> dom B \<union> E" "x = y \<or> x = y + 4" | y u where "B y = Some (u, True)" "x = y + 8 \<or> x = y + 12"
    unfolding meta_def hdr_words_of_def link_words_def by auto
  then show False
  proof cases
    case 1
    then show False using l(6) [of y] t(2,3) by (cases "c < y") auto
  next
    case 2
    have "y \<in> dom B \<union> E" "y \<noteq> c" using 2(1) t(1) by auto
    then consider "c + 8 + t \<le> y" | "y + 8 + u \<le> c" using l(6) [of y] layD(6) [OF assms(1) 2(1) c] by linarith
    then show False using 2(2) t(2,3) layD(4) [OF assms(1) 2(1)] by cases auto
  qed
qed

lemma payload_disjoint:
  assumes "mm_lay B E" and "c \<noteq> d"
  shows "payload B c \<inter> payload B d = {}"
proof (rule ccontr)
  assume "payload B c \<inter> payload B d \<noteq> {}"
  then obtain x where x: "x \<in> payload B c" "x \<in> payload B d" by blast
  obtain t where t: "B c = Some (t, False)" "c + 8 \<le> x" "x < c + 8 + t" by (rule payloadE [OF x(1)])
  obtain u where u: "B d = Some (u, False)" "d + 8 \<le> x" "x < d + 8 + u" by (rule payloadE [OF x(2)])
  have "c \<in> dom B \<union> E" "d \<in> dom B \<union> E" using t(1) u(1) by auto
  then show False using layD(6) [OF assms(1) t(1), of d] layD(6) [OF assms(1) u(1), of c] assms(2) t(2,3) u(2,3) by linarith
qed

text \<open>Writing to the data of an allocated block keeps the invariant.\<close>

lemma mm_inv_payload_write:
  assumes "mm_inv h B E" and "\<And>x. x \<in> meta B E \<Longrightarrow> m x = mm_words h x"
  shows "mm_inv (h\<lparr>mm_words := m\<rparr>) B E"
proof -
  have i: "mm_lay B E" "hdr_ok (mm_words h) B E {}" "lists_ok h (free_of B)" "coalesced B" using assms(1) by (simp_all add: mm_inv_def)
  have "hdr_ok m B E {}"
    by (rule hdr_cong [OF i(1,2)]) (use assms(2) hdr_words_ofI in \<open>auto simp: meta_def\<close>)
  moreover have "lists_ok (h\<lparr>mm_words := m\<rparr>) (free_of B)"
    by (rule lists_ok_cong [OF i(3)]) (use assms(2) in \<open>auto simp: meta_def\<close>)
  ultimately show ?thesis using i by (simp add: mm_inv_def)
qed

text \<open>What the operations do to the blocks, for the blocks that are allocated.\<close>

lemma taken_blocks:
  assumes "mm_lay B E" and "B b = Some (s, True)" and n: "4 dvd n" "8 \<le> n" "n \<le> s"
  obtains t where "taken B b n b = Some (t, False)" and "n \<le> t" and "\<forall>c u. c \<noteq> b \<longrightarrow> (taken B b n c = Some (u, False) \<longleftrightarrow> B c = Some (u, False))"
proof (cases "n + 16 \<le> s")
  case True
  have "b + 8 + n \<notin> dom B \<union> E" by (rule lay_split(2) [OF assms(1,2) n(1,2) True])
  then have "B (b + 8 + n) = None" by auto
  then show thesis using that [of n] assms(2) True by (simp add: taken_def)
next
  case False
  then show thesis using that [of s] assms(2) n(3) by (simp add: taken_def)
qed

lemma resized_blocks:
  assumes "mm_lay B E" and "mm_lay (merge_next b B) E" and "merge_next b B b = Some (S, False)" and "B b = Some (s, False)"
    and n: "4 dvd n" "8 \<le> n" "n \<le> S"
  obtains t where "cut_to b n (merge_next b B) b = Some (t, False)" and "n \<le> t"
    and "\<forall>c u. c \<noteq> b \<longrightarrow> (cut_to b n (merge_next b B) c = Some (u, False) \<longleftrightarrow> B c = Some (u, False))"
proof -
  let ?B = "merge_next b B"
  have m: "\<forall>c u. c \<noteq> b \<longrightarrow> (?B c = Some (u, False) \<longleftrightarrow> B c = Some (u, False))"
    using assms(4) by (auto simp: merge_next_def split: option.splits bool.splits)
  show thesis
  proof (cases "n + 16 \<le> S")
    case True
    have "b + 8 + n \<notin> dom ?B \<union> E" by (rule lay_split(2) [OF assms(2,3) n(1,2) True])
    then have z: "?B (b + 8 + n) = None" by auto
    have c: "cut_to b n ?B = ?B(b \<mapsto> (n, False), b + 8 + n \<mapsto> (S - n - 8, True))" using assms(3) True by (simp add: cut_to_def)
    have "cut_to b n ?B b = Some (n, False)" "\<forall>c u. c \<noteq> b \<longrightarrow> (cut_to b n ?B c = Some (u, False) \<longleftrightarrow> ?B c = Some (u, False))"
      unfolding c using z by simp_all
    then show thesis using that [of n] m by blast
  next
    case False
    then show thesis using that [of S] assms(3) n(3) m by (simp add: cut_to_def)
  qed
qed

section \<open>Reallocation\<close>

text \<open>
  The outcome of a request for the block \<open>b\<close>: \<open>p\<close> is the address of a block with the same data at its
  beginning, and the other allocated blocks are as they were.
\<close>

definition moved_ok :: "k_mm_head \<Rightarrow> mm_blocks \<Rightarrow> nat \<Rightarrow> nat \<Rightarrow> k_mm_head \<Rightarrow> mm_blocks \<Rightarrow> nat \<Rightarrow> bool" where
  "moved_ok h B b n h' B' p \<longleftrightarrow>
     (\<exists>s t. B b = Some (s, False) \<and> B' (p - 8) = Some (t, False) \<and> 8 \<le> p \<and> n \<le> t \<and>
        (\<forall>i < min s n. mm_words h' (p + i) = mm_words h (b + 8 + i))) \<and>
     (\<forall>c u. c \<noteq> b \<and> c \<noteq> p - 8 \<longrightarrow> (B' c = Some (u, False) \<longleftrightarrow> B c = Some (u, False))) \<and>
     (\<forall>c. c \<noteq> b \<and> c \<noteq> p - 8 \<longrightarrow> (\<forall>x \<in> payload B c. mm_words h' x = mm_words h x)) \<and>
     (p = b + 8 \<or> (\<forall>u. B' b \<noteq> Some (u, False)) \<and> (\<forall>u. B (p - 8) \<noteq> Some (u, False)))"

lemma in_place_ok:
  assumes "mm_inv h B E" and "B b = Some (s, False)" and "mm_inv h' B' E" and "B' b = Some (t, False)" and "n \<le> t"
    and "\<forall>c u. c \<noteq> b \<longrightarrow> (B' c = Some (u, False) \<longleftrightarrow> B c = Some (u, False))"
    and "\<forall>a. a \<notin> meta B E \<union> meta B' E \<longrightarrow> mm_words h' a = mm_words h a"
  shows "moved_ok h B b n h' B' (b + 8)"
proof -
  have l: "mm_lay B E" "mm_lay B' E" using assms(1,3) by (simp_all add: mm_inv_def)
  have keep: "mm_words h' x = mm_words h x" if "x \<in> payload B c" "x \<in> payload B' c" for c x
    using payload_not_meta [OF l(1) that(1)] payload_not_meta [OF l(2) that(2)] assms(7) by simp
  have "mm_words h' (b + 8 + i) = mm_words h (b + 8 + i)" if "i < min s n" for i
    by (rule keep [of _ b]) (use that assms(2,4,5) in auto)
  moreover have "mm_words h' x = mm_words h x" if x: "x \<in> payload B c" "c \<noteq> b" for c x
  proof -
    obtain u where u: "B c = Some (u, False)" by (rule payloadE [OF x(1)])
    then have "B' c = Some (u, False)" using assms(6) x(2) by blast
    then have "x \<in> payload B' c" using x(1) u by simp
    then show ?thesis by (rule keep [OF x(1)])
  qed
  ultimately show ?thesis using assms(2,4-6) unfolding moved_ok_def by auto
qed

lemma merge_next_size:
  assumes "B b = Some (s, f)"
  obtains S where "merge_next b B b = Some (S, f)" and "s \<le> S"
  using assms by (cases "\<exists>t. B (b + 8 + s) = Some (t, True)") (auto simp: merge_next_simps)

lemma lay_merge:
  assumes "mm_lay B E" and "B b = Some (s, f)"
  shows "mm_lay (merge_next b B) E"
proof (cases "\<exists>t. B (b + 8 + s) = Some (t, True)")
  case True
  then obtain t where t: "B (b + 8 + s) = Some (t, True)" by blast
  show ?thesis unfolding merge_next_simps(1) [of B b s f t, OF assms(2) t] by (rule lay_join [OF assms t])
next
  case False
  show ?thesis unfolding merge_next_simps(2) [of B b s f, OF assms(2) False] by (rule assms(1))
qed

lemma resized_in_place:
  assumes "mm_inv h B E" and "B b = Some (s, False)" and "merge_next b B b = Some (S, False)" and n: "4 dvd n" "8 \<le> n" "n \<le> S"
    and h': "mm_inv h' (cut_to b n (merge_next b B)) E \<and> (\<forall>a. a \<notin> meta B E \<union> meta (cut_to b n (merge_next b B)) E \<longrightarrow> mm_words h' a = mm_words h a)"
  shows "moved_ok h B b n h' (cut_to b n (merge_next b B)) (b + 8)"
proof -
  have l: "mm_lay B E" using assms(1) by (simp add: mm_inv_def)
  obtain t where t: "cut_to b n (merge_next b B) b = Some (t, False)" "n \<le> t"
    "\<forall>c u. c \<noteq> b \<longrightarrow> (cut_to b n (merge_next b B) c = Some (u, False) \<longleftrightarrow> B c = Some (u, False))"
    by (rule resized_blocks [OF l lay_merge [OF l assms(2)] assms(3,2) n])
  show ?thesis by (rule in_place_ok [OF assms(1,2) conjunct1 [OF h'] t conjunct2 [OF h']])
qed

text \<open>The new block is taken, the data copied, the old block released.\<close>

lemma move_ok:
  assumes "mm_inv h B E" and "B b = Some (s, False)" and "B c = Some (u, True)" and n: "4 dvd n" "8 \<le> n" "n \<le> u" and "s < n"
    and h1: "mm_inv h1 (taken B c n) E" and f1: "\<forall>a. a \<notin> meta B E \<union> meta (taken B c n) E \<longrightarrow> mm_words h1 a = mm_words h a"
  obtains h' B' where "k_mm_free (Some (mm_copy (c + 8) (b + 8) s h1)) (b + 8) = Some h'" and "mm_inv h' B' E" and "moved_ok h B b n h' B' (c + 8)"
proof -
  have l: "mm_lay B E" "mm_lay (taken B c n) E" using assms(1) h1 by (simp_all add: mm_inv_def)
  obtain t where t: "taken B c n c = Some (t, False)" "n \<le> t" "\<forall>d v. d \<noteq> c \<longrightarrow> (taken B c n d = Some (v, False) \<longleftrightarrow> B d = Some (v, False))"
    by (rule taken_blocks [OF l(1) assms(3) n])
  let ?h2 = "mm_copy (c + 8) (b + 8) s h1" and ?B1 = "taken B c n"
  have bc: "b \<noteq> c" using assms(2,3) by auto
  have b1: "?B1 b = Some (s, False)" using t(3) bc assms(2) by blast
  have pc: "payload ?B1 c = {c + 8..<c + 8 + t}" "payload ?B1 b = {b + 8..<b + 8 + s}" using t(1) b1 by simp_all
  have cp: "mm_words ?h2 x = mm_words h1 x" if "x \<notin> payload ?B1 c" for x using that t(2) assms(7) by (auto simp: mm_copy_def pc)
  have "mm_inv (h1\<lparr>mm_words := mm_words ?h2\<rparr>) ?B1 E"
    by (rule mm_inv_payload_write [OF h1]) (use payload_not_meta [OF l(2)] cp in blast)
  moreover have "h1\<lparr>mm_words := mm_words ?h2\<rparr> = ?h2" by (simp add: mm_copy_def)
  ultimately have h2: "mm_inv ?h2 ?B1 E" by simp
  obtain h' B' where f: "k_mm_free (Some ?h2) (b + 8) = Some h'" "mm_inv h' B' E" "released ?B1 b B'"
    "\<forall>a. a \<notin> meta ?B1 E \<union> link_words {b} \<longrightarrow> mm_words h' a = mm_words ?h2 a"
    "\<forall>a v. a \<noteq> b \<longrightarrow> (B' a = Some (v, False) \<longleftrightarrow> ?B1 a = Some (v, False))" "\<nexists>v. B' b = Some (v, False)"
    "dom B' \<subseteq> dom ?B1"
    by (rule k_mm_free_ok [OF h2 b1])
  have s8: "8 \<le> s" using layD(4) [OF l(1) assms(2)] .
  then have lb: "link_words {b} \<subseteq> payload ?B1 b" by (auto simp: link_words_def pc)
  have keep: "mm_words h' x = mm_words ?h2 x" if "x \<in> payload ?B1 d" "d \<noteq> b" for d x
    using payload_not_meta [OF l(2) that(1)] payload_disjoint [OF l(2) that(2)] lb that(1) by (intro f(4) [rule_format]) blast
  have old: "mm_words h1 x = mm_words h x" if "x \<in> payload B d" "x \<in> payload ?B1 d" for d x
    using payload_not_meta [OF l(1) that(1)] payload_not_meta [OF l(2) that(2)] f1 by simp
  have data: "mm_words h' (c + 8 + i) = mm_words h (b + 8 + i)" if "i < min s n" for i
  proof -
    have "mm_words h' (c + 8 + i) = mm_words ?h2 (c + 8 + i)" by (rule keep [of _ c]) (use that t(2) pc bc in auto)
    also have "\<dots> = mm_words h1 (b + 8 + i)" using that by (simp add: mm_copy_def)
    also have "\<dots> = mm_words h (b + 8 + i)" by (rule old [of _ b]) (use that assms(2) pc in auto)
    finally show ?thesis .
  qed
  have other: "mm_words h' x = mm_words h x" if x: "x \<in> payload B d" "d \<noteq> b" "d \<noteq> c" for d x
  proof -
    obtain v where v: "B d = Some (v, False)" by (rule payloadE [OF x(1)])
    then have "?B1 d = Some (v, False)" using t(3) x(3) by blast
    then have x1: "x \<in> payload ?B1 d" using x(1) v by simp
    have "x \<notin> payload ?B1 c" using payload_disjoint [OF l(2) x(3)] x1 by blast
    then show ?thesis using keep [OF x1 x(2)] cp old [OF x(1) x1] by simp
  qed
  have "B' c = Some (t, False)" using f(5) t(1) bc by simp
  moreover have "\<forall>d v. d \<noteq> b \<and> d \<noteq> c \<longrightarrow> (B' d = Some (v, False) \<longleftrightarrow> B d = Some (v, False))" using f(5) t(3) by blast
  ultimately have "moved_ok h B b n h' B' (c + 8)" unfolding moved_ok_def using assms(2,3) t(2) data other f(6) by auto
  then show thesis using that f(1,2) by blast
qed

lemma moved_ok_mono: "moved_ok h B b n h' B' p \<Longrightarrow> k \<le> n \<Longrightarrow> moved_ok h B b k h' B' p"
  unfolding moved_ok_def by (meson le_trans min.mono less_le_trans order_refl)

lemma mm_new_size_ok:
  assumes "unat new_size \<le> 2 ^ 31" and n: "n = unat (mm_new_size new_size)"
  shows "4 dvd n" "8 \<le> n" "unat new_size \<le> n" "n \<le> 2 ^ 31" "n \<le> max 16 (unat new_size + 3)" "mm_new_size new_size = of_nat n" "mm_req_size (of_nat n) = of_nat n"
proof -
  let ?u = "unat (MM_ALIGN_UP new_size)"
  have u: "?u = unat new_size + 3 - (unat new_size + 3) mod 4" using assms(1) by (intro align_up) simp
  have d: "4 dvd ?u" unfolding u by (simp add: dvd_minus_mod)
  have nu: "n = (if unat new_size < 16 then 16 else ?u)" unfolding n mm_new_size_def by (simp add: word_less_nat_alt)
  show n4: "4 dvd n" using d by (simp add: nu)
  have ge: "unat new_size \<le> ?u" "?u \<le> unat new_size + 3" unfolding u by auto
  show n8: "8 \<le> n" "unat new_size \<le> n" "n \<le> max 16 (unat new_size + 3)" using ge by (auto simp: nu)
  obtain k where k: "?u = 4 * k" using d by blast
  then have "4 * k \<le> 2 ^ 31 + 3" using ge(2) assms(1) by linarith
  then show le: "n \<le> 2 ^ 31" using k by (simp add: nu)
  show nw: "mm_new_size new_size = of_nat n" by (simp add: n)
  have un: "unat (of_nat n :: u32) = n" using le by (intro unat_ptr) simp
  have "unat (MM_ALIGN_UP (of_nat n)) = n + 3 - (n + 3) mod 4" using align_up [of "of_nat n"] le unfolding un by simp
  also have "\<dots> = n" using n4 by (auto elim!: dvdE)
  finally have "MM_ALIGN_UP (of_nat n) = of_nat n" by (simp add: word_unat_eq_iff un)
  moreover have "\<not> (of_nat n :: u32) < 8" using n8(1) un by (simp add: word_less_nat_alt)
  ultimately show "mm_req_size (of_nat n) = of_nat n" by (simp add: mm_req_size_def)
qed

lemma word_le_sizes: "n \<le> 2 ^ 31 \<Longrightarrow> s < 2 ^ 31 \<Longrightarrow> (of_nat n :: u32) \<le> of_nat s \<longleftrightarrow> n \<le> s"
  using unat_ptr [of n] unat_ptr [of s] by (simp add: word_le_nat_alt)

lemma k_mm_realloc_ok:
  assumes "mm_inv h B E" and b: "B b = Some (s, False)" and "0 < unat new_size" and "unat new_size \<le> 2 ^ 31" and n: "n = unat (mm_new_size new_size)"
  obtains "k_mm_realloc (Some h) (b + 8) new_size = Some (0, Some h)" and "\<forall>a s. B a = Some (s, True) \<longrightarrow> s < n + n div 32"
  | p h' B' where "k_mm_realloc (Some h) (b + 8) new_size = Some (p, Some h')" and "mm_inv h' B' E" and "moved_ok h B b n h' B' p" and "p \<noteq> 0"
proof -
  let ?y = "b + 8 + s"
  have i: "mm_lay B E" "hdr_ok (mm_words h) B E {}" "coalesced B" using assms(1) by (simp_all add: mm_inv_def)
  note r = mm_new_size_ok [OF assms(4) n]
  have nz: "new_size \<noteq> 0" using assms(3) by auto
  have bd: "b \<in> dom B \<union> E" using b by auto
  have yd: "?y \<in> dom B \<union> E" by (rule layD(5) [OF i(1) b])
  have w: "blk_size h b AND 0xFFFFFFFC = of_nat s" by (rule hdr_free_flag(2) [OF i(1,2) bd b])
  have ss: "s < 2 ^ 19" by (rule lay_size [OF i(1) b])
  have le: "(of_nat n :: u32) \<le> of_nat s \<longleftrightarrow> n \<le> s" using word_le_sizes [OF r(4)] ss by simp
  let ?grow = "blk_size h ?y AND 1 \<noteq> 0 \<and> of_nat n \<le> of_nat s + (blk_size h ?y AND 0xFFFFFFFC)"
  have e: "k_mm_realloc (Some h) (b + 8) new_size =
    (if n \<le> s then Some (b + 8, Some (shrink_block b (of_nat n) h))
     else if ?grow then Some (b + 8, Some (grow_block b (of_nat n) h))
     else case k_mm_alloc (Some h) (of_nat n) of (_, None) \<Rightarrow> None
       | (q, Some h1) \<Rightarrow> if q = 0 then Some (0, Some h1)
           else let old = blk_size h1 b AND 0xFFFFFFFC; cp = (if old > of_nat n then of_nat n else old)
                in Some (q, k_mm_free (Some (mm_copy q (b + 8) (unat cp) h1)) (b + 8)))"
    using nz unfolding k_mm_realloc_def Let_def r(6) le [symmetric]
    by (simp add: w lay_next [OF i(1) b] cong: if_cong)
  consider "n \<le> s" | "\<not> n \<le> s" "?grow" | "\<not> n \<le> s" "\<not> ?grow" by blast
  then show thesis
  proof cases
    case 1
    note sh = shrink_block_ok [OF assms(1) b r(1,2) 1]
    obtain S where S: "merge_next b B b = Some (S, False)" "s \<le> S" by (rule merge_next_size [of B b s False, OF b])
    have "moved_ok h B b n (shrink_block b (of_nat n) h) (cut_to b n (merge_next b B)) (b + 8)"
      by (rule resized_in_place [OF assms(1) b S(1) r(1,2) order_trans [OF 1 S(2)] sh])
    moreover have "k_mm_realloc (Some h) (b + 8) new_size = Some (b + 8, Some (shrink_block b (of_nat n) h))" using e 1 by simp
    ultimately show thesis using that(2) [OF _ conjunct1 [OF sh]] by simp
  next
    case 2
    obtain t where t: "B ?y = Some (t, True)" using hdr_free_flag(1) [OF i(1,2) yd] 2(2) by blast
    have ts: "t < 2 ^ 19" by (rule lay_size [OF i(1) t])
    have "(of_nat n :: u32) \<le> of_nat (s + t)" using 2(2) hdr_free_flag(2) [OF i(1,2) yd t] by simp
    then have nst: "n \<le> s + t" using word_le_sizes [OF r(4), of "s + t"] ss ts by simp
    note gr = grow_block_ok [OF assms(1) b t r(1,2) nst]
    have S: "merge_next b B b = Some (s + 8 + t, False)" using merge_next_simps(1) [of B b s False t, OF b t] by simp
    have "n \<le> s + 8 + t" using nst by simp
    then have "moved_ok h B b n (grow_block b (of_nat n) h) (cut_to b n (merge_next b B)) (b + 8)"
      by (rule resized_in_place [OF assms(1) b S r(1,2) _ gr])
    moreover have "k_mm_realloc (Some h) (b + 8) new_size = Some (b + 8, Some (grow_block b (of_nat n) h))" using e 2 by simp
    ultimately show thesis using that(2) [OF _ conjunct1 [OF gr]] by simp
  next
    case 3
    have un: "unat (of_nat n :: u32) = n" using r(4) by (intro unat_ptr) simp
    have a: "0 < unat (of_nat n :: u32)" "unat (of_nat n :: u32) \<le> 2 ^ 31" "n = unat (mm_req_size (of_nat n))" using r(2,4,7) un by simp_all
    show thesis
    proof (rule k_mm_alloc_ok [OF assms(1) a])
      assume "k_mm_alloc (Some h) (of_nat n) = (0, Some h)" "\<forall>a s. B a = Some (s, True) \<longrightarrow> s < n + n div 32"
      then show thesis using that(1) e 3 by simp
    next
      fix c u h1 assume c: "k_mm_alloc (Some h) (of_nat n) = (c + 8, Some h1)" "B c = Some (u, True)" "n \<le> u" "mm_inv h1 (taken B c n) E"
        "\<forall>a. a \<notin> meta B E \<union> meta (taken B c n) E \<longrightarrow> mm_words h1 a = mm_words h a"
      have sn: "s < n" using 3(1) by simp
      have i1: "mm_lay (taken B c n) E" "hdr_ok (mm_words h1) (taken B c n) E {}" using c(4) by (simp_all add: mm_inv_def)
      have b1: "taken B c n b = Some (s, False)"
        using taken_blocks [OF i(1) c(2) r(1,2) c(3)] b c(2) by (metis option.inject prod.inject)
      have w1: "blk_size h1 b AND 0xFFFFFFFC = of_nat s" by (rule hdr_free_flag(2) [OF i1 _ b1]) (use b1 in auto)
      have us: "unat (of_nat s :: u32) = s" using ss by (intro unat_ptr) simp
      obtain h' B' where m: "k_mm_free (Some (mm_copy (c + 8) (b + 8) s h1)) (b + 8) = Some h'" "mm_inv h' B' E" "moved_ok h B b n h' B' (c + 8)"
        by (rule move_ok [OF assms(1) b c(2) r(1,2) c(3) sn c(4,5)])
      have "\<not> (of_nat s :: u32) > of_nat n" using sn us un by (simp add: word_less_nat_alt)
      then have "k_mm_realloc (Some h) (b + 8) new_size = Some (c + 8, Some h')"
        using e 3 c(1) w1 us m(1) by (simp add: Let_def)
      then show thesis using that(2) m(2,3) by simp
    qed
  qed
qed

end
