(* ===== verification/Mm_Theorems.thy ===== *)
theory Mm_Theorems
  imports Mm_Realloc
begin

text \<open>
  The heap allocator: its initialisation establishes the invariant \<open>mm_inv\<close>, allocation, release and
  reallocation keep it and the data of the blocks, and the requests and pools for which the code does not
  do what it means to.
\<close>

section \<open>Initialisation\<close>

text \<open>The two blocks and the end of a new region at \<open>f\<close>; \<open>s\<close> bytes are free.\<close>

definition region_blocks :: "nat \<Rightarrow> nat \<Rightarrow> mm_blocks" where
  "region_blocks f s = [f \<mapsto> (8, False), f + 16 \<mapsto> (s, True)]"

lemma region_blocks_simps [simp]:
  "region_blocks f s f = Some (8, False)" "region_blocks f s (f + 16) = Some (s, True)" "dom (region_blocks f s) = {f, f + 16}"
  by (auto simp: region_blocks_def)

lemma region_blocks_Some: "region_blocks f s a = Some (t, g) \<longleftrightarrow> (a = f \<and> t = 8 \<and> \<not> g) \<or> (a = f + 16 \<and> t = s \<and> g)"
  by (auto simp: region_blocks_def)

lemma region_lay:
  assumes "0 < f" "4 dvd f" "4 dvd s" "8 \<le> s" "s + 24 \<le> 2 ^ 19" "f + 24 + s + 8 \<le> 2 ^ 32"
  shows "mm_lay (region_blocks f s) {f + 24 + s}"
  unfolding mm_lay_def region_blocks_Some using assms by (auto simp: dvd_add region_blocks_def)

lemma region_pfree: "pfree (region_blocks f s) y \<longleftrightarrow> y = f + 24 + s"
  by (auto simp: pfree_def region_blocks_Some)

lemma empty_lists:
  assumes "sl_bitmap h = (\<lambda>_. 0)" "fl_bitmap h = 0" "mm_tbl h = (\<lambda>_ _. 0)" "\<not> mm_fault h"
  shows "lists_ok h (\<lambda>_. None)"
proof -
  have "lists_are h (\<lambda>_. None) (\<lambda>_ _. [])" using assms by (simp add: lists_are_def)
  then show ?thesis unfolding lists_ok_def free_apart_def by blast
qed

lemma init_mm_region_words:
  assumes "4 dvd l" "40 \<le> l" "f + l \<le> 2 ^ 32" and c: "c = f + 16" and e: "e = f + 24 + (l - 32)"
  shows "init_mm_region f (of_nat l) h = h\<lparr>mm_words := (mm_words h)(f + 4 := 8, c + 4 := of_nat (l - 32), c + 8 := 0, c + 12 := 0,
    e := of_nat c, e + 4 := 2, f + 12 := 0, f + 8 := of_nat e)\<rparr>"
proof -
  have u8: "MM_ALIGN_UP 8 = 8" "(8 :: u32) AND 0xFFFFFFFC = 8" by (simp_all add: MM_ALIGN_UP_def)
  have nc: "NEXT_MM_BLK (f + 8) 8 = c" using next_blk [of "f + 8" 8] assms(2,3) by (simp add: c)
  have d: "4 dvd l - 32" using assms(1) by (intro dvd_diff_nat) simp_all
  have un: "unat (of_nat (l - 32) :: u32) = l - 32" using assms(3) by (intro unat_ptr) simp
  have "unat (MM_ALIGN_DOWN (of_nat (l - 32))) = l - 32" unfolding align_down un using d by simp
  then have al: "MM_ALIGN_DOWN (of_nat l - 32) = of_nat (l - 32)" using assms(2) un by (simp add: word_unat_eq_iff of_nat_diff)
  have m: "(of_nat (l - 32) :: u32) AND 0xFFFFFFFC = of_nat (l - 32)" using hdr_ops(1) [OF d, of False False] mm_hdr_0 [OF d] by simp
  have ne: "NEXT_MM_BLK (c + 8) (of_nat (l - 32)) = e" using next_blk [of "c + 8" "l - 32"] assms(2,3) by (simp add: c e)
  have x: "f + 4 \<noteq> c + 4" "c + 4 \<noteq> c + 8" "c + 4 \<noteq> c + 12" using c by simp_all
  show ?thesis
    unfolding init_mm_region_def Let_def u8 set_blk_size_def blk_size_def
    by (simp add: set_word_def u8 nc al blk_sets x m ne add.commute [of 12 f])
qed

text \<open>The release of the one block of a new region: it has no neighbours to join.\<close>

lemma first_free_ok:
  assumes f: "0 < f" "4 dvd f" "4 dvd l" "40 \<le> l" "l \<le> 2 ^ 19" "f + l \<le> 2 ^ 32" and s: "s = l - 32"
    and "sl_bitmap h = (\<lambda>_. 0)" "fl_bitmap h = 0" "mm_tbl h = (\<lambda>_ _. 0)" "\<not> mm_fault h"
    and w: "mm_words h = mm_words (init_mm_region f (of_nat l) h0)"
  obtains h' where "k_mm_free (Some h) (f + 16 + 8) = Some h'" and "mm_inv h' (region_blocks f s) {f + 24 + s}"
    and "\<forall>a. a < f \<or> f + l \<le> a \<longrightarrow> mm_words h' a = mm_words h0 a"
proof -
  let ?c = "f + 16" and ?B = "region_blocks f s" and ?e = "f + 24 + s"
  have d: "4 dvd s" unfolding s using f(3) by (intro dvd_diff_nat) simp_all
  have s8: "8 \<le> s" using f(4) by (simp add: s)
  have lay: "mm_lay ?B {?e}" by (rule region_lay) (use f d s8 in \<open>simp_all add: s\<close>)
  have ww: "mm_words h = (mm_words h0)(f + 4 := 8, ?c + 4 := of_nat s, ?c + 8 := 0, ?c + 12 := 0,
    ?e := of_nat ?c, ?e + 4 := 2, f + 12 := 0, f + 8 := of_nat ?e)"
    unfolding w init_mm_region_words [OF f(3,4,6) refl refl] s by simp
  define h1 where "h1 = set_blk_size ?c (blk_size h ?c OR 1) h"
  have hs: "mm_hdr s True False = of_nat s OR 1" "mm_hdr 8 False False = 8" "mm_hdr 0 False True = 2"
    using hdr_ops(4) [OF d, of False False] mm_hdr_0 [OF d] by (simp_all add: mm_hdr_def)
  have m1: "mm_words h1 (f + 4) = mm_hdr 8 False False" "mm_words h1 (?c + 4) = mm_hdr s True False" "mm_words h1 (?e + 4) = mm_hdr 0 False True"
    "mm_words h1 ?e = of_nat ?c"
    unfolding hs h1_def set_blk_size_def blk_size_def set_word_def using s8 by (simp_all add: ww)
  have ho: "hdr_ok (mm_words h1) ?B {?e} {}"
    unfolding hdr_ok_def region_blocks_Some using m1 by (auto simp: region_pfree add.commute add.left_commute)
  have li: "lists_ok h1 ((free_of ?B)(?c := None))"
  proof -
    have "lists_ok h1 (\<lambda>_. None)" by (rule empty_lists) (use assms in \<open>simp_all add: h1_def set_blk_size_def\<close>)
    moreover have "(free_of ?B)(?c := None) = (\<lambda>_. None)" by (auto simp: free_of_def region_blocks_def fun_eq_iff)
    ultimately show ?thesis by simp
  qed
  have Bc: "?B ?c = Some (s, True)" by simp
  have op: "mm_open h1 ?B {?e} ?c" unfolding mm_open_def using lay Bc hdr_weaken [OF ho] li by blast
  have nx: "\<nexists>t. ?B (?c + 8 + s) = Some (t, True)" using s8 by (simp add: region_blocks_Some)
  have jn: "join_next ?c h1 = h1" by (rule join_next_ok(2) [OF op Bc refl nx])
  have jp: "join_prev ?c h1 = (?c, h1)" by (rule join_prev_ok(2) [OF op Bc]) (simp add: region_pfree)
  have co: "coalesced ?B" unfolding coalesced_def region_blocks_Some using s8 by auto
  obtain st fl sl where bs: "bitmap_search (blk_size h1 ?c AND 0xFFFFFFFC) ACTION_INSERT = (st, fl, sl)"
    by (cases "bitmap_search (blk_size h1 ?c AND 0xFFFFFFFC) ACTION_INSERT")
  define h3 where "h3 = insert_block ?c fl sl h1"
  define y where "y = NEXT_MM_BLK (?c + 8) (blk_size h3 ?c AND 0xFFFFFFFC)"
  let ?h = "set_blk_prev y ?c (set_blk_size y (blk_size h3 y OR 2) h3)"
  note cl = close_ok [OF op Bc co bs h3_def y_def]
  have p8: "?c + 8 - 8 = ?c" "(?c + 8 = 0) = False" by simp_all
  have "k_mm_free (Some h) (?c + 8) = Some ?h"
    unfolding k_mm_free_def option.case Let_def p8 if_False h1_def [symmetric] jn jp prod.case bs h3_def [symmetric] y_def [symmetric] ..
  moreover have "mm_words ?h a = mm_words h0 a" if "a < f \<or> f + l \<le> a" for a
  proof -
    have "a \<notin> meta ?B {?e}"
      using that f(4) by (auto simp: meta_def hdr_words_of_def link_words_def free_of_def region_blocks_def s split: option.splits if_splits)
    moreover have nq: "a \<noteq> f + 4" "a \<noteq> ?c + 4" "a \<noteq> ?c + 8" "a \<noteq> ?c + 12" "a \<noteq> ?e" "a \<noteq> ?e + 4" "a \<noteq> f + 12" "a \<noteq> f + 8"
      using that f(4) by (auto simp: s)
    have "mm_words h1 a = mm_words h a" using nq(2) unfolding h1_def set_blk_size_def set_word_def by simp
    then have "mm_words h1 a = mm_words h0 a" unfolding ww using nq by simp
    ultimately show ?thesis using cl(2) [of a] by simp
  qed
  ultimately show thesis using that cl(1) by blast
qed

text \<open>The area that is left of \<open>len\<close> bytes at \<open>addr\<close> once both ends are aligned.\<close>

lemma aligned_area:
  assumes "unat addr + unat len \<le> 2 ^ 32" and "4 \<le> unat len" and a: "a = unat (MM_ALIGN_UP addr)" and l: "l = unat (MM_ALIGN_DOWN (len - (MM_ALIGN_UP addr - addr)))"
  shows "4 dvd a" "unat addr \<le> a" "a + l \<le> unat addr + unat len" "4 dvd l" "unat len \<le> l + 6" "l \<le> unat len"
proof -
  have a3: "unat addr + 3 < 2 ^ 32" using assms(1,2) by simp
  have au: "a = unat addr + 3 - (unat addr + 3) mod 4" unfolding a by (rule align_up [OF a3])
  show "4 dvd a" unfolding au by (simp add: dvd_minus_mod)
  show ge: "unat addr \<le> a" unfolding au by simp
  have le: "a \<le> unat addr + 3" unfolding au by simp
  have "unat (MM_ALIGN_UP addr - addr) = a - unat addr"
    using ge unfolding a by (intro unat_sub) (simp add: word_le_nat_alt)
  then have "unat (len - (MM_ALIGN_UP addr - addr)) = unat len - (a - unat addr)"
    using le assms(2) by (subst unat_sub) (simp_all add: word_le_nat_alt)
  then have lu: "l = unat len - (a - unat addr) - (unat len - (a - unat addr)) mod 4" unfolding l align_down by simp
  show "4 dvd l" unfolding lu by (rule dvd_minus_mod)
  show "a + l \<le> unat addr + unat len" using ge le assms(2) unfolding lu by simp
  have "(unat len - (a - unat addr)) mod 4 < 4" by simp
  then show "unat len \<le> l + 6" "l \<le> unat len" using ge le assms(2) unfolding lu by linarith+
qed

lemma krhino_init_mm_head_ok:
  assumes "0 < unat addr" and "unat addr + unat len \<le> 2 ^ 32" and "1774 \<le> unat len" "unat len \<le> 2 ^ 19"
  obtains h f s where "krhino_init_mm_head False addr len mem = (RHINO_SUCCESS, Some h)" and "mm_inv h (region_blocks f s) {f + 24 + s}"
    and "unat addr + 1728 \<le> f" and "f + 24 + s + 8 \<le> unat addr + unat len" and "unat len \<le> s + 1728 + 32 + 6"
    and "\<forall>a. a < f \<or> f + 24 + s + 8 \<le> a \<longrightarrow> mm_words h a = mem a"
proof -
  define a where "a = unat (MM_ALIGN_UP addr)"
  define L where "L = MM_ALIGN_DOWN (len - (MM_ALIGN_UP addr - addr))"
  define l where "l = unat L"
  have len4: "4 \<le> unat len" using assms(3) by simp
  note ar = aligned_area [OF assms(2) len4 a_def l_def [unfolded L_def]]
  let ?f = "a + 1728" and ?s = "l - 1728 - 32"
  have aw: "MM_ALIGN_UP addr = of_nat a" "L = of_nat l" by (simp_all add: a_def l_def)
  have l40: "1768 \<le> l" "l \<le> 2 ^ 19" using ar(5,6) assms(3,4) by simp_all
  have ul: "unat L = l" by (simp add: l_def)
  have un: "unat (of_nat (l - 1728) :: u32) = l - 1728" using l40 by (intro unat_ptr) simp
  have d: "4 dvd l - 1728" using ar(4) by (intro dvd_diff_nat) simp_all
  have "unat (MM_ALIGN_DOWN (of_nat (l - 1728))) = l - 1728" unfolding align_down un using d by simp
  then have al: "MM_ALIGN_DOWN (L - 1728) = of_nat (l - 1728)" using l40 un by (simp add: word_unat_eq_iff of_nat_diff aw(2))
  have "unat (MM_ALIGN_DOWN L) = unat L" unfolding align_down ul using ar(4) by simp
  then have aL: "MM_ALIGN_DOWN L = L" by (simp add: word_unat_eq_iff)
  have a3: "(MM_ALIGN_UP addr AND 3 \<noteq> 0) = False" by (simp add: MM_ALIGN_UP_def and.assoc)
  have fb: "NEXT_MM_BLK a (MM_ALIGN_UP 1728) = ?f"
    using next_blk [of a 1728] ar(3) assms(2) l40 by (simp add: MM_ALIGN_UP_def)
  define h2 where "h2 = (init_mm_region ?f (of_nat (l - 1728)) (mm_head_zero mem))\<lparr>regioninfo := ?f + 8\<rparr>"
  have p: "40 \<le> l - 1728" "?f + (l - 1728) \<le> 2 ^ 32" using l40 ar(3) assms(2) by simp_all
  have iw: "init_mm_region ?f (of_nat (l - 1728)) (mm_head_zero mem) = (mm_head_zero mem)\<lparr>mm_words := mm_words (init_mm_region ?f (of_nat (l - 1728)) (mm_head_zero mem))\<rparr>"
    "mm_words (init_mm_region ?f (of_nat (l - 1728)) (mm_head_zero mem)) (?f + 4) = 8"
    unfolding init_mm_region_words [OF d p refl refl] by simp_all
  have nb: "NEXT_MM_BLK (?f + 8) (blk_size h2 ?f AND 0xFFFFFFFC) = ?f + 16"
  proof -
    have hw: "mm_words h2 = mm_words (init_mm_region ?f (of_nat (l - 1728)) (mm_head_zero mem))" by (simp add: h2_def)
    have "blk_size h2 ?f AND 0xFFFFFFFC = 8" unfolding blk_size_def hw iw(2) by simp
    then show ?thesis using next_blk [of "?f + 8" 8] ar(3) assms(2) l40 by simp
  qed
  have ok: "(L = 0 \<or> L < 1024 \<or> 0x80000 < L) = False" using l40 ul by (auto simp: word_less_nat_alt)
  have e: "krhino_init_mm_head False addr len mem = (RHINO_SUCCESS, k_mm_free (Some h2) (?f + 16 + 8))"
    using assms(1) unfolding krhino_init_mm_head_def Let_def L_def [symmetric] a3 aL ok a_def [symmetric] fb al h2_def [symmetric] nb by auto
  obtain h where h: "k_mm_free (Some h2) (?f + 16 + 8) = Some h" "mm_inv h (region_blocks ?f ?s) {?f + 24 + ?s}"
    "\<forall>x. x < ?f \<or> ?f + (l - 1728) \<le> x \<longrightarrow> mm_words h x = mm_words (mm_head_zero mem) x"
  proof (rule first_free_ok [of ?f "l - 1728" ?s h2 "mm_head_zero mem"])
    show "mm_words h2 = mm_words (init_mm_region ?f (of_nat (l - 1728)) (mm_head_zero mem))" by (simp add: h2_def)
    show "sl_bitmap h2 = (\<lambda>_. 0)" "fl_bitmap h2 = 0" "mm_tbl h2 = (\<lambda>_ _. 0)" "\<not> mm_fault h2" unfolding h2_def by (subst iw(1), simp add: mm_head_zero_def)+
  qed (use ar l40 d assms(1,2) in \<open>simp_all add: dvd_add\<close>)
  have end': "?f + 24 + ?s + 8 = ?f + (l - 1728)" using l40 by simp
  show thesis
  proof (rule that [of h ?f ?s])
    show "krhino_init_mm_head False addr len mem = (RHINO_SUCCESS, Some h)" using e h(1) by simp
    show "\<forall>x. x < ?f \<or> ?f + 24 + ?s + 8 \<le> x \<longrightarrow> mm_words h x = mem x" unfolding end' using h(3) by (simp add: mm_head_zero_def)
    show "?f + 24 + ?s + 8 \<le> unat addr + unat len" using ar(3) l40 by simp
    show "unat len \<le> ?s + 1728 + 32 + 6" using ar(5) l40 by simp
  qed (use h(2) ar(2) in simp_all)
qed

section \<open>The interface\<close>

text \<open>
  What the users of a heap rely on: \<open>data st p\<close> are the addresses that belong to the owner of \<open>p\<close>,
  \<open>word\<close> reads the memory.
\<close>

locale heap =
  fixes inv :: "'h \<Rightarrow> 'b \<Rightarrow> bool" and data :: "'b \<Rightarrow> nat \<Rightarrow> nat set" and word :: "'h \<Rightarrow> nat \<Rightarrow> u32"
    and alloc :: "u32 \<Rightarrow> 'h \<Rightarrow> nat \<times> 'h" and release :: "nat \<Rightarrow> 'h \<Rightarrow> 'h" and limit :: nat
  assumes apart: "inv h st \<Longrightarrow> p \<noteq> q \<Longrightarrow> data st p \<inter> data st q = {}"
    and alloc_law: "inv h st \<Longrightarrow> 0 < unat n \<Longrightarrow> unat n \<le> limit \<Longrightarrow> alloc n h = (p, h') \<Longrightarrow> p \<noteq> 0 \<Longrightarrow>
      \<exists>st'. inv h' st' \<and> {p..<p + unat n} \<subseteq> data st' p \<and> data st p = {} \<and> (\<forall>q. q \<noteq> p \<longrightarrow> data st' q = data st q) \<and>
        (\<forall>q. \<forall>x \<in> data st q. word h' x = word h x)"
    and alloc_null: "inv h st \<Longrightarrow> 0 < unat n \<Longrightarrow> unat n \<le> limit \<Longrightarrow> alloc n h = (0, h') \<Longrightarrow> h' = h"
    and release_law: "inv h st \<Longrightarrow> data st p \<noteq> {} \<Longrightarrow>
      \<exists>st'. inv (release p h) st' \<and> data st' p = {} \<and> (\<forall>q. q \<noteq> p \<longrightarrow> data st' q = data st q) \<and>
        (\<forall>q. q \<noteq> p \<longrightarrow> (\<forall>x \<in> data st q. word (release p h) x = word h x))"
begin

text \<open>Two blocks that are held at the same time have no address in common.\<close>

lemma two_blocks:
  assumes "inv h st" and "0 < unat m" "unat m \<le> limit" "0 < unat n" "unat n \<le> limit"
    and a: "alloc m h = (p, h1)" "p \<noteq> 0" and b: "alloc n h1 = (q, h2)" "q \<noteq> 0"
  shows "{p..<p + unat m} \<inter> {q..<q + unat n} = {}"
proof -
  obtain st1 where s1: "inv h1 st1" "{p..<p + unat m} \<subseteq> data st1 p" using alloc_law [OF assms(1,2,3) a] by blast
  obtain st2 where s2: "inv h2 st2" "{q..<q + unat n} \<subseteq> data st2 q" "data st1 q = {}" "\<forall>r. r \<noteq> q \<longrightarrow> data st2 r = data st1 r"
    using alloc_law [OF s1(1) assms(4,5) b] by blast
  have pq: "p \<noteq> q" using s1(2) s2(3) assms(2) by force
  then have "data st2 p = data st1 p" using s2(4) by blast
  then show ?thesis using apart [OF s2(1) pq] s1(2) s2(2) by blast
qed

text \<open>What was written to a block is there until the block is released, whatever is allocated and released meanwhile.\<close>

lemma data_kept:
  assumes "inv h st" and "x \<in> data st p" and "0 < unat n" "unat n \<le> limit" and b: "alloc n h = (q, h')" "q \<noteq> 0"
  shows "word (release q h') x = word h x"
proof -
  obtain st1 where s: "inv h' st1" "{q..<q + unat n} \<subseteq> data st1 q" "data st q = {}" "\<forall>r. r \<noteq> q \<longrightarrow> data st1 r = data st r"
    "\<forall>r. \<forall>x \<in> data st r. word h' x = word h x"
    using alloc_law [OF assms(1,3,4) b] by blast
  have pq: "p \<noteq> q" using assms(2) s(3) by auto
  have "data st1 q \<noteq> {}" using s(2) assms(3) by force
  then obtain st2 where "\<forall>r. r \<noteq> q \<longrightarrow> (\<forall>x \<in> data st1 r. word (release q h') x = word h' x)"
    using release_law [OF s(1)] by blast
  then show ?thesis using s(4,5) pq assms(2) by auto
qed

end

section \<open>Laws of the allocator\<close>

lemma alloc_facts:
  assumes "mm_inv h B E" and "0 < unat size'" and "unat size' \<le> 2 ^ 31" and "k_mm_alloc (Some h) size' = (p, g)"
  shows "p = 0 \<Longrightarrow> g = Some h \<and> (\<forall>a s. B a = Some (s, True) \<longrightarrow> s < unat (mm_req_size size') + unat (mm_req_size size') div 32)"
    and "p \<noteq> 0 \<Longrightarrow> \<exists>h' B' s t. g = Some h' \<and> 8 \<le> p \<and> B (p - 8) = Some (s, True) \<and> B' = taken B (p - 8) (unat (mm_req_size size')) \<and>
      unat (mm_req_size size') \<le> s \<and> mm_inv h' B' E \<and> B' (p - 8) = Some (t, False) \<and> unat size' \<le> t \<and>
      (\<forall>c u. c \<noteq> p - 8 \<longrightarrow> (B' c = Some (u, False) \<longleftrightarrow> B c = Some (u, False))) \<and> (\<forall>c. \<forall>x \<in> payload B c. mm_words h' x = mm_words h x)"
proof -
  define n where "n = unat (mm_req_size size')"
  note r = mm_req_size_ok [OF assms(3) n_def]
  have l: "mm_lay B E" using assms(1) by (simp add: mm_inv_def)
  consider "p = 0" "g = Some h" "\<forall>a s. B a = Some (s, True) \<longrightarrow> s < n + n div 32"
    | b s h' where "p = b + 8" "g = Some h'" "B b = Some (s, True)" "n \<le> s" "mm_inv h' (taken B b n) E"
      "\<forall>a. a \<notin> meta B E \<union> meta (taken B b n) E \<longrightarrow> mm_words h' a = mm_words h a"
    by (rule k_mm_alloc_ok [OF assms(1-3) n_def]) (use assms(4) in auto)
  then have "(p = 0 \<longrightarrow> g = Some h \<and> (\<forall>a s. B a = Some (s, True) \<longrightarrow> s < n + n div 32)) \<and>
    (p \<noteq> 0 \<longrightarrow> (\<exists>h' B' s t. g = Some h' \<and> 8 \<le> p \<and> B (p - 8) = Some (s, True) \<and> B' = taken B (p - 8) n \<and>
      n \<le> s \<and> mm_inv h' B' E \<and> B' (p - 8) = Some (t, False) \<and> unat size' \<le> t \<and>
      (\<forall>c u. c \<noteq> p - 8 \<longrightarrow> (B' c = Some (u, False) \<longleftrightarrow> B c = Some (u, False))) \<and> (\<forall>c. \<forall>x \<in> payload B c. mm_words h' x = mm_words h x)))"
  proof cases
    case 1
    then show ?thesis by blast
  next
    case (2 b s h')
    obtain t where t: "taken B b n b = Some (t, False)" "n \<le> t" "\<forall>c u. c \<noteq> b \<longrightarrow> (taken B b n c = Some (u, False) \<longleftrightarrow> B c = Some (u, False))"
      by (rule taken_blocks [OF l 2(3) r(1,2) 2(4)])
    have l': "mm_lay (taken B b n) E" using 2(5) by (simp add: mm_inv_def)
    have "mm_words h' x = mm_words h x" if x: "x \<in> payload B c" for c x
    proof -
      obtain u where u: "B c = Some (u, False)" by (rule payloadE [OF x])
      then have "c \<noteq> b" using 2(3) by auto
      then have "x \<in> payload (taken B b n) c" using t(3) u x by simp
      then show ?thesis using payload_not_meta [OF l x] payload_not_meta [OF l'] 2(6) by blast
    qed
    moreover have "p - 8 = b" "8 \<le> p" "p \<noteq> 0" "unat size' \<le> t" using 2(1) t(2) r(3) by simp_all
    ultimately show ?thesis using 2(2-5) t by blast
  qed
  then show "p = 0 \<Longrightarrow> g = Some h \<and> (\<forall>a s. B a = Some (s, True) \<longrightarrow> s < unat (mm_req_size size') + unat (mm_req_size size') div 32)"
    and "p \<noteq> 0 \<Longrightarrow> \<exists>h' B' s t. g = Some h' \<and> 8 \<le> p \<and> B (p - 8) = Some (s, True) \<and> B' = taken B (p - 8) (unat (mm_req_size size')) \<and>
      unat (mm_req_size size') \<le> s \<and> mm_inv h' B' E \<and> B' (p - 8) = Some (t, False) \<and> unat size' \<le> t \<and>
      (\<forall>c u. c \<noteq> p - 8 \<longrightarrow> (B' c = Some (u, False) \<longleftrightarrow> B c = Some (u, False))) \<and> (\<forall>c. \<forall>x \<in> payload B c. mm_words h' x = mm_words h x)"
    unfolding n_def by blast+
qed

lemma free_facts:
  assumes "mm_inv h B E" and "B b = Some (s, False)"
  obtains h' B' where "k_mm_free (Some h) (b + 8) = Some h'" and "mm_inv h' B' E" and "released B b B'"
    and "\<forall>u. B' b \<noteq> Some (u, False)" and "\<forall>c u. c \<noteq> b \<longrightarrow> (B' c = Some (u, False) \<longleftrightarrow> B c = Some (u, False))"
    and "\<forall>c. c \<noteq> b \<longrightarrow> (\<forall>x \<in> payload B c. mm_words h' x = mm_words h x)"
proof -
  have l: "mm_lay B E" using assms(1) by (simp add: mm_inv_def)
  obtain h' B' where f: "k_mm_free (Some h) (b + 8) = Some h'" "mm_inv h' B' E" "released B b B'"
    "\<forall>a. a \<notin> meta B E \<union> link_words {b} \<longrightarrow> mm_words h' a = mm_words h a"
    "\<forall>a t. a \<noteq> b \<longrightarrow> (B' a = Some (t, False) \<longleftrightarrow> B a = Some (t, False))" "\<nexists>t. B' b = Some (t, False)" "dom B' \<subseteq> dom B"
    by (rule k_mm_free_ok [OF assms])
  have "link_words {b} \<subseteq> payload B b" using layD(4) [OF l assms(2)] assms(2) by (auto simp: link_words_def)
  then have "\<forall>c. c \<noteq> b \<longrightarrow> (\<forall>x \<in> payload B c. mm_words h' x = mm_words h x)"
    using f(4) payload_not_meta [OF l] payload_disjoint [OF l] by blast
  then show thesis using that f by blast
qed

section \<open>The allocator is a heap\<close>

definition mm_data :: "mm_blocks \<times> nat set \<Rightarrow> nat \<Rightarrow> nat set" where
  "mm_data st p = (if 8 \<le> p then payload (fst st) (p - 8) else {})"

definition heap_alloc :: "u32 \<Rightarrow> k_mm_head \<Rightarrow> nat \<times> k_mm_head" where
  "heap_alloc n h = (case krhino_mm_alloc n (Some h) of (p, Some h') \<Rightarrow> (p, h') | (p, None) \<Rightarrow> (p, h))"

definition heap_free :: "nat \<Rightarrow> k_mm_head \<Rightarrow> k_mm_head" where
  "heap_free p h = (case krhino_mm_free p (Some h) of Some h' \<Rightarrow> h' | None \<Rightarrow> h)"

lemma payload_eq:
  assumes "\<forall>u. B' c = Some (u, False) \<longleftrightarrow> B c = Some (u, False)"
  shows "payload B' c = payload B c"
proof (cases "\<exists>u. B c = Some (u, False)")
  case True
  then obtain u where "B c = Some (u, False)" by blast
  moreover from this have "B' c = Some (u, False)" using assms by blast
  ultimately show ?thesis by simp
next
  case False
  then have "\<forall>u. B' c \<noteq> Some (u, False)" using assms by blast
  then show ?thesis using False by (auto simp: payload_def split: option.split bool.split)
qed

lemma payload_empty: "\<forall>u. B c \<noteq> Some (u, False) \<Longrightarrow> payload B c = {}"
  by (auto simp: payload_def split: option.split bool.split)

lemma mm_data_eq: "\<forall>c u. c \<noteq> p - 8 \<longrightarrow> (B' c = Some (u, False) \<longleftrightarrow> B c = Some (u, False)) \<Longrightarrow> 8 \<le> p \<Longrightarrow> q \<noteq> p \<Longrightarrow> mm_data (B', E) q = mm_data (B, E) q"
  unfolding mm_data_def by (auto intro!: payload_eq)

lemma heap_alloc_law:
  assumes "mm_inv h (fst st) (snd st)" and "0 < unat n" and "unat n \<le> 2 ^ 31" and "heap_alloc n h = (p, h')" and "p \<noteq> 0"
  shows "\<exists>st'. mm_inv h' (fst st') (snd st') \<and> {p..<p + unat n} \<subseteq> mm_data st' p \<and> mm_data st p = {} \<and> (\<forall>q. q \<noteq> p \<longrightarrow> mm_data st' q = mm_data st q) \<and>
    (\<forall>q. \<forall>x \<in> mm_data st q. mm_words h' x = mm_words h x)"
proof -
  obtain B E where st: "st = (B, E)" by fastforce
  have i: "mm_inv h B E" using assms(1) st by simp
  have nz: "n \<noteq> 0" using assms(2) by auto
  obtain g where g: "k_mm_alloc (Some h) n = (p, g)" using assms(4) nz by (auto simp: heap_alloc_def krhino_mm_alloc_def split: prod.splits option.splits)
  obtain h1 B' s t where f: "g = Some h1" "8 \<le> p" "B (p - 8) = Some (s, True)" "mm_inv h1 B' E" "B' (p - 8) = Some (t, False)" "unat n \<le> t"
    "\<forall>c u. c \<noteq> p - 8 \<longrightarrow> (B' c = Some (u, False) \<longleftrightarrow> B c = Some (u, False))" "\<forall>c. \<forall>x \<in> payload B c. mm_words h1 x = mm_words h x"
    using alloc_facts(2) [OF i assms(2,3) g assms(5)] by blast
  have h': "h' = h1" using assms(4) g f(1) nz by (simp add: heap_alloc_def krhino_mm_alloc_def)
  have "{p..<p + unat n} \<subseteq> mm_data (B', E) p" using f(2,5,6) by (auto simp: mm_data_def)
  moreover have "mm_data st p = {}" unfolding st mm_data_def using f(3) by (simp add: payload_empty)
  moreover have "\<forall>q. q \<noteq> p \<longrightarrow> mm_data (B', E) q = mm_data st q" unfolding st using mm_data_eq [OF f(7,2)] by blast
  moreover have "\<forall>q. \<forall>x \<in> mm_data st q. mm_words h' x = mm_words h x" unfolding st h' mm_data_def using f(8) by auto
  ultimately show ?thesis using f(4) h' by (intro exI [of _ "(B', E)"]) simp
qed

lemma heap_free_law:
  assumes "mm_inv h (fst st) (snd st)" and "mm_data st p \<noteq> {}"
  shows "\<exists>st'. mm_inv (heap_free p h) (fst st') (snd st') \<and> mm_data st' p = {} \<and> (\<forall>q. q \<noteq> p \<longrightarrow> mm_data st' q = mm_data st q) \<and>
    (\<forall>q. q \<noteq> p \<longrightarrow> (\<forall>x \<in> mm_data st q. mm_words (heap_free p h) x = mm_words h x))"
proof -
  obtain B E where st: "st = (B, E)" by fastforce
  have i: "mm_inv h B E" using assms(1) st by simp
  have p8: "8 \<le> p" "payload B (p - 8) \<noteq> {}" using assms(2) by (auto simp: mm_data_def st split: if_splits)
  then obtain x where "x \<in> payload B (p - 8)" by blast
  then obtain s where s: "B (p - 8) = Some (s, False)" by (rule payloadE)
  obtain h' B' where f: "k_mm_free (Some h) (p - 8 + 8) = Some h'" "mm_inv h' B' E" "released B (p - 8) B'"
    "\<forall>u. B' (p - 8) \<noteq> Some (u, False)" "\<forall>c u. c \<noteq> p - 8 \<longrightarrow> (B' c = Some (u, False) \<longleftrightarrow> B c = Some (u, False))"
    "\<forall>c. c \<noteq> p - 8 \<longrightarrow> (\<forall>x \<in> payload B c. mm_words h' x = mm_words h x)"
    by (rule free_facts [OF i s])
  have h': "heap_free p h = h'" using f(1) p8(1) by (simp add: heap_free_def krhino_mm_free_def)
  have "mm_data (B', E) p = {}" using f(4) by (simp add: mm_data_def payload_empty)
  moreover have "\<forall>q. q \<noteq> p \<longrightarrow> mm_data (B', E) q = mm_data st q" unfolding st using mm_data_eq [OF f(5) p8(1)] by blast
  moreover have "\<forall>q. q \<noteq> p \<longrightarrow> (\<forall>x \<in> mm_data st q. mm_words (heap_free p h) x = mm_words h x)"
  proof (intro allI impI)
    fix q assume q: "q \<noteq> p"
    show "\<forall>x \<in> mm_data st q. mm_words (heap_free p h) x = mm_words h x"
    proof (cases "8 \<le> q")
      case True
      then have "q - 8 \<noteq> p - 8" using q p8(1) by linarith
      then show ?thesis using f(6) True unfolding st h' mm_data_def by simp
    qed (simp add: mm_data_def)
  qed
  ultimately show ?thesis using f(2) h' by (intro exI [of _ "(B', E)"]) simp
qed

interpretation kmm: heap "\<lambda>h st. mm_inv h (fst st) (snd st)" mm_data mm_words heap_alloc heap_free "2 ^ 31"
proof (unfold_locales, goal_cases)
  case (1 h st p q)
  then have "mm_lay (fst st) (snd st)" by (simp add: mm_inv_def)
  note d = payload_disjoint [OF this, of "p - 8" "q - 8"]
  show ?case
  proof (cases "8 \<le> p \<and> 8 \<le> q")
    case True
    then have "p - 8 \<noteq> q - 8" using 1(2) by linarith
    then show ?thesis using d True by (simp add: mm_data_def)
  qed (auto simp: mm_data_def)
next
  case (2 h st n p h')
  then show ?case by (rule heap_alloc_law)
next
  case (3 h st n h')
  then have nz: "n \<noteq> 0" by auto
  obtain p g where g: "k_mm_alloc (Some h) n = (p, g)" by fastforce
  then have "p = 0" using 3(4) nz by (auto simp: heap_alloc_def krhino_mm_alloc_def split: option.splits)
  then show ?case using alloc_facts(1) [OF 3(1-3) g] 3(4) nz g by (simp add: heap_alloc_def krhino_mm_alloc_def)
next
  case (4 h st p)
  then show ?case by (rule heap_free_law)
qed

text \<open>Releasing what was taken.\<close>

lemma released_taken:
  assumes "mm_inv h B E" and "B b = Some (s, True)" and n: "4 dvd n" "8 \<le> n" "n \<le> s" and "released (taken B b n) b B'"
  shows "B' = B"
proof -
  have i: "mm_lay B E" "coalesced B" using assms(1) by (simp_all add: mm_inv_def)
  have np: "\<not> pfree B b" using i(2) assms(2) unfolding pfree_def coalesced_def by blast
  have below: "taken B b n a = B a" if "a < b" for a using that assms(2) by (simp add: taken_def)
  have pf: "\<not> pfree (taken B b n) b" using np pfree_below [of b "taken B b n" B, OF below] by simp
  obtain t where t: "taken B b n b = Some (t, False)" "B' = merge_next b ((taken B b n)(b \<mapsto> (t, True)))"
    using assms(6) pf unfolding released_def Let_def by blast
  show ?thesis
  proof (cases "n + 16 \<le> s")
    case True
    let ?z = "b + 8 + n" and ?B1 = "B(b \<mapsto> (n, True), b + 8 + n \<mapsto> (s - n - 8, True))"
    have "?z \<notin> dom B \<union> E" by (rule lay_split(2) [OF i(1) assms(2) n(1,2) True])
    then have z: "B ?z = None" by auto
    have tk: "taken B b n = B(b \<mapsto> (n, False), ?z \<mapsto> (s - n - 8, True))" using assms(2) True by (simp add: taken_def)
    have "t = n" using t(1) unfolding tk by simp
    then have "(taken B b n)(b \<mapsto> (t, True)) = ?B1" unfolding tk by (auto simp: fun_eq_iff)
    then have B': "B' = merge_next b ?B1" using t(2) by simp
    have b1: "?B1 b = Some (n, True)" "?B1 (b + 8 + n) = Some (s - n - 8, True)" by simp_all
    have "merge_next b ?B1 = ?B1(b \<mapsto> (n + 8 + (s - n - 8), True), ?z := None)" by (rule merge_next_simps(1) [of ?B1 b n True "s - n - 8", OF b1])
    also have "\<dots> = B" using True z assms(2) by (auto simp: fun_eq_iff)
    finally show ?thesis using B' by simp
  next
    case False
    then have tk: "taken B b n = B(b \<mapsto> (s, False))" using assms(2) by (simp add: taken_def)
    have "t = s" using t(1) unfolding tk by simp
    then have e: "(taken B b n)(b \<mapsto> (t, True)) = B" unfolding tk using assms(2) by (auto simp: fun_eq_iff)
    have nx: "\<nexists>u. B (b + 8 + s) = Some (u, True)" using i(2) assms(2) by (simp add: coalesced_def)
    show ?thesis unfolding t(2) e by (rule merge_next_id [of B b s True, OF assms(2) nx])
  qed
qed

section \<open>Properties\<close>

text \<open>C31: Initialising the heap on \<open>len\<close> bytes at \<open>addr\<close>, at least 1774 and at most 512 KiB, succeeds and leaves one free block of all but the head, the
  headers of the region and what is lost to alignment; memory outside the given area is not touched, and the head satisfies the invariant of the allocator.\<close>

theorem mm_init_establishes:
  assumes "0 < unat addr" and "unat addr + unat len \<le> 2 ^ 32" and "1774 \<le> unat len" and "unat len \<le> 2 ^ 19"
  shows "\<exists>h f s. krhino_init_mm_head False addr len mem = (RHINO_SUCCESS, Some h) \<and> mm_inv h (region_blocks f s) {f + 24 + s} \<and>
    unat addr + 1728 \<le> f \<and> f + 24 + s + 8 \<le> unat addr + unat len \<and> unat len \<le> s + 1766 \<and>
    (\<forall>a. a < unat addr \<or> unat addr + unat len \<le> a \<longrightarrow> mm_words h a = mem a)"
proof -
  obtain h f s where i: "krhino_init_mm_head False addr len mem = (RHINO_SUCCESS, Some h)" "mm_inv h (region_blocks f s) {f + 24 + s}"
    "unat addr + 1728 \<le> f" "f + 24 + s + 8 \<le> unat addr + unat len" "unat len \<le> s + 1728 + 32 + 6"
    "\<forall>a. a < f \<or> f + 24 + s + 8 \<le> a \<longrightarrow> mm_words h a = mem a"
    by (rule krhino_init_mm_head_ok [OF assms])
  then show ?thesis by (intro exI [of _ h] exI [of _ f] exI [of _ s]) auto
qed

theorem mm_init_establishes_witness:
  "\<exists>h f s. krhino_init_mm_head False 0x20000000 8192 (\<lambda>_. 0) = (RHINO_SUCCESS, Some h) \<and> mm_inv h (region_blocks f s) {f + 24 + s} \<and> 6000 \<le> s"
  using mm_init_establishes [of "0x20000000" "8192" "\<lambda>_. 0"] by fastforce

text \<open>Heaps to apply the properties to: one just initialised, and one with a block of at least 100 bytes taken.\<close>

lemma sample_heap: "\<exists>h f s. mm_inv h (region_blocks f s) {f + 24 + s} \<and> 6000 \<le> s"
proof -
  have p: "0 < unat (0x20000000 :: u32)" "unat (0x20000000 :: u32) + unat (8192 :: u32) \<le> 2 ^ 32" "1774 \<le> unat (8192 :: u32)" "unat (8192 :: u32) \<le> 2 ^ 19"
    by simp_all
  show ?thesis by (rule krhino_init_mm_head_ok [OF p, of "\<lambda>_. 0"]) force
qed

lemma req_100: "unat (mm_req_size 100) = 100" "unat (mm_req_size 200) = 200"
  by (simp_all add: mm_req_size_def MM_ALIGN_UP_def)

lemma alloc_succeeds:
  assumes "mm_inv h B E" and "B a = Some (s, True)" and n: "0 < unat n" "unat n \<le> 2 ^ 31" "unat (mm_req_size n) + unat (mm_req_size n) div 32 \<le> s"
  obtains p h' B' t where "krhino_mm_alloc n (Some h) = (p, Some h')" and "p \<noteq> 0" and "mm_inv h' B' E" and "B' (p - 8) = Some (t, False)" and "unat n \<le> t"
    and "B (p - 8) \<noteq> None" and "B' = taken B (p - 8) (unat (mm_req_size n))"
proof -
  obtain p g where e: "k_mm_alloc (Some h) n = (p, g)" by fastforce
  have nz: "n \<noteq> 0" using n(1) by auto
  have p: "p \<noteq> 0"
  proof
    assume "p = 0"
    then have "s < unat (mm_req_size n) + unat (mm_req_size n) div 32" using conjunct2 [OF alloc_facts(1) [OF assms(1) n(1,2) e]] assms(2) by blast
    then show False using n(3) by simp
  qed
  obtain h' B' s' t where "g = Some h'" "B (p - 8) = Some (s', True)" "B' = taken B (p - 8) (unat (mm_req_size n))" "mm_inv h' B' E" "B' (p - 8) = Some (t, False)" "unat n \<le> t"
    using alloc_facts(2) [OF assms(1) n(1,2) e p] by blast
  moreover from this have "krhino_mm_alloc n (Some h) = (p, Some h')" using e nz by (simp add: krhino_mm_alloc_def)
  ultimately show thesis using that p by blast
qed

lemma sample_alloc:
  assumes "mm_inv h (region_blocks f s) E" and "6000 \<le> s"
  obtains p h' B' t where "krhino_mm_alloc 100 (Some h) = (p, Some h')" and "p \<noteq> 0" and "mm_inv h' B' E" and "B' (p - 8) = Some (t, False)" and "100 \<le> t"
    and "B' (f + 16 + 108) = Some (s - 108, True)"
proof (rule alloc_succeeds [OF assms(1), of "f + 16" s 100])
  show "region_blocks f s (f + 16) = Some (s, True)" by simp
  fix p h' B' t assume a: "krhino_mm_alloc 100 (Some h) = (p, Some h')" "p \<noteq> 0" "mm_inv h' B' E" "B' (p - 8) = Some (t, False)" "unat (100 :: u32) \<le> t"
    "region_blocks f s (p - 8) \<noteq> None" "B' = taken (region_blocks f s) (p - 8) (unat (mm_req_size 100))"
  have "p - 8 \<in> {f, f + 16}" using a(6) by (metis region_blocks_simps(3) domIff)
  moreover have "p - 8 \<noteq> f"
  proof
    assume e: "p - 8 = f"
    have "B' (p - 8) = Some (8, False)" unfolding a(7) e by (simp add: taken_def)
    then show False using a(4,5) by simp
  qed
  ultimately have "p - 8 = f + 16" by blast
  then have "B' (f + 16 + 8 + 100) = Some (s - 100 - 8, True)" using a(7) assms(2) by (simp add: taken_def req_100)
  then show thesis using that a(1-5) by simp
qed (use assms(2) in \<open>simp_all add: req_100\<close>)

lemma sample_block: "\<exists>h B E b s. mm_inv h B E \<and> B b = Some (s, False) \<and> 100 \<le> s"
proof -
  obtain h f s where h: "mm_inv h (region_blocks f s) {f + 24 + s}" "6000 \<le> s" using sample_heap by blast
  show ?thesis by (rule sample_alloc [OF h]) blast
qed

text \<open>C21: Allocation of up to 2 GiB.  It returns no memory only if every free block is smaller than the rounded request and a thirty-second of it, and then changes
  nothing.  Otherwise the result is a block of at least the requested size that was part of a free one and shares no address with another allocated block; the
  other allocated blocks and all their data are as before, and the invariant holds again.\<close>

theorem mm_alloc_sound:
  assumes "mm_inv h B E" and "0 < unat size'" and "unat size' \<le> 2 ^ 31" and "n = unat (mm_req_size size')"
  shows "\<exists>p h'. krhino_mm_alloc size' (Some h) = (p, Some h') \<and>
    (p = 0 \<longrightarrow> h' = h \<and> (\<forall>a s. B a = Some (s, True) \<longrightarrow> s < n + n div 32)) \<and>
    (p \<noteq> 0 \<longrightarrow> (\<exists>B' s t. mm_inv h' B' E \<and> 8 \<le> p \<and> B (p - 8) = Some (s, True) \<and> B' (p - 8) = Some (t, False) \<and> unat size' \<le> t \<and>
      (\<forall>c u. c \<noteq> p - 8 \<longrightarrow> (B' c = Some (u, False) \<longleftrightarrow> B c = Some (u, False))) \<and>
      (\<forall>c. c \<noteq> p - 8 \<longrightarrow> payload B' c \<inter> payload B' (p - 8) = {}) \<and>
      (\<forall>c. \<forall>x \<in> payload B c. mm_words h' x = mm_words h x)))"
proof -
  obtain p g where a: "k_mm_alloc (Some h) size' = (p, g)" by fastforce
  have e: "krhino_mm_alloc size' (Some h) = (p, g)" using a assms(2) by (auto simp: krhino_mm_alloc_def)
  show ?thesis
  proof (cases "p = 0")
    case True
    then show ?thesis using alloc_facts(1) [OF assms(1-3) a] e assms(4) by auto
  next
    case False
    obtain h' B' s t where f: "g = Some h'" "8 \<le> p" "B (p - 8) = Some (s, True)" "mm_inv h' B' E" "B' (p - 8) = Some (t, False)" "unat size' \<le> t"
      "\<forall>c u. c \<noteq> p - 8 \<longrightarrow> (B' c = Some (u, False) \<longleftrightarrow> B c = Some (u, False))" "\<forall>c. \<forall>x \<in> payload B c. mm_words h' x = mm_words h x"
      using alloc_facts(2) [OF assms(1-3) a False] by blast
    have "mm_lay B' E" using f(4) by (simp add: mm_inv_def)
    then have "\<forall>c. c \<noteq> p - 8 \<longrightarrow> payload B' c \<inter> payload B' (p - 8) = {}" using payload_disjoint by blast
    then show ?thesis using e f False by blast
  qed
qed

theorem mm_alloc_sound_witness:
  "\<exists>h B E p h' B' t. mm_inv h B E \<and> krhino_mm_alloc 100 (Some h) = (p, Some h') \<and> p \<noteq> 0 \<and> mm_inv h' B' E \<and> B' (p - 8) = Some (t, False) \<and> 100 \<le> t"
proof -
  obtain h f s where h: "mm_inv h (region_blocks f s) {f + 24 + s}" "6000 \<le> s" using sample_heap by blast
  have p: "0 < unat (100 :: u32)" "unat (100 :: u32) \<le> 2 ^ 31" "unat (100 :: u32) = 100" by simp_all
  obtain p h' where a: "krhino_mm_alloc 100 (Some h) = (p, Some h')" "p \<noteq> 0" by (rule sample_alloc [OF h])
  then obtain B' t where "mm_inv h' B' {f + 24 + s}" "B' (p - 8) = Some (t, False)" "100 \<le> t"
    using mm_alloc_sound [OF h(1) p(1,2) refl, unfolded p(3)] by auto
  then show ?thesis using h(1) a by blast
qed

text \<open>C22: Releasing an allocated block: it is joined with the free blocks before and behind it, the invariant holds again (so no two free blocks are neighbours),
  and the other allocated blocks and their data are as before.\<close>

theorem mm_free_sound:
  assumes "mm_inv h B E" and "B b = Some (s, False)"
  shows "\<exists>h' B'. krhino_mm_free (b + 8) (Some h) = Some h' \<and> mm_inv h' B' E \<and> released B b B' \<and> (\<forall>u. B' b \<noteq> Some (u, False)) \<and>
    (\<forall>c u. c \<noteq> b \<longrightarrow> (B' c = Some (u, False) \<longleftrightarrow> B c = Some (u, False))) \<and>
    (\<forall>c. c \<noteq> b \<longrightarrow> (\<forall>x \<in> payload B c. mm_words h' x = mm_words h x))"
  unfolding krhino_mm_free_def by (rule free_facts [OF assms]) blast

theorem mm_free_sound_witness:
  "\<exists>h B E b s h' B'. mm_inv h B E \<and> B b = Some (s, False) \<and> krhino_mm_free (b + 8) (Some h) = Some h' \<and> mm_inv h' B' E \<and> (\<forall>u. B' b \<noteq> Some (u, False))"
proof -
  obtain h B E b s where "mm_inv h B E" "B b = Some (s, False)" using sample_block by blast
  then show ?thesis using mm_free_sound [of h B E b s] by blast
qed

text \<open>C23: Reallocation of up to 2 GiB: either there is no memory and nothing changes, or the result is a block of at least the new size that begins with the data of the
  old one, as far as both reach; the other allocated blocks and their data are as before, and unless the block stayed where it was the old one is no longer allocated.\<close>

theorem mm_realloc_sound:
  assumes "mm_inv h B E" and "B b = Some (s, False)" and "0 < unat new_size" and "unat new_size \<le> 2 ^ 31" and "n = unat (mm_new_size new_size)"
  shows "\<exists>p h'. krhino_mm_realloc (b + 8) new_size (Some h) = Some (p, Some h') \<and>
    (p = 0 \<longrightarrow> h' = h \<and> (\<forall>a s. B a = Some (s, True) \<longrightarrow> s < n + n div 32)) \<and>
    (p \<noteq> 0 \<longrightarrow> (\<exists>B'. mm_inv h' B' E \<and> moved_ok h B b (unat new_size) h' B' p))"
proof (rule k_mm_realloc_ok [OF assms])
  assume "k_mm_realloc (Some h) (b + 8) new_size = Some (0, Some h)" "\<forall>a s. B a = Some (s, True) \<longrightarrow> s < n + n div 32"
  then show ?thesis by (simp add: krhino_mm_realloc_def)
next
  fix p h' B' assume a: "k_mm_realloc (Some h) (b + 8) new_size = Some (p, Some h')" "mm_inv h' B' E" "moved_ok h B b n h' B' p" "p \<noteq> 0"
  have "moved_ok h B b (unat new_size) h' B' p" by (rule moved_ok_mono [OF a(3) mm_new_size_ok(3) [OF assms(4,5)]])
  then show ?thesis using a unfolding krhino_mm_realloc_def by blast
qed

theorem mm_realloc_sound_witness:
  "\<exists>h B E b s p h'. mm_inv h B E \<and> B b = Some (s, False) \<and> krhino_mm_realloc (b + 8) 60 (Some h) = Some (p, Some h') \<and>
    (p \<noteq> 0 \<longrightarrow> (\<exists>B'. mm_inv h' B' E \<and> moved_ok h B b 60 h' B' p))"
proof -
  obtain h B E b s where h: "mm_inv h B E" "B b = Some (s, False)" using sample_block by blast
  have p: "0 < unat (60 :: u32)" "unat (60 :: u32) \<le> 2 ^ 31" "unat (60 :: u32) = 60" by simp_all
  show ?thesis using mm_realloc_sound [OF h p(1,2) refl, unfolded p(3)] h by blast
qed

text \<open>C32: Releasing what was just allocated restores the heap: the same blocks are allocated and free as before, with the same sizes.\<close>

theorem mm_alloc_free_roundtrip:
  assumes "mm_inv h B E" and "0 < unat size'" and "unat size' \<le> 2 ^ 31" and "krhino_mm_alloc size' (Some h) = (p, Some h1)" and "p \<noteq> 0"
  shows "\<exists>h2. krhino_mm_free p (Some h1) = Some h2 \<and> mm_inv h2 B E"
proof -
  have e: "k_mm_alloc (Some h) size' = (p, Some h1)" using assms(2,4) by (auto simp: krhino_mm_alloc_def split: if_splits)
  define n where "n = unat (mm_req_size size')"
  obtain B' s t where f: "8 \<le> p" "B (p - 8) = Some (s, True)" "B' = taken B (p - 8) n" "n \<le> s" "mm_inv h1 B' E" "B' (p - 8) = Some (t, False)"
    using alloc_facts(2) [OF assms(1-3) e assms(5)] unfolding n_def by blast
  obtain h2 B2 where g: "k_mm_free (Some h1) (p - 8 + 8) = Some h2" "mm_inv h2 B2 E" "released B' (p - 8) B2" by (rule free_facts [OF f(5,6)])
  have "B2 = B" by (rule released_taken [OF assms(1) f(2) mm_req_size_ok(1,2) [OF assms(3) n_def] f(4) g(3) [unfolded f(3)]])
  then show ?thesis using g(1,2) f(1) by (auto simp: krhino_mm_free_def)
qed

theorem mm_alloc_free_roundtrip_witness:
  "\<exists>h B E p h1 h2. mm_inv h B E \<and> krhino_mm_alloc 100 (Some h) = (p, Some h1) \<and> p \<noteq> 0 \<and> krhino_mm_free p (Some h1) = Some h2 \<and> mm_inv h2 B E"
proof -
  obtain h f s where h: "mm_inv h (region_blocks f s) {f + 24 + s}" "6000 \<le> s" using sample_heap by blast
  have p: "0 < unat (100 :: u32)" "unat (100 :: u32) \<le> 2 ^ 31" by simp_all
  obtain p h1 where k: "krhino_mm_alloc 100 (Some h) = (p, Some h1)" "p \<noteq> 0" by (rule sample_alloc [OF h])
  show ?thesis using mm_alloc_free_roundtrip [OF h(1) p k] k h(1) by blast
qed

text \<open>C33: Two users of the heap do not disturb each other: blocks held at the same time share no address, and what one user has stored stays while the other allocates and
  releases a block.\<close>

theorem mm_users_apart:
  assumes "mm_inv h B E" and "0 < unat m" "unat m \<le> 2 ^ 31" and "0 < unat n" "unat n \<le> 2 ^ 31"
    and "krhino_mm_alloc m (Some h) = (p, Some h1)" "p \<noteq> 0" and "krhino_mm_alloc n (Some h1) = (q, Some h2)" "q \<noteq> 0"
  shows "{p..<p + unat m} \<inter> {q..<q + unat n} = {} \<and>
    (\<exists>h3. krhino_mm_free q (Some h2) = Some h3 \<and> (\<forall>x \<in> {p..<p + unat m}. mm_words h3 x = mm_words h1 x))"
proof -
  have a: "heap_alloc m h = (p, h1)" "heap_alloc n h1 = (q, h2)" using assms(6,8) by (simp_all add: heap_alloc_def)
  have i: "mm_inv h (fst (B, E)) (snd (B, E))" using assms(1) by simp
  obtain st where st: "mm_inv h1 (fst st) (snd st)" "{p..<p + unat m} \<subseteq> mm_data st p" using heap_alloc_law [OF i assms(2,3) a(1) assms(7)] by blast
  have "mm_words (heap_free q h2) x = mm_words h1 x" if "x \<in> {p..<p + unat m}" for x
    by (rule kmm.data_kept [OF st(1) _ assms(4,5) a(2) assms(9)]) (use st(2) that in blast)
  moreover have "\<exists>h3. krhino_mm_free q (Some h2) = Some h3" unfolding krhino_mm_free_def k_mm_free_def by (auto simp: Let_def split: prod.split)
  ultimately show ?thesis using kmm.two_blocks [OF i assms(2-5) a(1) assms(7) a(2) assms(9)] by (auto simp: heap_free_def)
qed

theorem mm_users_apart_witness:
  "\<exists>h B E p q h1 h2 h3. mm_inv h B E \<and> krhino_mm_alloc 100 (Some h) = (p, Some h1) \<and> krhino_mm_alloc 200 (Some h1) = (q, Some h2) \<and>
    {p..<p + 100} \<inter> {q..<q + 200} = {} \<and> krhino_mm_free q (Some h2) = Some h3 \<and> (\<forall>x \<in> {p..<p + 100}. mm_words h3 x = mm_words h1 x)"
proof -
  obtain h f s where h: "mm_inv h (region_blocks f s) {f + 24 + s}" "6000 \<le> s" using sample_heap by blast
  have u: "0 < unat (100 :: u32)" "unat (100 :: u32) \<le> 2 ^ 31" "0 < unat (200 :: u32)" "unat (200 :: u32) \<le> 2 ^ 31"
    "unat (100 :: u32) = 100" "unat (200 :: u32) = 200" by simp_all
  obtain p h1 B' t where a: "krhino_mm_alloc 100 (Some h) = (p, Some h1)" "p \<noteq> 0" "mm_inv h1 B' {f + 24 + s}" "B' (p - 8) = Some (t, False)" "100 \<le> t"
    "B' (f + 16 + 108) = Some (s - 108, True)" by (rule sample_alloc [OF h])
  have r: "unat (mm_req_size 200) + unat (mm_req_size 200) div 32 \<le> s - 108" using h(2) by (simp add: req_100)
  obtain q h2 where b: "krhino_mm_alloc 200 (Some h1) = (q, Some h2)" "q \<noteq> 0" by (rule alloc_succeeds [OF a(3,6) u(3,4) r])
  show ?thesis using mm_users_apart [OF h(1) u(1-4) a(1,2) b, unfolded u(5,6)] h(1) a(1) b(1) by blast
qed

text \<open>C34: The search stays within the tables: the class of every block size below 512 KiB has indices below 13 and 32 and holds the size, and the class found for a request
  begins at or above the request and less than a thirty-second of it further.\<close>

theorem mm_search_bounds:
  assumes "s < 2 ^ 19" and "4 dvd n" and "n \<le> 2 ^ 31"
  shows "(\<exists>fl sl. bitmap_search (of_nat s) ACTION_INSERT = (RHINO_SUCCESS, fl, sl) \<and> fl < 13 \<and> sl < 32 \<and>
      class_lb fl sl \<le> s \<and> s < class_lb fl sl + 2 ^ (if fl = 0 then 2 else fl + 1)) \<and>
    (\<forall>fl sl. bitmap_search (of_nat n) ACTION_GET = (RHINO_SUCCESS, fl, sl) \<longrightarrow> fl < 13 \<and> sl < 32 \<and> n \<le> class_lb fl sl \<and> class_lb fl sl \<le> n + n div 32)"
proof (intro conjI)
  obtain fl sl where "bitmap_search (of_nat s) ACTION_INSERT = (RHINO_SUCCESS, fl, sl)" "is_class s fl sl" "fl < 13" "sl < 32"
    by (rule bitmap_search_insert [OF assms(1)])
  then show "\<exists>fl sl. bitmap_search (of_nat s) ACTION_INSERT = (RHINO_SUCCESS, fl, sl) \<and> fl < 13 \<and> sl < 32 \<and>
      class_lb fl sl \<le> s \<and> s < class_lb fl sl + 2 ^ (if fl = 0 then 2 else fl + 1)" using class_bounds [of s fl sl] by blast
  show "\<forall>fl sl. bitmap_search (of_nat n) ACTION_GET = (RHINO_SUCCESS, fl, sl) \<longrightarrow> fl < 13 \<and> sl < 32 \<and> n \<le> class_lb fl sl \<and> class_lb fl sl \<le> n + n div 32"
    using bitmap_search_get(1) [OF assms(2,3)] by blast
qed

theorem mm_search_bounds_witness:
  "\<exists>fl sl. bitmap_search (of_nat 1000) ACTION_INSERT = (RHINO_SUCCESS, fl, sl) \<and> fl < 13 \<and> sl < 32 \<and> class_lb fl sl \<le> 1000"
  using mm_search_bounds [of 1000 1000] by auto


lemma search_wrapped: "bitmap_search 0xFFFFFD20 ACTION_INSERT = (RHINO_MM_FREE_ADDR_ERR, 25, 31)"
  by code_simp


end
