(* ===== verification/Dyn_Mem.thy ===== *)
theory Dyn_Mem
  imports Workqueue Mm_Theorems
begin

text \<open>
  Tasks whose memory comes from the heap: \<open>krhino_task_dyn_create\<close> (\<^verbatim>\<open>k_task.c\<close>) allocates a stack and a control block,
  \<open>krhino_task_dyn_del\<close> puts a record that names them into \<open>g_res_list\<close>, and the task of \<^verbatim>\<open>k_dyn_mem_proc.c\<close> gives them
  back to the heap.  The kernel of \<open>Workqueue\<close> and the heap of \<open>Mm\<close> become one state.  The theorem: the memory of
  every task that was created this way is two allocated blocks of its own until it is given back, once,
  after the task has been deleted.
\<close>

section \<open>State\<close>

text \<open>
  \<open>task_stack_base\<close> is the member of that name of the control blocks in the heap; it is \<open>None\<close> where there is no such
  control block.
\<close>

record syskernel = wkernel +
  g_kmm_head :: "k_mm_head option"
  task_stack_base :: "tid \<Rightarrow> nat option"

section \<open>Operations\<close>

text \<open>The calls of \<open>krhino_mm_free\<close> that were recorded after the first \<open>n\<close>.\<close>

definition mm_settle :: "nat \<Rightarrow> 'a syskernel_scheme \<Rightarrow> 'a syskernel_scheme" where
  "mm_settle n k = k\<lparr>g_kmm_head := fold krhino_mm_free (drop n (mm_freed k)) (g_kmm_head k)\<rparr>"

definition ptr_of :: "nat \<Rightarrow> nat option" where
  "ptr_of p = (if p = 0 then None else Some p)"

text \<open>\<open>task_size\<close> is \<open>sizeof(ktask_t)\<close>.\<close>

definition krhino_task_dyn_create :: "(u32 list \<Rightarrow> u32 list) \<Rightarrow> u32 \<Rightarrow> bool \<Rightarrow> string option \<Rightarrow> nat \<Rightarrow> nat \<Rightarrow> bool \<Rightarrow> u8 \<Rightarrow>
    'a syskernel_scheme \<Rightarrow> kstat \<times> tid option \<times> 'a syskernel_scheme" where
  "krhino_task_dyn_create cpu_task_stack_init task_size task_is_null name pri stack entry_is_null autorun k =
     (let (task_stack, g1) = (if task_is_null \<or> stack = 0 then (0, g_kmm_head k) else krhino_mm_alloc (of_nat stack * 4) (g_kmm_head k));
          (task_obj, g2) = (if task_stack = 0 then (0, g1) else krhino_mm_alloc task_size g1);
          (ret, task, k1) = task_dyn_create cpu_task_stack_init task_is_null name pri stack entry_is_null autorun
            (ptr_of task_stack) (ptr_of task_obj) (k\<lparr>g_kmm_head := g2\<rparr>);
          k2 = mm_settle (length (mm_freed k)) k1
      in (ret, task, case task of None \<Rightarrow> k2 | Some t \<Rightarrow> k2\<lparr>task_stack_base := (task_stack_base k2)(t \<mapsto> task_stack)\<rparr>))"

text \<open>
  One round of the inner loop of \<open>dyn_mem_proc_task\<close>; \<open>None\<close> when the list is empty.  The record of a task that was not
  created in the heap would name arbitrary addresses.
\<close>

definition dyn_mem_round :: "'a syskernel_scheme \<Rightarrow> 'a syskernel_scheme option" where
  "dyn_mem_round k =
     (case g_res_list k of
        [] \<Rightarrow> None
      | t # ts \<Rightarrow>
          Some (case task_stack_base k t of
             None \<Rightarrow> k_crash (k\<lparr>g_res_list := ts\<rparr>)
           | Some base \<Rightarrow> k\<lparr>g_res_list := ts, g_kmm_head := fold krhino_mm_free [base, t] (g_kmm_head k),
               task_stack_base := (task_stack_base k)(t := None)\<rparr>))"

function dyn_mem_inner :: "'a syskernel_scheme \<Rightarrow> 'a syskernel_scheme" where
  "dyn_mem_inner k = (case dyn_mem_round k of None \<Rightarrow> k | Some k' \<Rightarrow> dyn_mem_inner k')"
  by pat_completeness auto

termination
  by (relation "measure (\<lambda>k. length (g_res_list k))") (auto simp: dyn_mem_round_def split: list.splits option.splits)

declare dyn_mem_inner.simps [simp del]

text \<open>\<open>dyn_mem_proc_task\<close> after \<open>krhino_sem_take\<close> returned \<open>ret\<close>, up to the next call of it.\<close>

definition dyn_mem_proc :: "kstat \<Rightarrow> 'a syskernel_scheme \<Rightarrow> 'a syskernel_scheme" where
  "dyn_mem_proc ret k = dyn_mem_inner (if ret \<noteq> RHINO_SUCCESS then k_err_proc RHINO_DYN_MEM_PROC_ERR k else k)"

definition dyn_mem_proc_task_start :: "(u32 list \<Rightarrow> u32 list) \<Rightarrow> u32 \<Rightarrow> 'a syskernel_scheme \<Rightarrow> 'a syskernel_scheme" where
  "dyn_mem_proc_task_start cpu_task_stack_init task_size k =
     snd (snd (krhino_task_dyn_create cpu_task_stack_init task_size False (Some ''dyn_mem_proc_task'') 6 256 False 1 k))"

section \<open>Pointers into the heap\<close>

text \<open>The pointers to allocated blocks, and the addresses that the blocks of the heap cover.\<close>

definition used_ptr :: "mm_blocks \<Rightarrow> nat \<Rightarrow> bool" where
  "used_ptr B p \<longleftrightarrow> 8 \<le> p \<and> (\<exists>s. B (p - 8) = Some (s, False))"

definition heap_area :: "mm_blocks \<Rightarrow> nat set" where
  "heap_area B = {x. \<exists>a s f. B a = Some (s, f) \<and> a \<le> x \<and> x < a + 8 + s}"

lemma heap_area_taken: "heap_area (taken B b n) \<subseteq> heap_area B"
proof (cases "\<exists>s. B b = Some (s, True)")
  case True
  then obtain s where s: "B b = Some (s, True)" by blast
  have "x \<in> heap_area B" if "taken B b n a = Some (u, f)" "a \<le> x" "x < a + 8 + u" for x a u f
  proof (cases "a = b \<or> n + 16 \<le> s \<and> a = b + 8 + n")
    case True
    then have "b \<le> x \<and> x < b + 8 + s" using that s by (auto simp: taken_def split: if_splits)
    then show ?thesis using s unfolding heap_area_def by blast
  next
    case False
    then have "B a = Some (u, f)" using that(1) s by (auto simp: taken_def split: if_splits)
    then show ?thesis using that unfolding heap_area_def by blast
  qed
  then show ?thesis unfolding heap_area_def [of "taken B b n"] by blast
qed (auto simp: taken_def split: option.splits bool.splits)

lemma heap_area_merge: "heap_area (merge_next b B) \<subseteq> heap_area B"
proof (cases "\<exists>s f t. B b = Some (s, f) \<and> B (b + 8 + s) = Some (t, True)")
  case True
  then obtain s f t where s: "B b = Some (s, f)" "B (b + 8 + s) = Some (t, True)" by blast
  have "x \<in> heap_area B" if "merge_next b B a = Some (u, g)" "a \<le> x" "x < a + 8 + u" for x a u g
  proof (cases "a = b")
    case True
    then have "u = s + 8 + t" using that(1) by (auto simp: merge_next_simps(1) [of B b, OF s])
    then have "b \<le> x \<and> x < b + 8 + s \<or> b + 8 + s \<le> x \<and> x < b + 8 + s + 8 + t" using that True by auto
    then show ?thesis using s unfolding heap_area_def by blast
  next
    case False
    then have "B a = Some (u, g)" using that(1) by (auto simp: merge_next_simps(1) [of B b, OF s] split: if_splits)
    then show ?thesis using that unfolding heap_area_def by blast
  qed
  then show ?thesis unfolding heap_area_def [of "merge_next b B"] by blast
next
  case False
  then have "merge_next b B = B" by (auto simp: merge_next_def split: option.split bool.split)
  then show ?thesis by simp
qed

lemma heap_area_released:
  assumes "released B b B'"
  shows "heap_area B' \<subseteq> heap_area B"
proof -
  obtain s where s: "B b = Some (s, False)" and r: "\<not> pfree B b \<longrightarrow> B' = merge_next b (B(b \<mapsto> (s, True)))"
    "\<forall>c r. B c = Some (r, True) \<and> b = c + 8 + r \<longrightarrow> B' = merge_next c (merge_next b (B(b \<mapsto> (s, True))))"
    using assms unfolding released_def Let_def by blast
  have "heap_area (B(b \<mapsto> (s, True))) \<subseteq> heap_area B" unfolding heap_area_def using s by (auto split: if_splits)
  then have "heap_area (merge_next c (merge_next b (B(b \<mapsto> (s, True))))) \<subseteq> heap_area B" "heap_area (merge_next b (B(b \<mapsto> (s, True)))) \<subseteq> heap_area B" for c
    using heap_area_merge by blast+
  then show ?thesis using r unfolding pfree_def by (metis)
qed

lemma free_used:
  assumes "mm_inv h B E" and "used_ptr B p"
  obtains h' B' where "krhino_mm_free p (Some h) = Some h'" and "mm_inv h' B' E" and "\<forall>q. used_ptr B' q \<longleftrightarrow> used_ptr B q \<and> q \<noteq> p"
    and "heap_area B' \<subseteq> heap_area B"
proof -
  obtain s where p: "8 \<le> p" "B (p - 8) = Some (s, False)" using assms(2) by (auto simp: used_ptr_def)
  obtain h' B' where f: "k_mm_free (Some h) (p - 8 + 8) = Some h'" "mm_inv h' B' E" "\<forall>u. B' (p - 8) \<noteq> Some (u, False)" "released B (p - 8) B'"
    "\<forall>c u. c \<noteq> p - 8 \<longrightarrow> (B' c = Some (u, False) \<longleftrightarrow> B c = Some (u, False))"
    by (rule free_facts [OF assms(1) p(2)])
  have "used_ptr B' q \<longleftrightarrow> used_ptr B q \<and> q \<noteq> p" for q
  proof (cases "q - 8 = p - 8 \<and> 8 \<le> q")
    case True
    then show ?thesis using f(3) p(1) by (auto simp: used_ptr_def)
  next
    case False
    then show ?thesis using f(5) p(1) by (auto simp: used_ptr_def)
  qed
  then show ?thesis using that [of h' B'] f(1,2) p(1) heap_area_released [OF f(4)] by (auto simp: krhino_mm_free_def)
qed

lemma alloc_used:
  assumes "mm_inv h B E" and "unat n \<le> 2 ^ 31" and "krhino_mm_alloc n (Some h) = (p, g)"
  obtains "p = 0" and "g = Some h"
  | h' B' where "p \<noteq> 0" and "g = Some h'" and "mm_inv h' B' E" and "\<not> used_ptr B p" and "\<forall>q. used_ptr B' q \<longleftrightarrow> used_ptr B q \<or> q = p"
    and "heap_area B' \<subseteq> heap_area B" and "p \<in> heap_area B"
proof (cases "n = 0")
  case True
  then show ?thesis using that(1) assms(3) by (simp add: krhino_mm_alloc_def)
next
  case False
  then have n: "0 < unat n" and e: "k_mm_alloc (Some h) n = (p, g)" using assms(3) by (auto simp: krhino_mm_alloc_def unat_gt_0)
  note f = alloc_facts [OF assms(1) n assms(2) e]
  show ?thesis
  proof (cases "p = 0")
    case True
    then show ?thesis using that(1) f(1) by blast
  next
    case False
    obtain h' B' s t where a: "g = Some h'" "8 \<le> p" "B (p - 8) = Some (s, True)" "B' = taken B (p - 8) (unat (mm_req_size n))" "mm_inv h' B' E"
      "B' (p - 8) = Some (t, False)" "\<forall>c u. c \<noteq> p - 8 \<longrightarrow> (B' c = Some (u, False) \<longleftrightarrow> B c = Some (u, False))"
      using f(2) [OF False] by blast
    have u: "used_ptr B' q \<longleftrightarrow> used_ptr B q \<or> q = p" for q
    proof (cases "q - 8 = p - 8 \<and> 8 \<le> q")
      case True
      then show ?thesis using a(2,6) by (auto simp: used_ptr_def)
    next
      case False
      then show ?thesis using a(2,7) by (auto simp: used_ptr_def)
    qed
    have "8 \<le> s" using layD(4) [of B E "p - 8" s True] a(3) assms(1) by (auto simp: mm_inv_def)
    then have "p - 8 \<le> p \<and> p < p - 8 + 8 + s" using a(2) by linarith
    then have "p \<in> heap_area B" unfolding heap_area_def using a(3) by blast
    then show ?thesis using that(2) [OF False a(1,5)] a(3,4) u heap_area_taken by (auto simp: used_ptr_def)
  qed
qed

section \<open>The memory of the tasks\<close>

text \<open>
  \<open>U\<close> are the pointers that other users of the heap hold, \<open>A\<close> is the memory given to the heap.  Stack and control block of each
  task in the heap are allocated blocks, no two of them the same and none of them in \<open>U\<close>; the tasks in
  \<open>g_res_list\<close> are the deleted ones, each once; the control blocks of the other tasks are outside the heap.
\<close>

definition stack_of :: "'a syskernel_scheme \<Rightarrow> tid \<Rightarrow> nat" where
  "stack_of k t = the (task_stack_base k t)"

abbreviation dyn_tasks :: "'a syskernel_scheme \<Rightarrow> tid set" where
  "dyn_tasks k \<equiv> dom (task_stack_base k)"

definition dyn_inv :: "nat set \<Rightarrow> nat set \<Rightarrow> 'a syskernel_scheme \<Rightarrow> nat set \<Rightarrow> mm_blocks \<Rightarrow> bool" where
  "dyn_inv A E k U B \<longleftrightarrow> (\<exists>h. g_kmm_head k = Some h \<and> mm_inv h B E) \<and> heap_area B \<subseteq> A \<and>
     (\<forall>p \<in> U. used_ptr B p) \<and> (\<forall>t \<in> dyn_tasks k. used_ptr B t \<and> used_ptr B (stack_of k t)) \<and>
     inj_on (stack_of k) (dyn_tasks k) \<and> stack_of k ` dyn_tasks k \<inter> dyn_tasks k = {} \<and> U \<inter> (dyn_tasks k \<union> stack_of k ` dyn_tasks k) = {} \<and>
     distinct (g_res_list k) \<and> set (g_res_list k) = {t \<in> dyn_tasks k. \<not> live (state_of k t)} \<and>
     (\<forall>t. live (state_of k t) \<and> t \<notin> dyn_tasks k \<longrightarrow> t \<notin> A)"

lemma dyn_invD:
  assumes "dyn_inv A E k U B"
  shows "\<exists>h. g_kmm_head k = Some h \<and> mm_inv h B E" "heap_area B \<subseteq> A" "\<forall>p \<in> U. used_ptr B p" "\<forall>t \<in> dyn_tasks k. used_ptr B t \<and> used_ptr B (stack_of k t)"
    "inj_on (stack_of k) (dyn_tasks k)" "stack_of k ` dyn_tasks k \<inter> dyn_tasks k = {}" "U \<inter> (dyn_tasks k \<union> stack_of k ` dyn_tasks k) = {}"
    "distinct (g_res_list k)" "set (g_res_list k) = {t \<in> dyn_tasks k. \<not> live (state_of k t)}" "\<forall>t. live (state_of k t) \<and> t \<notin> dyn_tasks k \<longrightarrow> t \<notin> A"
  using assms by (simp_all add: dyn_inv_def)

text \<open>The steps: creating and deleting tasks in the heap, the freeing task, other users of the heap, and everything else.\<close>

inductive dyn_step :: "(u32 list \<Rightarrow> u32 list) \<Rightarrow> u32 \<Rightarrow> nat set \<Rightarrow> 'a syskernel_scheme \<times> nat set \<Rightarrow> 'a syskernel_scheme \<times> nat set \<Rightarrow> bool" for f task_size A where
  create: "g_sys_stat k = RHINO_RUNNING \<Longrightarrow> 4 * stack \<le> 2 ^ 31 \<Longrightarrow> krhino_task_dyn_create f task_size False name pri stack entry_is_null autorun k = (ret, task, k') \<Longrightarrow>
    dyn_step f task_size A (k, U) (k', U)"
| delete: "live (state_of k t) \<Longrightarrow> t \<in> dyn_tasks k \<Longrightarrow> g_sched_lock k \<le> 200 \<Longrightarrow> krhino_task_dyn_del (Some t) k = (RHINO_SUCCESS, k') \<Longrightarrow>
    dyn_step f task_size A (k, U) (k', U)"
| reclaim: "dyn_mem_round k = Some k' \<Longrightarrow> dyn_step f task_size A (k, U) (k', U)"
| alloc: "unat n \<le> 2 ^ 31 \<Longrightarrow> krhino_mm_alloc n (g_kmm_head k) = (p, g) \<Longrightarrow>
    dyn_step f task_size A (k, U) (k\<lparr>g_kmm_head := g\<rparr>, if p = 0 then U else insert p U)"
| free: "p \<in> U \<Longrightarrow> dyn_step f task_size A (k, U) (k\<lparr>g_kmm_head := krhino_mm_free p (g_kmm_head k)\<rparr>, U - {p})"
| others: "sys_inv k' \<Longrightarrow> g_kmm_head k' = g_kmm_head k \<Longrightarrow> task_stack_base k' = task_stack_base k \<Longrightarrow> g_res_list k' = g_res_list k \<Longrightarrow>
    \<forall>t \<in> dyn_tasks k. live (state_of k' t) = live (state_of k t) \<Longrightarrow> \<forall>t. live (state_of k' t) \<longrightarrow> live (state_of k t) \<or> t \<notin> A \<Longrightarrow>
    dyn_step f task_size A (k, U) (k', U)"

section \<open>The steps keep the invariant\<close>

lemma sk_more:
  assumes "kernel.more k' = kernel.more k"
  shows "g_kmm_head k' = g_kmm_head k" "task_stack_base k' = task_stack_base k"
  using assms by (cases k; cases k'; simp)+

lemma sys_inv_sk [simp]:
  "sys_inv (k\<lparr>g_kmm_head := g\<rparr>) = sys_inv k" "sys_inv (k\<lparr>task_stack_base := b\<rparr>) = sys_inv k"
  by (rule sys_inv_view; simp add: view_def ticks_left_def fun_eq_iff)+

lemma sys_inv_logs [simp]: "sys_inv (k\<lparr>g_res_list := r\<rparr>) = sys_inv k" "sys_inv (k\<lparr>mm_freed := m\<rparr>) = sys_inv k"
  by (rule sys_inv_view; simp)+

lemma live_task_head:
  assumes "kernel_inv k"
  shows "live (state_of k t) \<longleftrightarrow> t \<in> set (task_head k)" "distinct (task_head k)"
  using kernel_invD(7,10) [OF assms] by (auto simp: misc_inv_def Kernel_Inv.hdr_ok_def dead_ok_def)

text \<open>One round of the freeing task.\<close>

lemma round_inv:
  fixes k :: "'a syskernel_scheme"
  assumes "dyn_inv A E k U B" and "dyn_mem_round k = Some k'"
  obtains t B' where "t \<in> set (g_res_list k)" and "g_res_list k' = remove1 t (g_res_list k)" and "dyn_inv A E k' U B'" and "sys_inv k' = sys_inv k"
    and "\<forall>q. used_ptr B' q \<longleftrightarrow> used_ptr B q \<and> q \<noteq> t \<and> q \<noteq> stack_of k t" and "\<forall>u. u \<noteq> t \<longrightarrow> stack_of k' u = stack_of k u"
    and "tasks k' = tasks k"
proof -
  note d = dyn_invD [OF assms(1)]
  obtain h where h: "g_kmm_head k = Some h" "mm_inv h B E" using d(1) by blast
  obtain t ts where t: "g_res_list k = t # ts" using assms(2) by (auto simp: dyn_mem_round_def split: list.splits)
  have td: "t \<in> dyn_tasks k" "\<not> live (state_of k t)" using d(9) t by auto
  then obtain base where b: "task_stack_base k t = Some base" by blast
  have sb: "stack_of k t = base" using b by (simp add: stack_of_def)
  have ub: "used_ptr B base" "used_ptr B t" using d(4) td(1) sb by auto
  have ne: "t \<noteq> base" using d(6) td(1) sb by auto
  obtain h1 B1 where f1: "krhino_mm_free base (Some h) = Some h1" "mm_inv h1 B1 E" "\<forall>q. used_ptr B1 q \<longleftrightarrow> used_ptr B q \<and> q \<noteq> base" "heap_area B1 \<subseteq> heap_area B"
    by (rule free_used [OF h(2) ub(1)])
  have ut: "used_ptr B1 t" using f1(3) ub(2) ne by simp
  obtain h2 B2 where f2: "krhino_mm_free t (Some h1) = Some h2" "mm_inv h2 B2 E" "\<forall>q. used_ptr B2 q \<longleftrightarrow> used_ptr B1 q \<and> q \<noteq> t" "heap_area B2 \<subseteq> heap_area B1"
    by (rule free_used [OF f1(2) ut])
  have k': "k' = k\<lparr>g_res_list := ts, g_kmm_head := Some h2, task_stack_base := (task_stack_base k)(t := None)\<rparr>"
    using assms(2) t b h(1) f1(1) f2(1) by (simp add: dyn_mem_round_def)
  have u2: "\<forall>q. used_ptr B2 q \<longleftrightarrow> used_ptr B q \<and> q \<noteq> t \<and> q \<noteq> base" using f1(3) f2(3) by blast
  have st: "\<forall>u. u \<noteq> t \<longrightarrow> stack_of k' u = stack_of k u" and dt: "dyn_tasks k' = dyn_tasks k - {t}" by (auto simp: k' stack_of_def)
  have im: "stack_of k' ` dyn_tasks k' \<subseteq> stack_of k ` dyn_tasks k - {base}" using d(5) td(1) sb st by (auto simp: dt inj_on_def)
  have "dyn_inv A E k' U B2"
    unfolding dyn_inv_def
  proof (intro conjI)
    show "\<exists>h. g_kmm_head k' = Some h \<and> mm_inv h B2 E" using f2(2) by (simp add: k')
    show "heap_area B2 \<subseteq> A" using d(2) f1(4) f2(4) by blast
    show "\<forall>p\<in>U. used_ptr B2 p" using d(3,7) u2 td(1) sb by blast
    show "\<forall>t\<in>dyn_tasks k'. used_ptr B2 t \<and> used_ptr B2 (stack_of k' t)"
    proof
      fix u assume u: "u \<in> dyn_tasks k'"
      then have "u \<in> dyn_tasks k" "u \<noteq> t" by (simp_all add: dt)
      moreover from this have "u \<noteq> base" "stack_of k u \<noteq> t" using d(6) td(1) sb by blast+
      moreover from calculation have "stack_of k u \<noteq> base" using d(5) td(1) sb by (auto simp: inj_on_def)
      ultimately show "used_ptr B2 u \<and> used_ptr B2 (stack_of k' u)" using d(4) u2 st by simp
    qed
    show "inj_on (stack_of k') (dyn_tasks k')" using d(5) st by (simp add: dt inj_on_def)
    have sub: "stack_of k' ` dyn_tasks k' \<subseteq> stack_of k ` dyn_tasks k" "dyn_tasks k' \<subseteq> dyn_tasks k" using im by (auto simp: dt)
    show "stack_of k' ` dyn_tasks k' \<inter> dyn_tasks k' = {}" using Int_mono [OF sub] d(6) by simp
    show "U \<inter> (dyn_tasks k' \<union> stack_of k' ` dyn_tasks k') = {}" using Int_mono [OF subset_refl Un_mono [OF sub(2,1)], of U] d(7) by simp
    show "distinct (g_res_list k')" "set (g_res_list k') = {t \<in> dyn_tasks k'. \<not> live (state_of k' t)}"
      using d(8,9) t by (auto simp: dt) (auto simp: k' td(2))
    show "\<forall>t. live (state_of k' t) \<and> t \<notin> dyn_tasks k' \<longrightarrow> t \<notin> A" using d(10) td(2) by (auto simp: dt) (auto simp: k')
  qed
  then show ?thesis using that [of t B2] t u2 sb st by (simp add: k')
qed

text \<open>Deleting a task.\<close>

lemma delete_inv:
  fixes k :: "'a syskernel_scheme"
  assumes "dyn_inv A E k U B" and "sys_inv k" and t: "live (state_of k t)" "t \<in> dyn_tasks k" and "g_sched_lock k \<le> 200"
    and "krhino_task_dyn_del (Some t) k = (RHINO_SUCCESS, k')"
  shows "sys_inv k'" and "dyn_inv A E k' U B" and "g_res_list k' = g_res_list k @ [t]" and "stack_of k' = stack_of k"
proof -
  note d = dyn_invD [OF assms(1)]
  let ?k1 = "k\<lparr>g_sched_lock := g_sched_lock k + 1, g_res_list := g_res_list k @ [t]\<rparr>"
  have ok: "g_intrpt_nested_level k = 0" "\<not> (prio_of k t = RHINO_IDLE_PRI \<or> mm_alloc_flag (tasks k t) \<noteq> K_OBJ_DYN_ALLOC \<or> (t = g_active_task k \<and> g_sched_lock k > 0))"
    using assms(6) by (auto simp: krhino_task_dyn_del_def Let_def word_gt_0 split: if_splits)
  have give: "fst (sem_give g_res_sem False ?k1) = RHINO_SUCCESS"
    using assms(6) by (auto simp: krhino_task_dyn_del_def krhino_sem_give_def Let_def split_beta split: if_splits)
  have tt: "t = (case Some t of None \<Rightarrow> g_active_task k | Some t \<Rightarrow> t)" by simp
  obtain k2 where k2: "krhino_task_dyn_del (Some t) k = (RHINO_SUCCESS, k2)" "sys_inv k2" "state_of k2 t = K_DELETED" "task_head k2 = remove1 t (task_head k)"
    "g_res_list k2 = g_res_list k @ [t]" "kernel.more k2 = kernel.more k"
    by (rule task_dyn_del_success [OF assms(2) t(1) assms(5) ok(1) tt ok(2) give])
  have e: "k2 = k'" using k2(1) assms(6) by simp
  have ki: "kernel_inv k" "kernel_inv k'" using assms(2) k2(2) by (simp_all add: sys_inv_def e)
  have lv: "live (state_of k' u) \<longleftrightarrow> live (state_of k u) \<and> u \<noteq> t" for u
    using live_task_head(1) [OF ki(1), of u] live_task_head(1) [OF ki(2), of u] live_task_head(2) [OF ki(1)] k2(4) by (auto simp: e)
  show "sys_inv k'" "g_res_list k' = g_res_list k @ [t]" using k2(2,5) by (simp_all add: e)
  have m: "g_kmm_head k' = g_kmm_head k" "task_stack_base k' = task_stack_base k" "stack_of k' = stack_of k"
    using sk_more [OF k2(6)] by (simp_all add: e stack_of_def fun_eq_iff)
  have "distinct (g_res_list k')" "set (g_res_list k') = {t \<in> dyn_tasks k'. \<not> live (state_of k' t)}"
    using d(8,9) t k2(5) lv by (auto simp: e m)
  then show "dyn_inv A E k' U B" using d t(2) lv unfolding dyn_inv_def m by auto
  show "stack_of k' = stack_of k" by (fact m(3))
qed

text \<open>Creating a task.\<close>

lemma task_create_result:
  assumes "task_create f (Some t) name pri False stack entry_is_null autorun flag k = (ret, k')"
  shows "ret = RHINO_SUCCESS \<and> task_head k' = task_head k @ [t] \<and> g_res_list k' = g_res_list k \<and> mm_freed k' = mm_freed k \<and> kernel.more k' = kernel.more k \<or>
    ret \<noteq> RHINO_SUCCESS \<and> ret \<noteq> RHINO_STOPPED \<and> k' = k"
  using assms by (auto simp: task_create_def Let_def split: option.splits if_splits)

lemma same_blocks_inv:
  assumes "dyn_inv A E k U B" and "sys_inv k" and "mm_inv h' B' E" and "\<forall>q. used_ptr B' q \<longleftrightarrow> used_ptr B q" and "heap_area B' \<subseteq> heap_area B"
    and "k' = k\<lparr>mm_freed := ms, g_kmm_head := Some h'\<rparr>"
  shows "sys_inv k' \<and> (\<exists>B'. dyn_inv A E k' U B')"
proof
  show "sys_inv k'" using assms(2,6) by simp
  have "dyn_inv A E k' U B'" using assms(1,3-6) unfolding dyn_inv_def stack_of_def by (auto simp: inj_on_def)
  then show "\<exists>B'. dyn_inv A E k' U B'" by blast
qed

lemma new_task_inv:
  fixes k k' :: "'a syskernel_scheme"
  assumes "dyn_inv A E k U B" and "kernel_inv k" "kernel_inv k'" and "mm_inv h B' E" and nu: "\<not> used_ptr B p1" "\<not> used_ptr B p2" "p1 \<noteq> p2"
    and u: "\<forall>q. used_ptr B' q \<longleftrightarrow> used_ptr B q \<or> q = p1 \<or> q = p2" and "heap_area B' \<subseteq> heap_area B"
    and m: "g_kmm_head k' = Some h" "task_stack_base k' = (task_stack_base k)(p2 \<mapsto> p1)" "g_res_list k' = g_res_list k" "task_head k' = task_head k @ [p2]"
  shows "dyn_inv A E k' U B'"
proof -
  note d = dyn_invD [OF assms(1)]
  have nd: "p2 \<notin> dyn_tasks k" using d(4) nu by blast
  have lv: "live (state_of k' u) \<longleftrightarrow> live (state_of k u) \<or> u = p2" for u
    using live_task_head(1) [OF assms(2), of u] live_task_head(1) [OF assms(3), of u] m(4) by auto
  have dt: "dyn_tasks k' = insert p2 (dyn_tasks k)" "stack_of k' p2 = p1" "\<forall>u. u \<noteq> p2 \<longrightarrow> stack_of k' u = stack_of k u" by (auto simp: m stack_of_def)
  have "stack_of k' ` dyn_tasks k = stack_of k ` dyn_tasks k" by (rule image_cong) (use nd dt(3) in auto)
  then have im: "stack_of k' ` dyn_tasks k' = insert p1 (stack_of k ` dyn_tasks k)" by (simp add: dt(1,2))
  show ?thesis
    unfolding dyn_inv_def
  proof (intro conjI)
    show "\<exists>h. g_kmm_head k' = Some h \<and> mm_inv h B' E" using assms(4) by (simp add: m)
    show "heap_area B' \<subseteq> A" using d(2) assms(9) by blast
    show "\<forall>p\<in>U. used_ptr B' p" using d(3) u by blast
    show "\<forall>t\<in>dyn_tasks k'. used_ptr B' t \<and> used_ptr B' (stack_of k' t)" using d(4) u nd dt by (metis insert_iff)
    show "inj_on (stack_of k') (dyn_tasks k')" using d(4,5) nu(1) nd dt unfolding inj_on_def by (metis insert_iff)
    show "stack_of k' ` dyn_tasks k' \<inter> dyn_tasks k' = {}" unfolding im using d(4,6) nu by (auto simp: dt)
    show "U \<inter> (dyn_tasks k' \<union> stack_of k' ` dyn_tasks k') = {}" unfolding im using d(3,7) nu by (auto simp: dt)
    show "distinct (g_res_list k')" "set (g_res_list k') = {t \<in> dyn_tasks k'. \<not> live (state_of k' t)}" using d(8,9) nd lv by (auto simp: m)
    show "\<forall>t. live (state_of k' t) \<and> t \<notin> dyn_tasks k' \<longrightarrow> t \<notin> A" using d(10) lv by (auto simp: dt)
  qed
qed

text \<open>The call with its two allocations made.\<close>

lemma create_both:
  fixes k :: "'a syskernel_scheme"
  assumes "dyn_inv A E k U B" and "sys_inv k" and "g_sys_stat k = RHINO_RUNNING"
    and h: "mm_inv h B' E" "\<not> used_ptr B p1" "\<not> used_ptr B p2" "p1 \<noteq> p2" "\<forall>q. used_ptr B' q \<longleftrightarrow> used_ptr B q \<or> q = p1 \<or> q = p2"
      "heap_area B' \<subseteq> heap_area B" "p2 \<in> heap_area B"
    and "task_create f (Some p2) name pri False stack entry_is_null autorun K_OBJ_DYN_ALLOC (k\<lparr>g_kmm_head := Some h\<rparr>) = (rt, k1)"
    and "k' = (if rt = RHINO_SUCCESS then k1\<lparr>task_stack_base := (task_stack_base k1)(p2 \<mapsto> p1)\<rparr>
      else k\<lparr>mm_freed := mm_freed k @ [p1, p2], g_kmm_head := krhino_mm_free p2 (krhino_mm_free p1 (Some h))\<rparr>)"
  shows "sys_inv k' \<and> (\<exists>B'. dyn_inv A E k' U B')"
proof (cases "rt = RHINO_SUCCESS")
  case False
  have up: "used_ptr B' p1" using h(5) by blast
  obtain h3 B3 where r3: "krhino_mm_free p1 (Some h) = Some h3" "mm_inv h3 B3 E" "\<forall>q. used_ptr B3 q \<longleftrightarrow> used_ptr B' q \<and> q \<noteq> p1" "heap_area B3 \<subseteq> heap_area B'"
    by (rule free_used [OF h(1) up])
  have uq: "used_ptr B3 p2" using h(4,5) r3(3) by blast
  obtain h4 B4 where r4: "krhino_mm_free p2 (Some h3) = Some h4" "mm_inv h4 B4 E" "\<forall>q. used_ptr B4 q \<longleftrightarrow> used_ptr B3 q \<and> q \<noteq> p2" "heap_area B4 \<subseteq> heap_area B3"
    by (rule free_used [OF r3(2) uq])
  have "\<forall>q. used_ptr B4 q \<longleftrightarrow> used_ptr B q" using r3(3) r4(3) h(2,3,5) by blast
  moreover have "heap_area B4 \<subseteq> heap_area B" using r3(4) r4(4) h(6) by blast
  ultimately show ?thesis using same_blocks_inv [OF assms(1,2) r4(2)] False assms(12) r3(1) r4(1) by simp
next
  case True
  let ?k = "k\<lparr>g_kmm_head := Some h\<rparr>"
  note d = dyn_invD [OF assms(1)]
  have k1: "task_head k1 = task_head k @ [p2]" "g_res_list k1 = g_res_list k" "kernel.more k1 = kernel.more ?k"
    using task_create_result [OF assms(11)] True by auto
  have "p2 \<notin> dyn_tasks k" "p2 \<in> A" using d(2,4) h(3,7) by blast+
  then have "\<not> live (state_of k p2)" using d(10) by blast
  then have "sys_inv k1" using task_create_inv [of ?k "Some p2" f name pri False stack entry_is_null autorun K_OBJ_DYN_ALLOC] assms(2,3,11) by simp
  then have si: "sys_inv k'" using True by (simp add: assms(12))
  have m: "g_kmm_head k' = Some h" "task_stack_base k' = (task_stack_base k)(p2 \<mapsto> p1)" "g_res_list k' = g_res_list k" "task_head k' = task_head k @ [p2]"
    using sk_more [OF k1(3)] k1(1,2) True by (simp_all add: assms(12))
  have ki: "kernel_inv k" "kernel_inv k'" using assms(2) si by (simp_all add: sys_inv_def)
  show ?thesis using new_task_inv [OF assms(1) ki h(1-6) m] si by blast
qed

lemma create_inv:
  fixes k :: "'a syskernel_scheme"
  assumes "dyn_inv A E k U B" and "sys_inv k" and "g_sys_stat k = RHINO_RUNNING" and n: "4 * stack \<le> 2 ^ 31" "unat task_size \<le> 2 ^ 31"
    and "krhino_task_dyn_create f task_size False name pri stack entry_is_null autorun k = (ret, task, k')"
  shows "sys_inv k' \<and> (\<exists>B'. dyn_inv A E k' U B')"
proof -
  obtain h where h: "g_kmm_head k = Some h" "mm_inv h B E" using dyn_invD(1) [OF assms(1)] by blast
  have n4: "unat (of_nat stack * 4 :: u32) \<le> 2 ^ 31" using n(1) by (simp add: unat_word_ariths unat_of_nat)
  obtain p1 g1 where a1: "krhino_mm_alloc (of_nat stack * 4) (Some h) = (p1, g1)" by fastforce
  have st: "stack \<noteq> 0" if p1: "p1 \<noteq> 0"
  proof
    assume "stack = 0"
    then show False using a1 p1 by (simp add: krhino_mm_alloc_def)
  qed
  note defs = krhino_task_dyn_create_def task_dyn_create_def ptr_of_def mm_settle_def
  show ?thesis
  proof (cases rule: alloc_used [OF h(2) n4 a1])
    case 1
    have "k' = k" using assms(6) h(1) a1 1 by (auto simp: defs split: if_splits)
    then show ?thesis using assms(1,2) by blast
  next
    case (2 h1 B1)
    note s = st [OF 2(1)]
    obtain p2 g2 where a2: "krhino_mm_alloc task_size (Some h1) = (p2, g2)" by fastforce
    have used1: "used_ptr B1 p1" using 2(5) by blast
    show ?thesis
    proof (cases rule: alloc_used [OF 2(3) n(2) a2])
      case 1
      obtain h' B' where r: "krhino_mm_free p1 (Some h1) = Some h'" "mm_inv h' B' E" "\<forall>q. used_ptr B' q \<longleftrightarrow> used_ptr B1 q \<and> q \<noteq> p1" "heap_area B' \<subseteq> heap_area B1"
        by (rule free_used [OF 2(3) used1])
      have "k' = k\<lparr>mm_freed := mm_freed k @ [p1], g_kmm_head := Some h'\<rparr>" using assms(6) h(1) a1 2(1,2) a2 1 s r(1) by (simp add: defs)
      moreover have "\<forall>q. used_ptr B' q \<longleftrightarrow> used_ptr B q" using r(3) 2(4,5) by blast
      moreover have "heap_area B' \<subseteq> heap_area B" using r(4) 2(6) by blast
      ultimately show ?thesis using same_blocks_inv [OF assms(1,2) r(2)] by blast
    next
      case c: (2 h2 B2)
      have u2: "\<forall>q. used_ptr B2 q \<longleftrightarrow> used_ptr B q \<or> q = p1 \<or> q = p2" "p1 \<noteq> p2" "\<not> used_ptr B p2" using c(4,5) 2(5) by blast+
      have ar: "heap_area B2 \<subseteq> heap_area B" "p2 \<in> heap_area B" using c(6,7) 2(6) by blast+
      obtain rt k1 where tc: "task_create f (Some p2) name pri False stack entry_is_null autorun K_OBJ_DYN_ALLOC (k\<lparr>g_kmm_head := Some h2\<rparr>) = (rt, k1)" by fastforce
      have "k' = (if rt = RHINO_SUCCESS then k1\<lparr>task_stack_base := (task_stack_base k1)(p2 \<mapsto> p1)\<rparr>
          else k\<lparr>mm_freed := mm_freed k @ [p1, p2], g_kmm_head := krhino_mm_free p2 (krhino_mm_free p1 (Some h2))\<rparr>)"
        using assms(6) h(1) a1 2(1,2) a2 c(1,2) s tc task_create_result [OF tc] by (auto simp: defs)
      then show ?thesis by (rule create_both [OF assms(1-3) c(3) 2(4) u2(3,2,1) ar tc])
    qed
  qed
qed

lemma dyn_step_inv:
  assumes "dyn_step f task_size A st st'" and "unat task_size \<le> 2 ^ 31" and "sys_inv (fst st)" and "\<exists>B. dyn_inv A E (fst st) (snd st) B"
  shows "sys_inv (fst st') \<and> (\<exists>B. dyn_inv A E (fst st') (snd st') B)"
  using assms
proof (induction rule: dyn_step.induct)
  case (create k stack name pri entry_is_null autorun ret task k' U)
  then show ?case using create_inv [OF _ _ create(1,2) _ create(3)] by auto
next
  case (delete k t k' U)
  then obtain B where b: "dyn_inv A E k U B" "sys_inv k" by auto
  then show ?case using delete_inv(1,2) [OF b delete(1-4)] by auto
next
  case (reclaim k k' U)
  then obtain B where b: "dyn_inv A E k U B" "sys_inv k" by auto
  then show ?case by (auto intro: round_inv [OF b(1) reclaim(1)])
next
  case (alloc n k p g U)
  then obtain B where b: "dyn_inv A E k U B" "sys_inv k" by auto
  note d = dyn_invD [OF b(1)]
  obtain h where h: "g_kmm_head k = Some h" "mm_inv h B E" using d(1) by blast
  have a: "krhino_mm_alloc n (Some h) = (p, g)" using alloc(2) h(1) by simp
  show ?case
  proof (cases rule: alloc_used [OF h(2) alloc(1) a])
    case 1
    then have "k\<lparr>g_kmm_head := g\<rparr> = k" using h(1) by simp
    then show ?thesis using b 1(1) by auto
  next
    case (2 h' B')
    have "dyn_inv A E (k\<lparr>g_kmm_head := g\<rparr>) (insert p U) B'"
      using d(1,3-10) order_trans [OF 2(6) d(2)] 2(2-5) unfolding dyn_inv_def stack_of_def by auto
    then show ?thesis using b(2) 2(1) by auto
  qed
next
  case (free p U k)
  then obtain B where b: "dyn_inv A E k U B" "sys_inv k" by auto
  note d = dyn_invD [OF b(1)]
  obtain h where h: "g_kmm_head k = Some h" "mm_inv h B E" using d(1) by blast
  have up: "used_ptr B p" using d(3) free(1) by blast
  obtain h' B' where r: "krhino_mm_free p (Some h) = Some h'" "mm_inv h' B' E" "\<forall>q. used_ptr B' q \<longleftrightarrow> used_ptr B q \<and> q \<noteq> p" "heap_area B' \<subseteq> heap_area B"
    by (rule free_used [OF h(2) up])
  have ne: "\<forall>t \<in> dyn_tasks k. t \<noteq> p \<and> stack_of k t \<noteq> p" using d(7) free(1) by blast
  have "(U - {p}) \<inter> (dyn_tasks k \<union> stack_of k ` dyn_tasks k) = {}" using d(7) by blast
  then have "dyn_inv A E (k\<lparr>g_kmm_head := Some h'\<rparr>) (U - {p}) B'"
    using d(3-6,8-10) order_trans [OF r(4) d(2)] r(2,3) ne unfolding dyn_inv_def stack_of_def by auto
  then show ?case using b(2) h(1) r(1) by auto
next
  case (others k' k U)
  then obtain B where b: "dyn_inv A E k U B" by auto
  have "dyn_inv A E k' U B" using dyn_invD [OF b] others(2-6) unfolding dyn_inv_def stack_of_def by auto
  then show ?case using others(1) by auto
qed

lemma dyn_steps_inv:
  assumes "(dyn_step f task_size A)\<^sup>*\<^sup>* st st'" and "unat task_size \<le> 2 ^ 31" and "sys_inv (fst st)" and "\<exists>B. dyn_inv A E (fst st) (snd st) B"
  shows "sys_inv (fst st') \<and> (\<exists>B. dyn_inv A E (fst st') (snd st') B)"
  using assms by (induction rule: rtranclp_induct) (auto dest: dyn_step_inv)

text \<open>The freeing task empties its list.\<close>

lemma inner_inv:
  fixes k :: "'a syskernel_scheme"
  assumes "dyn_inv A E k U B"
  shows "\<exists>B'. dyn_inv A E (dyn_mem_inner k) U B' \<and> g_res_list (dyn_mem_inner k) = [] \<and> sys_inv (dyn_mem_inner k) = sys_inv k \<and>
    (\<forall>q. used_ptr B' q \<longleftrightarrow> used_ptr B q \<and> (\<forall>t \<in> set (g_res_list k). q \<noteq> t \<and> q \<noteq> stack_of k t))"
  using assms
proof (induction k arbitrary: B rule: dyn_mem_inner.induct)
  case (1 k)
  show ?case
  proof (cases "dyn_mem_round k")
    case None
    then have "g_res_list k = []" by (auto simp: dyn_mem_round_def split: list.splits)
    moreover have "dyn_mem_inner k = k" using None by (subst dyn_mem_inner.simps) simp
    ultimately show ?thesis using 1(2) by auto
  next
    case (Some k')
    obtain t B1 where r: "t \<in> set (g_res_list k)" "g_res_list k' = remove1 t (g_res_list k)" "dyn_inv A E k' U B1" "sys_inv k' = sys_inv k"
      "\<forall>q. used_ptr B1 q \<longleftrightarrow> used_ptr B q \<and> q \<noteq> t \<and> q \<noteq> stack_of k t" "\<forall>u. u \<noteq> t \<longrightarrow> stack_of k' u = stack_of k u"
      by (rule round_inv [OF 1(2) Some])
    obtain B2 where i: "dyn_inv A E (dyn_mem_inner k') U B2" "g_res_list (dyn_mem_inner k') = []" "sys_inv (dyn_mem_inner k') = sys_inv k'"
      "\<forall>q. used_ptr B2 q \<longleftrightarrow> used_ptr B1 q \<and> (\<forall>t \<in> set (g_res_list k'). q \<noteq> t \<and> q \<noteq> stack_of k' t)"
      using 1(1) [OF Some r(3)] by blast
    have e: "dyn_mem_inner k = dyn_mem_inner k'" using Some by (subst dyn_mem_inner.simps) simp
    have s: "set (g_res_list k') = set (g_res_list k) - {t}" using r(2) dyn_invD(8) [OF 1(2)] by simp
    have "used_ptr B2 q \<longleftrightarrow> used_ptr B q \<and> (\<forall>t \<in> set (g_res_list k). q \<noteq> t \<and> q \<noteq> stack_of k t)" for q
      using i(4) r(1,5,6) s by auto
    then show ?thesis using i(1-3) r(4) by (auto simp: e)
  qed
qed

text \<open>Two allocations in a row succeed when a free block has room for both.\<close>

lemma free_block_left:
  assumes "mm_inv h B E" and "B a = Some (s, True)" and "B b = Some (u, True)" and "n + 16 \<le> s"
  shows "\<exists>a' s'. taken B b n a' = Some (s', True) \<and> s - n - 8 \<le> s'"
proof (cases "a = b")
  case True
  then have "taken B b n (b + 8 + n) = Some (s - n - 8, True)" using assms(2,4) by (simp add: taken_def)
  then show ?thesis by blast
next
  case False
  have l: "mm_lay B E" using assms(1) by (simp add: mm_inv_def)
  have "a \<noteq> b + 8 + n" if "n + 16 \<le> u"
  proof
    assume "a = b + 8 + n"
    then have "b + 8 + u \<le> a" using layD(6) [OF l assms(3), of a] assms(2) by auto
    then show False using that \<open>a = b + 8 + n\<close> by simp
  qed
  then have "taken B b n a = Some (s, True)" using False assms(2,3) by (simp add: taken_def)
  then show ?thesis by (intro exI [of _ a] exI [of _ s]) simp
qed

lemma alloc_twice:
  assumes "mm_inv h B E" and "B a = Some (s, True)" and n1: "0 < unat n1" "unat n1 \<le> 2 ^ 31" and n2: "0 < unat n2" "unat n2 \<le> 2 ^ 31"
    and room: "unat (mm_req_size n1) + unat (mm_req_size n1) div 32 + 24 + unat (mm_req_size n2) + unat (mm_req_size n2) div 32 \<le> s"
  obtains p1 h1 p2 h2 B2 where "krhino_mm_alloc n1 (Some h) = (p1, Some h1)" and "p1 \<noteq> 0" and "krhino_mm_alloc n2 (Some h1) = (p2, Some h2)" and "p2 \<noteq> 0"
    and "mm_inv h2 B2 E" and "\<not> used_ptr B p1" and "\<not> used_ptr B p2" and "p1 \<noteq> p2" and "\<forall>q. used_ptr B2 q \<longleftrightarrow> used_ptr B q \<or> q = p1 \<or> q = p2"
    and "heap_area B2 \<subseteq> heap_area B" and "p1 \<in> heap_area B" and "p2 \<in> heap_area B"
proof -
  have r1: "unat (mm_req_size n1) + unat (mm_req_size n1) div 32 \<le> s" using room by linarith
  obtain p1 h1 B1 t where a1: "krhino_mm_alloc n1 (Some h) = (p1, Some h1)" "p1 \<noteq> 0" "mm_inv h1 B1 E" "B1 (p1 - 8) = Some (t, False)"
    "B1 = taken B (p1 - 8) (unat (mm_req_size n1))"
    by (rule alloc_succeeds [OF assms(1,2) n1 r1])
  obtain B1' where u1: "mm_inv h1 B1' E" "\<not> used_ptr B p1" "p1 \<in> heap_area B"
    by (rule alloc_used [OF assms(1) n1(2) a1(1)]) (use a1(2) in auto)
  obtain u where u: "B (p1 - 8) = Some (u, True)" "8 \<le> p1"
    using alloc_facts(2) [OF assms(1) n1, of p1 "Some h1"] a1(1,2) n1(1) by (auto simp: krhino_mm_alloc_def split: if_splits)
  have s16: "unat (mm_req_size n1) + 16 \<le> s" using room by linarith
  obtain a' s' where f: "B1 a' = Some (s', True)" "s - unat (mm_req_size n1) - 8 \<le> s'" using free_block_left [OF assms(1,2) u(1) s16] a1(5) by blast
  have r2: "unat (mm_req_size n2) + unat (mm_req_size n2) div 32 \<le> s'" using room f(2) by linarith
  obtain p2 h2 where a2: "krhino_mm_alloc n2 (Some h1) = (p2, Some h2)" "p2 \<noteq> 0" by (rule alloc_succeeds [OF a1(3) f(1) n2 r2])
  obtain B2 where u2: "mm_inv h2 B2 E" "\<not> used_ptr B1 p2" "\<forall>q. used_ptr B2 q \<longleftrightarrow> used_ptr B1 q \<or> q = p2" "heap_area B2 \<subseteq> heap_area B1" "p2 \<in> heap_area B1"
    by (rule alloc_used [OF a1(3) n2(2) a2(1)]) (use a2(2) in auto)
  have v1: "used_ptr B1 q \<longleftrightarrow> used_ptr B q \<or> q = p1" for q
  proof (cases "q = p1")
    case True
    then show ?thesis using a1(4) u(2) by (auto simp: used_ptr_def)
  next
    case False
    have "B1 c = Some (v, False) \<longleftrightarrow> B c = Some (v, False)" if "c \<noteq> p1 - 8" for c v
      using alloc_facts(2) [OF assms(1) n1, of p1 "Some h1"] a1(1,2,5) n1(1) that by (auto simp: krhino_mm_alloc_def split: if_splits)
    then show ?thesis using False u(2) by (auto simp: used_ptr_def)
  qed
  have ar: "heap_area B1 \<subseteq> heap_area B" unfolding a1(5) by (rule heap_area_taken)
  have q: "\<not> used_ptr B p2" "p1 \<noteq> p2" "\<forall>q. used_ptr B2 q \<longleftrightarrow> used_ptr B q \<or> q = p1 \<or> q = p2" "heap_area B2 \<subseteq> heap_area B" "p2 \<in> heap_area B"
    using u2(2-5) v1 ar by blast+
  show ?thesis by (rule that [OF a1(1,2) a2 u2(1) u1(2) q(1-4) u1(3) q(5)])
qed

end
