(* ===== verification/Start.thy ===== *)
theory Start
  imports Dyn_Mem
begin

text \<open>
  The start of the system, \<open>krhino_init\<close> and \<open>krhino_start\<close> of \<^verbatim>\<open>k_sys.c\<close> with \<open>kobj_list_init\<close> of \<^verbatim>\<open>k_stats.c\<close> and \<open>tick_list_init\<close> of
  \<^verbatim>\<open>k_tick.c\<close>.  From zero-initialised globals they establish the invariants of all components: of the
  kernel, the heap, the tasks in the heap, the timers and the default work queue.
\<close>

section \<open>Operations\<close>

definition tick_list_init :: "'a kernel_scheme \<Rightarrow> 'a kernel_scheme" where
  "tick_list_init k = k\<lparr>g_tick_head := []\<rparr>"

definition kobj_list_init :: "'a bqkernel_scheme \<Rightarrow> 'a bqkernel_scheme" where
  "kobj_list_init k = k\<lparr>task_head := [], mutex_head := [], sem_head := [], queue_head := [], buf_queue_head := []\<rparr>"

text \<open>
  \<open>krhino_init\<close>, up to the creation of the idle task and as a whole.  The arguments are the port's stack initialisation, \<open>sizeof(ktask_t)\<close>, the table \<open>g_mm_region\<close>, the memory, and the addresses of
  \<open>g_timer_queue\<close>, \<open>g_timer_msg\<close>, \<open>timer_queue_cb\<close> and \<open>g_timer_task\<close>.
\<close>

definition init_tasks :: "(u32 list \<Rightarrow> u32 list) \<Rightarrow> u32 \<Rightarrow> (u32 \<times> u32) list \<Rightarrow> mm_mem \<Rightarrow> 'a syskernel_scheme \<Rightarrow> 'a syskernel_scheme" where
  "init_tasks cpu_task_stack_init task_size g_mm_region mem k =
     (let k1 = k\<lparr>g_sys_stat := RHINO_STOPPED\<rparr>;
          k2 = k1\<lparr>g_ready_queue := runqueue_init (g_ready_queue k1)\<rparr>;
          k3 = kobj_list_init (tick_list_init k2);
          k4 = (case k_mm_init g_mm_region mem of None \<Rightarrow> k_crash k3 | Some g \<Rightarrow> k3\<lparr>g_kmm_head := g\<rparr>);
          k5 = snd (krhino_sem_create (Some g_res_sem) (Some ''res_sem'') 0 (k4\<lparr>g_res_list := []\<rparr>));
          k6 = dyn_mem_proc_task_start cpu_task_stack_init task_size k5
      in snd (krhino_task_create cpu_task_stack_init (Some g_idle_task) (Some ''idle_task'') RHINO_IDLE_PRI False 200 False 1 k6))"

definition krhino_init :: "(u32 list \<Rightarrow> u32 list) \<Rightarrow> u32 \<Rightarrow> (u32 \<times> u32) list \<Rightarrow> mm_mem \<Rightarrow> oid \<Rightarrow> nat \<Rightarrow> nat \<Rightarrow> tid \<Rightarrow>
    'a syskernel_scheme \<Rightarrow> kstat \<times> 'a syskernel_scheme" where
  "krhino_init cpu_task_stack_init task_size g_mm_region mem timer_queue timer_msg timer_cb timer_task k =
     (RHINO_SUCCESS, ktimer_init cpu_task_stack_init timer_queue timer_msg timer_cb timer_task (init_tasks cpu_task_stack_init task_size g_mm_region mem k))"

text \<open>\<open>cpu_first_task_start\<close> does not return: the result is \<open>None\<close>.\<close>

definition krhino_start :: "(u32 list \<Rightarrow> u32 list) \<Rightarrow> nat \<Rightarrow> 'a wkernel_scheme \<Rightarrow> kstat option \<times> 'a wkernel_scheme" where
  "krhino_start cpu_task_stack_init g_workqueue_default k =
     (if g_sys_stat k = RHINO_STOPPED then
        let k1 = preferred_cpu_ready_task_get k;
            k2 = k1\<lparr>g_active_task := g_preferred_ready_task k1\<rparr>;
            k3 = workqueue_init cpu_task_stack_init g_workqueue_default k2
        in (None, k3\<lparr>g_sys_stat := RHINO_RUNNING\<rparr>)
      else (Some RHINO_RUNNING, k))"

section \<open>The first tasks\<close>

text \<open>The state at reset: globals are zero.\<close>

definition boot_ok :: "'a syskernel_scheme \<Rightarrow> bool" where
  "boot_ok k \<longleftrightarrow> g_sched_lock k = 0 \<and> g_intrpt_nested_level k = 0 \<and> \<not> g_idle_task_spawned k \<and> \<not> k_fault k \<and>
     task_bit_map (g_ready_queue k) = [0, 0] \<and> (\<forall>p \<ge> RHINO_CONFIG_PRI_MAX. cur_list (g_ready_queue k) p = []) \<and>
     (\<forall>t. tasks k t = ktask_zero) \<and> (\<forall>b. objs k b = obj_zero) \<and> (\<forall>q. \<not> rb_fault (q_ringbuf (queues k q))) \<and>
     (\<forall>t. timers k t = timer_zero) \<and> mm_freed k = [] \<and> task_stack_base k = (\<lambda>_. None) \<and> work_log k = []"

lemma runqueue_init_wf:
  assumes "task_bit_map rq = [0, 0]" and "\<forall>p \<ge> RHINO_CONFIG_PRI_MAX. cur_list rq p = []"
  shows "rq_wf (runqueue_init rq)" and "cur_list (runqueue_init rq) = (\<lambda>_. [])"
proof -
  show c: "cur_list (runqueue_init rq) = (\<lambda>_. [])" using assms(2) by (auto simp: runqueue_init_def fun_eq_iff)
  have "\<not> bitmap_test [0, 0] p" for p by (auto simp: bitmap_test_def nth_Cons split: nat.split)
  then show "rq_wf (runqueue_init rq)" unfolding rq_wf_def c using assms(1) by (simp add: runqueue_init_def)
qed

text \<open>The freeing task and the idle task, the first two.\<close>

lemma first_tasks_inv:
  assumes d: "d \<noteq> g_idle_task" and "rq_wf rq" "cur_list rq = (\<lambda>_. [])"
    and "tasks k = (\<lambda>_. ktask_zero)(d := ktask_new f nm 6 m 1 flag, g_idle_task := ktask_new f nm' RHINO_IDLE_PRI m' 1 flag')"
    and "objs k = (\<lambda>_. obj_zero)(s := \<lparr>blk_list = [], obj_name = nm'', blk_policy = BLK_POLICY_PRI, obj_type = RHINO_SEM_OBJ_TYPE\<rparr>)"
    and "g_ready_queue k = rq_add_tail (rq_add_tail rq d 6) g_idle_task RHINO_IDLE_PRI" "task_head k = [d, g_idle_task]" "g_tick_head k = []"
    and "g_idle_task_spawned k" "\<not> k_fault k"
  shows "kernel_inv k"
proof -
  have "rq_wf (g_ready_queue k)" unfolding assms(6) by (intro rq_add_tail_wf) (simp_all add: assms(2,3))
  then have "rdy_inv k" using d by (auto simp: rdy_inv_def rdy_ok_def assms(3,4,6) ktask_new_fields ktask_zero_def)
  moreover have "blk_inv k" "tick_inv k" "mtx_inv k" "pi_inv k" "idle_inv k" "misc_inv k" "tick_pos k" "dead_ok k"
    using d assms(7-9)
    by (auto simp: inv_defs blk_ok_def tick_ok_def mtx_ok_def mchain_ok_def owns_def pi_ok_def eff_def boosters_def least_of_def
        idle_ok_def susp_ok_def Kernel_Inv.hdr_ok_def tick_pos_def dead_ok_def assms(4,5) ktask_new_fields ktask_zero_def obj_zero_def split: if_splits)
  ultimately show ?thesis using assms(10) by (simp add: kernel_inv_def)
qed

lemma dyn_start_facts:
  fixes k :: "'a syskernel_scheme" and f :: "u32 list \<Rightarrow> u32 list"
  assumes "g_sys_stat k = RHINO_STOPPED" "g_intrpt_nested_level k = 0" "g_kmm_head k = Some h"
    and a: "krhino_mm_alloc 1024 (Some h) = (p1, Some h1)" "p1 \<noteq> 0" "krhino_mm_alloc task_size (Some h1) = (p2, Some h2)" "p2 \<noteq> 0"
  defines "k' \<equiv> dyn_mem_proc_task_start f task_size k"
  shows "tasks k' = (tasks k)(p2 := ktask_new f ''dyn_mem_proc_task'' 6 256 1 K_OBJ_DYN_ALLOC)" "g_ready_queue k' = rq_add_tail (g_ready_queue k) p2 6"
    "objs k' = objs k" "g_tick_head k' = g_tick_head k" "k_fault k' = k_fault k" "mutexes k' = mutexes k"
    "env k' = env (k\<lparr>task_head := task_head k @ [p2], g_kmm_head := Some h2, task_stack_base := (task_stack_base k)(p2 \<mapsto> p1)\<rparr>)"
proof -
  have n: "(of_nat 256 * 4 :: u32) = 1024" by simp
  have "k' = ready_list_add_tail p2 (k\<lparr>g_kmm_head := Some h2, tasks := (tasks k)(p2 := ktask_new f ''dyn_mem_proc_task'' 6 256 1 K_OBJ_DYN_ALLOC),
      task_head := task_head k @ [p2]\<rparr>)\<lparr>task_stack_base := (task_stack_base k)(p2 \<mapsto> p1)\<rparr>"
    using assms(1-7)
    by (simp add: k'_def dyn_mem_proc_task_start_def krhino_task_dyn_create_def task_dyn_create_def task_create_def ptr_of_def mm_settle_def ready_list_add_tail_def Let_def)
  then show "tasks k' = (tasks k)(p2 := ktask_new f ''dyn_mem_proc_task'' 6 256 1 K_OBJ_DYN_ALLOC)" "g_ready_queue k' = rq_add_tail (g_ready_queue k) p2 6"
    "objs k' = objs k" "g_tick_head k' = g_tick_head k" "k_fault k' = k_fault k" "mutexes k' = mutexes k"
    "env k' = env (k\<lparr>task_head := task_head k @ [p2], g_kmm_head := Some h2, task_stack_base := (task_stack_base k)(p2 \<mapsto> p1)\<rparr>)"
    by (cases k; simp add: ready_list_add_tail_def ktask_new_fields env_def)+
qed

lemma init_tasks_inv:
  fixes k :: "'a syskernel_scheme" and f :: "u32 list \<Rightarrow> u32 list"
  assumes "boot_ok k" and "k_mm_init regions mem = Some (Some h)"
    and a: "krhino_mm_alloc 1024 (Some h) = (p1, Some h1)" "p1 \<noteq> 0" "krhino_mm_alloc task_size (Some h1) = (p2, Some h2)" "p2 \<noteq> 0"
  defines "k' \<equiv> init_tasks f task_size regions mem k"
  shows "kernel_inv k'" "\<forall>t. t \<noteq> p2 \<and> t \<noteq> g_idle_task \<longrightarrow> tasks k' t = ktask_zero" "tasks k' p2 = ktask_new f ''dyn_mem_proc_task'' 6 256 1 K_OBJ_DYN_ALLOC"
    "state_of k' g_idle_task = K_RDY" "obj_type (objs k' g_res_sem) = RHINO_SEM_OBJ_TYPE" "waiters k' g_res_sem = []" "sem_count (sems k' g_res_sem) = 0"
    "\<forall>b. b \<noteq> g_res_sem \<longrightarrow> objs k' b = obj_zero" "g_sys_stat k' = RHINO_STOPPED" "g_sched_lock k' = 0" "g_intrpt_nested_level k' = 0" "g_res_list k' = []"
    "kernel.more k' = kernel.more (k\<lparr>queue_head := [], buf_queue_head := [], g_kmm_head := Some h2, task_stack_base := [p2 \<mapsto> p1]\<rparr>)"
proof -
  note b = assms(1) [unfolded boot_ok_def]
  define k5 where "k5 = snd (krhino_sem_create (Some g_res_sem) (Some ''res_sem'') 0
    ((kobj_list_init (tick_list_init (k\<lparr>g_sys_stat := RHINO_STOPPED, g_ready_queue := runqueue_init (g_ready_queue k)\<rparr>)))\<lparr>g_kmm_head := Some h, g_res_list := []\<rparr>))"
  define k6 where "k6 = dyn_mem_proc_task_start f task_size k5"
  have f5: "tasks k5 = (\<lambda>_. ktask_zero)" "objs k5 = (\<lambda>_. obj_zero)(g_res_sem := \<lparr>blk_list = [], obj_name = ''res_sem'', blk_policy = BLK_POLICY_PRI, obj_type = RHINO_SEM_OBJ_TYPE\<rparr>)"
    "g_ready_queue k5 = runqueue_init (g_ready_queue k)" "g_tick_head k5 = []" "task_head k5 = []" "g_sys_stat k5 = RHINO_STOPPED" "g_intrpt_nested_level k5 = 0"
    "g_sched_lock k5 = 0" "\<not> g_idle_task_spawned k5" "\<not> k_fault k5" "g_kmm_head k5 = Some h" "g_res_list k5 = []"
    "task_stack_base k5 = (\<lambda>_. None)" "sem_count (sems k5 g_res_sem) = 0"
    using b by (simp_all add: k5_def krhino_sem_create_def sem_create_def kobj_list_init_def tick_list_init_def obj_zero_def Let_def fun_eq_iff)
  have m5: "kernel.more k5 = kernel.more (k\<lparr>queue_head := [], buf_queue_head := [], g_kmm_head := Some h\<rparr>)"
    by (cases k) (simp add: k5_def krhino_sem_create_def sem_create_def kobj_list_init_def tick_list_init_def Let_def)
  note f6 = dyn_start_facts [OF f5(6,7,11) a, of f, folded k6_def]
  have e6: "g_sys_stat k6 = RHINO_STOPPED" "g_intrpt_nested_level k6 = 0" "g_sched_lock k6 = 0" "\<not> g_idle_task_spawned k6" "task_head k6 = [p2]" "g_res_list k6 = []"
    "sem_count (sems k6 g_res_sem) = 0" "kernel.more k6 = kernel.more (k\<lparr>queue_head := [], buf_queue_head := [], g_kmm_head := Some h2, task_stack_base := [p2 \<mapsto> p1]\<rparr>)"
    using f6(7) f5 m5 by (simp_all add: env_def) (cases k; cases k5; simp)
  have k': "k' = ready_list_add_tail g_idle_task (k6\<lparr>g_idle_task_spawned := True, tasks := (tasks k6)(g_idle_task := ktask_new f ''idle_task'' RHINO_IDLE_PRI 200 1 K_OBJ_STATIC_ALLOC),
      task_head := task_head k6 @ [g_idle_task]\<rparr>)"
    using e6 assms(2) by (simp add: k'_def init_tasks_def k5_def [symmetric] k6_def [symmetric] krhino_task_create_def task_create_def Let_def)
  have p2: "p2 \<noteq> g_idle_task" using a(4) by (simp add: g_idle_task_def)
  note rq = runqueue_init_wf [of "g_ready_queue k"]
  show "kernel_inv k'"
    by (rule first_tasks_inv [OF p2 rq]) (use b f5 f6 e6 in \<open>simp_all add: k' ready_list_add_tail_def ktask_new_fields\<close>)
  show "\<forall>t. t \<noteq> p2 \<and> t \<noteq> g_idle_task \<longrightarrow> tasks k' t = ktask_zero" "tasks k' p2 = ktask_new f ''dyn_mem_proc_task'' 6 256 1 K_OBJ_DYN_ALLOC"
    "state_of k' g_idle_task = K_RDY" "obj_type (objs k' g_res_sem) = RHINO_SEM_OBJ_TYPE" "waiters k' g_res_sem = []" "sem_count (sems k' g_res_sem) = 0"
    "\<forall>b. b \<noteq> g_res_sem \<longrightarrow> objs k' b = obj_zero" "g_sys_stat k' = RHINO_STOPPED" "g_sched_lock k' = 0" "g_intrpt_nested_level k' = 0" "g_res_list k' = []"
    "kernel.more k' = kernel.more (k\<lparr>queue_head := [], buf_queue_head := [], g_kmm_head := Some h2, task_stack_base := [p2 \<mapsto> p1]\<rparr>)"
    using p2 f5 f6 e6 by (simp_all add: k' ready_list_add_tail_def ktask_new_fields)
qed

section \<open>Timers and the default work queue\<close>

text \<open>Before the system runs there is no active task, so only \<open>kernel_inv\<close> holds.\<close>

lemma kernel_to_sys:
  assumes "kernel_inv k"
  shows "sys_inv (k\<lparr>g_active_task := best k\<rparr>)"
proof -
  note parts = kernel_invD [OF assms]
  have "kernel_inv (k\<lparr>g_active_task := best k\<rparr>)" using assms by (subst inv_view(10) [of _ k]) simp_all
  then show ?thesis using best_ready(1) [OF parts(1,6)] by (simp add: sys_inv_def sched_ok_def best_def)
qed

lemma queue_create_early:
  fixes k :: "'a syskernel_scheme" and nm :: string and addr :: nat
  assumes "kernel_inv k" and "obj_type (objs k q) = RHINO_OBJ_TYPE_NONE" and "msg_num \<noteq> 0" and "unat msg_num * 4 < 2 ^ 32"
    and "unat msg_num * 4 \<le> length buf" and "\<not> rb_fault (q_ringbuf (queues k q))"
  defines "k' \<equiv> snd (krhino_queue_create (Some q) (Some nm) (Some (addr, buf)) msg_num k)"
  shows "kernel_inv k'" "queue_inv k' q []" "tasks k' = tasks k" "\<forall>b. b \<noteq> q \<longrightarrow> objs k' b = objs k b" "waiters k' q = []" "sems k' = sems k"
    "env k' = env (k\<lparr>queue_head := queue_head k @ [q], queues := queues k'\<rparr>)"
proof -
  let ?k = "k\<lparr>g_active_task := best k\<rparr>"
  have c: "queue_create (Some q) (Some nm) (Some (addr, buf)) msg_num K_OBJ_STATIC_ALLOC ?k = (RHINO_SUCCESS, k'\<lparr>g_active_task := best k\<rparr>)"
    using assms(3) by (cases k) (simp add: k'_def krhino_queue_create_def queue_create_def upd_queue_def best_def Let_def)
  have o: "obj_type (objs ?k q) = RHINO_OBJ_TYPE_NONE" "\<not> rb_fault (q_ringbuf (queues ?k q))" using assms(2,6) by simp_all
  have "sys_inv (k'\<lparr>g_active_task := best k\<rparr>)" "queue_inv (k'\<lparr>g_active_task := best k\<rparr>) q []"
    using queue_create_inv [OF kernel_to_sys [OF assms(1)] o(1) assms(3-5) o(2), of nm addr K_OBJ_STATIC_ALLOC] c by auto
  then show "kernel_inv k'" "queue_inv k' q []" using inv_view(10) [of "k'\<lparr>g_active_task := best k\<rparr>" k'] by (simp_all add: sys_inv_def queue_inv_def)
  show "tasks k' = tasks k" "\<forall>b. b \<noteq> q \<longrightarrow> objs k' b = objs k b" "waiters k' q = []" "sems k' = sems k"
    "env k' = env (k\<lparr>queue_head := queue_head k @ [q], queues := queues k'\<rparr>)"
    using assms(3) by (cases k; simp add: k'_def krhino_queue_create_def queue_create_def upd_queue_def env_def Let_def)+
qed

text \<open>The components that are not touched between \<open>init_tasks\<close> and \<open>krhino_start\<close>.\<close>

lemma sk_fields:
  fixes k k' :: "'a syskernel_scheme"
  assumes "kernel.more k' = kernel.more k"
  shows "queues k' = queues k" "timers k' = timers k" "g_timer_head k' = g_timer_head k" "g_timer_queue k' = g_timer_queue k" "g_timer_pool k' = g_timer_pool k"
    "timer_mem k' = timer_mem k" "g_workqueue_list_head k' = g_workqueue_list_head k"
  using assms by (cases k; cases k'; simp)+

lemma ktimer_init_inv:
  fixes k :: "'a syskernel_scheme" and f :: "u32 list \<Rightarrow> u32 list" and msgs :: nat
  assumes "kernel_inv k" and st: "g_sys_stat k = RHINO_STOPPED" "g_intrpt_nested_level k = 0" and tt: "\<not> live (state_of k tt)"
    and tq: "obj_type (objs k tq) = RHINO_OBJ_TYPE_NONE" "\<not> rb_fault (q_ringbuf (queues k tq))" and "0 < cbs" "cbs mod 4 = 0"
  defines "k' \<equiv> ktimer_init f tq msgs cbs tt k"
  shows "kernel_inv k'" "queue_inv k' tq []" "waiters k' tq = []" "\<exists>rest. mblk_ok (g_timer_pool k') (timer_mem k') (blocks cbs 32 40) rest"
    "g_timer_head k' = []" "g_timer_queue k' = tq" "timers k' = timers k" "tasks k' = (tasks k)(tt := ktask_new f ''timer_task'' 5 300 1 K_OBJ_STATIC_ALLOC)"
    "\<forall>b. b \<noteq> tq \<longrightarrow> objs k' b = objs k b" "g_sys_stat k' = RHINO_STOPPED" "g_intrpt_nested_level k' = 0" "g_sched_lock k' = g_sched_lock k"
    "g_res_list k' = g_res_list k" "workqueues k' = workqueues k" "work_log k' = work_log k" "g_kmm_head k' = g_kmm_head k" "task_stack_base k' = task_stack_base k"
    "sems k' = sems k"
proof -
  define k1 where "k1 = k\<lparr>g_timer_head := [], g_timer_queue := tq\<rparr>"
  define k2 where "k2 = snd (krhino_queue_create (Some tq) (Some ''timer_queue'') (Some (msgs, replicate 160 0)) 40 k1)"
  have i1: "kernel_inv k1" using assms(1) by (subst inv_view(10) [of _ k]) (simp_all add: k1_def view_def ticks_left_def fun_eq_iff)
  have f1: "obj_type (objs k1 tq) = RHINO_OBJ_TYPE_NONE" "\<not> rb_fault (q_ringbuf (queues k1 tq))" "(40 :: u32) \<noteq> 0" "unat (40 :: u32) * 4 < 2 ^ 32"
    "unat (40 :: u32) * 4 \<le> length (replicate 160 (0 :: u8))" using tq by (simp_all add: k1_def)
  note q = queue_create_early [OF i1 f1(1,3-5,2), of "''timer_queue''" msgs, folded k2_def]
  have m2: "kernel.more k2 = kernel.more (k1\<lparr>queue_head := queue_head k1 @ [tq], queues := queues k2\<rparr>)" and e2: "g_sys_stat k2 = RHINO_STOPPED" "g_intrpt_nested_level k2 = 0"
    "g_sched_lock k2 = g_sched_lock k" "g_res_list k2 = g_res_list k" "sems k2 = sems k"
    using q(7) st by (simp_all add: env_def) (simp_all add: k1_def)
  have g2: "timers k2 = timers k" "g_timer_head k2 = []" "g_timer_queue k2 = tq" "workqueues k2 = workqueues k" "work_log k2 = work_log k"
    "g_kmm_head k2 = g_kmm_head k" "task_stack_base k2 = task_stack_base k" "tasks k2 = tasks k" "\<forall>b. b \<noteq> tq \<longrightarrow> objs k2 b = objs k b"
    using sk_fields [OF m2] wk_more [OF m2] sk_more [OF m2] q(3,4) by (simp_all add: k1_def)
  have al: "(0 :: u32) < 32" "(32 :: u32) AND 3 = 0" "(1280 :: u32) AND 3 = 0" "2 * unat (32 :: u32) \<le> unat (1280 :: u32)" by simp_all
  obtain pl mm rest where p: "krhino_mblk_pool_init (Some (g_timer_pool k2)) (Some ''timer_blk_pool'') cbs 32 1280 (timer_mem k2) = Some (RHINO_SUCCESS, Some pl, mm)"
    "mblk_ok pl mm (blocks cbs 32 40) rest"
    using mblk_pool_init_ok [OF assms(7,8) al, of "g_timer_pool k2" "''timer_blk_pool''" "timer_mem k2"] by auto
  define k3 where "k3 = k2\<lparr>g_timer_pool := pl, timer_mem := mm\<rparr>"
  have i3: "kernel_inv k3" using q(1) by (subst inv_view(10) [of _ k2]) (simp_all add: k3_def view_def ticks_left_def fun_eq_iff)
  have t3: "\<not> live (state_of k3 tt)" "(5 :: nat) < RHINO_IDLE_PRI" "(300 :: nat) \<noteq> 0" "g_intrpt_nested_level k3 = 0" "(1 :: u8) = 0 \<or> g_sys_stat k3 \<noteq> RHINO_RUNNING"
    using tt g2 e2 by (simp_all add: k3_def)
  obtain k4 where k4: "task_create f (Some tt) (Some ''timer_task'') 5 False 300 False 1 K_OBJ_STATIC_ALLOC k3 = (RHINO_SUCCESS, k4)" "kernel_inv k4"
    "tasks k4 = (tasks k3)(tt := ktask_new f ''timer_task'' 5 300 1 K_OBJ_STATIC_ALLOC)" "objs k4 = objs k3" "env k4 = env (k3\<lparr>task_head := task_head k3 @ [tt]\<rparr>)"
    using task_create_quiet [OF i3 t3, of f "''timer_task''" K_OBJ_STATIC_ALLOC] by blast
  have k': "k' = k4" using p(1) k4(1) by (simp add: k'_def ktimer_init_def k1_def [symmetric] k2_def [symmetric] k3_def [symmetric] krhino_task_create_def Let_def)
  have m4: "kernel.more k4 = kernel.more k3" using k4(5) by (simp add: env_def)
  have s4: "queues k4 = queues k2" "g_timer_pool k4 = pl" "timer_mem k4 = mm" "timers k4 = timers k" "g_timer_head k4 = []" "g_timer_queue k4 = tq"
    "workqueues k4 = workqueues k" "work_log k4 = work_log k" "g_kmm_head k4 = g_kmm_head k" "task_stack_base k4 = task_stack_base k" "objs k4 = objs k2"
    using sk_fields [OF m4] wk_more [OF m4] sk_more [OF m4] g2 k4(4) by (simp_all add: k3_def)
  show "kernel_inv k'" "queue_inv k' tq []" "waiters k' tq = []" "\<exists>rest. mblk_ok (g_timer_pool k') (timer_mem k') (blocks cbs 32 40) rest"
    "g_timer_head k' = []" "g_timer_queue k' = tq" "timers k' = timers k" "\<forall>b. b \<noteq> tq \<longrightarrow> objs k' b = objs k b"
    "workqueues k' = workqueues k" "work_log k' = work_log k" "g_kmm_head k' = g_kmm_head k" "task_stack_base k' = task_stack_base k"
    using k4(2) q(2,5) p(2) s4 g2(9) by (auto simp: k' queue_inv_def)
  show "tasks k' = (tasks k)(tt := ktask_new f ''timer_task'' 5 300 1 K_OBJ_STATIC_ALLOC)" "g_sys_stat k' = RHINO_STOPPED" "g_intrpt_nested_level k' = 0"
    "g_sched_lock k' = g_sched_lock k" "g_res_list k' = g_res_list k" "sems k' = sems k"
    using k4(3,5) g2(8) e2 by (simp_all add: k' k3_def env_def)
qed

text \<open>\<open>krhino_start\<close> makes the most urgent task the active one and creates the default work queue.\<close>

lemma krhino_start_inv:
  fixes k :: "'a syskernel_scheme"
  assumes "kernel_inv k" and "g_sys_stat k = RHINO_STOPPED" "g_intrpt_nested_level k = 0"
    and "obj_type (objs k (wq_sem (workqueues k q))) = RHINO_OBJ_TYPE_NONE" and "\<not> live (state_of k (worker (workqueues k q)))"
  shows "\<exists>k'. krhino_start f q k = (None, k') \<and> sys_inv k' \<and> wq_inv q (k', Worker_take, started q k, 0) \<and> g_sys_stat k' = RHINO_RUNNING \<and>
    g_sched_lock k' = g_sched_lock k \<and> g_intrpt_nested_level k' = 0 \<and> g_res_list k' = g_res_list k \<and>
    (\<forall>u. u \<noteq> worker (workqueues k q) \<longrightarrow> tasks k' u = tasks k u) \<and> (\<forall>b. b \<noteq> wq_sem (workqueues k q) \<longrightarrow> objs k' b = objs k b \<and> sems k' b = sems k b) \<and>
    state_of k' (worker (workqueues k q)) = K_RDY \<and> prio_of k' (worker (workqueues k q)) = 9 \<and>
    queues k' = queues k \<and> timers k' = timers k \<and> g_timer_head k' = g_timer_head k \<and> g_timer_queue k' = g_timer_queue k \<and> g_timer_pool k' = g_timer_pool k \<and>
    timer_mem k' = timer_mem k \<and> g_kmm_head k' = g_kmm_head k \<and> task_stack_base k' = task_stack_base k"
proof -
  note parts = kernel_invD [OF assms(1)]
  define k2 where "k2 = k\<lparr>g_preferred_ready_task := best k, g_active_task := best k, g_workqueue_list_head := []\<rparr>"
  have "sys_inv k2" using kernel_to_sys [OF assms(1)] unfolding k2_def
    by (subst sys_inv_view [of _ "k\<lparr>g_active_task := best k\<rparr>"]) (simp_all add: view_def ticks_left_def fun_eq_iff)
  then obtain k3 where k3: "krhino_workqueue_create f (Some q) (Some ''DEFAULT-WORKQUEUE'') 9 False 768 k2 = (RHINO_SUCCESS, k3)" "wq_inv q (k3, Worker_take, started q k2, 0)"
    "kernel.more k3 = kernel.more (upd_wq q (\<lambda>c. c\<lparr>work_list := [], work_current := None, wq_name := ''DEFAULT-WORKQUEUE''\<rparr>) k2\<lparr>g_workqueue_list_head := g_workqueue_list_head k2 @ [q]\<rparr>)"
    "\<forall>u. u \<noteq> worker (workqueues k2 q) \<longrightarrow> tasks k3 u = tasks k2 u" "\<forall>b. b \<noteq> wq_sem (workqueues k2 q) \<longrightarrow> objs k3 b = objs k2 b \<and> sems k3 b = sems k2 b"
    "g_sched_lock k3 = g_sched_lock k2" "g_intrpt_nested_level k3 = 0" "state_of k3 (worker (workqueues k2 q)) = K_RDY"
    "prio_of k3 (worker (workqueues k2 q)) = 9" "g_res_list k3 = g_res_list k2"
    using workqueue_create_inv [of k2 q 9 768 f "''DEFAULT-WORKQUEUE''"] assms(3-5) by (auto simp: k2_def)
  let ?k = "k3\<lparr>g_sys_stat := RHINO_RUNNING\<rparr>"
  have "cur_list (g_ready_queue k) (highest_pri (g_ready_queue k)) \<noteq> []" by (rule highest_not_empty [OF parts(1,6)])
  then have pf: "preferred_cpu_ready_task_get k = k\<lparr>g_preferred_ready_task := best k\<rparr>" by (auto simp: preferred_cpu_ready_task_get_def best_def split: list.split)
  have "krhino_start f q k = (None, ?k)"
    using assms(2) k3(1) by (simp add: krhino_start_def workqueue_init_def pf Let_def) (simp add: k2_def)
  moreover have si: "sys_inv ?k = sys_inv k3" by (rule sys_inv_view) simp_all
  moreover have "wq_inv q (?k, Worker_take, started q k, 0)" "sys_inv k3" using k3(2) si by (simp_all add: wq_inv_def Let_def started_def k2_def)
  moreover have "queues k3 = queues k" "timers k3 = timers k" "g_timer_head k3 = g_timer_head k" "g_timer_queue k3 = g_timer_queue k" "g_timer_pool k3 = g_timer_pool k"
    "timer_mem k3 = timer_mem k" "g_kmm_head k3 = g_kmm_head k" "task_stack_base k3 = task_stack_base k"
    using sk_fields [OF k3(3)] sk_more [OF k3(3)] by (simp_all add: upd_wq_def k2_def)
  ultimately show ?thesis using k3(4-10) by (intro exI [of _ ?k]) (simp add: k2_def)
qed

section \<open>The running system\<close>

text \<open>The heap of the region that is given to the system.\<close>

lemma region_used: "used_ptr (region_blocks f s) p \<longleftrightarrow> p = f + 8"
  by (auto simp: used_ptr_def region_blocks_Some)

lemma region_area: "heap_area (region_blocks f s) \<subseteq> {f..<f + 24 + s}"
  unfolding heap_area_def region_blocks_Some by auto

lemma init_heap:
  assumes "0 < unat addr" "unat addr + unat len \<le> 2 ^ 32" "4096 \<le> unat len" "unat len \<le> 2 ^ 19" and "0 < unat task_size" "unat task_size \<le> 512"
  obtains h f s p1 h1 p2 h2 B where "k_mm_init [(addr, len)] mem = Some (Some h)" and "krhino_mm_alloc 1024 (Some h) = (p1, Some h1)" and "p1 \<noteq> 0"
    and "krhino_mm_alloc task_size (Some h1) = (p2, Some h2)" and "p2 \<noteq> 0" and "mm_inv h2 B {f + 24 + s}" and "p1 \<noteq> p2" and "\<forall>q. used_ptr B q \<longleftrightarrow> q = f + 8 \<or> q = p1 \<or> q = p2"
    and "heap_area B \<subseteq> {unat addr..<unat addr + unat len}" and "p2 \<in> {unat addr..<unat addr + unat len}" and "p1 \<noteq> f + 8" and "p2 \<noteq> f + 8"
proof -
  have l: "1774 \<le> unat len" using assms(3) by simp
  obtain h f s where i: "krhino_init_mm_head False addr len mem = (RHINO_SUCCESS, Some h)" "mm_inv h (region_blocks f s) {f + 24 + s}"
    "unat addr + 1728 \<le> f" "f + 24 + s + 8 \<le> unat addr + unat len" "unat len \<le> s + 1728 + 32 + 6"
    by (rule krhino_init_mm_head_ok [OF assms(1,2) l assms(4)])
  have b: "region_blocks f s (f + 16) = Some (s, True)" by simp
  have n: "0 < unat (1024 :: u32)" "unat (1024 :: u32) \<le> 2 ^ 31" "unat (mm_req_size 1024) = 1024" "unat task_size \<le> 2 ^ 31"
    using assms(6) by (simp_all add: mm_req_size_def MM_ALIGN_UP_def)
  have "unat (mm_req_size task_size) \<le> 515" using mm_req_size_ok(4) [OF n(4) refl] assms(5,6) by linarith
  then have "unat (mm_req_size task_size) + unat (mm_req_size task_size) div 32 \<le> 531" by linarith
  then have room: "unat (mm_req_size 1024) + unat (mm_req_size 1024) div 32 + 24 + unat (mm_req_size task_size) + unat (mm_req_size task_size) div 32 \<le> s"
    unfolding n(3) using i(5) assms(3) by linarith
  obtain p1 h1 p2 h2 B where a: "krhino_mm_alloc 1024 (Some h) = (p1, Some h1)" "p1 \<noteq> 0" "krhino_mm_alloc task_size (Some h1) = (p2, Some h2)" "p2 \<noteq> 0"
    "mm_inv h2 B {f + 24 + s}" "\<not> used_ptr (region_blocks f s) p1" "\<not> used_ptr (region_blocks f s) p2" "p1 \<noteq> p2"
    "\<forall>q. used_ptr B q \<longleftrightarrow> used_ptr (region_blocks f s) q \<or> q = p1 \<or> q = p2" "heap_area B \<subseteq> heap_area (region_blocks f s)" "p2 \<in> heap_area (region_blocks f s)"
    by (rule alloc_twice [OF i(2) b n(1,2) assms(5) n(4) room])
  have ar: "heap_area (region_blocks f s) \<subseteq> {unat addr..<unat addr + unat len}" using region_area [of f s] i(3,4) by auto
  show ?thesis
    by (rule that [OF _ a(1-5,8)]) (use i(1) a ar region_used in \<open>auto simp: k_mm_init_def\<close>)
qed

text \<open>
  What the linker and the caller provide: a region for the heap, and addresses of the global objects that are different
  from each other and outside the heap.
\<close>

definition boot_args :: "u32 \<Rightarrow> u32 \<Rightarrow> u32 \<Rightarrow> oid \<Rightarrow> nat \<Rightarrow> tid \<Rightarrow> nat \<Rightarrow> 'a syskernel_scheme \<Rightarrow> bool" where
  "boot_args addr len task_size tq cbs tt q k \<longleftrightarrow> 0 < unat addr \<and> unat addr + unat len \<le> 2 ^ 32 \<and> 4096 \<le> unat len \<and> unat len \<le> 2 ^ 19 \<and>
     0 < unat task_size \<and> unat task_size \<le> 512 \<and> 0 < cbs \<and> cbs mod 4 = 0 \<and>
     distinct [g_idle_task, tt, worker (workqueues k q)] \<and> distinct [g_res_sem, tq, wq_sem (workqueues k q)] \<and>
     tt \<notin> {unat addr..<unat addr + unat len} \<and> worker (workqueues k q) \<notin> {unat addr..<unat addr + unat len}"

lemma most_urgent_unique:
  assumes "sys_inv k" and "g_intrpt_nested_level k = 0" "g_sched_lock k = 0" and "state_of k t = K_RDY" and "\<forall>u. live (state_of k u) \<and> u \<noteq> t \<longrightarrow> prio_of k t < prio_of k u"
  shows "g_active_task k = t"
proof -
  have inv: "kernel_inv k" "sched_ok k" using assms(1) by (simp_all add: sys_inv_def)
  note parts = kernel_invD [OF inv(1)]
  have a: "g_active_task k = best k" using sched_okD(2) [OF inv(2) assms(2,3)] .
  have "live (state_of k (best k))" "prio_of k (best k) \<le> prio_of k t" using best_ready [OF parts(1,6)] assms(4) by simp_all
  then show ?thesis using assms(5) unfolding a by (metis not_le)
qed

lemma system_start_facts:
  fixes k :: "'a syskernel_scheme"
  assumes "boot_ok k" and args: "boot_args addr len task_size tq cbs tt q k"
  obtains k1 k2 d B E rest where "krhino_init f task_size [(addr, len)] mem tq msgs cbs tt k = (RHINO_SUCCESS, k1)" and "krhino_start f q k1 = (None, k2)"
    and "sys_inv k2" and "g_sys_stat k2 = RHINO_RUNNING" and "g_intrpt_nested_level k2 = 0" and "g_sched_lock k2 = 0" and "g_active_task k2 = tt"
    and "dyn_inv {unat addr..<unat addr + unat len} E k2 {} B" and "dyn_tasks k2 = {d}" and "tasks k2 d = ktask_new f ''dyn_mem_proc_task'' 6 256 1 K_OBJ_DYN_ALLOC"
    and "obj_type (objs k2 g_res_sem) = RHINO_SEM_OBJ_TYPE" and "waiters k2 g_res_sem = []" and "sem_count (sems k2 g_res_sem) = 0"
    and "timer_inv k2" and "g_timer_queue k2 = tq" and "queue_inv k2 tq []" and "waiters k2 tq = []" and "mblk_ok (g_timer_pool k2) (timer_mem k2) (blocks cbs 32 40) rest"
    and "wq_inv q (k2, Worker_take, [], 0)"
proof -
  let ?A = "{unat addr..<unat addr + unat len}" and ?w = "worker (workqueues k q)" and ?s = "wq_sem (workqueues k q)"
  note b = assms(1) [unfolded boot_ok_def] and g = args [unfolded boot_args_def]
  obtain h e s p1 h1 p2 h2 B where hp: "k_mm_init [(addr, len)] mem = Some (Some h)" "krhino_mm_alloc 1024 (Some h) = (p1, Some h1)" "p1 \<noteq> 0"
    "krhino_mm_alloc task_size (Some h1) = (p2, Some h2)" "p2 \<noteq> 0" "mm_inv h2 B {e + 24 + s}" "p1 \<noteq> p2" "\<forall>q. used_ptr B q \<longleftrightarrow> q = e + 8 \<or> q = p1 \<or> q = p2"
    "heap_area B \<subseteq> ?A" "p2 \<in> ?A"
    by (rule init_heap [of addr len task_size mem]) (use g in auto)
  define k7 where "k7 = init_tasks f task_size [(addr, len)] mem k"
  note i = init_tasks_inv [OF assms(1) hp(1-5), of f, folded k7_def]
  have ne: "p2 \<noteq> tt" "p2 \<noteq> ?w" "p2 \<noteq> g_idle_task" "tt \<noteq> g_idle_task" "?w \<noteq> g_idle_task" "?w \<noteq> tt" "tq \<noteq> g_res_sem" "?s \<noteq> g_res_sem" "?s \<noteq> tq"
    using hp(5,10) g by (auto simp: g_idle_task_def)
  have m7: "workqueues k7 = workqueues k" "work_log k7 = []" "queues k7 = queues k" "timers k7 = timers k" "g_kmm_head k7 = Some h2" "task_stack_base k7 = [p2 \<mapsto> p1]"
    using wk_more [OF i(13)] sk_fields [OF i(13)] sk_more [OF i(13)] b by simp_all
  have a7: "\<not> live (state_of k7 tt)" "obj_type (objs k7 tq) = RHINO_OBJ_TYPE_NONE" "\<not> rb_fault (q_ringbuf (queues k7 tq))" "0 < cbs" "cbs mod 4 = 0"
    using i(2,8) ne m7(3) b g by (simp_all add: ktask_zero_def obj_zero_def)
  define k1 where "k1 = ktimer_init f tq msgs cbs tt k7"
  note t = ktimer_init_inv [OF i(1,9,11) a7, of f msgs, folded k1_def]
  have a1: "obj_type (objs k1 (wq_sem (workqueues k1 q))) = RHINO_OBJ_TYPE_NONE" "\<not> live (state_of k1 (worker (workqueues k1 q)))"
    using t(8,9,14) i(2,8) m7(1) ne by (simp_all add: ktask_zero_def obj_zero_def)
  obtain k2 where k2: "krhino_start f q k1 = (None, k2)" "sys_inv k2" "wq_inv q (k2, Worker_take, started q k1, 0)" "g_sys_stat k2 = RHINO_RUNNING" "g_sched_lock k2 = 0"
    "g_intrpt_nested_level k2 = 0" "g_res_list k2 = []" "\<forall>u. u \<noteq> ?w \<longrightarrow> tasks k2 u = tasks k1 u" "\<forall>b. b \<noteq> ?s \<longrightarrow> objs k2 b = objs k1 b \<and> sems k2 b = sems k1 b"
    "state_of k2 ?w = K_RDY" "prio_of k2 ?w = 9" "queues k2 = queues k1" "timers k2 = timers k1" "g_timer_head k2 = []" "g_timer_queue k2 = tq" "g_timer_pool k2 = g_timer_pool k1"
    "timer_mem k2 = timer_mem k1" "g_kmm_head k2 = Some h2" "task_stack_base k2 = [p2 \<mapsto> p1]"
    using krhino_start_inv [OF t(1,10,11) a1, of f] t(5,6,12,13,14,16,17) m7 i(10,12) by auto
  have tk: "tasks k2 p2 = ktask_new f ''dyn_mem_proc_task'' 6 256 1 K_OBJ_DYN_ALLOC" "state_of k2 tt = K_RDY" "prio_of k2 tt = 5"
    "\<forall>u. u \<noteq> p2 \<and> u \<noteq> g_idle_task \<and> u \<noteq> tt \<and> u \<noteq> ?w \<longrightarrow> \<not> live (state_of k2 u)"
    using k2(8) t(8) i(2,3) ne by (simp_all add: ktask_new_fields) (simp add: ktask_zero_def)
  have lv: "live (state_of k2 u) \<Longrightarrow> u \<in> {p2, g_idle_task, tt, ?w}" for u using tk(4) by blast
  have "prio_of k2 g_idle_task = RHINO_IDLE_PRI" using idle_invD(2) [OF kernel_invD(6)] k2(2) by (auto simp: sys_inv_def)
  then have "\<forall>u. live (state_of k2 u) \<and> u \<noteq> tt \<longrightarrow> prio_of k2 tt < prio_of k2 u" using lv tk k2(11) by (force simp: ktask_new_fields)
  then have act: "g_active_task k2 = tt" by (rule most_urgent_unique [OF k2(2,6,5) tk(2)])
  have dt: "dyn_tasks k2 = {p2}" "stack_of k2 p2 = p1" by (simp_all add: k2(19) stack_of_def)
  have "g_idle_task \<notin> ?A" using g by (simp add: g_idle_task_def)
  then have "\<forall>t. live (state_of k2 t) \<and> t \<notin> dyn_tasks k2 \<longrightarrow> t \<notin> ?A" using lv g by (auto simp: dt)
  then have di: "dyn_inv ?A {e + 24 + s} k2 {} B"
    using hp(6-9) tk(1) k2(7,18) unfolding dyn_inv_def dt(1) by (simp add: dt(2) ktask_new_fields)
  have ti: "timer_inv k2" using t(7) m7(4) b k2(13,14) by (simp add: timer_inv_def timer_zero_def)
  have "started q k1 = []" using t(15) m7(2) by (simp add: started_def)
  moreover obtain rest where "mblk_ok (g_timer_pool k2) (timer_mem k2) (blocks cbs 32 40) rest" using t(4) k2(16,17) by auto
  moreover have "queue_inv k2 tq []" "waiters k2 tq = []" using t(2,3) k2(9,12) ne by (simp_all add: queue_inv_def)
  moreover have "obj_type (objs k2 g_res_sem) = RHINO_SEM_OBJ_TYPE" "waiters k2 g_res_sem = []" "sem_count (sems k2 g_res_sem) = 0"
    using k2(9) t(9,18) i(5-7) ne by simp_all
  ultimately show ?thesis
    using that [of k1 k2 "{e + 24 + s}" B p2 rest] k2(1-6,15) act di dt(1) tk(1) ti
    by (simp add: krhino_init_def k7_def k1_def)
qed

section \<open>Properties\<close>

text \<open>A concrete system at reset: the timer task is at address 1, the worker at 5, the queue of the timers at 9, the semaphore of the default work queue at 20, that queue at 30.\<close>

definition boot_kernel :: syskernel where
  "boot_kernel = (wkernel.extend (tkernel.extend no_timers
       (wkernel.fields (\<lambda>_. work_zero) (\<lambda>_. \<lparr>work_list = [], work_current = None, wq_name = [], worker = 5, wq_sem = 20\<rparr>) [] (\<lambda>_. None) []))
       (syskernel.fields None (\<lambda>_. None)))
     \<lparr>tasks := \<lambda>_. ktask_zero, objs := \<lambda>_. obj_zero, g_idle_task_spawned := False, k_fault := False, mm_freed := [],
      g_ready_queue := \<lparr>cur_list = \<lambda>_. [], task_bit_map = [0, 0], highest_pri = 0\<rparr>\<rparr>"

lemma boot_kernel_ok: "boot_ok boot_kernel" "boot_args 0x20000000 8192 200 9 256 1 30 boot_kernel"
  by (simp_all add: boot_ok_def boot_args_def boot_kernel_def no_timers_def no_bufs_def no_queues_def queue_zero_def g_idle_task_def g_res_sem_def
      kernel.defs qkernel.defs bqkernel.defs tkernel.defs wkernel.defs syskernel.defs)

text \<open>C5: From reset, \<open>krhino_init\<close> and \<open>krhino_start\<close> bring up a system in which the invariants of all components hold: that of the kernel, with the timer task running;
  of the heap and the memory of the freeing task in it; of the timers, with an empty command queue and a full pool of 40 command blocks; and of the default work
  queue, whose worker waits for its first work.\<close>

theorem system_starts:
  assumes "boot_ok k" and "boot_args addr len task_size tq cbs tt q k"
  shows "\<exists>k1 k2. krhino_init f task_size [(addr, len)] mem tq msgs cbs tt k = (RHINO_SUCCESS, k1) \<and> krhino_start f q k1 = (None, k2) \<and>
    sys_inv k2 \<and> g_sys_stat k2 = RHINO_RUNNING \<and> g_active_task k2 = tt \<and>
    (\<exists>B E d. dyn_inv {unat addr..<unat addr + unat len} E k2 {} B \<and> dyn_tasks k2 = {d} \<and> state_of k2 d = K_RDY) \<and>
    timer_inv k2 \<and> g_timer_queue k2 = tq \<and> queue_inv k2 tq [] \<and> (\<exists>rest. mblk_ok (g_timer_pool k2) (timer_mem k2) (blocks cbs 32 40) rest) \<and>
    wq_inv q (k2, Worker_take, [], 0)"
  by (rule system_start_facts [OF assms, of f mem msgs]) (auto simp: ktask_new_fields)

theorem system_starts_witness:
  "\<exists>k1 k2. krhino_init id 200 [(0x20000000, 8192)] (\<lambda>_. 0) 9 4096 256 1 boot_kernel = (RHINO_SUCCESS, k1) \<and> krhino_start id 30 k1 = (None, k2) \<and> sys_inv k2 \<and> g_active_task k2 = 1"
  using system_starts [OF boot_kernel_ok, of id "\<lambda>_. 0" 4096] by blast

text \<open>A running system whose freeing task is \<open>d\<close>.\<close>

lemma sample_system:
  "\<exists>(k :: syskernel) d B E. sys_inv k \<and> g_intrpt_nested_level k = 0 \<and> g_sched_lock k = 0 \<and> g_active_task k = 1 \<and> g_sys_stat k = RHINO_RUNNING \<and>
    dyn_inv {0x20000000..<0x20002000} E k {} B \<and> dyn_tasks k = {d} \<and> tasks k d = ktask_new id ''dyn_mem_proc_task'' 6 256 1 K_OBJ_DYN_ALLOC \<and>
    obj_type (objs k g_res_sem) = RHINO_SEM_OBJ_TYPE \<and> waiters k g_res_sem = [] \<and> sem_count (sems k g_res_sem) = 0"
  by (rule system_start_facts [OF boot_kernel_ok, of id "\<lambda>_. 0" 4096]) force





end
