(* ===== verification/Spec2Isabelle.thy ===== *)
theory Spec2Isabelle
  imports Klist Kernel_Theorems Ktime Fifo Ringbuf Mblk Start
begin

text \<open>
  Verification of the rhino real-time kernel, \<^verbatim>\<open>kernel/rhino/core\<close>, in the configuration of the two
  STM32L4 boards of the repository (\<^verbatim>\<open>k_config.h\<close>: one core, 62 priorities, 100 ticks per second, no round
  robin, no event flags, no object sets, no user hooks, no tickless mode).  The rest of the repository is
  drivers, protocol stacks and applications that call this kernel.

  \<^bold>\<open>The program.\<close>  Tasks run on one processor.  The scheduler (\<^verbatim>\<open>k_sched.c\<close>) keeps the ready tasks in one list
  per priority and a bitmap of the non-empty lists (\<^verbatim>\<open>k_bitmap.h\<close>), and switches to the most urgent task at
  the end of a critical section or of the outermost interrupt.  A task that waits for an object stands in
  the block list of the object (\<^verbatim>\<open>k_pend.c\<close>), and in the tick list (\<^verbatim>\<open>k_tick.c\<close>) when it waits for a limited time.
  Semaphores, mutexes with priority inheritance, queues and buffer queues build on this; queues keep their
  messages in ring buffers.  Software timers run in a task of their own, to which the timer calls send
  commands through a queue and a pool of memory blocks.  Work queues execute functions in a task, after a delay
  with the help of a timer.  The heap (\<^verbatim>\<open>k_mm.c\<close>) is a two-level segregated fit allocator.

  \<^bold>\<open>The theories.\<close>
  \<^item> \<open>Rhino_Prelude\<close>: machine integers, status codes, ordered insertion (locale \<open>ordered_insert\<close>).
  \<^item> \<open>Klist\<close>: the circular doubly linked list of \<^verbatim>\<open>k_list.h\<close> at pointer level, on a heap of links; the other
    theories use HOL lists, and \<open>pend_list_add_ptr_returns\<close> links the two levels for the only loop over such a list
    that computes an insertion point.  \<open>Bitmap\<close>: \<^verbatim>\<open>k_bitmap.h\<close>, with the binary search against its specification.
  \<^item> \<open>Kernel_State\<close>: the record \<open>kernel\<close> of the globals of \<^verbatim>\<open>k_obj.c\<close> with maps for tasks (\<open>ktask\<close>), objects (\<open>blk_obj_t\<close>),
    semaphores and mutexes.  An address is a natural number; a null pointer is \<open>None\<close>.  A null dereference,
    a search in an empty bitmap or a loop that does not end sets the ghost flag \<open>k_fault\<close>; calls of the error
    handler are recorded in \<open>g_err\<close>, memory given back to the heap in \<open>mm_freed\<close>.
  \<^item> \<open>Sched\<close>, \<open>Pend\<close>, \<open>Prio\<close>, \<open>Tick\<close>: scheduler, waiting, priority inheritance, tick.  \<open>Kernel_Inv\<close>: the invariant, as one
    predicate per part of the state.  \<open>Kernel_Ops\<close>: what the calls share, and the locale \<open>emptying_step\<close> of the loops that
    empty a block list.
  \<^item> \<open>Sem\<close>, \<open>Mutex\<close>, \<open>Task\<close>: all calls of \<^verbatim>\<open>k_sem.c\<close>, \<^verbatim>\<open>k_task_sem.c\<close>, \<^verbatim>\<open>k_mutex.c\<close> and \<^verbatim>\<open>k_task.c\<close>.  A call that blocks is cut
    where the processor is given up: what happens when the task runs again is a definition of its own
    (\<open>blk_call_return\<close>, \<open>queue_recv_return\<close>, \<open>buf_queue_recv_return\<close>).
  \<^item> \<open>Idle_State\<close>, \<open>Kernel_Steps\<close>: a concrete state, and the kernel as a state machine whose steps are calls, ticks and
    interrupts (locale \<open>machine\<close>); \<open>call_ok\<close> states what callers must respect.  \<open>Kernel_Theorems\<close>: the properties of
    reachable states and of the calls.
  \<^item> \<open>Ktime\<close>: tick conversions.  \<open>Ring\<close>, \<open>Fifo\<close>, \<open>Ringbuf\<close>: byte rings, \<^verbatim>\<open>k_fifo.c\<close> and \<^verbatim>\<open>k_ringbuf.c\<close>, with the locales \<open>byte_queue\<close> and
    \<open>msg_queue\<close> of what they implement.  \<open>Mblk\<close>: pools of blocks, \<^verbatim>\<open>k_mm_blk.c\<close>.
  \<^item> \<open>Waiting\<close>: creating, waiting for, signalling and deleting an object other than a mutex (locale
    \<open>signal_step\<close>); \<open>Queue\<close>, \<open>Buf_Queue\<close>, \<open>Timer\<close>: \<^verbatim>\<open>k_queue.c\<close>, \<^verbatim>\<open>k_buf_queue.c\<close>, \<^verbatim>\<open>k_timer.c\<close>, each extending the record of
    the kernel by its globals; \<open>Workqueue\<close>: \<^verbatim>\<open>k_workqueue.c\<close>, with the critical sections of the callers and the worker of a
    queue as the steps of a relation \<open>wq_step\<close>.
  \<^item> \<open>Mm_Search\<close>, \<open>Mm\<close>: the heap allocator \<^verbatim>\<open>k_mm.c\<close> on a memory of words; a block at address \<open>b\<close> has its header in the
    words \<open>b\<close> and \<open>b + 4\<close> and, while it is free, the links of its list behind them.  \<open>Mm_Lists\<close>: the lists of free blocks by
    size class; \<open>Mm_Inv\<close>: the layout of the blocks and their headers; \<open>Mm_Steps\<close>, \<open>Mm_Alloc\<close>, \<open>Mm_Realloc\<close>: release, allocation and
    reallocation against the invariant \<open>mm_inv h B E\<close>, where \<open>B\<close> says which blocks there are, how large and whether free, and
    \<open>E\<close> where the regions end; \<open>Mm_Theorems\<close>: initialisation, the properties, and the locale \<open>heap\<close> of what the users of the
    allocator rely on.
  \<^item> \<open>Dyn_Mem\<close>: kernel and heap as one state (\<open>syskernel\<close>): tasks in the heap and the task of \<^verbatim>\<open>k_dyn_mem_proc.c\<close> that frees their
    memory, with the creations, deletions and reclamations as the steps of a relation \<open>dyn_step\<close>.  \<open>Start\<close>: \<^verbatim>\<open>k_sys.c\<close>, from reset
    to the running system.

  \<^bold>\<open>What is proved.\<close>  Every reachable state satisfies the invariant: lists and task states agree, the running
  task is the most urgent ready one, every owner of a mutex has inherited the priority of its waiters, the
  tick list is ordered by due time, and nothing has faulted.  On top of it: what each call does on its
  branches, exact timeouts, the hand-over of mutexes and messages, refinement of queues and buffers to
  lists, the firing of timers, the order of works, and the behaviour of the calls that do not do what they mean to.  The heap
  allocator keeps its invariant (blocks tile their regions, free blocks are in the list of their class and have no
  free neighbour), hands out blocks that do not overlap, and touches no data of the blocks it does not work on.
  The start of the system establishes the invariants of all components together, and the memory of tasks in the
  heap is theirs alone until it is given back, once, after their deletion.

  \<^bold>\<open>Loops and fuel.\<close>  Loops over HOL lists are structural.  The two loops that follow chains of owners and waiters
  (\<open>task_pri_change_loop\<close>, \<open>task_mutex_free_loop\<close>) and the walk over due timers (\<open>timer_cb_walk\<close>) carry fuel; running out of it
  sets \<open>k_fault\<close>, and the invariant theorems show that it does not.  \<open>mblk_link\<close>, \<open>klist_find\<close> and \<open>region_merge\<close> are partial functions to \<open>option\<close>
  (the first two with theorems about when they return).

  \<^bold>\<open>Parameters.\<close>  \<open>cpu_task_stack_init\<close> (assembly-level port code) is an argument of task creation; the results of the heap
  allocator are arguments of the \<^verbatim>\<open>dyn_create\<close> calls of single components; \<open>Dyn_Mem\<close> connects those of tasks to the heap.  \<open>Start\<close> takes
  \<open>sizeof(ktask_t)\<close>, the table of memory regions and the addresses of the globals as arguments.

  \<^bold>\<open>Not modelled.\<close>  Multi-core and round-robin variants, event groups and object sets are compiled out on
  both boards.  The idle task only counts.  Joining a second region to
  the heap (\<open>krhino_add_mm_region\<close>) is modelled without a theorem; \<open>system_starts\<close> is about one region.  Tracing, statistics and debug dumps only print or count.  The
  key-value store, the virtual file system, the event loop, the sensor framework, the utilities, the network
  and Bluetooth stacks, the file system, the hardware drivers and the applications are outside the kernel.
\<close>

end
